(* ===== verification/Prelude.thy ===== *)
theory Prelude
  imports Complex_Main "HOL-Library.Monad_Syntax"
begin

text \<open>
  What the components share: the Rust integer operations the code uses, on natural
  numbers with the width written out, and the small facts about options and lists that
  their proofs lean on.

  The workspace builds with \<^verbatim>\<open>overflow-checks = true\<close> in every profile, so a plain
  \<^verbatim>\<open>+\<close> on \<^verbatim>\<open>u64\<close> panics on overflow. A checked operation is \<open>'a option\<close> here, and
  \<open>None\<close> is the panic. Saturating operations are total. Subtraction that the code writes
  as \<^verbatim>\<open>saturating_sub\<close> is natural-number subtraction.
\<close>

named_theorems rust_arith \<open>definitions of the Rust integer operations\<close>

type_synonym u8 = nat
type_synonym u16 = nat
type_synonym u32 = nat
type_synonym u64 = nat

abbreviation U16_MAX :: nat where "U16_MAX \<equiv> 65535"
abbreviation U32_MAX :: nat where "U32_MAX \<equiv> 4294967295"
abbreviation U64_MAX :: nat where "U64_MAX \<equiv> 18446744073709551615"

definition checked_add :: "nat \<Rightarrow> nat \<Rightarrow> nat \<Rightarrow> nat option" where
  "checked_add mx a b = (if a + b \<le> mx then Some (a + b) else None)"

definition checked_sub :: "nat \<Rightarrow> nat \<Rightarrow> nat option" where
  "checked_sub a b = (if b \<le> a then Some (a - b) else None)"

definition checked_mul :: "nat \<Rightarrow> nat \<Rightarrow> nat \<Rightarrow> nat option" where
  "checked_mul mx a b = (if a * b \<le> mx then Some (a * b) else None)"

definition saturating_add :: "nat \<Rightarrow> nat \<Rightarrow> nat \<Rightarrow> nat" where
  "saturating_add mx a b = min mx (a + b)"

definition saturating_mul :: "nat \<Rightarrow> nat \<Rightarrow> nat \<Rightarrow> nat" where
  "saturating_mul mx a b = min mx (a * b)"

declare checked_add_def [rust_arith] checked_sub_def [rust_arith] checked_mul_def [rust_arith]
declare saturating_add_def [rust_arith] saturating_mul_def [rust_arith]

lemma checked_add_Some [simp]:
  "checked_add mx a b = Some c \<longleftrightarrow> a + b \<le> mx \<and> c = a + b"
  by (auto simp: checked_add_def)

lemma checked_add_None [simp]: "checked_add mx a b = None \<longleftrightarrow> mx < a + b"
  by (auto simp: checked_add_def)

lemma checked_sub_Some [simp]: "checked_sub a b = Some c \<longleftrightarrow> b \<le> a \<and> c = a - b"
  by (auto simp: checked_sub_def)

lemma saturating_add_le [simp]: "saturating_add mx a b \<le> mx"
  by (simp add: saturating_add_def)

lemma saturating_mul_le [simp]: "saturating_mul mx a b \<le> mx"
  by (simp add: saturating_mul_def)

text \<open>A fold over an option-valued step, stopping at the first panic.\<close>

fun run_opt :: "('s \<Rightarrow> 'e \<Rightarrow> ('s \<times> 'o list) option) \<Rightarrow> 's \<Rightarrow> 'e list \<Rightarrow> ('s \<times> 'o list) option" where
  "run_opt f s [] = Some (s, [])"
| "run_opt f s (e # es) =
     (case f s e of
        None \<Rightarrow> None
      | Some (s1, o1) \<Rightarrow>
          (case run_opt f s1 es of None \<Rightarrow> None | Some (s2, o2) \<Rightarrow> Some (s2, o1 @ o2)))"

lemma run_opt_append:
  "run_opt f s (xs @ ys) =
     (case run_opt f s xs of
        None \<Rightarrow> None
      | Some (s1, o1) \<Rightarrow>
          (case run_opt f s1 ys of None \<Rightarrow> None | Some (s2, o2) \<Rightarrow> Some (s2, o1 @ o2)))"
  by (induction xs arbitrary: s) (auto split: option.splits)

lemma run_opt_invariant:
  assumes step: "\<And>s e s' out. P s \<Longrightarrow> f s e = Some (s', out) \<Longrightarrow> P s'"
    and "P s" and "run_opt f s es = Some (s', out)"
  shows "P s'"
  using assms(2,3)
proof (induction es arbitrary: s out)
  case (Cons e es)
  from Cons.prems(2) obtain s1 o1 o2
    where "f s e = Some (s1, o1)" and "run_opt f s1 es = Some (s', o2)"
    by (auto split: option.splits)
  with Cons.IH Cons.prems(1) step show ?case by blast
qed simp

end
