(* ===== verification/Rust_Std.thy ===== *)
theory Rust_Std
  imports Prelude
begin

text \<open>
  The parts of the Rust standard library that the modelled code calls on strings and
  addresses. A \<^verbatim>\<open>&str\<close> is its UTF-8 bytes, one \<open>char\<close> per byte.

  \<^item> string search and splitting: \<^verbatim>\<open>strip_prefix\<close>, \<^verbatim>\<open>split_once\<close>, \<^verbatim>\<open>rsplit_once\<close>,
    \<^verbatim>\<open>trim_end_matches\<close>, \<^verbatim>\<open>to_ascii_lowercase\<close>, the ASCII classes;
  \<^item> \<^verbatim>\<open>str::parse\<close> for unsigned integers (an optional leading plus sign, at least one
    digit, overflow refused);
  \<^item> \<^verbatim>\<open>str::parse::<Ipv4Addr>\<close> and \<^verbatim>\<open>str::parse::<Ipv6Addr>\<close>, following the
    recursive-descent parser of \<^verbatim>\<open>core::net\<close>;
  \<^item> decimal text (\<open>show_nat\<close>, and that it is the one spelling that parses back and has neither
    sign nor leading zero), \<^verbatim>\<open>to_le_bytes\<close>, \<^verbatim>\<open>from_utf8\<close>, \<^verbatim>\<open>trim\<close>.
\<close>

section \<open>Bytes and ASCII classes\<close>

abbreviation byte :: "char \<Rightarrow> nat" where "byte c \<equiv> of_char c"

definition is_ascii_digit :: "char \<Rightarrow> bool" where
  "is_ascii_digit c \<longleftrightarrow> 48 \<le> byte c \<and> byte c \<le> 57"

definition is_ascii_lower :: "char \<Rightarrow> bool" where
  "is_ascii_lower c \<longleftrightarrow> 97 \<le> byte c \<and> byte c \<le> 122"

definition is_ascii_upper :: "char \<Rightarrow> bool" where
  "is_ascii_upper c \<longleftrightarrow> 65 \<le> byte c \<and> byte c \<le> 90"

definition is_ascii_alphabetic :: "char \<Rightarrow> bool" where
  "is_ascii_alphabetic c \<longleftrightarrow> is_ascii_lower c \<or> is_ascii_upper c"

definition is_ascii_alphanumeric :: "char \<Rightarrow> bool" where
  "is_ascii_alphanumeric c \<longleftrightarrow> is_ascii_alphabetic c \<or> is_ascii_digit c"

definition to_ascii_lower :: "char \<Rightarrow> char" where
  "to_ascii_lower c = (if is_ascii_upper c then char_of (byte c + 32) else c)"

definition to_ascii_lowercase :: "string \<Rightarrow> string" where
  "to_ascii_lowercase s = map to_ascii_lower s"

definition eq_ignore_ascii_case :: "string \<Rightarrow> string \<Rightarrow> bool" where
  "eq_ignore_ascii_case a b \<longleftrightarrow> to_ascii_lowercase a = to_ascii_lowercase b"

section \<open>Splitting\<close>

definition strip_prefix :: "string \<Rightarrow> string \<Rightarrow> string option" where
  "strip_prefix p s = (if take (length p) s = p then Some (drop (length p) s) else None)"

lemma strip_prefix_append [simp]: "strip_prefix p (p @ s) = Some s"
  by (simp add: strip_prefix_def)

lemma strip_prefix_Some: "strip_prefix p s = Some r \<longleftrightarrow> s = p @ r"
  by (auto simp: strip_prefix_def) (metis append_take_drop_id)

definition strip_suffix :: "string \<Rightarrow> string \<Rightarrow> string option" where
  "strip_suffix p s = map_option rev (strip_prefix (rev p) (rev s))"

fun split_once :: "string \<Rightarrow> string \<Rightarrow> (string \<times> string) option" where
  "split_once p [] = (if p = [] then Some ([], []) else None)"
| "split_once p (c # s) =
     (case strip_prefix p (c # s) of
        Some rest \<Rightarrow> Some ([], rest)
      | None \<Rightarrow> (case split_once p s of None \<Rightarrow> None | Some (a, b) \<Rightarrow> Some (c # a, b)))"

fun split_char :: "char \<Rightarrow> string \<Rightarrow> string list" where
  "split_char c [] = [[]]"
| "split_char c (d # s) =
     (if d = c then [] # split_char c s
      else case split_char c s of p # ps \<Rightarrow> (d # p) # ps | [] \<Rightarrow> [[d]])"

definition rsplit_once_char :: "char \<Rightarrow> string \<Rightarrow> (string \<times> string) option" where
  "rsplit_once_char c s =
     (if c \<in> set s
      then Some (rev (tl (dropWhile (\<lambda>d. d \<noteq> c) (rev s))), rev (takeWhile (\<lambda>d. d \<noteq> c) (rev s)))
      else None)"

definition trim_end_matches :: "char \<Rightarrow> string \<Rightarrow> string" where
  "trim_end_matches c s = rev (dropWhile (\<lambda>d. d = c) (rev s))"

text \<open>\<^verbatim>\<open>s[..s.find(p).unwrap_or(s.len())]\<close>\<close>

definition up_to :: "(char \<Rightarrow> bool) \<Rightarrow> string \<Rightarrow> string" where
  "up_to p s = takeWhile (\<lambda>c. \<not> p c) s"

text \<open>\<^verbatim>\<open>s.find(c)\<close> for a character: the text before it and the text after it.\<close>

definition find_char :: "char \<Rightarrow> string \<Rightarrow> (string \<times> string) option" where
  "find_char c s =
     (if c \<in> set s
      then Some (takeWhile (\<lambda>d. d \<noteq> c) s, tl (dropWhile (\<lambda>d. d \<noteq> c) s)) else None)"

section \<open>Numbers\<close>

definition digit_val :: "nat \<Rightarrow> char \<Rightarrow> nat option" where
  "digit_val radix c =
     (let v = (if is_ascii_digit c then Some (byte c - 48)
               else if is_ascii_lower c then Some (byte c - 87)
               else if is_ascii_upper c then Some (byte c - 55) else None)
      in case v of Some d \<Rightarrow> if d < radix then Some d else None | None \<Rightarrow> None)"

fun parse_digits :: "nat \<Rightarrow> string \<Rightarrow> nat \<Rightarrow> nat option" where
  "parse_digits mx [] acc = Some acc"
| "parse_digits mx (c # s) acc =
     (case digit_val 10 c of
        None \<Rightarrow> None
      | Some d \<Rightarrow> (if acc * 10 + d \<le> mx then parse_digits mx s (acc * 10 + d) else None))"

definition parse_uint :: "nat \<Rightarrow> string \<Rightarrow> nat option" where
  "parse_uint mx s =
     (case s of
        [] \<Rightarrow> None
      | c # r \<Rightarrow> if c = CHR ''+'' then (if r = [] then None else parse_digits mx r 0)
                 else parse_digits mx s 0)"

lemma parse_digits_le: "parse_digits mx s acc = Some n \<Longrightarrow> acc \<le> mx \<Longrightarrow> n \<le> mx"
  by (induction mx s acc rule: parse_digits.induct) (auto split: option.splits if_splits)

lemma parse_uint_le: "parse_uint mx s = Some n \<Longrightarrow> n \<le> mx"
  by (auto simp: parse_uint_def parse_digits_le split: list.splits if_splits option.splits)

definition parse_i32 :: "string \<Rightarrow> int option" where
  "parse_i32 s =
     (case s of
        [] \<Rightarrow> None
      | c # r \<Rightarrow> if c = CHR ''-''
                 then (if r = [] then None else map_option (\<lambda>n. - int n) (parse_digits 2147483648 r 0))
                 else map_option int (parse_uint 2147483647 s))"

section \<open>Decimal text\<close>

fun show_nat :: "nat \<Rightarrow> string" where
  "show_nat n = (if n < 10 then [char_of (48 + n)]
                 else show_nat (n div 10) @ [char_of (48 + n mod 10)])"

declare show_nat.simps [simp del]

lemma digit_val_10: "digit_val 10 c = (if is_ascii_digit c then Some (byte c - 48) else None)"
  by (auto simp: digit_val_def Let_def is_ascii_digit_def is_ascii_lower_def is_ascii_upper_def)

lemma digit_val_char: "d < 10 \<Longrightarrow> digit_val 10 (char_of (48 + d)) = Some d"
  by (simp add: digit_val_10 is_ascii_digit_def)

lemma parse_digits_snoc:
  "parse_digits mx (s @ [c]) acc =
     (case parse_digits mx s acc of
        None \<Rightarrow> None
      | Some a \<Rightarrow> (case digit_val 10 c of
          None \<Rightarrow> None
        | Some d \<Rightarrow> (if a * 10 + d \<le> mx then Some (a * 10 + d) else None)))"
  by (induction s arbitrary: acc) (auto split: option.splits)

lemma parse_digits_show: "n \<le> mx \<Longrightarrow> parse_digits mx (show_nat n) 0 = Some n"
proof (induction n rule: show_nat.induct)
  case (1 n)
  show ?case
  proof (cases "n < 10")
    case True
    then show ?thesis using 1(2) by (simp add: show_nat.simps [of n] digit_val_char)
  next
    case False
    have "n div 10 \<le> mx" using 1(2) by (meson div_le_dividend le_trans)
    from 1(1) [OF False this] show ?thesis
      using False 1(2) digit_val_char [of "n mod 10"]
      by (simp add: show_nat.simps [of n] parse_digits_snoc)
  qed
qed

definition canonical_decimal :: "string \<Rightarrow> bool" where
  "canonical_decimal s \<longleftrightarrow>
     s \<noteq> [] \<and> list_all is_ascii_digit s \<and> (length s = 1 \<or> hd s \<noteq> CHR ''0'')"

lemma canonical_show: "canonical_decimal (show_nat n) \<and> (hd (show_nat n) = CHR ''0'' \<longrightarrow> n = 0)"
proof (induction n rule: show_nat.induct)
  case (1 n)
  show ?case
  proof (cases "n < 10")
    case True
    have "byte (char_of (48 + n)) = byte CHR ''0'' \<Longrightarrow> n = 0" using True by simp
    then have "char_of (48 + n) = CHR ''0'' \<Longrightarrow> n = 0" by metis
    with True show ?thesis
      by (auto simp: show_nat.simps [of n] canonical_decimal_def is_ascii_digit_def)
  next
    case False
    with 1 [OF False] show ?thesis
      by (auto simp: show_nat.simps [of n] canonical_decimal_def is_ascii_digit_def
          hd_append dvd_div_eq_0_iff div_eq_0_iff)
  qed
qed

lemma show_parse_digits:
  "canonical_decimal s \<Longrightarrow> parse_digits mx s 0 = Some n \<Longrightarrow> show_nat n = s"
proof (induction s arbitrary: n rule: rev_induct)
  case (snoc c s)
  have dc: "is_ascii_digit c" using snoc.prems(1) by (simp add: canonical_decimal_def)
  then have c: "char_of (48 + (byte c - 48)) = c" and lt: "byte c - 48 < 10"
    by (auto simp: is_ascii_digit_def)
  show ?case
  proof (cases "s = []")
    case True
    then show ?thesis
      using snoc.prems(2) dc c lt by (simp add: digit_val_10 show_nat.simps split: if_splits)
  next
    case False
    then have cs: "canonical_decimal s" and h: "hd s \<noteq> CHR ''0''"
      using snoc.prems(1) by (auto simp: canonical_decimal_def)
    obtain a where a: "parse_digits mx s 0 = Some a" and n: "n = a * 10 + (byte c - 48)"
      using snoc.prems(2) dc by (auto simp: parse_digits_snoc digit_val_10 split: option.splits if_splits)
    from snoc.IH [OF cs a] have sa: "show_nat a = s" .
    have "a \<noteq> 0"
    proof
      assume "a = 0"
      then have "s = [char_of (48::nat)]" using sa by (simp add: show_nat.simps)
      then have "byte (hd s) = byte CHR ''0''" by simp
      with h show False by (metis char_of_char)
    qed
    then have "\<not> n < 10" using n by simp
    then have "show_nat n = show_nat (n div 10) @ [char_of (48 + n mod 10)]"
      by (subst show_nat.simps) simp
    moreover have "n div 10 = a" "n mod 10 = byte c - 48" using n lt by auto
    ultimately show ?thesis using sa c by metis
  qed
qed (simp add: canonical_decimal_def)

lemma parse_uint_digits:
  "s \<noteq> [] \<Longrightarrow> list_all is_ascii_digit s \<Longrightarrow> parse_uint mx s = parse_digits mx s 0"
  by (cases s) (auto simp: parse_uint_def is_ascii_digit_def)

text \<open>The value of a run of digits, and that parsing gives it, leading zeros or not.\<close>

definition digits_val :: "string \<Rightarrow> nat \<Rightarrow> nat" where
  "digits_val ds n = foldl (\<lambda>n c. n * 10 + (byte c - 48)) n ds"

lemma digits_val_ge: "n \<le> digits_val ds n"
proof (induction ds arbitrary: n)
  case (Cons d ds)
  from Cons [of "n * 10 + (byte d - 48)"] show ?case by (simp add: digits_val_def)
qed (simp add: digits_val_def)

lemma parse_digits_value:
  "list_all is_ascii_digit s \<Longrightarrow> acc \<le> mx \<Longrightarrow> parse_digits mx s acc = (if digits_val s acc \<le> mx then Some (digits_val s acc) else None)"
proof (induction s arbitrary: acc)
  case (Cons c s)
  then show ?case using digits_val_ge [of "acc * 10 + (byte c - 48)" s] by (auto simp: digit_val_10 digits_val_def)
qed (simp add: digits_val_def)

lemma parse_uint_show: "n \<le> mx \<Longrightarrow> parse_uint mx (show_nat n) = Some n"
  using canonical_show [of n]
  by (simp add: parse_uint_digits parse_digits_show canonical_decimal_def)

lemma show_parse_uint:
  "canonical_decimal s \<Longrightarrow> parse_uint mx s = Some n \<Longrightarrow> show_nat n = s"
  by (rule show_parse_digits) (auto simp: parse_uint_digits canonical_decimal_def)

section \<open>Little-endian words\<close>

fun to_le_bytes :: "nat \<Rightarrow> nat \<Rightarrow> string" where
  "to_le_bytes 0 n = []"
| "to_le_bytes (Suc w) n = char_of (n mod 256) # to_le_bytes w (n div 256)"

fun from_le_bytes :: "string \<Rightarrow> nat" where
  "from_le_bytes [] = 0"
| "from_le_bytes (c # s) = byte c + 256 * from_le_bytes s"

lemma length_to_le_bytes [simp]: "length (to_le_bytes w n) = w"
  by (induction w arbitrary: n) auto

lemma from_to_le_bytes: "n < 256 ^ w \<Longrightarrow> from_le_bytes (to_le_bytes w n) = n"
proof (induction w arbitrary: n)
  case (Suc w)
  then have "n div 256 < 256 ^ w" by (simp add: less_mult_imp_div_less mult.commute)
  with Suc.IH show ?case by simp
qed simp

lemma from_le_bytes_less: "from_le_bytes s < 256 ^ length s"
proof (induction s)
  case (Cons c s)
  have "byte c < 256" by (rule nat_of_char_less_256)
  moreover have "from_le_bytes s + 1 \<le> 256 ^ length s" using Cons by simp
  then have "256 * from_le_bytes s + 256 \<le> 256 * 256 ^ length s"
    by (metis add_mult_distrib2 mult.right_neutral mult_le_mono2)
  ultimately have "byte c + 256 * from_le_bytes s < 256 * 256 ^ length s" by linarith
  then show ?case by simp
qed simp

section \<open>UTF-8 and white space\<close>

text \<open>\<^verbatim>\<open>str::from_utf8\<close> accepts exactly the well-formed sequences of the Unicode standard.\<close>

abbreviation cont :: "nat \<Rightarrow> bool" where "cont b \<equiv> 0x80 \<le> b \<and> b \<le> 0xBF"

fun utf8_bytes :: "nat list \<Rightarrow> bool" where
  "utf8_bytes [] \<longleftrightarrow> True"
| "utf8_bytes (a # s) \<longleftrightarrow>
     (if a < 0x80 then utf8_bytes s
      else case s of
        [] \<Rightarrow> False
      | b # s2 \<Rightarrow>
          if 0xC2 \<le> a \<and> a \<le> 0xDF then cont b \<and> utf8_bytes s2
          else case s2 of
            [] \<Rightarrow> False
          | c # s3 \<Rightarrow>
              if 0xE0 \<le> a \<and> a \<le> 0xEF
              then (if a = 0xE0 then 0xA0 \<le> b \<and> b \<le> 0xBF
                    else if a = 0xED then 0x80 \<le> b \<and> b \<le> 0x9F else cont b)
                   \<and> cont c \<and> utf8_bytes s3
              else case s3 of
                [] \<Rightarrow> False
              | d # s4 \<Rightarrow>
                  0xF0 \<le> a \<and> a \<le> 0xF4
                  \<and> (if a = 0xF0 then 0x90 \<le> b \<and> b \<le> 0xBF
                     else if a = 0xF4 then 0x80 \<le> b \<and> b \<le> 0x8F else cont b)
                  \<and> cont c \<and> cont d \<and> utf8_bytes s4)"

definition from_utf8 :: "string \<Rightarrow> string option" where
  "from_utf8 s = (if utf8_bytes (map byte s) then Some s else None)"

text \<open>The UTF-8 encodings of the code points with the \<^verbatim>\<open>White_Space\<close> property.\<close>

definition white_space :: "nat list list" where
  "white_space =
     map (\<lambda>b. [b]) [9, 10, 11, 12, 13, 32] @ [[0xC2, 0x85], [0xC2, 0xA0], [0xE1, 0x9A, 0x80]] @
     map (\<lambda>b. [0xE2, 0x80, b]) ([0x80..<0x8B] @ [0xA8, 0xA9, 0xAF]) @
     [[0xE2, 0x81, 0x9F], [0xE3, 0x80, 0x80]]"

fun strip_any :: "nat list list \<Rightarrow> nat list \<Rightarrow> nat list option" where
  "strip_any [] s = None"
| "strip_any (p # ps) s = (if take (length p) s = p then Some (drop (length p) s) else strip_any ps s)"

lemma strip_any_shorter:
  "strip_any ps s = Some r \<Longrightarrow> [] \<notin> set ps \<Longrightarrow> length r < length s"
proof (induction ps)
  case (Cons p ps)
  have "length (drop (length p) s) < length s" if "take (length p) s = p" "p \<noteq> []"
    using that by (cases s) auto
  with Cons show ?case by (auto split: if_splits)
qed simp

function trim_bytes :: "nat list list \<Rightarrow> nat list \<Rightarrow> nat list" where
  "trim_bytes ps s =
     (if [] \<in> set ps then s
      else case strip_any ps s of None \<Rightarrow> s | Some r \<Rightarrow> trim_bytes ps r)"
  by auto
termination by (relation "measure (\<lambda>(ps, s). length s)") (auto dest: strip_any_shorter)

definition str_trim :: "string \<Rightarrow> string" where
  "str_trim s =
     map char_of (rev (trim_bytes (map rev white_space)
       (rev (trim_bytes white_space (map byte s)))))"

section \<open>IP addresses\<close>

text \<open>
  A parser takes the input and gives the value with the rest, or nothing and leaves the
  input as it was (\<^verbatim>\<open>read_atomically\<close>).
\<close>

fun read_digits :: "nat \<Rightarrow> nat \<Rightarrow> string \<Rightarrow> nat \<Rightarrow> nat \<Rightarrow> (nat \<times> nat \<times> string) option" where
  "read_digits radix maxd [] acc cnt = Some (acc, cnt, [])"
| "read_digits radix maxd (c # s) acc cnt =
     (case digit_val radix c of
        None \<Rightarrow> Some (acc, cnt, c # s)
      | Some d \<Rightarrow> (if maxd < Suc cnt then None
                   else read_digits radix maxd s (acc * radix + d) (Suc cnt)))"

definition read_number :: "nat \<Rightarrow> nat \<Rightarrow> bool \<Rightarrow> nat \<Rightarrow> string \<Rightarrow> (nat \<times> string) option" where
  "read_number radix maxd zero_ok mx s =
     (case read_digits radix maxd s 0 0 of
        None \<Rightarrow> None
      | Some (v, cnt, rest) \<Rightarrow>
          (if cnt = 0 then None
           else if \<not> zero_ok \<and> take 1 s = ''0'' \<and> 1 < cnt then None
           else if v \<le> mx then Some (v, rest) else None))"

definition read_given_char :: "char \<Rightarrow> string \<Rightarrow> string option" where
  "read_given_char c s = (case s of [] \<Rightarrow> None | d # r \<Rightarrow> if d = c then Some r else None)"

definition read_separator ::
  "char \<Rightarrow> nat \<Rightarrow> (string \<Rightarrow> ('a \<times> string) option) \<Rightarrow> string \<Rightarrow> ('a \<times> string) option" where
  "read_separator sep i p s =
     (if 0 < i then (case read_given_char sep s of None \<Rightarrow> None | Some r \<Rightarrow> p r) else p s)"

definition read_octet :: "nat \<Rightarrow> string \<Rightarrow> (nat \<times> string) option" where
  "read_octet i = read_separator CHR ''.'' i (read_number 10 3 False 255)"

definition read_ipv4_addr :: "string \<Rightarrow> (nat list \<times> string) option" where
  "read_ipv4_addr s = do {
     (a, s) \<leftarrow> read_octet 0 s;
     (b, s) \<leftarrow> read_octet 1 s;
     (c, s) \<leftarrow> read_octet 2 s;
     (d, s) \<leftarrow> read_octet 3 s;
     Some ([a, b, c, d], s) }"

definition parse_ipv4 :: "string \<Rightarrow> nat list option" where
  "parse_ipv4 s =
     (if 15 < length s then None
      else case read_ipv4_addr s of Some (a, []) \<Rightarrow> Some a | _ \<Rightarrow> None)"

text \<open>
  \<^verbatim>\<open>read_groups\<close>: \<open>left\<close> groups still to read, \<open>i\<close> read so far. An embedded IPv4
  address needs two groups; the flag says one was read.
\<close>

fun read_groups :: "nat \<Rightarrow> nat \<Rightarrow> string \<Rightarrow> nat list \<times> bool \<times> string" where
  "read_groups left i s =
     (if left = 0 then ([], False, s)
      else case (if 1 < left then read_separator CHR '':'' i read_ipv4_addr s else None) of
        Some (v4, r) \<Rightarrow>
          ([v4 ! 0 * 256 + v4 ! 1, v4 ! 2 * 256 + v4 ! 3], True, r)
      | None \<Rightarrow>
          (case read_separator CHR '':'' i (read_number 16 4 True U16_MAX) s of
             None \<Rightarrow> ([], False, s)
           | Some (g, r) \<Rightarrow>
               (case read_groups (left - 1) (i + 1) r of (gs, v4, r') \<Rightarrow> (g # gs, v4, r'))))"

declare read_groups.simps [simp del]

definition read_ipv6_addr :: "string \<Rightarrow> (nat list \<times> string) option" where
  "read_ipv6_addr s =
     (case read_groups 8 0 s of (hd_gs, hd_v4, r) \<Rightarrow>
        if length hd_gs = 8 then Some (hd_gs, r)
        else if hd_v4 then None
        else do {
          r \<leftarrow> read_given_char CHR '':'' r;
          r \<leftarrow> read_given_char CHR '':'' r;
          (case read_groups (8 - (length hd_gs + 1)) 0 r of (tl_gs, _, r) \<Rightarrow>
             Some (hd_gs @ replicate (8 - length hd_gs - length tl_gs) 0 @ tl_gs, r)) })"

definition parse_ipv6 :: "string \<Rightarrow> nat list option" where
  "parse_ipv6 s = (case read_ipv6_addr s of Some (a, []) \<Rightarrow> Some a | _ \<Rightarrow> None)"

lemma replicate_numeral_Cons [simp]:
  "replicate (numeral k) x = x # replicate (pred_numeral k) x"
  by (simp add: numeral_eq_Suc)

lemmas addr_eval =
  parse_ipv4_def parse_ipv6_def read_ipv4_addr_def read_ipv6_addr_def read_octet_def
  read_separator_def read_number_def read_given_char_def read_groups.simps digit_val_def
  is_ascii_digit_def is_ascii_lower_def is_ascii_upper_def

lemma parse_ipv4_examples:
  "parse_ipv4 ''127.0.0.1'' = Some [127, 0, 0, 1]"
  "parse_ipv4 ''127.0.0.01'' = None"
  "parse_ipv4 ''1.2.3'' = None"
  by (simp_all add: addr_eval)

lemma parse_ipv6_examples:
  "parse_ipv6 ''::1'' = Some [0, 0, 0, 0, 0, 0, 0, 1]"
  "parse_ipv6 ''::ffff:10.0.0.1'' = Some [0, 0, 0, 0, 0, 65535, 2560, 1]"
  "parse_ipv6 ''1:2:3:4:5:6:7:8:9'' = None"
  by (simp_all add: addr_eval)

text \<open>
  The IPv4 reader accepts exactly four decimal octets without leading zeros, joined by dots.
\<close>

abbreviation no_digit_ahead :: "string \<Rightarrow> bool" where
  "no_digit_ahead r \<equiv> r = [] \<or> \<not> is_ascii_digit (hd r)"

lemma read_digits_decimal:
  "cnt \<le> maxd \<Longrightarrow> read_digits 10 maxd s acc cnt = Some (v, n, r) \<longleftrightarrow>
     (\<exists>ds. s = ds @ r \<and> list_all is_ascii_digit ds \<and> no_digit_ahead r \<and>
           v = digits_val ds acc \<and> n = cnt + length ds \<and> n \<le> maxd)"
proof (induction s arbitrary: acc cnt)
  case Nil
  then show ?case by (auto simp: digits_val_def)
next
  case (Cons c s)
  show ?case
  proof (cases "is_ascii_digit c")
    case False
    then have none: "c # s = ds @ r \<Longrightarrow> list_all is_ascii_digit ds \<Longrightarrow> ds = []" for ds
      by (cases ds) auto
    have "(\<exists>ds. c # s = ds @ r \<and> list_all is_ascii_digit ds \<and> no_digit_ahead r \<and>
             v = digits_val ds acc \<and> n = cnt + length ds \<and> n \<le> maxd) \<longleftrightarrow>
          v = acc \<and> n = cnt \<and> r = c # s" (is "?L \<longleftrightarrow> ?R")
    proof
      assume ?L
      then show ?R using none by (auto simp: digits_val_def)
    next
      assume ?R
      then show ?L using False Cons.prems by (intro exI [of _ "[]"]) (simp add: digits_val_def)
    qed
    with False show ?thesis by (simp add: digit_val_10) metis
  next
    case True
    have "(\<exists>ds. c # s = ds @ r \<and> list_all is_ascii_digit ds \<and> no_digit_ahead r \<and>
             v = digits_val ds acc \<and> n = cnt + length ds \<and> n \<le> maxd) \<longleftrightarrow>
          (\<exists>ds. s = ds @ r \<and> list_all is_ascii_digit ds \<and> no_digit_ahead r \<and>
             v = digits_val ds (acc * 10 + (byte c - 48)) \<and> n = Suc cnt + length ds \<and> n \<le> maxd)"
      (is "?L \<longleftrightarrow> (\<exists>ds. ?R ds)")
    proof
      assume ?L
      then obtain ds where d: "c # s = ds @ r" "list_all is_ascii_digit ds" "no_digit_ahead r"
        "v = digits_val ds acc" "n = cnt + length ds" "n \<le> maxd" by blast
      with True obtain es where "ds = c # es" by (cases ds) auto
      with d have "?R es" by (simp add: digits_val_def)
      then show "\<exists>ds. ?R ds" by blast
    next
      assume "\<exists>ds. ?R ds"
      then obtain es where "?R es" by blast
      with True show ?L by (intro exI [of _ "c # es"]) (simp add: digits_val_def)
    qed
    with True Cons.IH [of "Suc cnt"] show ?thesis
      by (cases "Suc cnt \<le> maxd") (auto simp: digit_val_10 not_le)
  qed
qed

lemma show_nat_octet: "v \<le> 255 \<Longrightarrow> length (show_nat v) \<le> 3"
  by (simp add: show_nat.simps [of v] show_nat.simps [of "v div 10"] show_nat.simps [of "v div 10 div 10"])

lemma digits_val_show: "digits_val (show_nat v) 0 = v"
  using parse_digits_show [of v v] canonical_show [of v]
  by (simp add: parse_digits_value canonical_decimal_def split: if_splits)

lemma read_number_octet:
  "read_number 10 3 False 255 s = Some (v, r) \<longleftrightarrow> v \<le> 255 \<and> s = show_nat v @ r \<and> no_digit_ahead r"
proof
  assume rn: "read_number 10 3 False 255 s = Some (v, r)"
  then obtain n where "read_digits 10 3 s 0 0 = Some (v, n, r)" and n: "n \<noteq> 0" "\<not> (take 1 s = ''0'' \<and> 1 < n)"
    and v: "v \<le> 255"
    by (auto simp: read_number_def split: option.splits if_splits)
  then obtain ds where ds: "s = ds @ r" "list_all is_ascii_digit ds" "no_digit_ahead r"
    "v = digits_val ds 0" "n = length ds"
    by (auto simp: read_digits_decimal)
  with n have "canonical_decimal ds" by (cases ds) (auto simp: canonical_decimal_def)
  moreover have "parse_digits v ds 0 = Some v" using ds by (simp add: parse_digits_value)
  ultimately have "show_nat v = ds" by (rule show_parse_digits)
  with ds v show "v \<le> 255 \<and> s = show_nat v @ r \<and> no_digit_ahead r" by simp
next
  assume a: "v \<le> 255 \<and> s = show_nat v @ r \<and> no_digit_ahead r"
  have c: "canonical_decimal (show_nat v)" using canonical_show by blast
  with a have "read_digits 10 3 s 0 0 = Some (v, length (show_nat v), r)"
    by (subst read_digits_decimal) (auto simp: digits_val_show show_nat_octet canonical_decimal_def)
  moreover have "\<not> (take 1 s = ''0'' \<and> 1 < length (show_nat v))" "show_nat v \<noteq> []"
    using a c by (cases "show_nat v"; auto simp: canonical_decimal_def)+
  ultimately show "read_number 10 3 False 255 s = Some (v, r)" using a by (auto simp: read_number_def)
qed

lemma read_octet_iff:
  "read_octet i s = Some (v, r) \<longleftrightarrow>
     v \<le> 255 \<and> s = (if 0 < i then ''.'' else []) @ show_nat v @ r \<and> no_digit_ahead r"
  by (cases s) (auto simp: read_octet_def read_separator_def read_given_char_def read_number_octet
                     split: option.splits if_splits)

lemma parse_ipv4_iff:
  "parse_ipv4 s = Some as \<longleftrightarrow>
     (\<exists>a b c d. as = [a, b, c, d] \<and> a \<le> 255 \<and> b \<le> 255 \<and> c \<le> 255 \<and> d \<le> 255 \<and>
        s = show_nat a @ ''.'' @ show_nat b @ ''.'' @ show_nat c @ ''.'' @ show_nat d)"
proof
  assume "parse_ipv4 s = Some as"
  then show "\<exists>a b c d. as = [a, b, c, d] \<and> a \<le> 255 \<and> b \<le> 255 \<and> c \<le> 255 \<and> d \<le> 255 \<and>
        s = show_nat a @ ''.'' @ show_nat b @ ''.'' @ show_nat c @ ''.'' @ show_nat d"
    by (auto simp: parse_ipv4_def read_ipv4_addr_def read_octet_iff
             split: if_splits option.splits list.splits Option.bind_splits)
next
  assume "\<exists>a b c d. as = [a, b, c, d] \<and> a \<le> 255 \<and> b \<le> 255 \<and> c \<le> 255 \<and> d \<le> 255 \<and>
        s = show_nat a @ ''.'' @ show_nat b @ ''.'' @ show_nat c @ ''.'' @ show_nat d"
  then obtain a b c d where as: "as = [a, b, c, d]" "a \<le> 255" "b \<le> 255" "c \<le> 255" "d \<le> 255"
    and s: "s = show_nat a @ ''.'' @ show_nat b @ ''.'' @ show_nat c @ ''.'' @ show_nat d" by blast
  have dot: "\<not> is_ascii_digit CHR ''.''" by (simp add: is_ascii_digit_def)
  have "read_octet 0 s = Some (a, ''.'' @ show_nat b @ ''.'' @ show_nat c @ ''.'' @ show_nat d)"
    "read_octet 1 (''.'' @ show_nat b @ ''.'' @ show_nat c @ ''.'' @ show_nat d) =
       Some (b, ''.'' @ show_nat c @ ''.'' @ show_nat d)"
    "read_octet 2 (''.'' @ show_nat c @ ''.'' @ show_nat d) = Some (c, ''.'' @ show_nat d)"
    "read_octet 3 (''.'' @ show_nat d) = Some (d, [])"
    using as s dot by (simp_all add: read_octet_iff)
  then have "read_ipv4_addr s = Some (as, [])" using as by (simp add: read_ipv4_addr_def)
  moreover have "length s \<le> 15" using as s show_nat_octet [of a] show_nat_octet [of b] show_nat_octet [of c] show_nat_octet [of d] by simp
  ultimately show "parse_ipv4 s = Some as" by (simp add: parse_ipv4_def)
qed

end
