(* ===== verification/Exec_Notify.thy ===== *)
theory Exec_Notify
  imports Rust_Std
begin

text \<open>
  \<^verbatim>\<open>crates/exec-notify/src/lib.rs\<close>: when a sandbox calls back about a kept job. The
  notification kernel \<^verbatim>\<open>step\<close> is a pure function of a job, an event and the time; the
  model is the same function, with \<open>None\<close> for the overflow panic of a checked \<^verbatim>\<open>+\<close>.
  Also here: the retry schedule \<^verbatim>\<open>wait_ms\<close>, the answer table \<^verbatim>\<open>verdict\<close>, the \<^verbatim>\<open>notify\<close>
  grammar \<^verbatim>\<open>check_notify\<close> (whose accepted texts are \<open>Notify_Grammar\<close>'s) and the callback body.

  Proved: the state invariant and that nothing owed is ever dropped; at most one attempt
  is in flight; an answer settles exactly what its attempt carried; a silent receiver
  gets at most twelve attempts of one count and then the job is settled; the schedule's
  bounds and rounding; the callback body can be read back.
\<close>

section \<open>Data\<close>

definition MAX_ATTEMPTS :: nat where "MAX_ATTEMPTS = 12"

record job =
  job_notify :: bool
  job_removed :: bool
  job_owed :: u64
  job_settled :: u64
  job_in_flight :: "u64 option"
  job_attempts :: u32
  job_wake_at :: "u64 option"

definition job_default :: job where
  "job_default =
     \<lparr>job_notify = False, job_removed = False, job_owed = 0, job_settled = 0,
      job_in_flight = None, job_attempts = 0, job_wake_at = None\<rparr>"

datatype attempt_outcome = Status u16 | Failed

datatype notify_event =
    Keep bool
  | Change
  | Removed
  | AttemptEnded attempt_outcome u32
  | Wake

datatype notify_action = Begin u32 | Abandon | WakeAt u64

datatype verdict_kind = Done | Stop | Retry

section \<open>The answer table and the schedule\<close>

fun verdict :: "attempt_outcome \<Rightarrow> verdict_kind" where
  "verdict Failed = Retry"
| "verdict (Status s) =
     (if 200 \<le> s \<and> s \<le> 299 then Done
      else if s \<in> {401, 403, 404, 410} then Stop
      else if s \<in> {407, 408, 425, 429} \<or> 500 \<le> s \<and> s \<le> 599 then Retry
      else Stop)"

text \<open>
  \<open>delay_ms n\<close> is \<^verbatim>\<open>d(n)\<close> in milliseconds: \<^verbatim>\<open>(1 << n.saturating_sub(1).min(6)).min(60) * 1000\<close>.
\<close>

definition delay_ms :: "u32 \<Rightarrow> u64" where
  "delay_ms n = min (2 ^ min (n - 1) 6) 60 * 1000"

definition wait_ms :: "u32 \<Rightarrow> u32 \<Rightarrow> u64" where
  "wait_ms n draw =
     (let a = delay_ms n; t = a * draw
      in a - t div 2 ^ 33 - (if t mod 2 ^ 33 > 2 ^ 32 then 1 else 0))"

section \<open>The kernel\<close>

definition begin_attempt :: "job \<Rightarrow> (job \<times> notify_action list) option" where
  "begin_attempt j = do {
     n \<leftarrow> checked_add U32_MAX (job_attempts j) 1;
     Some (j\<lparr>job_wake_at := None, job_attempts := n, job_in_flight := Some (job_owed j)\<rparr>,
           [Begin n]) }"

definition abandon_if :: "job \<Rightarrow> notify_action list" where
  "abandon_if j = (case job_in_flight j of None \<Rightarrow> [] | Some _ \<Rightarrow> [Abandon])"

definition step_keep :: "bool \<Rightarrow> job \<Rightarrow> (job \<times> notify_action list) option" where
  "step_keep notify j =
     (let out = abandon_if j;
          j = j\<lparr>job_in_flight := None, job_wake_at := None, job_attempts := 0,
                job_notify := notify\<rparr>
      in if notify then do {
           owed \<leftarrow> checked_add U64_MAX (job_owed j) 1;
           (j', begun) \<leftarrow> begin_attempt (j\<lparr>job_owed := owed\<rparr>);
           Some (j', out @ begun) }
         else Some (j\<lparr>job_settled := job_owed j\<rparr>, out))"

definition step_change :: "job \<Rightarrow> (job \<times> notify_action list) option" where
  "step_change j =
     (if \<not> job_notify j then Some (j, [])
      else do {
        owed \<leftarrow> checked_add U64_MAX (job_owed j) 1;
        let j = j\<lparr>job_owed := owed\<rparr>;
        (if job_in_flight j = None
         then begin_attempt (j\<lparr>job_wake_at := None, job_attempts := 0\<rparr>)
         else Some (j, [])) })"

definition begin_if_owed :: "job \<Rightarrow> (job \<times> notify_action list) option" where
  "begin_if_owed j =
     (if job_notify j \<and> job_owed j > job_settled j then begin_attempt j else Some (j, []))"

definition settle :: "u64 \<Rightarrow> job \<Rightarrow> job" where
  "settle carried j = j\<lparr>job_settled := max (job_settled j) carried, job_attempts := 0\<rparr>"

definition step_ended ::
  "attempt_outcome \<Rightarrow> u32 \<Rightarrow> job \<Rightarrow> u64 \<Rightarrow> (job \<times> notify_action list) option" where
  "step_ended outcome draw j now =
     (case job_in_flight j of
        None \<Rightarrow> Some (j, [])
      | Some carried \<Rightarrow>
          (let j = j\<lparr>job_in_flight := None\<rparr> in
           case verdict outcome of
             Done \<Rightarrow> begin_if_owed (settle carried j)
           | Stop \<Rightarrow> begin_if_owed (settle carried j)
           | Retry \<Rightarrow>
               (if job_owed j > carried then begin_if_owed (j\<lparr>job_attempts := 0\<rparr>)
                else if job_attempts j \<ge> MAX_ATTEMPTS then begin_if_owed (settle carried j)
                else do {
                  due \<leftarrow> checked_add U64_MAX now (wait_ms (job_attempts j) draw);
                  Some (j\<lparr>job_wake_at := Some due\<rparr>, [WakeAt due]) })))"

definition step_wake :: "job \<Rightarrow> u64 \<Rightarrow> (job \<times> notify_action list) option" where
  "step_wake j now =
     (if job_in_flight j = None \<and> job_notify j \<and> job_owed j > job_settled j \<and>
         (case job_wake_at j of Some due \<Rightarrow> due \<le> now | None \<Rightarrow> False)
      then begin_attempt j else Some (j, []))"

fun notify_step :: "job \<Rightarrow> notify_event \<Rightarrow> u64 \<Rightarrow> (job \<times> notify_action list) option" where
  "notify_step j e now =
     (if job_removed j then Some (j, [])
      else case e of
        Keep notify \<Rightarrow> step_keep notify j
      | Change \<Rightarrow> step_change j
      | Removed \<Rightarrow> Some (job_default\<lparr>job_removed := True\<rparr>, abandon_if j)
      | AttemptEnded outcome draw \<Rightarrow> step_ended outcome draw j now
      | Wake \<Rightarrow> step_wake j now)"

declare notify_step.simps [simp del]

section \<open>The notify grammar\<close>

definition loopback :: "string \<Rightarrow> bool" where
  "loopback host =
     (if eq_ignore_ascii_case host ''localhost'' then True
      else case (case strip_prefix ''['' host of None \<Rightarrow> None | Some h \<Rightarrow> strip_suffix '']'' h) of
        Some v6 \<Rightarrow> parse_ipv6 v6 = Some [0, 0, 0, 0, 0, 0, 0, 1]
      | None \<Rightarrow> (case parse_ipv4 host of Some a \<Rightarrow> hd a = 127 | None \<Rightarrow> False))"

definition url_scheme_ok :: "string \<Rightarrow> bool" where
  "url_scheme_ok scheme \<longleftrightarrow>
     (case scheme of [] \<Rightarrow> False | c # _ \<Rightarrow> is_ascii_alphabetic c) \<and>
     list_all (\<lambda>b. is_ascii_alphanumeric b \<or> b \<in> set ''+-.'') scheme"

text \<open>The host and the port of an authority, or the rule it breaks.\<close>

definition url_host_port :: "string \<Rightarrow> string + string \<times> string option" where
  "url_host_port authority =
     (case strip_prefix ''['' authority of
        Some v6 \<Rightarrow>
          (case find_char CHR '']'' v6 of
             None \<Rightarrow> Inl ''absolute''
           | Some (addr, after) \<Rightarrow>
               (if parse_ipv6 addr = None then Inl ''absolute''
                else let host = ''['' @ addr @ '']'' in
                  case strip_prefix '':'' after of
                    Some p \<Rightarrow> Inr (host, Some p)
                  | None \<Rightarrow> (if after = [] then Inr (host, None) else Inl ''absolute'')))
      | None \<Rightarrow>
          (case rsplit_once_char CHR '':'' authority of
             Some (h, p) \<Rightarrow> Inr (h, Some p)
           | None \<Rightarrow> Inr (authority, None)))"

definition host_chars_ok :: "string \<Rightarrow> bool" where
  "host_chars_ok host \<longleftrightarrow>
     take 1 host = ''['' \<or>
     list_all (\<lambda>b. is_ascii_alphanumeric b \<or> b \<in> set ''-._~%!$&'' \<or> b = CHR 0x27 \<or>
                   b \<in> set ''()*+,;='') host"

definition port_ok :: "string option \<Rightarrow> bool" where
  "port_ok port =
     (case port of
        None \<Rightarrow> True
      | Some p \<Rightarrow> p = [] \<or> (list_all is_ascii_digit p \<and> parse_uint U16_MAX p \<noteq> None))"

definition check_url :: "string \<Rightarrow> string + unit" where
  "check_url url =
     (if 2048 < length url then Inl ''url length''
      else if list_ex (\<lambda>b. byte b \<le> 32 \<or> 127 \<le> byte b) url then Inl ''absolute''
      else case split_once ''://'' url of
        None \<Rightarrow> Inl ''absolute''
      | Some (scheme, rest) \<Rightarrow>
          (if \<not> url_scheme_ok scheme then Inl ''absolute''
           else if CHR ''#'' \<in> set url then Inl ''fragment''
           else let authority = up_to (\<lambda>c. c = CHR ''/'' \<or> c = CHR ''?'') rest in
             if CHR ''@'' \<in> set authority then Inl ''userinfo''
             else case url_host_port authority of
               Inl e \<Rightarrow> Inl e
             | Inr (host, port) \<Rightarrow>
                 (if host = [] then Inl ''host''
                  else if \<not> host_chars_ok host then Inl ''absolute''
                  else if \<not> port_ok port then Inl ''absolute''
                  else let sch = to_ascii_lowercase scheme in
                    if sch = ''https'' then Inr ()
                    else if sch = ''http'' \<and> loopback host then Inr ()
                    else Inl ''scheme'')))"

definition token68_char :: "char \<Rightarrow> bool" where
  "token68_char b \<longleftrightarrow> is_ascii_alphanumeric b \<or> b \<in> set ''-._~+/''"

definition check_notify :: "string \<Rightarrow> string \<Rightarrow> string + unit" where
  "check_notify url token =
     (case check_url url of
        Inl e \<Rightarrow> Inl e
      | Inr _ \<Rightarrow>
          (if token = [] \<or> 512 < length token then Inl ''token length''
           else let body = trim_end_matches CHR ''='' token in
             if body = [] \<or> \<not> list_all token68_char body then Inl ''token68'' else Inr ()))"

section \<open>The callback body\<close>

definition hex_lower :: "nat \<Rightarrow> char" where
  "hex_lower d = (if d < 10 then char_of (48 + d) else char_of (87 + d))"

text \<open>
  One character of \<^verbatim>\<open>json_string\<close>. A byte of a multi-byte character is at least
  \<^verbatim>\<open>0x80\<close>, so escaping byte by byte is escaping character by character.
\<close>

definition json_escape :: "char \<Rightarrow> string" where
  "json_escape c =
     (if c = CHR 0x22 then [CHR 0x5C, CHR 0x22]
      else if c = CHR 0x5C then [CHR 0x5C, CHR 0x5C]
      else if c = CHR 0x0A then [CHR 0x5C, CHR ''n'']
      else if c = CHR 0x0D then [CHR 0x5C, CHR ''r'']
      else if c = CHR 0x09 then [CHR 0x5C, CHR ''t'']
      else if byte c < 32
      then [CHR 0x5C, CHR ''u'', CHR ''0'', CHR ''0'',
            hex_lower (byte c div 16), hex_lower (byte c mod 16)]
      else [c])"

definition json_string :: "string \<Rightarrow> string" where
  "json_string s = CHR 0x22 # concat (map json_escape s) @ [CHR 0x22]"

definition body_prefix :: string where
  "body_prefix = ''{'' @ [CHR 0x22] @ ''type'' @ [CHR 0x22] @ '':'' @ [CHR 0x22] @ ''job_ended'' @
     [CHR 0x22] @ '','' @ [CHR 0x22] @ ''scope'' @ [CHR 0x22] @ '':''"

definition body_middle :: string where
  "body_middle = '','' @ [CHR 0x22] @ ''id'' @ [CHR 0x22] @ '':''"

definition notify_body :: "string \<Rightarrow> string \<Rightarrow> string" where
  "notify_body scope jid = body_prefix @ json_string scope @ body_middle @ json_string jid @ ''}''"

section \<open>The state invariant\<close>

text \<open>
  What the kernel keeps true: \<open>settled\<close> never passes \<open>owed\<close>; an attempt in flight carries
  something unsettled and is one of the count's twelve; a job with something owed is either
  in flight or has a wake-up; an idle job owes nothing.
\<close>

definition job_inv :: "job \<Rightarrow> bool" where
  "job_inv j \<longleftrightarrow>
     job_settled j \<le> job_owed j \<and>
     (job_removed j \<longrightarrow> j = job_default\<lparr>job_removed := True\<rparr>) \<and>
     (case job_in_flight j of
        Some c \<Rightarrow> job_notify j \<and> job_settled j < c \<and> c \<le> job_owed j \<and>
                  1 \<le> job_attempts j \<and> job_attempts j \<le> MAX_ATTEMPTS \<and> job_wake_at j = None
      | None \<Rightarrow>
          (case job_wake_at j of
             Some _ \<Rightarrow> job_notify j \<and> job_settled j < job_owed j \<and>
                       1 \<le> job_attempts j \<and> job_attempts j < MAX_ATTEMPTS
           | None \<Rightarrow> job_settled j = job_owed j \<and> job_attempts j = 0))"

named_theorems step_defs \<open>the clauses of the notification kernel\<close>

declare notify_step.simps [step_defs] step_keep_def [step_defs] step_change_def [step_defs]
declare step_ended_def [step_defs] step_wake_def [step_defs] begin_attempt_def [step_defs]
declare begin_if_owed_def [step_defs] settle_def [step_defs] abandon_if_def [step_defs]

lemma job_inv_default: "job_inv job_default"
  by (simp add: job_inv_def job_default_def)

lemma step_keep_inv: "job_inv j \<Longrightarrow> \<not> job_removed j \<Longrightarrow> step_keep b j = Some (j', out) \<Longrightarrow> job_inv j'"
  by (auto simp: step_defs job_inv_def MAX_ATTEMPTS_def Let_def
           split: if_splits option.splits Option.bind_splits)

lemma step_change_inv: "job_inv j \<Longrightarrow> \<not> job_removed j \<Longrightarrow> step_change j = Some (j', out) \<Longrightarrow> job_inv j'"
  by (auto simp: step_defs job_inv_def MAX_ATTEMPTS_def Let_def
           split: if_splits option.splits Option.bind_splits)

lemma step_ended_inv:
  "job_inv j \<Longrightarrow> \<not> job_removed j \<Longrightarrow> step_ended oc d j now = Some (j', out) \<Longrightarrow> job_inv j'"
  by (auto simp: step_defs job_inv_def MAX_ATTEMPTS_def Let_def
           split: if_splits option.splits Option.bind_splits verdict_kind.splits)

lemma step_wake_inv: "job_inv j \<Longrightarrow> \<not> job_removed j \<Longrightarrow> step_wake j now = Some (j', out) \<Longrightarrow> job_inv j'"
  by (auto simp: step_defs job_inv_def MAX_ATTEMPTS_def Let_def
           split: if_splits option.splits Option.bind_splits)

lemma job_inv_removed: "job_inv (job_default\<lparr>job_removed := True\<rparr>)"
  by (simp add: job_inv_def job_default_def)

lemma notify_step_inv_aux:
  assumes "job_inv j" and "notify_step j e now = Some (j', out)"
  shows "job_inv j'"
proof (cases "job_removed j")
  case True
  with assms show ?thesis by (simp add: notify_step.simps)
next
  case False
  with assms show ?thesis
    by (cases e)
       (auto simp: notify_step.simps job_inv_removed
             intro: step_keep_inv step_change_inv step_ended_inv step_wake_inv)
qed

text \<open>A run of the kernel over timed events.\<close>

abbreviation notify_run ::
  "job \<Rightarrow> (notify_event \<times> u64) list \<Rightarrow> (job \<times> notify_action list) option" where
  "notify_run \<equiv> run_opt (\<lambda>j (e, now). notify_step j e now)"

lemma notify_run_inv:
  assumes "job_inv j" and "notify_run j es = Some (j', out)"
  shows "job_inv j'"
  by (rule run_opt_invariant [where P = job_inv, OF _ assms])
     (auto dest: notify_step_inv_aux)

text \<open>
  C21. Whatever events arrive in whatever order, the kernel keeps its invariant from a fresh
  job on; in particular a job whose latest keep asked for callbacks and that is owed one
  always has an attempt in flight or a wake-up scheduled: no owed callback is forgotten.
\<close>

theorem notify_never_forgets:
  assumes "notify_run job_default es = Some (j, out)" and "job_settled j \<noteq> job_owed j"
  shows "job_settled j < job_owed j \<and> job_notify j \<and> \<not> job_removed j \<and>
         ((job_in_flight j \<noteq> None) \<noteq> (job_wake_at j \<noteq> None))"
proof -
  from notify_run_inv [OF job_inv_default assms(1)] have "job_inv j" .
  with assms(2) show ?thesis
    by (auto simp: job_inv_def job_default_def split: option.splits)
qed

theorem notify_never_forgets_witness:
  "\<exists>j out. notify_run job_default [(Keep True, 5), (AttemptEnded Failed 0, 9)] = Some (j, out) \<and>
     job_settled j < job_owed j \<and> job_wake_at j = Some 1009"
proof -
  let ?es = "[(Keep True, 5), (AttemptEnded Failed 0, 9)]"
  obtain j out where run: "notify_run job_default ?es = Some (j, out)"
    and ne: "job_settled j \<noteq> job_owed j" and wake: "job_wake_at j = Some 1009"
    by (simp add: step_defs job_default_def Let_def wait_ms_def delay_ms_def MAX_ATTEMPTS_def
                  checked_add_def)
  with notify_never_forgets [OF run ne] show ?thesis by blast
qed

section \<open>No panic, one attempt at a time, what an answer settles\<close>

lemma delay_ms_le: "delay_ms n \<le> 60000"
  by (simp add: delay_ms_def)

lemma wait_ms_le: "wait_ms n draw \<le> delay_ms n"
  by (simp add: wait_ms_def Let_def)

text \<open>
  On a job that satisfies the invariant the kernel never panics, as long as fewer than
  2^64 - 1 callbacks were owed and the clock has a minute left before its width runs out:
  no other checked addition can overflow.
\<close>

theorem notify_step_total:
  assumes "job_inv j" and "job_owed j < U64_MAX" and "now + 60000 \<le> U64_MAX"
  shows "\<exists>j' out. notify_step j e now = Some (j', out)"
proof -
  have "now + wait_ms (job_attempts j) d \<le> U64_MAX" for d
    using assms(3) wait_ms_le [of "job_attempts j" d] delay_ms_le [of "job_attempts j"] by linarith
  with assms(1,2) show ?thesis
    by (cases e)
       (auto simp: step_defs job_inv_def MAX_ATTEMPTS_def Let_def checked_add_def
             split: option.splits verdict_kind.splits)
qed

theorem notify_step_total_witness:
  "job_inv job_default \<and> (\<exists>j' out. notify_step job_default (Keep True) 0 = Some (j', out))"
  using notify_step_total [OF job_inv_default, of 0 "Keep True"] job_inv_default
  by (simp add: job_default_def)

text \<open>
  The endpoint's side of the actions: whether it has a request open after carrying them out,
  \<open>None\<close> if it would have to open a second one or abandon one that is not there.
\<close>

fun endpoint_open :: "bool \<Rightarrow> notify_action list \<Rightarrow> bool option" where
  "endpoint_open busy [] = Some busy"
| "endpoint_open busy (Begin n # out) = (if busy then None else endpoint_open True out)"
| "endpoint_open busy (Abandon # out) = (if busy then endpoint_open False out else None)"
| "endpoint_open busy (WakeAt t # out) = endpoint_open busy out"

fun is_ended :: "notify_event \<Rightarrow> bool" where
  "is_ended (AttemptEnded _ _) = True"
| "is_ended _ = False"

text \<open>
  One notification per job at a time: an endpoint that carries out the actions in order
  never opens a second request beside the first and never abandons one it does not have, and
  afterwards it has one open exactly when the kernel says so.
\<close>

theorem notify_one_in_flight:
  assumes "job_inv j" and "notify_step j e now = Some (j', out)"
  shows "endpoint_open (job_in_flight j \<noteq> None \<and> \<not> is_ended e) out = Some (job_in_flight j' \<noteq> None)"
  using assms
  by (cases e)
     (auto simp: step_defs job_inv_def job_default_def Let_def
           split: option.splits verdict_kind.splits if_splits Option.bind_splits)

theorem notify_one_in_flight_witness:
  "\<exists>j j' out. notify_step job_default (Keep True) 0 = Some (j, [Begin 1]) \<and>
     notify_step j (Keep True) 7 = Some (j', out) \<and> out = [Abandon, Begin 1] \<and>
     endpoint_open True out = Some True"
proof -
  obtain j where j: "notify_step job_default (Keep True) 0 = Some (j, [Begin 1])"
    and inv: "job_inv j" and fl: "job_in_flight j = Some 1"
    by (simp add: step_defs job_default_def Let_def checked_add_def job_inv_def MAX_ATTEMPTS_def)
  obtain j' where j': "notify_step j (Keep True) 7 = Some (j', [Abandon, Begin 1])"
    using j by (auto simp: step_defs job_default_def Let_def checked_add_def)
  from notify_one_in_flight [OF inv j'] fl have "endpoint_open True [Abandon, Begin 1] = Some (job_in_flight j' \<noteq> None)"
    by simp
  with j j' show ?thesis by auto
qed

text \<open>
  What an attempt's end settles. A final answer (or the twelfth failure of a count with
  nothing newer owed) settles exactly the callbacks owed when that attempt began; a retryable
  failure settles nothing; callbacks owed later stay owed, and then the next attempt begins at
  once as the first of a new count and carries everything owed by now.
\<close>

theorem attempt_settles_what_it_carried:
  assumes "job_inv j" and "job_in_flight j = Some c"
    and "notify_step j (AttemptEnded oc draw) now = Some (j', out)"
  shows "job_owed j' = job_owed j \<and>
         job_settled j' =
           (if verdict oc \<noteq> Retry \<or> (c = job_owed j \<and> job_attempts j = MAX_ATTEMPTS)
            then c else job_settled j) \<and>
         (c < job_owed j \<longrightarrow>
            out = [Begin 1] \<and> job_in_flight j' = Some (job_owed j) \<and> job_attempts j' = 1)"
  using assms
  by (cases "verdict oc")
     (auto simp: step_defs job_inv_def job_default_def Let_def MAX_ATTEMPTS_def checked_add_def
           split: if_splits Option.bind_splits)

theorem attempt_settles_witness:
  "\<exists>j j'. job_inv j \<and> job_in_flight j = Some 1 \<and> job_owed j = 2 \<and>
     notify_step j (AttemptEnded (Status 200) 0) 3 = Some (j', [Begin 1]) \<and>
     job_settled j' = 1 \<and> job_in_flight j' = Some 2"
proof -
  let ?j = "job_default\<lparr>job_notify := True, job_owed := 2, job_in_flight := Some 1, job_attempts := 4\<rparr>"
  have inv: "job_inv ?j" by (simp add: job_inv_def job_default_def MAX_ATTEMPTS_def)
  have fl: "job_in_flight ?j = Some 1" by simp
  obtain j' where j': "notify_step ?j (AttemptEnded (Status 200) 0) 3 = Some (j', [Begin 1])"
    by (simp add: step_defs job_default_def Let_def checked_add_def)
  from attempt_settles_what_it_carried [OF inv fl j'] have "job_settled j' = 1 \<and> job_in_flight j' = Some 2"
    by (simp add: job_default_def)
  with inv j' show ?thesis
    by (intro exI [of _ ?j] exI [of _ j']) (simp add: job_default_def)
qed

section \<open>A receiver that never answers\<close>

text \<open>
  An endpoint whose every attempt fails: the attempt in flight ends with no status, and if
  the kernel asked for a wake-up it is woken exactly then. The result carries the actions
  and the clock at the end.
\<close>

fun fail_rounds :: "u32 list \<Rightarrow> u64 \<Rightarrow> job \<Rightarrow> (job \<times> notify_action list \<times> u64) option" where
  "fail_rounds [] now j = Some (j, [], now)"
| "fail_rounds (d # ds) now j = do {
     (j1, o1) \<leftarrow> notify_step j (AttemptEnded Failed d) now;
     (case job_wake_at j1 of
        Some due \<Rightarrow> do {
          (j2, o2) \<leftarrow> notify_step j1 Wake due;
          (j3, o3, t) \<leftarrow> fail_rounds ds due j2;
          Some (j3, o1 @ o2 @ o3, t) }
      | None \<Rightarrow> do {
          (j3, o3, t) \<leftarrow> fail_rounds ds now j1;
          Some (j3, o1 @ o3, t) }) }"

fun count_begin :: "notify_action list \<Rightarrow> nat" where
  "count_begin [] = 0"
| "count_begin (a # out) = (case a of Begin _ \<Rightarrow> 1 | _ \<Rightarrow> 0) + count_begin out"

lemma count_begin_append [simp]: "count_begin (a @ b) = count_begin a + count_begin b"
  by (induction a) auto

text \<open>One failed round short of the last: the same debt is in flight again, one attempt on.\<close>

lemma fail_round_again:
  assumes "job_inv j" and "job_in_flight j = Some (job_owed j)" and "job_attempts j < MAX_ATTEMPTS"
    and "now + 60000 \<le> U64_MAX"
    and due: "due = now + wait_ms (job_attempts j) d"
  shows "\<exists>j1 j2. notify_step j (AttemptEnded Failed d) now = Some (j1, [WakeAt due]) \<and>
           job_wake_at j1 = Some due \<and>
           notify_step j1 Wake due = Some (j2, [Begin (Suc (job_attempts j))]) \<and>
           due \<le> now + 60000 \<and> job_inv j2 \<and> job_owed j2 = job_owed j \<and>
           job_in_flight j2 = Some (job_owed j2) \<and> job_attempts j2 = Suc (job_attempts j)"
proof -
  have "due \<le> now + 60000"
    using wait_ms_le [of "job_attempts j" d] delay_ms_le [of "job_attempts j"]
    by (simp add: due)
  with assms show ?thesis
    by (auto simp: step_defs job_inv_def job_default_def MAX_ATTEMPTS_def checked_add_def)
qed

lemma fail_round_last:
  assumes "job_inv j" and "job_in_flight j = Some (job_owed j)" and "job_attempts j = MAX_ATTEMPTS"
  shows "\<exists>j1. notify_step j (AttemptEnded Failed d) now = Some (j1, []) \<and>
           job_settled j1 = job_owed j \<and> job_owed j1 = job_owed j \<and>
           job_in_flight j1 = None \<and> job_wake_at j1 = None \<and> job_attempts j1 = 0"
  using assms by (auto simp: step_defs job_inv_def job_default_def MAX_ATTEMPTS_def)

text \<open>
  C35. A count ends. With a receiver that never answers and no new event, an attempt in flight
  that carries everything owed, as attempt number \<open>k\<close> of its count, is followed by exactly
  12 - \<open>k\<close> more, each at most a minute after the last; then everything owed is settled and
  the job is idle. So one count makes at most twelve attempts and takes at most twelve minutes
  of waiting.
\<close>

theorem silent_receiver_settles:
  assumes "job_inv j" and "job_in_flight j = Some (job_owed j)"
    and "length ds = Suc MAX_ATTEMPTS - job_attempts j"
    and "now + 60000 * length ds \<le> U64_MAX"
  shows "\<exists>j' out t. fail_rounds ds now j = Some (j', out, t) \<and>
           job_settled j' = job_owed j \<and> job_owed j' = job_owed j \<and>
           job_in_flight j' = None \<and> job_wake_at j' = None \<and>
           count_begin out = MAX_ATTEMPTS - job_attempts j \<and> t \<le> now + 60000 * (length ds - 1)"
  using assms
proof (induction ds arbitrary: j now)
  case Nil
  then show ?case by (auto simp: job_inv_def)
next
  case (Cons d ds)
  have le: "job_attempts j \<le> MAX_ATTEMPTS" using Cons.prems(1,2) by (simp add: job_inv_def)
  show ?case
  proof (cases "job_attempts j = MAX_ATTEMPTS")
    case True
    with Cons.prems(3) have "ds = []" by simp
    with fail_round_last [OF Cons.prems(1,2) True, of d now] True show ?thesis by auto
  next
    case False
    with le have lt: "job_attempts j < MAX_ATTEMPTS" by simp
    define due where "due = now + wait_ms (job_attempts j) d"
    from Cons.prems(4) have "now + 60000 \<le> U64_MAX" by simp
    from fail_round_again [OF Cons.prems(1,2) lt this due_def]
    obtain j1 j2 where s1: "notify_step j (AttemptEnded Failed d) now = Some (j1, [WakeAt due])"
      and w1: "job_wake_at j1 = Some due"
      and s2: "notify_step j1 Wake due = Some (j2, [Begin (Suc (job_attempts j))])"
      and due: "due \<le> now + 60000" and inv2: "job_inv j2" and owed2: "job_owed j2 = job_owed j"
      and fl2: "job_in_flight j2 = Some (job_owed j2)"
      and at2: "job_attempts j2 = Suc (job_attempts j)"
      by blast
    have len: "length ds = Suc MAX_ATTEMPTS - job_attempts j2"
      using Cons.prems(3) at2 by simp
    have "due + 60000 * length ds \<le> U64_MAX" using Cons.prems(4) due by simp
    from Cons.IH [OF inv2 fl2 len this] obtain j' out t
      where rest: "fail_rounds ds due j2 = Some (j', out, t)"
        and fin: "job_settled j' = job_owed j2" "job_owed j' = job_owed j2"
          "job_in_flight j' = None" "job_wake_at j' = None"
          "count_begin out = MAX_ATTEMPTS - job_attempts j2" "t \<le> due + 60000 * (length ds - 1)"
      by blast
    have "ds \<noteq> []" using len at2 lt by auto
    then have "t \<le> now + 60000 * (length (d # ds) - 1)"
      using fin(6) due by (cases ds) auto
    with s1 w1 s2 rest fin owed2 at2 lt show ?thesis by auto
  qed
qed

theorem silent_receiver_settles_witness:
  "\<exists>j j' out t. job_inv j \<and> job_attempts j = 10 \<and> fail_rounds [0, 7, 4294967295] 100 j = Some (j', out, t) \<and>
     job_settled j' = 3 \<and> count_begin out = 2"
proof -
  let ?j = "job_default\<lparr>job_notify := True, job_owed := 3, job_in_flight := Some 3, job_attempts := 10\<rparr>"
  have inv: "job_inv ?j" by (simp add: job_inv_def job_default_def MAX_ATTEMPTS_def)
  have "job_in_flight ?j = Some (job_owed ?j)" by simp
  from silent_receiver_settles [OF inv this, of "[0, 7, 4294967295]" 100]
  obtain j' out t where "fail_rounds [0, 7, 4294967295] 100 ?j = Some (j', out, t)"
    "job_settled j' = 3" "count_begin out = 2"
    by (auto simp: MAX_ATTEMPTS_def simp del: fail_rounds.simps)
  moreover have "job_attempts ?j = 10" by simp
  ultimately show ?thesis using inv by blast
qed

section \<open>The schedule\<close>

text \<open>
  The wait after failed attempt \<open>n\<close> is exactly what the protocol asks for,
  d(n) (1 - u/2) milliseconds with u = draw / 2^32, rounded to the nearest millisecond with
  halves up, although the code computes it with integers only; it lies between half of d(n)
  and d(n), and d(n) never passes a minute. No intermediate value leaves 64 bits.
\<close>

theorem wait_ms_is_rounded_schedule:
  assumes "draw < 2 ^ 32"
  shows "int (wait_ms n draw) =
           \<lfloor>real (delay_ms n) * (1 - (real draw / 2 ^ 32) / 2) + 1 / 2\<rfloor> \<and>
         delay_ms n \<le> 2 * wait_ms n draw \<and> wait_ms n draw \<le> delay_ms n \<and>
         delay_ms n \<le> 60000 \<and> delay_ms n * draw \<le> U64_MAX"
proof -
  define a where "a = delay_ms n"
  define t where "t = a * draw"
  define q where "q = t div 2 ^ 33"
  define r where "r = t mod 2 ^ 33"
  have a_le: "a \<le> 60000" by (simp add: a_def delay_ms_le)
  have t_eq: "t = q * 2 ^ 33 + r" by (simp add: q_def r_def)
  have r_lt: "r < 2 ^ 33" by (simp add: r_def)
  have "t \<le> a * (2 ^ 32 - 1)" using assms by (simp add: t_def)
  then have t_lt: "2 * t + 2 * a \<le> a * 2 ^ 33" by (simp add: algebra_simps)
  have w: "wait_ms n draw = a - q - (if r > 2 ^ 32 then 1 else 0)"
    by (simp add: wait_ms_def Let_def a_def t_def q_def r_def)
  have q_le: "2 * q \<le> a" using t_eq t_lt by (simp add: algebra_simps)
  have strict: "2 * (q + 1) \<le> a" if "r > 2 ^ 32"
  proof -
    have "2 * (q * 2 ^ 33 + 2 ^ 32) < 2 * t" using t_eq that by simp
    also have "2 * t \<le> a * 2 ^ 33" using t_lt by (rule add_leD1)
    finally have "(2 * q + 1) * 2 ^ 33 < a * (2 ^ 33 :: nat)" by (simp add: algebra_simps)
    then have "2 * q + 1 < a" by simp
    then show ?thesis by simp
  qed
  have real_w: "real (wait_ms n draw) = real a - real q - (if r > 2 ^ 32 then 1 else 0)"
    using q_le strict by (auto simp: w of_nat_diff)
  have "real a * (1 - (real draw / 2 ^ 32) / 2) = real a - real t / 2 ^ 33"
    by (simp add: t_def algebra_simps)
  also have "real t / 2 ^ 33 = real q + real r / 2 ^ 33"
    by (simp add: t_eq add_divide_distrib)
  finally have val: "real a * (1 - (real draw / 2 ^ 32) / 2) + 1 / 2
      = real a - real q - real r / 2 ^ 33 + 1 / 2" by simp
  have "real r < real (2 ^ 33)" using r_lt by (simp only: of_nat_less_iff)
  then have r_real: "real r < 2 ^ 33" by simp
  have "\<lfloor>real a * (1 - (real draw / 2 ^ 32) / 2) + 1 / 2\<rfloor> = int (wait_ms n draw)"
    unfolding val
  proof (rule floor_unique)
    show "real_of_int (int (wait_ms n draw)) \<le> real a - real q - real r / 2 ^ 33 + 1 / 2"
      using r_real by (auto simp: real_w field_simps)
    show "real a - real q - real r / 2 ^ 33 + 1 / 2 < real_of_int (int (wait_ms n draw)) + 1"
      by (auto simp: real_w field_simps)
  qed
  moreover have "a \<le> 2 * wait_ms n draw" using q_le strict by (auto simp: w)
  moreover have "a * draw \<le> U64_MAX"
    using mult_le_mono [OF a_le, of draw "2 ^ 32 - 1"] assms by simp
  ultimately show ?thesis using wait_ms_le [of n draw] delay_ms_le [of n] by (simp add: a_def)
qed

theorem wait_ms_is_rounded_schedule_witness:
  "(4294967295::nat) < 2 ^ 32 \<and> wait_ms 3 4294967295 = 2000 \<and>
   int (wait_ms 3 4294967295) =
     \<lfloor>real (delay_ms 3) * (1 - (real (4294967295::nat) / 2 ^ 32) / 2) + 1 / 2\<rfloor>"
  using wait_ms_is_rounded_schedule [of 4294967295 3]
  by (simp add: wait_ms_def delay_ms_def Let_def)

section \<open>Reading the callback body back\<close>

text \<open>A JSON string reader (RFC 8259) over ASCII escapes, as the receiver has one.\<close>

definition unhex :: "char \<Rightarrow> nat option" where
  "unhex c = digit_val 16 c"

definition read_escape :: "string \<Rightarrow> (char \<times> string) option" where
  "read_escape s =
     (case s of
        [] \<Rightarrow> None
      | c # r \<Rightarrow>
          (if c = CHR 0x22 \<or> c = CHR 0x5C \<or> c = CHR ''/'' then Some (c, r)
           else if c = CHR ''b'' then Some (CHR 0x08, r)
           else if c = CHR ''f'' then Some (CHR 0x0C, r)
           else if c = CHR ''n'' then Some (CHR 0x0A, r)
           else if c = CHR ''r'' then Some (CHR 0x0D, r)
           else if c = CHR ''t'' then Some (CHR 0x09, r)
           else if c = CHR ''u'' then
             (case r of
                z1 # z2 # h # l # r' \<Rightarrow> do {
                  x \<leftarrow> unhex h;
                  y \<leftarrow> unhex l;
                  (if z1 = CHR ''0'' \<and> z2 = CHR ''0'' \<and> x < 8
                   then Some (char_of (16 * x + y), r') else None) }
              | _ \<Rightarrow> None)
           else None))"

lemma read_escape_shorter: "read_escape s = Some (c, r) \<Longrightarrow> length r < length s"
  by (auto simp: read_escape_def split: list.splits if_splits Option.bind_splits)

function read_json_chars :: "string \<Rightarrow> (string \<times> string) option" where
  "read_json_chars [] = None"
| "read_json_chars (c # s) =
     (if c = CHR 0x22 then Some ([], s)
      else if c = CHR 0x5C then
        (case read_escape s of
           None \<Rightarrow> None
         | Some (d, r) \<Rightarrow>
             (case read_json_chars r of None \<Rightarrow> None | Some (t, u) \<Rightarrow> Some (d # t, u)))
      else if byte c < 32 then None
      else (case read_json_chars s of None \<Rightarrow> None | Some (t, u) \<Rightarrow> Some (c # t, u)))"
  by pat_completeness auto
termination
  by (relation "measure length") (auto dest: read_escape_shorter)

definition read_json_string :: "string \<Rightarrow> (string \<times> string) option" where
  "read_json_string s = (case s of [] \<Rightarrow> None | c # r \<Rightarrow> if c = CHR 0x22 then read_json_chars r else None)"

definition parse_body :: "string \<Rightarrow> (string \<times> string) option" where
  "parse_body s = do {
     s \<leftarrow> strip_prefix body_prefix s;
     (scope, s) \<leftarrow> read_json_string s;
     s \<leftarrow> strip_prefix body_middle s;
     (jid, s) \<leftarrow> read_json_string s;
     (if s = ''}'' then Some (scope, jid) else None) }"

lemma unhex_hex_lower: "d < 16 \<Longrightarrow> unhex (hex_lower d) = Some d"
proof -
  have "\<forall>d \<in> set [0..<16]. unhex (hex_lower d) = Some d"
    by (simp add: unhex_def hex_lower_def digit_val_def is_ascii_digit_def is_ascii_lower_def
                  is_ascii_upper_def upt_conv_Cons)
  then show "d < 16 \<Longrightarrow> unhex (hex_lower d) = Some d" by simp
qed

lemma read_json_chars_escape:
  "read_json_chars (json_escape c @ s) =
     (case read_json_chars s of None \<Rightarrow> None | Some (t, u) \<Rightarrow> Some (c # t, u))"
proof (cases "byte c < 32")
  case True
  then have "unhex (hex_lower (byte c div 16)) = Some (byte c div 16)"
    "unhex (hex_lower (byte c mod 16)) = Some (byte c mod 16)"
    by (auto intro: unhex_hex_lower)
  moreover have "byte c div 16 < 8" using True by simp
  ultimately show ?thesis
    by (auto simp: json_escape_def read_escape_def)
next
  case False
  then show ?thesis by (auto simp: json_escape_def read_escape_def)
qed

lemma read_json_chars_concat:
  "read_json_chars (concat (map json_escape s) @ CHR 0x22 # r) = Some (s, r)"
  by (induction s) (simp_all add: read_json_chars_escape)

lemma read_json_string_json_string: "read_json_string (json_string s @ r) = Some (s, r)"
  by (simp add: read_json_string_def json_string_def read_json_chars_concat)

text \<open>
  C38. The callback body is well formed whatever the scope and the job id contain: a receiver
  that reads the three fields gets back exactly the scope and the id, so a quote, a backslash
  or a control character in either cannot forge another field.
\<close>

theorem notify_body_roundtrip: "parse_body (notify_body scope jid) = Some (scope, jid)"
  by (simp add: parse_body_def notify_body_def read_json_string_json_string)

end
