(* ===== verification/Notify_Grammar.thy ===== *)
theory Notify_Grammar
  imports Exec_Notify
begin

text \<open>
  The addresses and tokens a \<^verbatim>\<open>keep\<close> may ask to be notified with, as a grammar, and the proof
  that \<^verbatim>\<open>check_notify\<close> (\<^verbatim>\<open>exec-notify\<close>) accepts exactly it. The grammar says which
  texts concatenated make an address and lists its characters; the code splits at the first
  \<^verbatim>\<open>://\<close>, the first \<^verbatim>\<open>/\<close> or \<^verbatim>\<open>?\<close>, the first \<^verbatim>\<open>]\<close> and the last \<^verbatim>\<open>:\<close>, and tests bytes.
\<close>

section \<open>The grammar\<close>

definition alnum_chars :: string where
  "alnum_chars = ''ABCDEFGHIJKLMNOPQRSTUVWXYZabcdefghijklmnopqrstuvwxyz0123456789''"

definition digit_chars :: string where
  "digit_chars = ''0123456789''"

text \<open>The characters of a registered name (RFC 3986), and of a token68 (RFC 9110).\<close>

definition name_chars :: string where
  "name_chars = alnum_chars @ ''-._~%!$&()*+,;='' @ [CHR 0x27]"

definition token_chars :: string where
  "token_chars = alnum_chars @ ''-._~+/''"

definition bracketed :: "string \<Rightarrow> nat list \<Rightarrow> bool" where
  "bracketed host groups \<longleftrightarrow>
     (\<exists>v6. host = ''['' @ v6 @ '']'' \<and> set v6 \<inter> set ''/?@]'' = {} \<and> parse_ipv6 v6 = Some groups)"

definition host_text :: "string \<Rightarrow> bool" where
  "host_text host \<longleftrightarrow>
     host \<noteq> [] \<and> set host \<subseteq> set name_chars \<or> (\<exists>groups. bracketed host groups)"

text \<open>The hosts that stand for the machine itself: by name, in 127.0.0.0/8, or \<^verbatim>\<open>::1\<close>.\<close>

definition dotted :: "nat \<Rightarrow> nat \<Rightarrow> nat \<Rightarrow> nat \<Rightarrow> string" where
  "dotted a b c d = show_nat a @ ''.'' @ show_nat b @ ''.'' @ show_nat c @ ''.'' @ show_nat d"

definition own_machine :: "string \<Rightarrow> bool" where
  "own_machine host \<longleftrightarrow>
     to_ascii_lowercase host = ''localhost'' \<or>
     (\<exists>b c d. b \<le> 255 \<and> c \<le> 255 \<and> d \<le> 255 \<and> host = dotted 127 b c d) \<or>
     bracketed host [0, 0, 0, 0, 0, 0, 0, 1]"

definition port_text :: "string \<Rightarrow> bool" where
  "port_text p \<longleftrightarrow> p = [] \<or>
     (\<exists>ds. p = '':'' @ ds \<and> set ds \<subseteq> set digit_chars \<and> digits_val ds 0 \<le> 65535)"

definition tail_text :: "string \<Rightarrow> bool" where
  "tail_text rest \<longleftrightarrow> rest = [] \<or> hd rest = CHR ''/'' \<or> hd rest = CHR ''?''"

definition callback_address :: "string \<Rightarrow> bool" where
  "callback_address url \<longleftrightarrow>
     length url \<le> 2048 \<and> (\<forall>b \<in> set url. 32 < byte b \<and> byte b < 127 \<and> b \<noteq> CHR ''#'') \<and>
     (\<exists>scheme host p rest. url = scheme @ ''://'' @ host @ p @ rest \<and>
        host_text host \<and> port_text p \<and> tail_text rest \<and>
        (to_ascii_lowercase scheme = ''https'' \<or>
         to_ascii_lowercase scheme = ''http'' \<and> own_machine host))"

definition bearer_token :: "string \<Rightarrow> bool" where
  "bearer_token token \<longleftrightarrow>
     length token \<le> 512 \<and>
     (\<exists>body n. token = body @ replicate n CHR ''='' \<and> body \<noteq> [] \<and> set body \<subseteq> set token_chars)"

section \<open>Characters\<close>

lemma byte_range: "b \<le> 256 \<Longrightarrow> c \<in> set (map char_of [a..<b]) \<longleftrightarrow> a \<le> byte c \<and> byte c < b"
proof
  assume b: "b \<le> 256" and c: "a \<le> byte c \<and> byte c < b"
  then show "c \<in> set (map char_of [a..<b])" by (auto simp: image_iff intro!: bexI [of _ "byte c"])
qed auto

lemma digit_range: "map char_of [48..<58] = digit_chars"
  by code_simp

lemma alnum_range:
  "map char_of ([65..<91] @ [97..<123] @ [48..<58]) = alnum_chars"
  by code_simp

lemma digit_iff: "is_ascii_digit c \<longleftrightarrow> c \<in> set digit_chars"
  unfolding digit_range [symmetric] by (subst byte_range) (auto simp: is_ascii_digit_def)

lemma alphanumeric_iff: "is_ascii_alphanumeric c \<longleftrightarrow> c \<in> set alnum_chars"
proof -
  have "c \<in> set (map char_of [65..<91]) \<longleftrightarrow> 65 \<le> byte c \<and> byte c < 91"
    "c \<in> set (map char_of [97..<123]) \<longleftrightarrow> 97 \<le> byte c \<and> byte c < 123"
    "c \<in> set (map char_of [48..<58]) \<longleftrightarrow> 48 \<le> byte c \<and> byte c < 58"
    by (simp_all only: byte_range numeral_le_iff semiring_norm)
  then have "c \<in> set alnum_chars \<longleftrightarrow>
      65 \<le> byte c \<and> byte c < 91 \<or> 97 \<le> byte c \<and> byte c < 123 \<or> 48 \<le> byte c \<and> byte c < 58"
    unfolding alnum_range [symmetric] map_append set_append Un_iff by (simp only:)
  then show ?thesis
    by (auto simp: is_ascii_alphanumeric_def is_ascii_alphabetic_def is_ascii_digit_def
        is_ascii_lower_def is_ascii_upper_def)
qed

lemma name_char_iff:
  "is_ascii_alphanumeric b \<or> b \<in> set ''-._~%!$&'' \<or> b = CHR 0x27 \<or> b \<in> set ''()*+,;='' \<longleftrightarrow>
   b \<in> set name_chars"
  by (auto simp: alphanumeric_iff name_chars_def)

lemma token68_char_iff: "token68_char b \<longleftrightarrow> b \<in> set token_chars"
  by (auto simp: token68_char_def alphanumeric_iff token_chars_def)

lemma not_name_char:
  "CHR '':'' \<notin> set name_chars" "CHR ''/'' \<notin> set name_chars" "CHR ''?'' \<notin> set name_chars"
  "CHR ''@'' \<notin> set name_chars" "CHR ''['' \<notin> set name_chars"
  by code_simp+

lemma not_token_char: "CHR ''='' \<notin> set token_chars"
  by code_simp

section \<open>Splitting\<close>

lemma split_once_Some: "split_once p s = Some (a, b) \<Longrightarrow> s = a @ p @ b"
proof (induction p s arbitrary: a rule: split_once.induct)
  case (2 p c s)
  show ?case
  proof (cases "strip_prefix p (c # s)")
    case None
    with 2 show ?thesis by (auto split: option.splits prod.splits)
  next
    case (Some rest)
    with 2 show ?thesis by (auto simp: strip_prefix_def split: if_splits) (metis append_take_drop_id)
  qed
qed (auto split: if_splits)

lemma trim_end_matches_split: "\<exists>n. s = trim_end_matches c s @ replicate n c"
proof -
  have "rev s = takeWhile (\<lambda>d. d = c) (rev s) @ dropWhile (\<lambda>d. d = c) (rev s)" by simp
  then have "s = trim_end_matches c s @ rev (takeWhile (\<lambda>d. d = c) (rev s))"
    unfolding trim_end_matches_def by (metis rev_append rev_rev_ident)
  moreover have "rev (takeWhile (\<lambda>d. d = c) (rev s)) = replicate (length (takeWhile (\<lambda>d. d = c) (rev s))) c"
    by (rule replicate_eqI) (auto dest: set_takeWhileD)
  ultimately show ?thesis by metis
qed

lemma strip_suffix_Some: "strip_suffix p s = Some r \<longleftrightarrow> s = r @ p"
  unfolding strip_suffix_def by (auto simp: strip_prefix_Some rev_eq_append_conv) (metis rev_rev_ident)

lemma find_char_Some: "find_char c s = Some (a, b) \<longleftrightarrow> s = a @ c # b \<and> c \<notin> set a"
proof
  assume "find_char c s = Some (a, b)"
  then have c: "c \<in> set s" and a: "a = takeWhile (\<lambda>d. d \<noteq> c) s" and b: "b = tl (dropWhile (\<lambda>d. d \<noteq> c) s)"
    by (auto simp: find_char_def split: if_splits)
  then have "dropWhile (\<lambda>d. d \<noteq> c) s = c # b"
    by (metis (mono_tags, lifting) dropWhile_eq_Nil_conv hd_dropWhile list.collapse)
  with a have "s = a @ c # b" by (metis takeWhile_dropWhile_id)
  moreover have "c \<notin> set a" using a by (auto dest: set_takeWhileD)
  ultimately show "s = a @ c # b \<and> c \<notin> set a" ..
next
  assume "s = a @ c # b \<and> c \<notin> set a"
  then have "takeWhile (\<lambda>d. d \<noteq> c) s = a" "dropWhile (\<lambda>d. d \<noteq> c) s = c # b" "c \<in> set s"
    by (auto simp: takeWhile_append dropWhile_append)
  then show "find_char c s = Some (a, b)" by (simp add: find_char_def)
qed

lemma rsplit_find: "rsplit_once_char c s = map_option (\<lambda>(a, b). (rev b, rev a)) (find_char c (rev s))"
  by (simp add: rsplit_once_char_def find_char_def)

lemma rsplit_Some: "rsplit_once_char c s = Some (a, b) \<longleftrightarrow> s = a @ c # b \<and> c \<notin> set b"
proof -
  have "rsplit_once_char c s = Some (a, b) \<longleftrightarrow> find_char c (rev s) = Some (rev b, rev a)"
    unfolding rsplit_find by (auto simp: map_option_case split: option.splits)
  also have "\<dots> \<longleftrightarrow> s = a @ c # b \<and> c \<notin> set b"
    unfolding find_char_Some by (metis append.assoc append_Cons append_Nil rev.simps(2) rev_append rev_rev_ident set_rev)
  finally show ?thesis .
qed

lemma rsplit_None: "rsplit_once_char c s = None \<longleftrightarrow> c \<notin> set s"
  by (simp add: rsplit_once_char_def)

lemma split_once_at: "CHR '':'' \<notin> set a \<Longrightarrow> split_once ''://'' (a @ ''://'' @ b) = Some (a, b)"
  by (induction a) (auto simp: strip_prefix_def)

lemma trim_end_matches_padded:
  "c \<notin> set body \<Longrightarrow> trim_end_matches c (body @ replicate n c) = body"
  by (cases "rev body") (auto simp: trim_end_matches_def dropWhile_append)

section \<open>Tokens\<close>

lemma token_rule:
  "token \<noteq> [] \<and> length token \<le> 512 \<and> trim_end_matches CHR ''='' token \<noteq> [] \<and>
   list_all token68_char (trim_end_matches CHR ''='' token) \<longleftrightarrow> bearer_token token"
  (is "?L \<longleftrightarrow> _")
proof
  assume ?L
  with trim_end_matches_split [of token "CHR ''=''"] show "bearer_token token"
    unfolding bearer_token_def token68_char_iff list_all_iff by blast
next
  assume "bearer_token token"
  then obtain body n where b: "token = body @ replicate n CHR ''=''" "body \<noteq> []"
    "set body \<subseteq> set token_chars" "length token \<le> 512" unfolding bearer_token_def by blast
  then have "trim_end_matches CHR ''='' token = body"
    using not_token_char trim_end_matches_padded by (metis subsetD)
  with b show ?L unfolding token68_char_iff list_all_iff by auto
qed

section \<open>Hosts and ports\<close>

abbreviation port_suffix :: "string option \<Rightarrow> string" where
  "port_suffix port \<equiv> (case port of None \<Rightarrow> [] | Some p \<Rightarrow> CHR '':'' # p)"

lemma host_chars_name: "take 1 host \<noteq> ''['' \<Longrightarrow> host_chars_ok host \<longleftrightarrow> set host \<subseteq> set name_chars"
  unfolding host_chars_ok_def name_char_iff list_all_iff by blast

lemma name_not_bracket: "set host \<subseteq> set name_chars \<Longrightarrow> take 1 host \<noteq> ''[''"
  using not_name_char(5) by (cases host) auto

lemma port_rule: "port_ok port \<Longrightarrow> port_text (port_suffix port)"
proof (cases port)
  case (Some ds)
  moreover assume "port_ok port"
  ultimately have d: "list_all is_ascii_digit ds" and v: "ds = [] \<or> parse_uint U16_MAX ds \<noteq> None"
    by (auto simp: port_ok_def)
  from d have "set ds \<subseteq> set digit_chars" unfolding list_all_iff digit_iff by blast
  moreover have "digits_val ds 0 \<le> 65535"
    using d v by (cases "ds = []") (auto simp: digits_val_def [of "[]"] parse_uint_digits parse_digits_value split: if_splits)
  ultimately show ?thesis using Some by (simp add: port_text_def)
qed (simp add: port_text_def)

lemma port_text_cases:
  assumes "port_text p"
  obtains "p = []" | ds where "p = CHR '':'' # ds" "port_ok (Some ds)" "set ds \<subseteq> set digit_chars"
proof (cases "p = []")
  case False
  with assms obtain ds where ds: "p = CHR '':'' # ds" "set ds \<subseteq> set digit_chars" "digits_val ds 0 \<le> 65535"
    unfolding port_text_def by auto
  then have "list_all is_ascii_digit ds" unfolding digit_iff list_all_iff by blast
  with ds have "port_ok (Some ds)" by (cases "ds = []") (simp_all add: port_ok_def parse_uint_digits parse_digits_value)
  with ds that show ?thesis by blast
qed (use that in blast)

lemma loopback_rule: "host_text host \<Longrightarrow> loopback host \<longleftrightarrow> own_machine host"
proof -
  have low: "eq_ignore_ascii_case host ''localhost'' \<longleftrightarrow> to_ascii_lowercase host = ''localhost''"
    by (simp add: eq_ignore_ascii_case_def to_ascii_lowercase_def to_ascii_lower_def is_ascii_upper_def)
  have n127: "show_nat 127 = ''127''" by (simp add: show_nat.simps char_of_def bit_0)
  assume "host_text host"
  then consider (name) "host \<noteq> []" "set host \<subseteq> set name_chars" | (v6) groups where "bracketed host groups"
    unfolding host_text_def by blast
  then show ?thesis
  proof cases
    case name
    then have "strip_prefix ''['' host = None" and nb: "\<not> bracketed host g" for g
      using name_not_bracket [of host] by (auto simp: strip_prefix_def bracketed_def)
    then have "loopback host \<longleftrightarrow> to_ascii_lowercase host = ''localhost'' \<or> (\<exists>a. parse_ipv4 host = Some a \<and> hd a = 127)"
      by (auto simp: loopback_def low split: option.splits)
    also have "(\<exists>a. parse_ipv4 host = Some a \<and> hd a = 127) \<longleftrightarrow>
        (\<exists>b c d. b \<le> 255 \<and> c \<le> 255 \<and> d \<le> 255 \<and> host = dotted 127 b c d)"
    proof
      assume "\<exists>a. parse_ipv4 host = Some a \<and> hd a = 127"
      then show "\<exists>b c d. b \<le> 255 \<and> c \<le> 255 \<and> d \<le> 255 \<and> host = dotted 127 b c d"
        unfolding parse_ipv4_iff dotted_def by (metis list.sel(1))
    next
      assume "\<exists>b c d. b \<le> 255 \<and> c \<le> 255 \<and> d \<le> 255 \<and> host = dotted 127 b c d"
      then obtain b c d where "b \<le> 255" "c \<le> 255" "d \<le> 255" "host = dotted 127 b c d" by blast
      then have "parse_ipv4 host = Some [127, b, c, d]" unfolding parse_ipv4_iff dotted_def by simp
      then show "\<exists>a. parse_ipv4 host = Some a \<and> hd a = 127" by simp
    qed
    finally show ?thesis using nb by (auto simp: own_machine_def)
  next
    case v6
    then obtain v where v: "host = ''['' @ v @ '']''" "set v \<inter> set ''/?@]'' = {}" "parse_ipv6 v = Some groups"
      unfolding bracketed_def by blast
    have sp: "strip_prefix ''['' host = Some (v @ '']'')" "strip_suffix '']'' (v @ '']'') = Some v"
      using v(1) by (simp_all add: strip_prefix_Some strip_suffix_Some)
    have "host \<noteq> dotted 127 b c d" for b c d using v(1) by (simp add: dotted_def n127)
    moreover have "bracketed host g \<longleftrightarrow> parse_ipv6 v = Some g" for g
      using v by (auto simp: bracketed_def)
    ultimately show ?thesis by (auto simp: loopback_def low own_machine_def sp)
  qed
qed

text \<open>
  The code reads an authority free of \<^verbatim>\<open>/\<close>, \<^verbatim>\<open>?\<close> and \<^verbatim>\<open>@\<close> as a host and a port exactly when it
  is one followed by the other.
\<close>

abbreviation authority_ok :: "string \<Rightarrow> string \<Rightarrow> string option \<Rightarrow> bool" where
  "authority_ok authority host port \<equiv>
     url_host_port authority = Inr (host, port) \<and> host \<noteq> [] \<and> host_chars_ok host \<and> port_ok port"

lemma authority_read:
  assumes "authority_ok authority host port" and plain: "set authority \<inter> set ''/?@'' = {}"
  shows "host_text host \<and> authority = host @ port_suffix port"
proof (cases "strip_prefix ''['' authority")
  case (Some v6)
  with assms(1) obtain addr after where f: "find_char CHR '']'' v6 = Some (addr, after)"
    and a: "parse_ipv6 addr \<noteq> None" and h: "host = ''['' @ addr @ '']''"
    and p: "after = port_suffix port"
    by (auto simp: url_host_port_def Let_def strip_prefix_Some split: option.splits if_splits)
  from Some f have auth: "authority = ''['' @ addr @ '']'' @ after" and c: "CHR '']'' \<notin> set addr"
    by (auto simp: strip_prefix_Some find_char_Some)
  with plain have "set addr \<inter> set ''/?@]'' = {}" by auto
  with a h have "\<exists>g. bracketed host g" unfolding bracketed_def by blast
  with auth h p show ?thesis by (simp add: host_text_def)
next
  case None
  with assms(1) have auth: "authority = host @ port_suffix port"
    by (auto simp: url_host_port_def rsplit_Some rsplit_None split: option.splits)
  moreover have "take 1 host \<noteq> ''[''" using None auth assms(1) by (cases host) (auto simp: strip_prefix_def)
  ultimately show ?thesis using assms(1) host_chars_name by (auto simp: host_text_def)
qed

lemma authority_written:
  assumes "host_text host" and "port_text p"
  shows "set (host @ p) \<inter> set ''/?@'' = {} \<and> (\<exists>port. authority_ok (host @ p) host port)"
proof -
  from assms(2) obtain port where port: "p = port_suffix port" "port_ok port" "set p \<inter> set ''/?@'' = {}"
    "\<forall>ds. port = Some ds \<longrightarrow> CHR '':'' \<notin> set ds"
  proof (cases rule: port_text_cases)
    case 1
    then show ?thesis by (intro that [of None]) (simp_all add: port_ok_def)
  next
    case (2 ds)
    moreover have "set digit_chars \<inter> set '':/?@'' = {}" by code_simp
    ultimately show ?thesis by (intro that [of "Some ds"]) auto
  qed
  from assms(1) consider (name) "host \<noteq> []" "set host \<subseteq> set name_chars" | (v6) groups where "bracketed host groups"
    unfolding host_text_def by blast
  then show ?thesis
  proof cases
    case name
    then have c: "CHR '':'' \<notin> set host" "set host \<inter> set ''/?@'' = {}" and t: "take 1 host \<noteq> ''[''"
      using not_name_char name_not_bracket by auto
    then have "strip_prefix ''['' (host @ p) = None" using name(1) by (cases host) (auto simp: strip_prefix_def)
    moreover have "rsplit_once_char CHR '':'' (host @ p) = (case port of None \<Rightarrow> None | Some ds \<Rightarrow> Some (host, ds))"
      using port(1,4) c(1) by (cases port) (simp_all add: rsplit_Some rsplit_None)
    ultimately have "url_host_port (host @ p) = Inr (host, port)"
      using port(1) by (cases port) (simp_all add: url_host_port_def)
    with name t port c host_chars_name show ?thesis by auto
  next
    case v6
    then obtain v where v: "host = ''['' @ v @ '']''" "set v \<inter> set ''/?@]'' = {}" "parse_ipv6 v = Some groups"
      unfolding bracketed_def by blast
    then have "find_char CHR '']'' (v @ '']'' @ p) = Some (v, p)" by (auto simp: find_char_Some)
    then have "url_host_port (host @ p) = Inr (host, port)"
      using v(1,3) port(1) by (cases port) (simp_all add: url_host_port_def strip_prefix_def)
    with v port show ?thesis by (auto simp: host_chars_ok_def)
  qed
qed

section \<open>Addresses\<close>

lemma scheme_letters:
  assumes "to_ascii_lowercase scheme = ''https'' \<or> to_ascii_lowercase scheme = ''http''"
  shows "url_scheme_ok scheme" and "CHR '':'' \<notin> set scheme"
proof -
  have unlower: "is_ascii_alphabetic (to_ascii_lower c) \<Longrightarrow> is_ascii_alphabetic c" for c
    by (simp add: to_ascii_lower_def is_ascii_alphabetic_def split: if_splits)
  have "list_all is_ascii_alphabetic (to_ascii_lowercase scheme) \<and> to_ascii_lowercase scheme \<noteq> []"
    using assms by (auto simp: is_ascii_alphabetic_def is_ascii_lower_def)
  then have "list_all is_ascii_alphabetic scheme" "scheme \<noteq> []"
    using unlower by (auto simp: to_ascii_lowercase_def list_all_iff)
  then show "url_scheme_ok scheme" "CHR '':'' \<notin> set scheme"
    by (auto simp: url_scheme_ok_def list_all_iff is_ascii_alphanumeric_def is_ascii_alphabetic_def
          is_ascii_lower_def is_ascii_upper_def split: list.splits)
qed

abbreviation authority_end :: "char \<Rightarrow> bool" where
  "authority_end c \<equiv> c = CHR ''/'' \<or> c = CHR ''?''"

lemma up_to_authority:
  "up_to authority_end rest @ dropWhile (\<lambda>c. \<not> authority_end c) rest = rest"
  "tail_text (dropWhile (\<lambda>c. \<not> authority_end c) rest)"
  using hd_dropWhile [of "\<lambda>c. \<not> authority_end c" rest] by (auto simp: up_to_def tail_text_def)

lemma up_to_concat:
  assumes "set a \<inter> set ''/?@'' = {}" and "tail_text rest"
  shows "up_to authority_end (a @ rest) = a"
proof -
  have "takeWhile (\<lambda>c. \<not> authority_end c) rest = []"
    using assms(2) by (cases rest) (auto simp: tail_text_def)
  moreover have "\<forall>c \<in> set a. \<not> authority_end c" using assms(1) by auto
  ultimately show ?thesis by (simp add: up_to_def takeWhile_append2)
qed

lemma check_url_accepts:
  assumes "check_url url = Inr ()"
  shows "callback_address url"
proof -
  from assms obtain scheme rest where sp: "split_once ''://'' url = Some (scheme, rest)"
    and len: "length url \<le> 2048" and bytes: "\<not> list_ex (\<lambda>b. byte b \<le> 32 \<or> 127 \<le> byte b) url"
    by (auto simp: check_url_def split: if_splits option.splits)
  define auth where "auth = up_to authority_end rest"
  define tl where "tl = dropWhile (\<lambda>c. \<not> authority_end c) rest"
  from assms sp len bytes obtain host port where frag: "CHR ''#'' \<notin> set url" and at: "CHR ''@'' \<notin> set auth"
    and a: "authority_ok auth host port"
    and sch: "to_ascii_lowercase scheme = ''https'' \<or> to_ascii_lowercase scheme = ''http'' \<and> loopback host"
    unfolding auth_def by (auto simp: check_url_def Let_def split: if_splits sum.splits)
  have "set auth \<inter> set ''/?@'' = {}"
    using at unfolding auth_def by (auto simp: up_to_def dest: set_takeWhileD)
  with a have h: "host_text host" and auth: "auth = host @ port_suffix port"
    using authority_read [of auth host port] by blast+
  have "url = scheme @ ''://'' @ host @ port_suffix port @ tl"
    using split_once_Some [OF sp] up_to_authority(1) [of rest] auth unfolding auth_def tl_def by (metis append.assoc)
  moreover have "port_text (port_suffix port)" "tail_text tl"
    using a port_rule up_to_authority(2) unfolding tl_def by blast+
  moreover have "\<forall>b \<in> set url. 32 < byte b \<and> byte b < 127 \<and> b \<noteq> CHR ''#''"
    using bytes frag by (auto simp: list_ex_iff not_le)
  ultimately show ?thesis
    unfolding callback_address_def using len h sch loopback_rule [OF h] by blast
qed

lemma check_url_complete:
  assumes "callback_address url"
  shows "check_url url = Inr ()"
proof -
  from assms obtain scheme host p rest where url: "url = scheme @ ''://'' @ host @ p @ rest"
    and h: "host_text host" and p: "port_text p" and tl: "tail_text rest"
    and sch: "to_ascii_lowercase scheme = ''https'' \<or> to_ascii_lowercase scheme = ''http'' \<and> own_machine host"
    and len: "length url \<le> 2048" and bytes: "\<forall>b \<in> set url. 32 < byte b \<and> byte b < 127 \<and> b \<noteq> CHR ''#''"
    unfolding callback_address_def by - (elim conjE exE, rule that, assumption+)
  from authority_written [OF h p] obtain port where plain: "set (host @ p) \<inter> set ''/?@'' = {}"
    and a: "authority_ok (host @ p) host port" by blast
  have s: "url_scheme_ok scheme" "CHR '':'' \<notin> set scheme" using sch scheme_letters by blast+
  have sp: "split_once ''://'' url = Some (scheme, (host @ p) @ rest)"
    using split_once_at [OF s(2)] url by simp
  have up: "up_to authority_end ((host @ p) @ rest) = host @ p" using up_to_concat [OF plain tl] .
  have "CHR ''@'' \<notin> set (host @ p)" using plain by auto
  moreover have "\<not> list_ex (\<lambda>b. byte b \<le> 32 \<or> 127 \<le> byte b) url"
    using bytes unfolding list_ex_iff by (meson not_le)
  moreover have "CHR ''#'' \<notin> set url" using bytes by blast
  moreover have "\<not> 2048 < length url" using len by simp
  moreover have "to_ascii_lowercase scheme = ''https'' \<or> to_ascii_lowercase scheme = ''http'' \<and> loopback host"
    using sch loopback_rule [OF h] by blast
  ultimately show ?thesis using s(1) a
    unfolding check_url_def sp option.case prod.case Let_def up by auto
qed

text \<open>
  C36. What a \<^verbatim>\<open>keep\<close> may ask the endpoint to call, exactly. The address is at most 2048
  visible ASCII bytes without a fragment: a scheme, \<^verbatim>\<open>://\<close>, a host (registered-name
  characters, or a bracketed text that reads as an IPv6 address), at most one port up to
  65535, and then nothing or a path or query. The scheme is https, or http when the host is
  \<^verbatim>\<open>localhost\<close> in any case, a dotted address 127.b.c.d, or \<^verbatim>\<open>::1\<close>. There is no user part.
  The token is 1 to 512 bytes of token68: letters, digits and \<^verbatim>\<open>-._~+/\<close>, then padding, so it can
  end no header line. Whatever has this form is accepted, and nothing else.
\<close>

theorem check_notify_exact:
  "check_notify url token = Inr () \<longleftrightarrow> callback_address url \<and> bearer_token token"
proof -
  have "check_notify url token = Inr () \<longleftrightarrow> check_url url = Inr () \<and> bearer_token token"
    unfolding token_rule [symmetric] by (auto simp: check_notify_def Let_def split: sum.splits)
  with check_url_accepts check_url_complete show ?thesis by blast
qed

end
