(* ===== verification/Cas_Loop.thy ===== *)
theory Cas_Loop
  imports Prelude
begin

text \<open>
  The lock-free pattern the gateway uses on one atomic word: load it, compute from the loaded
  value, compare-and-swap, start over when the swap fails (\<^verbatim>\<open>compare_exchange_weak\<close> may also
  fail for no reason). \<open>attempt\<close> is what one pass of such a loop decides; \<open>cas_step\<close> is the
  interleaving of any number of threads that run such loops on the same word, each swap an
  atomic step. The circuit breaker, the body budget and the BYO counter are instances.

  \<open>linearized\<close> is the sequential reading of a run: the operations that took effect, in order,
  each applied to the word the one before left. The locale \<open>cas_object\<close> is the contract of a
  word with an invariant that every pass keeps: in every interleaving the word satisfies it.
\<close>

section \<open>One pass of a loop\<close>

datatype ('w, 'op, 'r) attempt =
    Return 'r
  | Goto 'op
  | Swap 'w 'r
  | Move 'w 'op
  | TrySwap 'w 'r

text \<open>
  \<open>Return r\<close>: leave the loop without writing. \<open>Goto op\<close>: go on as \<open>op\<close> without writing.
  \<open>Swap w r\<close>: write \<open>w\<close> and leave with \<open>r\<close>. \<open>Move w op\<close>: write \<open>w\<close> and go on as \<open>op\<close>.
  \<open>TrySwap w r\<close>: try to write \<open>w\<close> once and leave with \<open>r\<close> either way.
\<close>

fun writes :: "('w, 'op, 'r) attempt \<Rightarrow> 'w option" where
  "writes (Return r) = None"
| "writes (Goto op) = None"
| "writes (Swap w r) = Some w"
| "writes (Move w op) = Some w"
| "writes (TrySwap w r) = Some w"

text \<open>A thread alone: the word it leaves and its result, with fuel for the loop.\<close>

fun run_alone ::
  "('op \<Rightarrow> 'c \<Rightarrow> 'w \<Rightarrow> ('w, 'op, 'r) attempt) \<Rightarrow> nat \<Rightarrow> 'op \<Rightarrow> 'c \<Rightarrow> 'w \<Rightarrow> ('w \<times> 'r) option"
where
  "run_alone att 0 op c w = None"
| "run_alone att (Suc n) op c w =
     (case att op c w of
        Return r \<Rightarrow> Some (w, r)
      | Goto op' \<Rightarrow> run_alone att n op' c w
      | Swap w' r \<Rightarrow> Some (w', r)
      | Move w' op' \<Rightarrow> run_alone att n op' c w'
      | TrySwap w' r \<Rightarrow> Some (w', r))"

section \<open>Interleaved threads\<close>

datatype ('w, 'op, 'c, 'r) thread =
    Ready 'op
  | Loaded 'op 'c 'w
  | Finished 'r

record ('w, 'op, 'c, 'r) cas_sys =
  shared :: 'w
  threads :: "nat \<Rightarrow> ('w, 'op, 'c, 'r) thread"
  history :: "('op \<times> 'c \<times> ('w, 'op, 'r) attempt) list"

text \<open>
  The clock \<open>c\<close> a pass works with is whatever it reads. The history is a ghost: it records
  the passes that took effect, in the order they did.
\<close>

inductive cas_step ::
  "('op \<Rightarrow> 'c \<Rightarrow> 'w \<Rightarrow> ('w, 'op, 'r) attempt) \<Rightarrow>
   ('w, 'op, 'c, 'r) cas_sys \<Rightarrow> ('w, 'op, 'c, 'r) cas_sys \<Rightarrow> bool"
  for att
where
  start: "threads s i = Finished r \<Longrightarrow> cas_step att s (s\<lparr>threads := (threads s)(i := Ready op)\<rparr>)"
| load_return: "threads s i = Ready op \<Longrightarrow> att op c (shared s) = Return r \<Longrightarrow>
     cas_step att s (s\<lparr>threads := (threads s)(i := Finished r),
                       history := history s @ [(op, c, Return r)]\<rparr>)"
| load_goto: "threads s i = Ready op \<Longrightarrow> att op c (shared s) = Goto op' \<Longrightarrow>
     cas_step att s (s\<lparr>threads := (threads s)(i := Ready op'),
                       history := history s @ [(op, c, Goto op')]\<rparr>)"
| load: "threads s i = Ready op \<Longrightarrow> writes (att op c (shared s)) \<noteq> None \<Longrightarrow>
     cas_step att s (s\<lparr>threads := (threads s)(i := Loaded op c (shared s))\<rparr>)"
| swap: "threads s i = Loaded op c w \<Longrightarrow> shared s = w \<Longrightarrow> att op c w = Swap w' r \<Longrightarrow>
     cas_step att s (s\<lparr>shared := w', threads := (threads s)(i := Finished r),
                       history := history s @ [(op, c, Swap w' r)]\<rparr>)"
| move: "threads s i = Loaded op c w \<Longrightarrow> shared s = w \<Longrightarrow> att op c w = Move w' op' \<Longrightarrow>
     cas_step att s (s\<lparr>shared := w', threads := (threads s)(i := Ready op'),
                       history := history s @ [(op, c, Move w' op')]\<rparr>)"
| try_ok: "threads s i = Loaded op c w \<Longrightarrow> shared s = w \<Longrightarrow> att op c w = TrySwap w' r \<Longrightarrow>
     cas_step att s (s\<lparr>shared := w', threads := (threads s)(i := Finished r),
                       history := history s @ [(op, c, TrySwap w' r)]\<rparr>)"
| try_lost: "threads s i = Loaded op c w \<Longrightarrow> shared s \<noteq> w \<Longrightarrow> att op c w = TrySwap w' r \<Longrightarrow>
     cas_step att s (s\<lparr>threads := (threads s)(i := Finished r)\<rparr>)"
| retry: "threads s i = Loaded op c w \<Longrightarrow>
     cas_step att s (s\<lparr>threads := (threads s)(i := Ready op)\<rparr>)"

inductive_cases cas_stepE: "cas_step att s t"

inductive cas_reach ::
  "('op \<Rightarrow> 'c \<Rightarrow> 'w \<Rightarrow> ('w, 'op, 'r) attempt) \<Rightarrow> 'w \<Rightarrow> ('w, 'op, 'c, 'r) cas_sys \<Rightarrow> bool"
  for att w0
where
  init: "shared s = w0 \<Longrightarrow> history s = [] \<Longrightarrow> (\<And>i. \<exists>r. threads s i = Finished r) \<Longrightarrow>
     cas_reach att w0 s"
| step: "cas_reach att w0 s \<Longrightarrow> cas_step att s t \<Longrightarrow> cas_reach att w0 t"

section \<open>The sequential reading of a run\<close>

text \<open>
  \<open>linearized att w h w'\<close>: from \<open>w\<close>, the passes of \<open>h\<close> one after another, each deciding on the
  word the one before left exactly what \<open>h\<close> records, end at \<open>w'\<close>.
\<close>

fun linearized ::
  "('op \<Rightarrow> 'c \<Rightarrow> 'w \<Rightarrow> ('w, 'op, 'r) attempt) \<Rightarrow> 'w \<Rightarrow> ('op \<times> 'c \<times> ('w, 'op, 'r) attempt) list \<Rightarrow> 'w \<Rightarrow> bool"
where
  "linearized att w [] w' \<longleftrightarrow> w' = w"
| "linearized att w ((op, c, a) # h) w' \<longleftrightarrow>
     att op c w = a \<and> linearized att (case writes a of None \<Rightarrow> w | Some v \<Rightarrow> v) h w'"

lemma linearized_snoc:
  "linearized att w (h @ [(op, c, a)]) w' \<longleftrightarrow>
     (\<exists>v. linearized att w h v \<and> att op c v = a \<and> w' = (case writes a of None \<Rightarrow> v | Some u \<Rightarrow> u))"
  by (induction h arbitrary: w) auto

lemma linearized_invariant:
  assumes "linearized att w h w'" and "P w"
    and "\<And>op c w v. P w \<Longrightarrow> writes (att op c w) = Some v \<Longrightarrow> P v"
  shows "P w'"
  using assms(1,2)
proof (induction h arbitrary: w)
  case (Cons e h)
  obtain op c a where e: "e = (op, c, a)" by (cases e) auto
  from Cons.prems e have rest: "linearized att (case writes a of None \<Rightarrow> w | Some v \<Rightarrow> v) h w'"
    and a: "att op c w = a" by auto
  have "P (case writes a of None \<Rightarrow> w | Some v \<Rightarrow> v)"
    using assms(3) [OF Cons.prems(2)] a Cons.prems(2) by (auto split: option.splits)
  from Cons.IH [OF rest this] show ?case .
qed simp

lemma cas_step_linearized:
  assumes "cas_step att s t" and "linearized att w0 (history s) (shared s)"
  shows "linearized att w0 (history t) (shared t)"
  using assms by (elim cas_stepE) (auto simp: linearized_snoc)

lemma cas_reach_linearized: "cas_reach att w0 s \<Longrightarrow> linearized att w0 (history s) (shared s)"
  by (induction rule: cas_reach.induct) (auto intro: cas_step_linearized)

section \<open>The contract of a word with an invariant\<close>

locale cas_object =
  fixes att :: "'op \<Rightarrow> 'c \<Rightarrow> 'w \<Rightarrow> ('w, 'op, 'r) attempt"
    and inv :: "'w \<Rightarrow> bool"
  assumes att_inv: "inv w \<Longrightarrow> writes (att op c w) = Some v \<Longrightarrow> inv v"
begin

lemma reach_inv:
  assumes "inv w0" and "cas_reach att w0 s"
  shows "inv (shared s)"
  by (rule linearized_invariant [where P = inv, OF cas_reach_linearized [OF assms(2)] assms(1)])
     (rule att_inv)

lemma run_alone_inv: "inv w \<Longrightarrow> run_alone att n op c w = Some (w', r) \<Longrightarrow> inv w'"
proof (induction n arbitrary: op w)
  case (Suc n)
  then show ?case
    using att_inv [OF Suc.prems(1), of op c]
    by (cases "att op c w") auto
qed simp

end

end
