(* ===== verification/Circuit_Breaker.thy ===== *)
theory Circuit_Breaker
  imports Cas_Loop "HOL-Library.Word"
begin

unbundle bit_operations_syntax

text \<open>
  \<^verbatim>\<open>crates/gateway/src/circuit_breaker.rs\<close>: the lock-free breaker. All its state is one 64-bit
  word; every operation is a compare-and-swap loop on it. The model keeps the word, its packing
  and the loops: \<open>cb_attempt\<close> is one pass of the loop of each operation, over a clock reading
  and the loaded word, and \<open>Cas_Loop\<close> runs any number of threads through them.

  Proved: packing and unpacking are inverse; in every interleaving the word stays valid and is
  what some sequential order of the operations gives; what opens the breaker under each failure
  policy, thresholds past the field's width included; an open breaker admits nothing before its
  reset timeout, however the clock moves, and \<^verbatim>\<open>Retry-After\<close> is the time it will; a permit of
  another generation decides nothing; how many probes can be out at once.
\<close>

section \<open>The word\<close>

type_synonym word64 = "64 word"
type_synonym word32 = "32 word"
type_synonym word16 = "16 word"

definition STATE_CLOSED :: word64 where "STATE_CLOSED = 0"
definition STATE_OPEN :: word64 where "STATE_OPEN = 1"
definition STATE_HALF_OPEN :: word64 where "STATE_HALF_OPEN = 2"

definition STATE_MASK :: word64 where "STATE_MASK = 3"
definition FAILURE_MASK :: word64 where "FAILURE_MASK = 0x3FFF"
definition PERMIT_MASK :: word64 where "PERMIT_MASK = 0xFFFF"
definition TIMESTAMP_MASK :: word64 where "TIMESTAMP_MASK = 0xFFFFFFFF"

definition pack :: "word64 \<Rightarrow> word64 \<Rightarrow> word64 \<Rightarrow> word64 \<Rightarrow> word64" where
  "pack state failures permits timestamp =
     push_bit 62 (state AND STATE_MASK) OR push_bit 48 (failures AND FAILURE_MASK) OR
     push_bit 32 (permits AND PERMIT_MASK) OR (timestamp AND TIMESTAMP_MASK)"

definition unpack :: "word64 \<Rightarrow> word64 \<times> word64 \<times> word64 \<times> word64" where
  "unpack packed =
     (drop_bit 62 packed AND STATE_MASK, drop_bit 48 packed AND FAILURE_MASK,
      drop_bit 32 packed AND PERMIT_MASK, packed AND TIMESTAMP_MASK)"

section \<open>Configuration, permits, operations\<close>

text \<open>Durations are read with \<^verbatim>\<open>as_secs\<close> only, so they are whole seconds here.\<close>

datatype failure_policy = Consecutive word32 | Windowed word32 word64

record cb_config =
  failure_policy :: failure_policy
  reset_timeout :: word64
  half_open_permits :: word32

definition cb_default :: cb_config where
  "cb_default = \<lparr>failure_policy = Consecutive 5, reset_timeout = 30, half_open_permits = 3\<rparr>"

definition consecutive :: "word32 \<Rightarrow> cb_config" where
  "consecutive threshold = cb_default\<lparr>failure_policy := Consecutive threshold\<rparr>"

definition windowed :: "word32 \<Rightarrow> word64 \<Rightarrow> cb_config" where
  "windowed threshold window = cb_default\<lparr>failure_policy := Windowed threshold window\<rparr>"

datatype permit = NotProbe | Probe word16

definition probe :: "word64 \<Rightarrow> permit" where
  "probe generation = Probe (ucast (generation AND FAILURE_MASK))"

fun stale :: "permit \<Rightarrow> word64 \<Rightarrow> bool" where
  "stale NotProbe generation = True"
| "stale (Probe g) generation = (ucast g \<noteq> generation)"

definition sat_sub :: "word64 \<Rightarrow> word64 \<Rightarrow> word64" where
  "sat_sub a b = (if b \<le> a then a - b else 0)"

text \<open>
  The loops. \<open>Success\<close> first looks whether there is anything to do; then it reads the clock
  and enters its loop, \<open>SuccessLoop\<close>, with that reading. \<open>Failure\<close> reads the clock once, above
  its loop: \<open>FailureLoop\<close>. \<open>Allow\<close> and \<open>Reset\<close> read it in the pass that needs it.
\<close>

datatype cb_op =
    Allow
  | Success permit
  | SuccessLoop permit word64
  | Failure permit
  | FailureLoop permit word64
  | Release permit
  | Reset

datatype cb_result = Admitted permit | CircuitOpen | Resolved

type_synonym cb_attempt = "(word64, cb_op, cb_result) attempt"

definition allow_attempt :: "cb_config \<Rightarrow> word64 \<Rightarrow> word64 \<Rightarrow> cb_attempt" where
  "allow_attempt cfg now packed =
     (case unpack packed of (state, failures, permits, timestamp) \<Rightarrow>
        if state = STATE_CLOSED then Return (Admitted NotProbe)
        else if state = STATE_OPEN then
          (if sat_sub now timestamp \<ge> reset_timeout cfg
           then Move (pack STATE_HALF_OPEN (failures + 1) (ucast (half_open_permits cfg)) now) Allow
           else Return CircuitOpen)
        else if state = STATE_HALF_OPEN then
          (if permits = 0 then
             (if 0 < reset_timeout cfg \<and> sat_sub now timestamp \<ge> reset_timeout cfg
              then let generation = (failures + 1) AND FAILURE_MASK in
                Swap (pack STATE_HALF_OPEN generation
                        (ucast (if half_open_permits cfg = 0 then 0 else half_open_permits cfg - 1)) now)
                     (Admitted (probe generation))
              else Return CircuitOpen)
           else Swap (pack STATE_HALF_OPEN failures (permits - 1) now) (Admitted (probe failures)))
        else TrySwap (pack STATE_CLOSED 0 0 now) (Admitted NotProbe))"

definition success_attempt :: "cb_config \<Rightarrow> permit \<Rightarrow> word64 \<Rightarrow> word64 \<Rightarrow> cb_attempt" where
  "success_attempt cfg scope now packed =
     (case unpack packed of (state, failures, successes, ts) \<Rightarrow>
        let reset = Swap (pack STATE_CLOSED 0 0 now) Resolved in
        if state = STATE_CLOSED then
          (case failure_policy cfg of
             Windowed _ window \<Rightarrow>
               (if sat_sub now ts < window
                then (if successes \<ge> FAILURE_MASK then Return Resolved
                      else Swap (pack STATE_CLOSED failures (successes + 1) ts) Resolved)
                else reset)
           | Consecutive _ \<Rightarrow> reset)
        else if state = STATE_HALF_OPEN then
          (if stale scope failures then Return Resolved else reset)
        else Return Resolved)"

definition success_fast :: "permit \<Rightarrow> word64 \<Rightarrow> word64 \<Rightarrow> cb_attempt" where
  "success_fast scope now packed =
     (case unpack packed of (state, failures, _, _) \<Rightarrow>
        if state = STATE_CLOSED \<and> failures = 0 then Return Resolved
        else Goto (SuccessLoop scope now))"

definition open_word :: "word64 \<Rightarrow> word64" where
  "open_word now = pack STATE_OPEN now 0 now"

definition MAX_FAILURE_THRESHOLD :: word32 where
  "MAX_FAILURE_THRESHOLD = ucast FAILURE_MASK"

definition failure_consecutive_attempt ::
  "word32 \<Rightarrow> permit \<Rightarrow> word64 \<Rightarrow> word64 \<Rightarrow> cb_attempt" where
  "failure_consecutive_attempt threshold scope now packed =
     (let threshold = min threshold MAX_FAILURE_THRESHOLD in
      case unpack packed of (state, failures, _, _) \<Rightarrow>
        if state = STATE_CLOSED then
          (let new_failures = failures + 1 in
           if new_failures \<ge> ucast threshold then Swap (open_word now) Resolved
           else Swap (pack STATE_CLOSED new_failures 0 now) Resolved)
        else if state = STATE_HALF_OPEN then
          (if stale scope failures then Return Resolved
           else Swap (pack STATE_OPEN failures 0 now) Resolved)
        else Return Resolved)"

definition failure_windowed_attempt ::
  "word32 \<Rightarrow> word64 \<Rightarrow> permit \<Rightarrow> word64 \<Rightarrow> word64 \<Rightarrow> cb_attempt" where
  "failure_windowed_attempt threshold window scope now packed =
     (let threshold = min threshold MAX_FAILURE_THRESHOLD in
      case unpack packed of (state, failures, successes, ts) \<Rightarrow>
        if state = STATE_CLOSED then
          (let window_expired = (failures = 0 \<or> sat_sub now ts \<ge> window);
               (new_failures, successes, anchor) =
                 (if window_expired then (1, 0, now)
                  else (min (failures + 1) FAILURE_MASK, successes, ts))
           in if new_failures \<ge> ucast threshold \<and> new_failures \<ge> successes
              then Swap (open_word now) Resolved
              else Swap (pack STATE_CLOSED new_failures successes anchor) Resolved)
        else if state = STATE_HALF_OPEN then
          (if stale scope failures then Return Resolved
           else Swap (pack STATE_OPEN failures 0 now) Resolved)
        else Return Resolved)"

definition failure_attempt :: "cb_config \<Rightarrow> permit \<Rightarrow> word64 \<Rightarrow> word64 \<Rightarrow> cb_attempt" where
  "failure_attempt cfg scope now packed =
     (case failure_policy cfg of
        Consecutive threshold \<Rightarrow> failure_consecutive_attempt threshold scope now packed
      | Windowed threshold window \<Rightarrow> failure_windowed_attempt threshold window scope now packed)"

definition release_attempt :: "cb_config \<Rightarrow> permit \<Rightarrow> word64 \<Rightarrow> cb_attempt" where
  "release_attempt cfg permit packed =
     (case unpack packed of (state, failures, permits, ts) \<Rightarrow>
        if state \<noteq> STATE_HALF_OPEN \<or> stale permit failures \<or> permits \<ge> ucast (half_open_permits cfg)
        then Return Resolved
        else Swap (pack STATE_HALF_OPEN failures (permits + 1) ts) Resolved)"

fun cb_attempt :: "cb_config \<Rightarrow> cb_op \<Rightarrow> word64 \<Rightarrow> word64 \<Rightarrow> cb_attempt" where
  "cb_attempt cfg Allow now packed = allow_attempt cfg now packed"
| "cb_attempt cfg (Success p) now packed = success_fast p now packed"
| "cb_attempt cfg (SuccessLoop p t) now packed = success_attempt cfg p t packed"
| "cb_attempt cfg (Failure p) now packed = Goto (FailureLoop p now)"
| "cb_attempt cfg (FailureLoop p t) now packed = failure_attempt cfg p t packed"
| "cb_attempt cfg (Release p) now packed = release_attempt cfg p packed"
| "cb_attempt cfg Reset now packed = Swap (pack STATE_CLOSED 0 0 now) Resolved"

definition cb_new :: "word64 \<Rightarrow> word64" where
  "cb_new now = pack STATE_CLOSED 0 0 now"

datatype circuit_state = Closed word32 | Open | HalfOpen word32

definition cb_state :: "word64 \<Rightarrow> circuit_state" where
  "cb_state packed =
     (case unpack packed of (state, failures, permits, _) \<Rightarrow>
        if state = STATE_CLOSED then Closed (ucast failures)
        else if state = STATE_OPEN then Open
        else if state = STATE_HALF_OPEN then HalfOpen (ucast permits)
        else Closed 0)"

definition retry_after_secs :: "cb_config \<Rightarrow> word64 \<Rightarrow> word64 \<Rightarrow> word64" where
  "retry_after_secs cfg now packed =
     (case unpack packed of (state, _, permits, ts) \<Rightarrow>
        let waiting =
          (if state = STATE_OPEN \<or> state = STATE_HALF_OPEN \<and> permits = 0
           then sat_sub (reset_timeout cfg) (sat_sub now ts) else 0)
        in max waiting 1)"

section \<open>Packing\<close>

lemma mask_folds:
  "x AND STATE_MASK = take_bit 2 x" "x AND FAILURE_MASK = take_bit 14 x"
  "x AND PERMIT_MASK = take_bit 16 x" "x AND TIMESTAMP_MASK = take_bit 32 x"
  by (simp_all add: STATE_MASK_def FAILURE_MASK_def PERMIT_MASK_def TIMESTAMP_MASK_def
      take_bit_eq_mask mask_eq_exp_minus_1)

lemma unpack_pack_aux [simp]:
  "unpack (pack s f p t) =
     (s AND STATE_MASK, f AND FAILURE_MASK, p AND PERMIT_MASK, t AND TIMESTAMP_MASK)"
  unfolding unpack_def pack_def mask_folds
  by (auto intro!: bit_word_eqI simp: bit_simps)

lemma pack_unpack_aux: "unpack w = (s, f, p, t) \<Longrightarrow> pack s f p t = w"
proof (rule bit_word_eqI)
  fix n
  assume "unpack w = (s, f, p, t)" and "n < LENGTH(64)"
  then consider "n < 32" | "32 \<le> n" "n < 48" | "48 \<le> n" "n < 62" | "62 \<le> n" "n < 64"
    by fastforce
  then show "bit (pack s f p t) n = bit w n"
    using \<open>unpack w = (s, f, p, t)\<close>
    by cases (auto simp: unpack_def pack_def mask_folds bit_simps)
qed

text \<open>
  The four fields do not disturb each other: what is packed is read back, cut to its
  field's width, and unpacking and repacking any word gives that word.
\<close>

theorem pack_unpack_inverse:
  "unpack (pack s f p t) =
     (s AND STATE_MASK, f AND FAILURE_MASK, p AND PERMIT_MASK, t AND TIMESTAMP_MASK) \<and>
   (case unpack w of (s', f', p', t') \<Rightarrow> pack s' f' p' t') = w"
  by (cases "unpack w") (simp add: pack_unpack_aux)

section \<open>Field arithmetic\<close>

lemma take_bit_small: "unat x < 2 ^ n \<Longrightarrow> take_bit n x = (x :: word64)"
  by (simp add: word_unat_eq_iff unsigned_take_bit_eq take_bit_nat_eq_self)

lemma and_FAILURE_MASK: "x \<le> FAILURE_MASK \<Longrightarrow> x AND FAILURE_MASK = x"
  unfolding mask_folds by (rule take_bit_small) (simp add: FAILURE_MASK_def word_le_nat_alt)

lemma and_PERMIT_MASK: "x \<le> PERMIT_MASK \<Longrightarrow> x AND PERMIT_MASK = x"
  unfolding mask_folds by (rule take_bit_small) (simp add: PERMIT_MASK_def word_le_nat_alt)

lemma and_TIMESTAMP_MASK: "x \<le> TIMESTAMP_MASK \<Longrightarrow> x AND TIMESTAMP_MASK = x"
  unfolding mask_folds by (rule take_bit_small) (simp add: TIMESTAMP_MASK_def word_le_nat_alt)

lemma unat_ucast32 [simp]: "unat (ucast (h :: word32) :: word64) = unat h"
proof -
  have "unat h < 2 ^ LENGTH(32)" by (rule unsigned_less)
  then have "unat h < 2 ^ 64" by simp
  then show ?thesis by (simp add: unsigned_ucast_eq take_bit_nat_eq_self)
qed

lemma word_dec_le: "(c :: 'a :: len word) \<noteq> 0 \<Longrightarrow> c \<le> q \<Longrightarrow> c - 1 \<le> q"
  by (simp add: word_le_nat_alt unat_minus_one)

lemma ucast_dec_le: "(ucast (if h = 0 then 0 else h - 1) :: word64) \<le> ucast (h :: word32)"
  by (simp add: word_le_nat_alt unat_minus_one)

lemma ucast_pred_le: "h \<noteq> 0 \<Longrightarrow> (ucast (h - 1) :: word64) \<le> ucast (h :: word32)"
  using ucast_dec_le [of h] by simp

lemma and_mask_le: "(x :: word64) AND m \<le> m" "(x :: word64) AND m \<le> x"
  by (simp_all add: word_and_le1 word_and_le2)

lemma unpack_bounds:
  assumes "unpack w = (s, f, p, t)"
  shows "s \<le> STATE_MASK" "f \<le> FAILURE_MASK" "p \<le> PERMIT_MASK" "t \<le> TIMESTAMP_MASK"
  using assms by (auto simp: unpack_def and_mask_le)

lemma state_consts [simp]:
  "STATE_CLOSED AND STATE_MASK = STATE_CLOSED" "STATE_OPEN AND STATE_MASK = STATE_OPEN"
  "STATE_HALF_OPEN AND STATE_MASK = STATE_HALF_OPEN"
  "STATE_CLOSED \<noteq> STATE_OPEN" "STATE_OPEN \<noteq> STATE_CLOSED"
  "STATE_CLOSED \<noteq> STATE_HALF_OPEN" "STATE_HALF_OPEN \<noteq> STATE_CLOSED"
  "STATE_OPEN \<noteq> STATE_HALF_OPEN" "STATE_HALF_OPEN \<noteq> STATE_OPEN"
  by (simp_all add: STATE_CLOSED_def STATE_OPEN_def STATE_HALF_OPEN_def STATE_MASK_def)

lemma stale_probe [simp]: "f \<le> FAILURE_MASK \<Longrightarrow> \<not> stale (probe f) f"
proof -
  assume le: "f \<le> FAILURE_MASK"
  then have "unat f < 2 ^ 16" by (simp add: FAILURE_MASK_def word_le_nat_alt)
  moreover have "probe f = Probe (ucast f)" by (simp only: probe_def and_FAILURE_MASK [OF le])
  ultimately show "\<not> stale (probe f) f"
    by (simp add: word_unat_eq_iff unsigned_ucast_eq unsigned_take_bit_eq take_bit_nat_eq_self)
qed

section \<open>The word stays valid\<close>

text \<open>
  A valid word: one of the three states; a half-open one has no more permits left than the
  configuration grants; a closed one is not past its own trip condition.
\<close>

definition trip_pending :: "cb_config \<Rightarrow> word64 \<Rightarrow> word64 \<Rightarrow> bool" where
  "trip_pending cfg failures successes \<longleftrightarrow>
     failures \<noteq> 0 \<and>
     (case failure_policy cfg of
        Consecutive threshold \<Rightarrow> failures \<ge> ucast (min threshold MAX_FAILURE_THRESHOLD)
      | Windowed threshold _ \<Rightarrow>
          failures \<ge> ucast (min threshold MAX_FAILURE_THRESHOLD) \<and> failures \<ge> successes)"

definition cb_wf :: "cb_config \<Rightarrow> word64 \<Rightarrow> bool" where
  "cb_wf cfg w =
     (case unpack w of (state, failures, permits, _) \<Rightarrow>
        state = STATE_CLOSED \<and> \<not> trip_pending cfg failures permits \<or>
        state = STATE_OPEN \<or>
        state = STATE_HALF_OPEN \<and> permits \<le> ucast (half_open_permits cfg))"

lemma cb_wf_closed: "cb_wf cfg (pack STATE_CLOSED 0 0 now)"
  by (simp add: cb_wf_def trip_pending_def)

lemma cb_wf_open: "cb_wf cfg (pack STATE_OPEN f 0 now)"
  by (simp add: cb_wf_def)

lemma cb_wf_half_open: "p \<le> ucast (half_open_permits cfg) \<Longrightarrow> cb_wf cfg (pack STATE_HALF_OPEN f p now)"
  by (simp add: cb_wf_def) (meson and_mask_le(2) order.trans)

lemma allow_wf: "cb_wf cfg w \<Longrightarrow> writes (allow_attempt cfg now w) = Some v \<Longrightarrow> cb_wf cfg v"
  by (cases "unpack w")
     (auto simp: allow_attempt_def cb_wf_def [of cfg w] Let_def
           intro: cb_wf_half_open cb_wf_closed word_dec_le ucast_pred_le
           split: if_splits)

lemma word_inc_le: "(c :: 'a :: len word) < q \<Longrightarrow> c + 1 \<le> q"
  by (simp add: inc_le)

lemma success_wf:
  assumes "cb_wf cfg w" and "writes (success_attempt cfg scope now w) = Some v"
  shows "cb_wf cfg v"
proof -
  obtain s f p t where u: "unpack w = (s, f, p, t)" by (cases "unpack w")
  have inc: "\<not> trip_pending cfg f (p + 1)" if "\<not> trip_pending cfg f p" "p < FAILURE_MASK"
    using that by (auto simp: trip_pending_def FAILURE_MASK_def word_le_nat_alt word_less_nat_alt
        unat_word_ariths split: failure_policy.splits)
  have bits: "(p + 1) AND PERMIT_MASK = p + 1" if "p < FAILURE_MASK"
    using that by (intro and_PERMIT_MASK)
      (simp add: FAILURE_MASK_def PERMIT_MASK_def word_le_nat_alt word_less_nat_alt unat_word_ariths)
  have "f AND FAILURE_MASK = f" using unpack_bounds(2) [OF u] by (rule and_FAILURE_MASK)
  with assms u inc bits show ?thesis
    by (auto simp: success_attempt_def Let_def cb_wf_closed not_le
             split: if_splits failure_policy.splits)
       (auto simp: cb_wf_def)
qed

lemma cb_wf_counting:
  "\<not> trip_pending cfg n k \<Longrightarrow> n \<le> FAILURE_MASK \<Longrightarrow> k \<le> PERMIT_MASK \<Longrightarrow>
   cb_wf cfg (pack STATE_CLOSED n k a)"
  by (simp add: cb_wf_def and_FAILURE_MASK and_PERMIT_MASK)

lemma below_threshold_fits:
  assumes "\<not> n \<ge> (ucast (min th MAX_FAILURE_THRESHOLD) :: word64)"
  shows "n \<le> FAILURE_MASK"
proof -
  have "unat (ucast (min th MAX_FAILURE_THRESHOLD) :: word64) \<le> unat FAILURE_MASK"
    by (simp add: MAX_FAILURE_THRESHOLD_def FAILURE_MASK_def min_def word_le_nat_alt)
  with assms show ?thesis by (simp add: word_le_nat_alt word_less_nat_alt)
qed

lemma failure_consecutive_wf:
  assumes "failure_policy cfg = Consecutive th"
    and "writes (failure_consecutive_attempt th scope now w) = Some v"
  shows "cb_wf cfg v"
  using assms
  by (cases "unpack w")
     (auto simp: failure_consecutive_attempt_def open_word_def cb_wf_open Let_def
           split: if_splits
           intro!: cb_wf_counting dest: below_threshold_fits simp: trip_pending_def)

lemma failure_windowed_wf:
  assumes "failure_policy cfg = Windowed th window"
    and "writes (failure_windowed_attempt th window scope now w) = Some v"
  shows "cb_wf cfg v"
proof -
  obtain s f p t where u: "unpack w = (s, f, p, t)" by (cases "unpack w")
  have one: "(1 :: word64) \<le> FAILURE_MASK" "(0 :: word64) \<le> PERMIT_MASK"
    by (simp_all add: FAILURE_MASK_def)
  show ?thesis
    using assms u one unpack_bounds [OF u]
    by (auto simp: failure_windowed_attempt_def open_word_def cb_wf_open Let_def
             split: if_splits simp del: min_less_iff_conj min_less_iff_disj min_le_iff_disj
               min.bounded_iff
             intro!: cb_wf_counting simp: trip_pending_def)
qed

lemma failure_wf: "writes (failure_attempt cfg scope now w) = Some v \<Longrightarrow> cb_wf cfg v"
  by (auto simp: failure_attempt_def intro: failure_consecutive_wf failure_windowed_wf
           split: failure_policy.splits)

lemma release_wf: "cb_wf cfg w \<Longrightarrow> writes (release_attempt cfg p w) = Some v \<Longrightarrow> cb_wf cfg v"
  by (cases "unpack w")
     (auto simp: release_attempt_def not_le intro!: cb_wf_half_open word_inc_le split: if_splits)

lemma cb_attempt_wf:
  assumes "cb_wf cfg w" and "writes (cb_attempt cfg op now w) = Some v"
  shows "cb_wf cfg v"
proof (cases op)
  case (Success p)
  with assms(2) show ?thesis by (auto simp: success_fast_def split: prod.splits if_splits)
qed (use assms in \<open>auto intro: allow_wf success_wf failure_wf release_wf cb_wf_closed\<close>)

interpretation cb: cas_object "cb_attempt cfg" "cb_wf cfg" for cfg
  by unfold_locales (rule cb_attempt_wf)

text \<open>
  C23. However any number of threads interleave their calls, and whatever their clocks read, the
  shared word stays valid: never the fourth, meaningless state, never more probe permits than
  configured, never closed past its own trip condition. And the interleaving is equivalent to
  some order of whole operations: replaying the passes that took effect, each on the word the
  one before left, reproduces every decision and the final word, so no update is lost.
\<close>

theorem breaker_interleavings:
  assumes "cas_reach (cb_attempt cfg) (cb_new t0) s"
  shows "cb_wf cfg (shared s) \<and> linearized (cb_attempt cfg) (cb_new t0) (history s) (shared s)"
  using cb.reach_inv [OF _ assms] cas_reach_linearized [OF assms]
  by (simp add: cb_new_def cb_wf_closed)

text \<open>A witness: two threads both load the clean word to record a failure; one swap loses.\<close>

theorem breaker_interleavings_witness:
  "\<exists>s. cas_reach (cb_attempt cb_default) (cb_new 7) s \<and> cb_state (shared s) = Closed 1 \<and>
       threads s 1 = Loaded (FailureLoop NotProbe 8) 9 (cb_new 7) \<and> cb_wf cb_default (shared s)"
proof -
  let ?att = "cb_attempt cb_default"
  let ?w1 = "pack STATE_CLOSED 1 0 8"
  have at: "?att (FailureLoop NotProbe 8) 9 (cb_new 7) = Swap ?w1 Resolved"
    by (simp add: failure_attempt_def cb_default_def failure_consecutive_attempt_def cb_new_def
          MAX_FAILURE_THRESHOLD_def FAILURE_MASK_def min_def Let_def word_le_nat_alt)
  define s0 where "s0 = \<lparr>shared = cb_new 7,
    threads = (\<lambda>_. Finished Resolved) :: nat \<Rightarrow> (word64, cb_op, word64, cb_result) thread, history = []\<rparr>"
  have r0: "cas_reach ?att (cb_new 7) s0" by (rule cas_reach.init) (simp_all add: s0_def)
  define s1 where "s1 = s0\<lparr>threads := (threads s0)(0 := Ready (FailureLoop NotProbe 8))\<rparr>"
  have r1: "cas_reach ?att (cb_new 7) s1"
    unfolding s1_def by (rule cas_reach.step [OF r0], rule cas_step.start) (simp add: s0_def)
  define s2 where "s2 = s1\<lparr>threads := (threads s1)(1 := Ready (FailureLoop NotProbe 8))\<rparr>"
  have r2: "cas_reach ?att (cb_new 7) s2"
    unfolding s2_def by (rule cas_reach.step [OF r1], rule cas_step.start) (simp add: s0_def s1_def)
  define s3 where "s3 = s2\<lparr>threads := (threads s2)(0 := Loaded (FailureLoop NotProbe 8) 9 (shared s2))\<rparr>"
  have r3: "cas_reach ?att (cb_new 7) s3"
    unfolding s3_def
    by (rule cas_reach.step [OF r2], rule cas_step.load)
       (simp_all add: s0_def s1_def s2_def at del: cb_attempt.simps)
  define s4 where "s4 = s3\<lparr>threads := (threads s3)(1 := Loaded (FailureLoop NotProbe 8) 9 (shared s3))\<rparr>"
  have r4: "cas_reach ?att (cb_new 7) s4"
    unfolding s4_def
    by (rule cas_reach.step [OF r3], rule cas_step.load)
       (simp_all add: s0_def s1_def s2_def s3_def at del: cb_attempt.simps)
  define s5 where "s5 = s4\<lparr>shared := ?w1, threads := (threads s4)(0 := Finished Resolved),
    history := history s4 @ [(FailureLoop NotProbe 8, 9, Swap ?w1 Resolved)]\<rparr>"
  have r5: "cas_reach ?att (cb_new 7) s5"
    unfolding s5_def
    by (rule cas_reach.step [OF r4], rule cas_step.swap [where w = "cb_new 7"])
       (simp_all add: s0_def s1_def s2_def s3_def s4_def at del: cb_attempt.simps)
  have "cb_state (shared s5) = Closed 1" "threads s5 1 = Loaded (FailureLoop NotProbe 8) 9 (cb_new 7)"
    by (simp_all add: s0_def s1_def s2_def s3_def s4_def s5_def cb_state_def FAILURE_MASK_def)
  with r5 breaker_interleavings [OF r5] show ?thesis by blast
qed

section \<open>One thread at a time\<close>

text \<open>Two passes are enough for any operation when no other thread interferes.\<close>

definition cb_run :: "cb_config \<Rightarrow> cb_op \<Rightarrow> word64 \<Rightarrow> word64 \<Rightarrow> (word64 \<times> cb_result) option" where
  "cb_run cfg op now w = run_alone (cb_attempt cfg) 2 op now w"

lemma cb_run_simp:
  "cb_run cfg op now w =
     (case cb_attempt cfg op now w of
        Return r \<Rightarrow> Some (w, r)
      | Goto op' \<Rightarrow> run_alone (cb_attempt cfg) 1 op' now w
      | Swap w' r \<Rightarrow> Some (w', r)
      | Move w' op' \<Rightarrow> run_alone (cb_attempt cfg) 1 op' now w'
      | TrySwap w' r \<Rightarrow> Some (w', r))"
  by (simp only: cb_run_def numeral_2_eq_2 run_alone.simps One_nat_def)

lemma run_alone_1:
  "run_alone att 1 op c w =
     (case att op c w of
        Return r \<Rightarrow> Some (w, r) | Goto op' \<Rightarrow> None | Swap w' r \<Rightarrow> Some (w', r)
      | Move w' op' \<Rightarrow> None | TrySwap w' r \<Rightarrow> Some (w', r))"
  by (simp split: attempt.splits)

lemma cb_run_total: "\<exists>w' r. cb_run cfg op now w = Some (w', r)"
proof (cases op)
  case Allow
  then show ?thesis
    by (cases "unpack w") (auto simp: cb_run_simp run_alone_1 allow_attempt_def Let_def)
next
  case (Success p)
  then show ?thesis
    by (cases "unpack w")
       (auto simp: cb_run_simp run_alone_1 success_fast_def success_attempt_def Let_def
             split: failure_policy.splits)
next
  case (SuccessLoop p t)
  then show ?thesis
    by (cases "unpack w")
       (auto simp: cb_run_simp success_attempt_def Let_def split: failure_policy.splits)
next
  case (Failure p)
  then show ?thesis
    by (cases "unpack w")
       (auto simp: cb_run_simp run_alone_1 failure_attempt_def failure_consecutive_attempt_def
          failure_windowed_attempt_def Let_def split: failure_policy.splits)
next
  case (FailureLoop p t)
  then show ?thesis
    by (cases "unpack w")
       (auto simp: cb_run_simp failure_attempt_def failure_consecutive_attempt_def
          failure_windowed_attempt_def Let_def split: failure_policy.splits)
next
  case (Release p)
  then show ?thesis
    by (cases "unpack w") (auto simp: cb_run_simp release_attempt_def)
qed (simp add: cb_run_simp)

text \<open>The word an operation leaves.\<close>

definition cb_after :: "cb_config \<Rightarrow> cb_op \<Rightarrow> word64 \<Rightarrow> word64 \<Rightarrow> word64" where
  "cb_after cfg op now w = (case cb_run cfg op now w of Some (w', _) \<Rightarrow> w' | None \<Rightarrow> w)"

section \<open>What opens the breaker\<close>

lemma cb_after_failure:
  assumes "unpack w = (s, f, p, t)"
  shows "failure_policy cfg = Consecutive th \<Longrightarrow> s = STATE_CLOSED \<Longrightarrow>
           cb_after cfg (Failure pm) now w =
             (if f + 1 \<ge> ucast (min th MAX_FAILURE_THRESHOLD) then open_word now
              else pack STATE_CLOSED (f + 1) 0 now)"
    and "s = STATE_OPEN \<Longrightarrow> cb_after cfg (Failure pm) now w = w"
    and "s = STATE_OPEN \<Longrightarrow> cb_after cfg (Success pm) now w = w"
  using assms
  by (auto simp: cb_after_def cb_run_simp run_alone_1 failure_attempt_def success_fast_def
        failure_consecutive_attempt_def failure_windowed_attempt_def success_attempt_def Let_def
      split: failure_policy.splits)

lemma unpack_open_word: "unpack (open_word now) = (STATE_OPEN, now AND FAILURE_MASK, 0, now AND TIMESTAMP_MASK)"
  by (simp add: open_word_def)

lemma cb_state_closed: "unpack w = (STATE_CLOSED, f, p, t) \<Longrightarrow> cb_state w = Closed (ucast f)"
  by (simp add: cb_state_def)

lemma cb_state_open: "unpack w = (STATE_OPEN, f, p, t) \<Longrightarrow> cb_state w = Open"
  by (simp add: cb_state_def)

definition failure_limit :: "word32 \<Rightarrow> nat" where
  "failure_limit th = max 1 (min (unat th) 16383)"

lemma threshold_reached_iff:
  assumes "unat f < 16384"
  shows "f + 1 \<ge> (ucast (min th MAX_FAILURE_THRESHOLD) :: word64) \<longleftrightarrow> failure_limit th \<le> unat f + 1"
proof -
  have "unat (min th MAX_FAILURE_THRESHOLD) = min (unat th) 16383"
    by (simp add: MAX_FAILURE_THRESHOLD_def FAILURE_MASK_def min_def word_le_nat_alt)
  moreover have "unat (f + 1) = unat f + 1" using assms by (simp add: unat_word_ariths)
  ultimately show ?thesis by (auto simp: word_le_nat_alt failure_limit_def)
qed

definition cb_failures :: "cb_config \<Rightarrow> permit \<Rightarrow> word64 list \<Rightarrow> word64 \<Rightarrow> word64" where
  "cb_failures cfg pm ts w = fold (\<lambda>now w. cb_after cfg (Failure pm) now w) ts w"

lemma cb_failures_open:
  "unpack w = (STATE_OPEN, f, p, t) \<Longrightarrow> cb_failures cfg pm ts w = w"
  by (induction ts) (auto simp: cb_failures_def cb_after_failure)

lemma cb_failures_consecutive:
  assumes "failure_policy cfg = Consecutive th"
    and "unpack w = (STATE_CLOSED, f, p, t)" and "unat f < failure_limit th"
  shows "if unat f + length ts < failure_limit th
         then \<exists>p' t'. unpack (cb_failures cfg pm ts w) = (STATE_CLOSED, f + of_nat (length ts), p', t')
         else \<exists>g t'. unpack (cb_failures cfg pm ts w) = (STATE_OPEN, g, 0, t')"
  using assms(2,3)
proof (induction ts arbitrary: w f p t)
  case Nil
  then show ?case by (simp add: cb_failures_def)
next
  case (Cons now ts)
  have f_lt: "unat f < 16384" using Cons.prems(2) by (simp add: failure_limit_def)
  have after: "cb_after cfg (Failure pm) now w =
      (if failure_limit th \<le> unat f + 1 then open_word now else pack STATE_CLOSED (f + 1) 0 now)"
    using cb_after_failure(1) [OF Cons.prems(1) assms(1)] threshold_reached_iff [OF f_lt] by simp
  show ?case
  proof (cases "failure_limit th \<le> unat f + 1")
    case True
    have "cb_failures cfg pm (now # ts) w = cb_failures cfg pm ts (open_word now)"
      using True after by (simp add: cb_failures_def)
    also have "\<dots> = open_word now" by (rule cb_failures_open [OF unpack_open_word])
    finally show ?thesis using True by (simp add: unpack_open_word)
  next
    case False
    let ?v = "pack STATE_CLOSED (f + 1) 0 now"
    have u1: "unat (f + 1) = unat f + 1" using f_lt by (simp add: unat_word_ariths)
    have "f + 1 \<le> FAILURE_MASK"
      using False u1 by (simp add: word_le_nat_alt FAILURE_MASK_def failure_limit_def)
    then have v: "unpack ?v = (STATE_CLOSED, f + 1, 0, now AND TIMESTAMP_MASK)"
      by (simp add: and_FAILURE_MASK)
    have "unat (f + 1) < failure_limit th" using False u1 by simp
    moreover have "cb_failures cfg pm (now # ts) w = cb_failures cfg pm ts ?v"
      using after False by (simp add: cb_failures_def)
    ultimately show ?thesis using Cons.IH [OF v] u1 by (auto simp: ac_simps split: if_splits)
  qed
qed

text \<open>
  The consecutive policy opens a fresh breaker exactly at its threshold. After \<open>n\<close> failures
  in a row the breaker is closed and counts \<open>n\<close> as long as \<open>n\<close> is below the limit, and open from
  the limit on; the limit is the configured threshold, clamped to the 14 bits the count has (and
  at least 1), so a threshold past the field's width cannot leave a breaker that never opens.
\<close>

theorem consecutive_opens_at_threshold:
  assumes "failure_policy cfg = Consecutive th"
  shows "cb_state (cb_failures cfg pm ts (cb_new t0)) =
           (if length ts < failure_limit th then Closed (of_nat (length ts)) else Open)"
proof -
  have new: "unpack (cb_new t0) = (STATE_CLOSED, 0, 0, t0 AND TIMESTAMP_MASK)"
    by (simp add: cb_new_def)
  have pos: "unat (0 :: word64) < failure_limit th" by (simp add: failure_limit_def)
  show ?thesis
  proof (cases "length ts < failure_limit th")
    case True
    then have small: "length ts < 2 ^ 32" by (simp add: failure_limit_def)
    have "ucast (of_nat (length ts) :: word64) = (of_nat (length ts) :: word32)"
      using small by (simp add: word_unat_eq_iff unsigned_ucast_eq unsigned_of_nat take_bit_nat_eq_self)
    with True cb_failures_consecutive [OF assms new pos, of ts pm] show ?thesis
      by (auto dest: cb_state_closed)
  next
    case False
    with cb_failures_consecutive [OF assms new pos, of ts pm] show ?thesis
      by (auto dest: cb_state_open)
  qed
qed

theorem consecutive_opens_at_threshold_witness:
  "cb_state (cb_failures (consecutive 100000) NotProbe (replicate 16382 9) (cb_new 1)) = Closed 16382 \<and>
   cb_state (cb_failures (consecutive 100000) NotProbe (replicate 16383 9) (cb_new 1)) = Open"
  using consecutive_opens_at_threshold [of "consecutive 100000" 100000 NotProbe "replicate 16382 9" 1]
    consecutive_opens_at_threshold [of "consecutive 100000" 100000 NotProbe "replicate 16383 9" 1]
  by (simp add: consecutive_def failure_limit_def)

subsection \<open>The windowed policy\<close>

text \<open>An outcome is whether it was a failure, and when.\<close>

definition cb_outcome :: "cb_config \<Rightarrow> permit \<Rightarrow> bool \<times> word64 \<Rightarrow> word64 \<Rightarrow> word64" where
  "cb_outcome cfg pm x w = cb_after cfg (if fst x then Failure pm else Success pm) (snd x) w"

definition fails :: "(bool \<times> word64) list \<Rightarrow> nat" where
  "fails os = length (filter fst os)"

definition succs :: "(bool \<times> word64) list \<Rightarrow> nat" where
  "succs os = length (filter (\<lambda>x. \<not> fst x) os)"

text \<open>
  The rule the module documents: some failure of the window was the one at which there were at
  least threshold failures, and at least as many failures as successes, since the first.
\<close>

definition window_trips :: "word32 \<Rightarrow> (bool \<times> word64) list \<Rightarrow> bool" where
  "window_trips th os \<longleftrightarrow>
     (\<exists>k < length os. fst (os ! k) \<and> failure_limit th \<le> fails (take (Suc k) os) \<and>
        succs (take (Suc k) os) \<le> fails (take (Suc k) os))"

lemma window_trips_snoc:
  "window_trips th (os @ [x]) \<longleftrightarrow>
     window_trips th os \<or>
     fst x \<and> failure_limit th \<le> fails (os @ [x]) \<and> succs (os @ [x]) \<le> fails (os @ [x])"
proof -
  have "window_trips th (os @ [x]) \<longleftrightarrow>
      (\<exists>k < length os. fst ((os @ [x]) ! k) \<and> failure_limit th \<le> fails (take (Suc k) (os @ [x])) \<and>
         succs (take (Suc k) (os @ [x])) \<le> fails (take (Suc k) (os @ [x]))) \<or>
      fst x \<and> failure_limit th \<le> fails (os @ [x]) \<and> succs (os @ [x]) \<le> fails (os @ [x])"
    unfolding window_trips_def by (auto simp: less_Suc_eq)
  then show ?thesis
    unfolding window_trips_def by (auto simp: nth_append)
qed

lemma window_first_failure:
  assumes "failure_policy cfg = Windowed th window" and "unpack w = (STATE_CLOSED, 0, s, a)"
    and "t \<le> TIMESTAMP_MASK"
  shows "cb_after cfg (Failure pm) t w =
           (if failure_limit th \<le> 1 then open_word t else pack STATE_CLOSED 1 0 t)"
  using assms threshold_reached_iff [of 0 th]
  by (simp add: cb_after_def cb_run_simp run_alone_1 failure_attempt_def
        failure_windowed_attempt_def Let_def)

lemma window_failure:
  assumes "failure_policy cfg = Windowed th window" and "unpack w = (STATE_CLOSED, f, s, a)"
    and "f \<noteq> 0" and "sat_sub t a < window" and "unat f < 16383"
  shows "cb_after cfg (Failure pm) t w =
           (if failure_limit th \<le> unat f + 1 \<and> unat s \<le> unat f + 1 then open_word t
            else pack STATE_CLOSED (f + 1) s a)"
proof -
  have u: "unat (f + 1) = unat f + 1" using assms(5) by (simp add: unat_word_ariths)
  then have "min (f + 1) FAILURE_MASK = f + 1"
    using assms(5) by (simp add: min_def word_le_nat_alt FAILURE_MASK_def)
  moreover have "s \<le> f + 1 \<longleftrightarrow> unat s \<le> unat f + 1" using u by (simp add: word_le_nat_alt)
  moreover have "(window \<le> sat_sub t a) = False" using assms(4) by simp
  ultimately show ?thesis
    using assms(1-3,5) threshold_reached_iff [of f th]
    by (simp add: cb_after_def cb_run_simp run_alone_1 failure_attempt_def
          failure_windowed_attempt_def Let_def del: not_le)
qed

lemma window_success:
  assumes "failure_policy cfg = Windowed th window" and "unpack w = (STATE_CLOSED, f, s, a)"
    and "f \<noteq> 0" and "sat_sub t a < window" and "unat s < 16383"
  shows "cb_after cfg (Success pm) t w = pack STATE_CLOSED f (s + 1) a"
  using assms
  by (simp add: cb_after_def cb_run_simp run_alone_1 success_fast_def success_attempt_def Let_def
        word_le_nat_alt FAILURE_MASK_def)

lemma unpack_counts:
  assumes "n < 16384" and "k < 65536" and "a \<le> TIMESTAMP_MASK"
  shows "unpack (pack STATE_CLOSED (of_nat n) (of_nat k) a) = (STATE_CLOSED, of_nat n, of_nat k, a)"
proof -
  have "unat (of_nat n :: word64) = n" "unat (of_nat k :: word64) = k"
    using assms(1,2) by (simp_all add: unsigned_of_nat take_bit_nat_eq_self)
  then have "(of_nat n :: word64) \<le> FAILURE_MASK" "(of_nat k :: word64) \<le> PERMIT_MASK"
    using assms(1,2) by (simp_all add: word_le_nat_alt FAILURE_MASK_def PERMIT_MASK_def)
  then show ?thesis using assms(3) by (simp add: and_FAILURE_MASK and_PERMIT_MASK and_TIMESTAMP_MASK)
qed

lemma unat_of_nat_small: "n < 65536 \<Longrightarrow> unat (of_nat n :: word64) = n"
  by (simp add: unsigned_of_nat take_bit_nat_eq_self)

text \<open>What the word knows of a window whose outcomes so far are \<open>os\<close>.\<close>

definition window_state :: "word32 \<Rightarrow> word64 \<Rightarrow> (bool \<times> word64) list \<Rightarrow> word64 \<Rightarrow> bool" where
  "window_state th t0 os w \<longleftrightarrow>
     (if window_trips th os then \<exists>g u. unpack w = (STATE_OPEN, g, 0, u)
      else unpack w = (STATE_CLOSED, of_nat (fails os), of_nat (succs os), t0))"

lemma window_state_first:
  assumes "failure_policy cfg = Windowed th window" and "t0 \<le> TIMESTAMP_MASK"
  shows "window_state th t0 [(True, t0)] (cb_outcome cfg pm (True, t0) (cb_new t))"
proof -
  have "unpack (cb_new t) = (STATE_CLOSED, 0, 0, t AND TIMESTAMP_MASK)" by (simp add: cb_new_def)
  note first = window_first_failure [OF assms(1) this assms(2), of pm]
  have "unpack (pack STATE_CLOSED 1 0 t0) = (STATE_CLOSED, 1, 0, t0)"
    using unpack_counts [of 1 0 t0] assms(2) by simp
  then show ?thesis
    by (simp add: window_state_def window_trips_def cb_outcome_def first fails_def succs_def
          unpack_open_word)
qed

lemma window_state_failure:
  assumes pol: "failure_policy cfg = Windowed th window" and "t0 \<le> TIMESTAMP_MASK"
    and u: "unpack w = (STATE_CLOSED, of_nat (fails os), of_nat (succs os), t0)"
    and "0 < fails os" and "fails os < 16383" and "succs os < 16383"
    and "sat_sub (snd x) t0 < window" and fx: "fst x" and "\<not> window_trips th os"
  shows "window_state th t0 (os @ [x]) (cb_outcome cfg pm x w)"
proof -
  have counts: "fails (os @ [x]) = Suc (fails os)" "succs (os @ [x]) = succs os"
    using fx by (simp_all add: fails_def succs_def)
  have pos: "(of_nat (fails os) :: word64) \<noteq> 0"
    using unat_of_nat_small [of "fails os"] assms(4,5) by auto
  have next_w: "cb_outcome cfg pm x w =
      (if failure_limit th \<le> fails os + 1 \<and> succs os \<le> fails os + 1 then open_word (snd x)
       else pack STATE_CLOSED (of_nat (fails os) + 1) (of_nat (succs os)) t0)"
    using window_failure [OF pol u pos assms(7)] fx assms(5,6)
    by (simp add: cb_outcome_def unat_of_nat_small)
  have "unpack (pack STATE_CLOSED (of_nat (fails os) + 1) (of_nat (succs os)) t0)
      = (STATE_CLOSED, of_nat (Suc (fails os)), of_nat (succs os), t0)"
    using unpack_counts [of "Suc (fails os)" "succs os" t0] assms(2,5,6) by (simp add: add.commute)
  then show ?thesis
    using assms(9) fx counts next_w window_trips_snoc [of th os x]
    by (simp add: window_state_def unpack_open_word)
qed

lemma window_state_success:
  assumes pol: "failure_policy cfg = Windowed th window" and "t0 \<le> TIMESTAMP_MASK"
    and u: "unpack w = (STATE_CLOSED, of_nat (fails os), of_nat (succs os), t0)"
    and "0 < fails os" and "fails os < 16383" and "succs os < 16383"
    and "sat_sub (snd x) t0 < window" and fx: "\<not> fst x" and "\<not> window_trips th os"
  shows "window_state th t0 (os @ [x]) (cb_outcome cfg pm x w)"
proof -
  have counts: "fails (os @ [x]) = fails os" "succs (os @ [x]) = Suc (succs os)"
    using fx by (simp_all add: fails_def succs_def)
  have pos: "(of_nat (fails os) :: word64) \<noteq> 0"
    using unat_of_nat_small [of "fails os"] assms(4,5) by auto
  have "cb_outcome cfg pm x w = pack STATE_CLOSED (of_nat (fails os)) (of_nat (succs os) + 1) t0"
    using window_success [OF pol u pos assms(7)] fx assms(6)
    by (simp add: cb_outcome_def unat_of_nat_small)
  moreover have "unpack (pack STATE_CLOSED (of_nat (fails os)) (of_nat (succs os) + 1) t0)
      = (STATE_CLOSED, of_nat (fails os), of_nat (Suc (succs os)), t0)"
    using unpack_counts [of "fails os" "Suc (succs os)" t0] assms(2,5,6) by (simp add: add.commute)
  ultimately show ?thesis
    using assms(9) fx counts window_trips_snoc [of th os x] by (simp add: window_state_def)
qed

lemma window_state_run:
  assumes pol: "failure_policy cfg = Windowed th window" and "t0 \<le> TIMESTAMP_MASK"
    and "\<forall>x \<in> set rest. sat_sub (snd x) t0 < window" and "length rest < 16382"
  shows "window_state th t0 ((True, t0) # rest) (fold (cb_outcome cfg pm) ((True, t0) # rest) (cb_new t))"
  using assms(3,4)
proof (induction rest rule: rev_induct)
  case Nil
  from window_state_first [OF assms(1,2)] show ?case by simp
next
  case (snoc x rest)
  let ?os = "(True, t0) # rest"
  define w where "w = fold (cb_outcome cfg pm) ?os (cb_new t)"
  have IH: "window_state th t0 ?os w" using snoc by (simp add: w_def)
  have small: "0 < fails ?os" "fails ?os < 16383" "succs ?os < 16383"
    using snoc.prems(2) by (auto simp: fails_def succs_def intro!: le_less_trans [OF length_filter_le])
  have "window_state th t0 (?os @ [x]) (cb_outcome cfg pm x w)"
  proof (cases "window_trips th ?os")
    case True
    with IH obtain g u where "unpack w = (STATE_OPEN, g, 0, u)" by (auto simp: window_state_def)
    with True show ?thesis
      using window_trips_snoc [of th ?os x]
      by (auto simp: window_state_def cb_outcome_def cb_after_failure)
  next
    case False
    with IH have "unpack w = (STATE_CLOSED, of_nat (fails ?os), of_nat (succs ?os), t0)"
      by (simp add: window_state_def)
    with window_state_failure [OF pol assms(2) _ small _ _ False]
      window_state_success [OF pol assms(2) _ small _ _ False] snoc.prems(1)
    show ?thesis by (cases "fst x") simp_all
  qed
  then show ?case by (simp add: w_def)
qed

text \<open>
  The windowed policy trips on a failure rate, exactly as documented. In a window that starts
  with its first failure, fewer than 16383 outcomes in, the breaker is open if and only if at some
  failure there had been at least threshold failures and no fewer failures than successes; until
  then it is closed. So alternating failures and successes open it and a busy healthy provider's
  background errors do not.
\<close>

theorem windowed_opens_on_rate:
  assumes "failure_policy cfg = Windowed th window" and "t0 \<le> TIMESTAMP_MASK"
    and "\<forall>x \<in> set rest. sat_sub (snd x) t0 < window" and "length rest < 16382"
  shows "cb_state (fold (cb_outcome cfg pm) ((True, t0) # rest) (cb_new t)) =
           (if window_trips th ((True, t0) # rest) then Open
            else Closed (of_nat (fails ((True, t0) # rest))))"
proof -
  let ?os = "(True, t0) # rest"
  have "fails ?os < 16383"
    using assms(4) by (auto simp: fails_def intro!: le_less_trans [OF length_filter_le])
  then have "ucast (of_nat (fails ?os) :: word64) = (of_nat (fails ?os) :: word32)"
    by (simp add: word_unat_eq_iff unsigned_ucast_eq unsigned_of_nat take_bit_nat_eq_self)
  with window_state_run [OF assms, of pm t] show ?thesis
    unfolding window_state_def by (auto dest: cb_state_closed cb_state_open split: if_splits)
qed

theorem windowed_opens_on_rate_witness:
  "let os = [(True, 5), (False, 6), (True, 7)] in
   cb_state (fold (cb_outcome (windowed 2 10) NotProbe) os (cb_new 0)) = Open \<and> window_trips 2 os"
proof -
  have tr: "window_trips 2 [(True, 5), (False, 6), (True, 7)]"
    by (auto simp: window_trips_def failure_limit_def fails_def succs_def intro!: exI [of _ 2])
  have "cb_state (fold (cb_outcome (windowed 2 10) NotProbe) ((True, 5) # [(False, 6), (True, 7)]) (cb_new 0)) =
      (if window_trips 2 ((True, 5) # [(False, 6), (True, 7)]) then Open
       else Closed (of_nat (fails ((True, 5) # [(False, 6), (True, 7)]))))"
    by (rule windowed_opens_on_rate [where window = 10])
       (simp_all add: windowed_def TIMESTAMP_MASK_def sat_sub_def word_less_nat_alt word_le_nat_alt)
  with tr show ?thesis by (simp add: Let_def)
qed

section \<open>Open and half-open\<close>

lemma cb_run_open_early:
  assumes "unpack w = (STATE_OPEN, f, p, t)" and "sat_sub now t < reset_timeout cfg"
  shows "cb_run cfg Allow now w = Some (w, CircuitOpen)"
proof -
  have "(reset_timeout cfg \<le> sat_sub now t) = False" using assms(2) by simp
  then show ?thesis using assms(1) by (simp only: cb_run_simp cb_attempt.simps allow_attempt_def) simp
qed

lemma unat_sat_sub: "unat (sat_sub a b) = unat a - unat b"
  by (simp add: sat_sub_def unat_sub_if' word_le_nat_alt)

text \<open>
  An open breaker stays shut. Before its reset timeout has elapsed since it opened, counting
  a clock that reads earlier than that moment as no time at all, it admits nobody, and no success,
  failure or release of any permit changes it.
\<close>

theorem open_rejects_until_reset:
  assumes "unpack w = (STATE_OPEN, f, p, t)" and "unat now < unat t + unat (reset_timeout cfg)"
    and "0 < reset_timeout cfg"
  shows "cb_run cfg Allow now w = Some (w, CircuitOpen) \<and>
         cb_run cfg (Success pm) now w = Some (w, Resolved) \<and>
         cb_run cfg (Failure pm) now w = Some (w, Resolved) \<and>
         cb_run cfg (Release pm) now w = Some (w, Resolved)"
proof -
  have "unat (reset_timeout cfg) \<noteq> 0" using assms(3) by (simp add: word_less_nat_alt)
  then have "sat_sub now t < reset_timeout cfg"
    using assms(2) by (simp add: word_less_nat_alt unat_sat_sub)
  from cb_run_open_early [OF assms(1) this] assms(1) show ?thesis
    by (auto simp: cb_run_simp [of cfg "Success pm"] cb_run_simp [of cfg "Failure pm"]
          cb_run_simp [of cfg "Release pm"] run_alone_1 success_fast_def success_attempt_def
          failure_attempt_def failure_consecutive_attempt_def failure_windowed_attempt_def
          release_attempt_def Let_def split: failure_policy.splits)
qed

theorem open_rejects_until_reset_witness:
  "cb_run cb_default Allow 119 (open_word 90) = Some (open_word 90, CircuitOpen) \<and>
   cb_run cb_default Allow 3 (open_word 90) = Some (open_word 90, CircuitOpen)"
  using open_rejects_until_reset [OF unpack_open_word, of 119 90 cb_default NotProbe]
    open_rejects_until_reset [OF unpack_open_word, of 3 90 cb_default NotProbe]
  by (simp add: cb_default_def TIMESTAMP_MASK_def word_less_nat_alt)

lemma cb_run_half_open_early:
  assumes "unpack w = (STATE_HALF_OPEN, f, 0, t)" and "sat_sub now t < reset_timeout cfg"
  shows "cb_run cfg Allow now w = Some (w, CircuitOpen)"
proof -
  have "(reset_timeout cfg \<le> sat_sub now t) = False" using assms(2) by simp
  then show ?thesis using assms(1) by (simp only: cb_run_simp cb_attempt.simps allow_attempt_def) simp
qed

lemma permits_nonzero:
  assumes "1 \<le> unat (h :: word32)" and "unat h \<le> 65535"
  shows "(ucast h :: word64) AND PERMIT_MASK \<noteq> 0"
proof -
  have "(ucast h :: word64) \<le> PERMIT_MASK" using assms(2) by (simp add: word_le_nat_alt PERMIT_MASK_def)
  then have "unat ((ucast h :: word64) AND PERMIT_MASK) = unat h" by (simp only: and_PERMIT_MASK unat_ucast32)
  with assms(1) show ?thesis by auto
qed

lemma cb_run_due:
  assumes "unpack w = (s, f, p, t)" and "s = STATE_OPEN \<or> s = STATE_HALF_OPEN \<and> p = 0"
    and "0 < reset_timeout cfg" and "1 \<le> unat (half_open_permits cfg)"
    and "unat (half_open_permits cfg) \<le> 65535" and "reset_timeout cfg \<le> sat_sub now t"
  shows "\<exists>w' g. cb_run cfg Allow now w = Some (w', Admitted (Probe g))"
  using assms(1,2,3,6) permits_nonzero [OF assms(4,5)]
  by (auto simp: cb_run_simp run_alone_1 allow_attempt_def Let_def probe_def)

text \<open>
  \<^verbatim>\<open>Retry-After\<close> tells the truth. For a breaker that refuses now (open, or half-open with every
  permit out), with a positive reset timeout and between 1 and 65535 probe permits: a request that
  comes back after exactly the advertised seconds, nothing else having happened, is admitted as a
  probe; if more than one second was advertised, one that comes a second earlier is refused.
\<close>

theorem retry_after_is_exact:
  assumes "unpack w = (s, f, p, t)" and "s = STATE_OPEN \<or> s = STATE_HALF_OPEN \<and> p = 0"
    and "0 < reset_timeout cfg" and "1 \<le> unat (half_open_permits cfg)"
    and "unat (half_open_permits cfg) \<le> 65535" and "t \<le> now"
    and "r = retry_after_secs cfg now w" and "unat now + unat r < 2 ^ 64"
  shows "1 \<le> r \<and>
         (\<exists>w' g. cb_run cfg Allow (now + r) w = Some (w', Admitted (Probe g))) \<and>
         (1 < r \<longrightarrow> cb_run cfg Allow (now + r - 1) w = Some (w, CircuitOpen))"
proof -
  have r: "unat r = max (unat (reset_timeout cfg) - (unat now - unat t)) 1"
    using assms(1,2,7) by (auto simp: retry_after_secs_def Let_def unat_sat_sub max_def word_le_nat_alt)
  have t_le: "unat t \<le> unat now" using assms(6) by (simp add: word_le_nat_alt)
  have sum: "unat (now + r) = unat now + unat r" using assms(8) by (simp add: unat_word_ariths)
  have "now + r \<noteq> 0" using sum r by auto
  then have pred: "unat (now + r - 1) = unat now + unat r - 1" using sum by (simp add: unat_minus_one)
  have ge: "1 \<le> r" using r by (simp add: word_le_nat_alt)
  have "reset_timeout cfg \<le> sat_sub (now + r) t"
    using r sum t_le by (simp add: word_le_nat_alt unat_sat_sub)
  from cb_run_due [OF assms(1-5) this]
  have due: "\<exists>w' g. cb_run cfg Allow (now + r) w = Some (w', Admitted (Probe g))" .
  have "cb_run cfg Allow (now + r - 1) w = Some (w, CircuitOpen)" if "1 < r"
  proof -
    have "1 < unat r" using that by (simp add: word_less_nat_alt)
    then have "sat_sub (now + r - 1) t < reset_timeout cfg"
      using r pred t_le by (simp add: word_less_nat_alt unat_sat_sub max_def split: if_splits)
    then show ?thesis
      using assms(1,2) cb_run_open_early cb_run_half_open_early by blast
  qed
  with ge due show ?thesis by blast
qed

theorem retry_after_is_exact_witness:
  "retry_after_secs cb_default 100 (open_word 90) = 20 \<and>
   (\<exists>w' g. cb_run cb_default Allow 120 (open_word 90) = Some (w', Admitted (Probe g))) \<and>
   cb_run cb_default Allow 119 (open_word 90) = Some (open_word 90, CircuitOpen)"
proof -
  have r: "retry_after_secs cb_default 100 (open_word 90) = 20"
    by (simp add: retry_after_secs_def unpack_open_word cb_default_def TIMESTAMP_MASK_def sat_sub_def
          max_def word_le_nat_alt)
  from retry_after_is_exact [OF unpack_open_word _ _ _ _ _ r [symmetric]]
  have "(\<exists>w' g. cb_run cb_default Allow 120 (open_word 90) = Some (w', Admitted (Probe g))) \<and>
      cb_run cb_default Allow 119 (open_word 90) = Some (open_word 90, CircuitOpen)"
    by (simp add: cb_default_def TIMESTAMP_MASK_def word_le_nat_alt word_less_nat_alt)
  with r show ?thesis by blast
qed

text \<open>
  Only a probe of the current generation decides. In a half-open word, a permit claimed while
  closed or in another generation (reclaimed from a stalled probe, or from an earlier half-open)
  changes nothing, whether its attempt ends in success, in failure or is released.
\<close>

theorem stale_permit_decides_nothing:
  assumes "unpack w = (STATE_HALF_OPEN, g, p, t)" and "stale pm g"
  shows "cb_run cfg (Success pm) now w = Some (w, Resolved) \<and>
         cb_run cfg (Failure pm) now w = Some (w, Resolved) \<and>
         cb_run cfg (Release pm) now w = Some (w, Resolved)"
  using assms
  by (auto simp: cb_run_simp run_alone_1 success_fast_def success_attempt_def failure_attempt_def
        failure_consecutive_attempt_def failure_windowed_attempt_def release_attempt_def Let_def
      split: failure_policy.splits)

theorem stale_permit_decides_nothing_witness:
  "let w = pack STATE_HALF_OPEN 8 0 50 in
   stale (Probe 7) 8 \<and> cb_run cb_default (Release (Probe 7)) 60 w = Some (w, Resolved)"
proof -
  have "unpack (pack STATE_HALF_OPEN 8 0 50) = (STATE_HALF_OPEN, 8, 0, 50)"
    by (simp add: FAILURE_MASK_def PERMIT_MASK_def TIMESTAMP_MASK_def)
  from stale_permit_decides_nothing [OF this, of "Probe 7" cb_default 60] show ?thesis
    by (simp add: Let_def)
qed

section \<open>How many probes are out\<close>

text \<open>
  The breaker with the permits its callers hold. A caller holds what \<^verbatim>\<open>allow\<close> gave it until it
  resolves it, once; an answered success may later turn out a failure (\<^verbatim>\<open>record_late_failure\<close>).
\<close>

type_synonym cb_held = "word64 \<times> permit list"

inductive held_step :: "cb_config \<Rightarrow> cb_held \<Rightarrow> cb_held \<Rightarrow> bool" for cfg where
  admitted: "cb_run cfg Allow now w = Some (w', Admitted pm) \<Longrightarrow> held_step cfg (w, ps) (w', pm # ps)"
| refused: "cb_run cfg Allow now w = Some (w', CircuitOpen) \<Longrightarrow> held_step cfg (w, ps) (w', ps)"
| succeeded: "pm \<in> set ps \<Longrightarrow> held_step cfg (w, ps) (cb_after cfg (Success pm) now w, remove1 pm ps)"
| failed: "pm \<in> set ps \<Longrightarrow> held_step cfg (w, ps) (cb_after cfg (Failure pm) now w, remove1 pm ps)"
| released: "pm \<in> set ps \<Longrightarrow> held_step cfg (w, ps) (cb_after cfg (Release pm) now w, remove1 pm ps)"
| late_failure: "held_step cfg (w, ps) (cb_after cfg (Failure pm) now w, ps)"
| was_reset: "held_step cfg (w, ps) (cb_after cfg Reset now w, ps)"

text \<open>Held permits that are probes of the generation the word is in.\<close>

definition live_probes :: "word64 \<Rightarrow> permit list \<Rightarrow> nat" where
  "live_probes g ps = length (filter (\<lambda>pm. \<not> stale pm g) ps)"

text \<open>
  A step that enters a generation is fresh when no permit of that generation is still held. The
  generation has 14 bits, so a permit held across exactly 16384 generations, or across a re-opening
  whose clock seed happens to repeat it, would not be.
\<close>

fun generation :: "word64 \<Rightarrow> word64 option" where
  "generation w = (case unpack w of (s, g, _, _) \<Rightarrow> if s = STATE_HALF_OPEN then Some g else None)"

definition fresh_step :: "cb_held \<Rightarrow> cb_held \<Rightarrow> bool" where
  "fresh_step a b \<longleftrightarrow>
     (case generation (fst b) of
        Some g \<Rightarrow> generation (fst a) = Some g \<or> live_probes g (snd a) = 0
      | None \<Rightarrow> True)"

definition probes_ok :: "cb_config \<Rightarrow> cb_held \<Rightarrow> bool" where
  "probes_ok cfg a =
     (case unpack (fst a) of (s, g, p, _) \<Rightarrow>
        s = STATE_HALF_OPEN \<longrightarrow> live_probes g (snd a) + unat p \<le> unat (half_open_permits cfg))"

lemma live_probes_Cons: "live_probes g (pm # ps) = (if stale pm g then 0 else 1) + live_probes g ps"
  by (simp add: live_probes_def)

lemma live_probes_remove1:
  "pm \<in> set ps \<Longrightarrow> live_probes g (remove1 pm ps) + (if stale pm g then 0 else 1) = live_probes g ps"
  by (induction ps) (auto simp: live_probes_def)

lemma live_probes_remove1_le: "live_probes g (remove1 pm ps) \<le> live_probes g ps"
  by (induction ps) (auto simp: live_probes_def)

lemma probes_ok_no_generation: "generation w = None \<Longrightarrow> probes_ok cfg (w, ps)"
  by (auto simp: probes_ok_def split: prod.splits if_splits)

lemma probes_ok_fewer: "probes_ok cfg (w, ps) \<Longrightarrow> probes_ok cfg (w, remove1 pm ps)"
  by (cases "unpack w")
     (auto simp: probes_ok_def intro: order_trans [OF add_right_mono [OF live_probes_remove1_le]])

lemma outcome_leaves_generation:
  "cb_after cfg (Success pm) now w = w \<or> generation (cb_after cfg (Success pm) now w) = None"
  "cb_after cfg (Failure pm) now w = w \<or> generation (cb_after cfg (Failure pm) now w) = None"
  "generation (cb_after cfg Reset now w) = None"
  by (cases "unpack w";
      auto simp: cb_after_def cb_run_simp run_alone_1 success_fast_def success_attempt_def
        failure_attempt_def failure_consecutive_attempt_def failure_windowed_attempt_def open_word_def
        Let_def split: failure_policy.splits)+

lemma release_probes_ok:
  assumes "probes_ok cfg (w, ps)" and "pm \<in> set ps" and "unat (half_open_permits cfg) \<le> 65535"
  shows "probes_ok cfg (cb_after cfg (Release pm) now w, remove1 pm ps)"
proof -
  obtain s g p t where u: "unpack w = (s, g, p, t)" by (cases "unpack w")
  show ?thesis
  proof (cases "s \<noteq> STATE_HALF_OPEN \<or> stale pm g \<or> p \<ge> ucast (half_open_permits cfg)")
    case True
    then have "cb_after cfg (Release pm) now w = w"
      using u by (simp add: cb_after_def cb_run_simp release_attempt_def)
    with assms(1) show ?thesis by (simp add: probes_ok_fewer)
  next
    case False
    then have lt: "unat p < unat (half_open_permits cfg)" by (simp add: word_le_nat_alt)
    then have inc: "unat (p + 1) = unat p + 1" using assms(3) by (simp add: unat_word_ariths)
    then have "p + 1 \<le> PERMIT_MASK" using lt assms(3) by (simp add: word_le_nat_alt PERMIT_MASK_def)
    then have "unpack (pack STATE_HALF_OPEN g (p + 1) t) = (STATE_HALF_OPEN, g, p + 1, t AND TIMESTAMP_MASK)"
      using and_FAILURE_MASK [OF unpack_bounds(2) [OF u]] by (simp add: and_PERMIT_MASK)
    moreover have "cb_after cfg (Release pm) now w = pack STATE_HALF_OPEN g (p + 1) t"
      using u False by (simp add: cb_after_def cb_run_simp release_attempt_def)
    ultimately show ?thesis
      using assms(1) u inc False live_probes_remove1 [OF assms(2), of g] by (simp add: probes_ok_def)
  qed
qed

lemma next_generation_differs: "g \<le> FAILURE_MASK \<Longrightarrow> (g + 1) AND FAILURE_MASK \<noteq> g"
proof
  assume "g \<le> FAILURE_MASK" and eq: "(g + 1) AND FAILURE_MASK = g"
  then have "unat g \<le> 16383" by (simp add: word_le_nat_alt FAILURE_MASK_def)
  moreover from this have "unat (g + 1) = unat g + 1" by (simp add: unat_word_ariths)
  moreover have "unat ((g + 1) AND FAILURE_MASK) = unat (g + 1) mod 16384"
    unfolding mask_folds unsigned_take_bit_eq by (simp add: take_bit_eq_mod)
  ultimately have "(unat g + 1) mod 16384 = unat g" using eq by simp
  with \<open>unat g \<le> 16383\<close> show False by (cases "unat g = 16383") auto
qed

lemma ucast_nonzero: "1 \<le> unat (h :: word32) \<Longrightarrow> (ucast h :: word64) \<noteq> 0"
  by (metis not_one_le_zero unat_ucast32 unsigned_0)

lemma ucast_pred: "1 \<le> unat (h :: word32) \<Longrightarrow> (ucast (h - 1) :: word64) = ucast h - 1"
proof -
  assume h: "1 \<le> unat h"
  then have "unat (h - 1) = unat h - 1" by (intro unat_minus_one) auto
  moreover have "unat ((ucast h :: word64) - 1) = unat h - 1"
    using unat_minus_one [OF ucast_nonzero [OF h]] by simp
  ultimately show ?thesis by (simp add: word_unat_eq_iff)
qed

text \<open>A new generation with its first permit just claimed, nothing of it held before.\<close>

lemma claim_first_probe:
  assumes "1 \<le> unat (half_open_permits cfg)" and "unat (half_open_permits cfg) \<le> 65535"
    and "g \<le> FAILURE_MASK" and "live_probes g ps = 0"
    and "p = ucast (half_open_permits cfg) - (1 :: word64)"
  shows "probes_ok cfg (pack STATE_HALF_OPEN g p now, probe g # ps)"
proof -
  have p: "unat p = unat (half_open_permits cfg) - 1" using assms(5) ucast_nonzero [OF assms(1)] by (simp add: unat_minus_one)
  then have "p \<le> PERMIT_MASK" using assms(2) by (simp add: word_le_nat_alt PERMIT_MASK_def)
  then show ?thesis
    using assms(1,3,4) p
    by (simp add: probes_ok_def live_probes_Cons and_FAILURE_MASK and_PERMIT_MASK)
qed

lemma allow_probes_ok:
  assumes run: "cb_run cfg Allow now w = Some (w', Admitted pm)"
    and ok: "probes_ok cfg (w, ps)" and fresh: "fresh_step (w, ps) (w', pm # ps)"
    and cap: "1 \<le> unat (half_open_permits cfg)" "unat (half_open_permits cfg) \<le> 65535"
  shows "probes_ok cfg (w', pm # ps)"
proof -
  obtain s g p t where u: "unpack w = (s, g, p, t)" by (cases "unpack w")
  let ?next = "(g + 1) AND FAILURE_MASK"
  have g_le: "g \<le> FAILURE_MASK" using unpack_bounds(2) [OF u] .
  have next_le: "?next \<le> FAILURE_MASK" by (rule and_mask_le)
  have cap_le: "(ucast (half_open_permits cfg) :: word64) AND PERMIT_MASK = ucast (half_open_permits cfg)"
    using cap(2) by (intro and_PERMIT_MASK) (simp add: word_le_nat_alt PERMIT_MASK_def)
  have pred: "(ucast (half_open_permits cfg - 1) :: word64) = ucast (half_open_permits cfg) - 1"
    by (rule ucast_pred [OF cap(1)])
  consider (closed) "s = STATE_CLOSED" | (op) "s = STATE_OPEN" | (half) "s = STATE_HALF_OPEN" "p \<noteq> 0"
    | (stalled) "s = STATE_HALF_OPEN" "p = 0"
    | (bad) "s \<noteq> STATE_CLOSED" "s \<noteq> STATE_OPEN" "s \<noteq> STATE_HALF_OPEN" by blast
  then show ?thesis
  proof cases
    case closed
    with run u show ?thesis
      by (intro probes_ok_no_generation) (auto simp: cb_run_simp allow_attempt_def)
  next
    case op
    with run u permits_nonzero [OF cap]
    have "w' = pack STATE_HALF_OPEN ?next (ucast (half_open_permits cfg) - 1) now" "pm = probe ?next"
      by (auto simp: cb_run_simp run_alone_1 allow_attempt_def cap_le split: if_splits)
    with claim_first_probe [OF cap next_le _ refl, of ps now] fresh op u show ?thesis
      by (auto simp: fresh_step_def and_FAILURE_MASK)
  next
    case half
    then have "unat p \<noteq> 0" by (simp add: unat_eq_zero)
    then have p1: "unat (p - 1) = unat p - 1" using half by (simp add: unat_minus_one)
    have "p - 1 \<le> PERMIT_MASK" using word_dec_le [OF half(2) unpack_bounds(3) [OF u]] .
    moreover from run u half have "w' = pack STATE_HALF_OPEN g (p - 1) now" "pm = probe g"
      by (auto simp: cb_run_simp allow_attempt_def)
    ultimately show ?thesis
      using ok u half p1 g_le \<open>unat p \<noteq> 0\<close>
      by (simp add: probes_ok_def live_probes_Cons and_FAILURE_MASK and_PERMIT_MASK)
  next
    case stalled
    with run u cap(1) have "w' = pack STATE_HALF_OPEN ?next (ucast (half_open_permits cfg) - 1) now" "pm = probe ?next"
      by (auto simp: cb_run_simp allow_attempt_def Let_def pred split: if_splits)
    with claim_first_probe [OF cap next_le _ refl, of ps now] fresh stalled u
      next_generation_differs [OF g_le] show ?thesis
      by (auto simp: fresh_step_def and_FAILURE_MASK)
  next
    case bad
    with run u show ?thesis
      by (intro probes_ok_no_generation) (auto simp: cb_run_simp allow_attempt_def)
  qed
qed

lemma held_step_probes_ok:
  assumes "held_step cfg a b" and "probes_ok cfg a" and "fresh_step a b"
    and cap: "1 \<le> unat (half_open_permits cfg)" "unat (half_open_permits cfg) \<le> 65535"
  shows "probes_ok cfg b"
  using assms(1)
proof cases
  case (admitted now w w' pm ps)
  with assms(2,3) show ?thesis by (auto intro: allow_probes_ok [OF _ _ _ cap])
next
  case (refused now w w' ps)
  then have "w' = w"
    using permits_nonzero [OF cap]
    by (cases "unpack w")
       (auto simp: cb_run_simp run_alone_1 allow_attempt_def Let_def split: if_splits)
  with refused assms(2) show ?thesis by simp
next
  case (succeeded pm ps w now)
  with assms(2) outcome_leaves_generation(1) [of cfg pm now w] show ?thesis
    by (auto intro: probes_ok_no_generation probes_ok_fewer)
next
  case (failed pm ps w now)
  with assms(2) outcome_leaves_generation(2) [of cfg pm now w] show ?thesis
    by (auto intro: probes_ok_no_generation probes_ok_fewer)
next
  case (released pm ps w now)
  with assms(2) show ?thesis by (auto intro: release_probes_ok [OF _ _ cap(2)])
next
  case (late_failure w ps pm now)
  with assms(2) outcome_leaves_generation(2) [of cfg pm now w] show ?thesis
    by (auto intro: probes_ok_no_generation)
next
  case (was_reset w ps now)
  with outcome_leaves_generation(3) [of cfg now w] show ?thesis
    by (auto intro: probes_ok_no_generation)
qed

inductive fresh_run :: "cb_config \<Rightarrow> word64 \<Rightarrow> cb_held \<Rightarrow> bool" for cfg t0 where
  fresh_start: "fresh_run cfg t0 (cb_new t0, [])"
| fresh_next: "fresh_run cfg t0 a \<Longrightarrow> held_step cfg a b \<Longrightarrow> fresh_step a b \<Longrightarrow> fresh_run cfg t0 b"

text \<open>
  C20. Half-open admits no more probes than configured. In any sequence of calls in which permits
  are resolved at most once each, with 1 to 65535 half-open permits and generations entered fresh
  (no permit of the number being entered is still out, which the 14 bits of the generation do not ensure by themselves),
  whenever the breaker is half-open the probes of its generation that are still out, together with
  the permits it can still hand out, never exceed the configured number, reclaims of stalled probes
  and late verdicts included.
\<close>

theorem half_open_probe_bound:
  assumes "fresh_run cfg t0 (w, ps)" and "unpack w = (STATE_HALF_OPEN, g, p, t)"
    and "1 \<le> unat (half_open_permits cfg)" and "unat (half_open_permits cfg) \<le> 65535"
  shows "live_probes g ps + unat p \<le> unat (half_open_permits cfg)"
proof -
  have "probes_ok cfg a" if "fresh_run cfg t0 a" for a
    using that
  proof (induction rule: fresh_run.induct)
    case fresh_start
    show ?case by (rule probes_ok_no_generation) (simp add: cb_new_def)
  next
    case (fresh_next a b)
    with held_step_probes_ok [OF _ _ _ assms(3,4)] show ?case by blast
  qed
  from this [OF assms(1)] assms(2) show ?thesis by (simp add: probes_ok_def)
qed

theorem half_open_probe_bound_witness:
  "\<exists>w ps. fresh_run ((consecutive 1)\<lparr>half_open_permits := 1\<rparr>) 0 (w, ps) \<and>
     unpack w = (STATE_HALF_OPEN, 8, 0, 40) \<and> live_probes 8 ps = 1 \<and>
     live_probes 8 ps + unat (0 :: word64) \<le> 1"
proof -
  let ?cfg = "(consecutive 1)\<lparr>half_open_permits := 1\<rparr>"
  let ?w = "pack STATE_HALF_OPEN 8 0 40"
  have run1: "cb_run ?cfg Allow 1 (cb_new 0) = Some (cb_new 0, Admitted NotProbe)"
    by (simp add: cb_run_simp allow_attempt_def cb_new_def)
  have run2: "cb_after ?cfg (Failure NotProbe) 7 (cb_new 0) = open_word 7"
    by (simp add: cb_after_def cb_run_simp run_alone_1 failure_attempt_def consecutive_def
          cb_default_def failure_consecutive_attempt_def cb_new_def MAX_FAILURE_THRESHOLD_def
          FAILURE_MASK_def min_def Let_def)
  have run3: "cb_run ?cfg Allow 40 (open_word 7) = Some (?w, Admitted (probe 8))"
    by (simp add: cb_run_simp run_alone_1 allow_attempt_def unpack_open_word consecutive_def
          cb_default_def FAILURE_MASK_def TIMESTAMP_MASK_def PERMIT_MASK_def sat_sub_def word_le_nat_alt)
  have w: "unpack ?w = (STATE_HALF_OPEN, 8, 0, 40)"
    by (simp add: FAILURE_MASK_def TIMESTAMP_MASK_def PERMIT_MASK_def)
  have "fresh_run ?cfg 0 (cb_new 0, [NotProbe])"
    by (rule fresh_next [OF fresh_start held_step.admitted [OF run1]])
       (simp add: fresh_step_def cb_new_def)
  from fresh_next [OF this held_step.failed [of NotProbe _ ?cfg _ 7]]
  have "fresh_run ?cfg 0 (open_word 7, [])"
    by (simp add: run2 fresh_step_def unpack_open_word)
  from fresh_next [OF this held_step.admitted [OF run3]]
  have run: "fresh_run ?cfg 0 (?w, [probe 8])"
    by (simp add: fresh_step_def w live_probes_def)
  have "live_probes 8 [probe 8] = 1"
    using stale_probe [of 8] by (simp add: live_probes_def FAILURE_MASK_def word_le_nat_alt)
  moreover have "live_probes 8 [probe 8] + unat (0 :: word64) \<le> 1"
    using half_open_probe_bound [OF run w] by simp
  ultimately show ?thesis using run w by blast
qed

end
