(* ===== verification/Gateway_Limits.thy ===== *)
theory Gateway_Limits
  imports Cas_Loop Rust_Std "HOL-Library.Word"
begin

unbundle bit_operations_syntax

text \<open>
  The gateway's concurrency bounds, \<^verbatim>\<open>gateway/src/concurrency.rs\<close>:
  \<^item> the process-wide body budget (\<open>budget_*\<close>), an atomic word under a compare-and-swap loop;
  \<^item> the per-tenant in-flight cap (\<open>slots_*\<close>), 64 mutex-guarded maps.

  Proved: the budget is never over-reserved in any interleaving and its use is exactly what the
  outstanding holds add up to; a tenant never holds more than its ceiling, tenants do not share
  one, and the sharded maps implement one counter per tenant (the locale \<open>tenant_counter\<close>).
\<close>

section \<open>The body budget\<close>

text \<open>
  \<^verbatim>\<open>fetch_update\<close> is a compare-and-swap loop around a function. \<open>usize\<close> has 64 bits.
\<close>

datatype budget_op = TryReserve nat | BudgetRelease nat

fun budget_attempt :: "nat \<Rightarrow> budget_op \<Rightarrow> unit \<Rightarrow> nat \<Rightarrow> (nat, budget_op, bool) attempt" where
  "budget_attempt limit (TryReserve n) _ used =
     (case checked_add U64_MAX used n of
        Some t \<Rightarrow> (if t \<le> limit then Swap t True else Return False)
      | None \<Rightarrow> Return False)"
| "budget_attempt limit (BudgetRelease n) _ used = Swap (used - n) True"

definition budget_new :: "nat \<Rightarrow> nat option" where
  "budget_new limit = (if 0 < limit then Some 0 else None)"

interpretation budget: cas_object "budget_attempt limit" "\<lambda>used. used \<le> limit" for limit
proof
  fix w op c v
  show "w \<le> limit \<Longrightarrow> writes (budget_attempt limit op c w) = Some v \<Longrightarrow> v \<le> limit"
    by (cases op) (auto split: option.splits if_splits)
qed

text \<open>
  The holds that are out: a granted reservation is held until it is dropped (\<^verbatim>\<open>BudgetHold\<close>), and a
  drop releases exactly what was taken.
\<close>

inductive budget_reach :: "nat \<Rightarrow> nat \<Rightarrow> nat list \<Rightarrow> bool" for limit where
  budget_start: "budget_new limit = Some used \<Longrightarrow> budget_reach limit used []"
| budget_hold: "budget_reach limit used hs \<Longrightarrow>
     run_alone (budget_attempt limit) 1 (TryReserve n) () used = Some (used', True) \<Longrightarrow>
     budget_reach limit used' (n # hs)"
| budget_refuse: "budget_reach limit used hs \<Longrightarrow>
     run_alone (budget_attempt limit) 1 (TryReserve n) () used = Some (used', False) \<Longrightarrow>
     budget_reach limit used' hs"
| budget_drop: "budget_reach limit used hs \<Longrightarrow> n \<in> set hs \<Longrightarrow>
     run_alone (budget_attempt limit) 1 (BudgetRelease n) () used = Some (used', True) \<Longrightarrow>
     budget_reach limit used' (remove1 n hs)"

lemma sum_list_remove1: "n \<in> set hs \<Longrightarrow> sum_list (remove1 n hs) + n = sum_list (hs :: nat list)"
  by (induction hs) auto

text \<open>
  The body budget never over-commits. In every interleaving of reservations and releases by
  any number of threads, what is reserved stays within the limit; and with every grant paired with
  its release, what is reserved is exactly the sum of the holds that are out, so a refusal reserves
  nothing and a drop returns exactly what was taken.
\<close>

theorem body_budget_exact:
  "(cas_reach (budget_attempt limit) 0 s \<longrightarrow> shared s \<le> limit) \<and>
   (budget_reach limit used hs \<longrightarrow> used = sum_list hs \<and> used \<le> limit)"
proof
  show "cas_reach (budget_attempt limit) 0 s \<longrightarrow> shared s \<le> limit"
    using budget.reach_inv [of 0 limit s] by simp
  show "budget_reach limit used hs \<longrightarrow> used = sum_list hs \<and> used \<le> limit"
  proof
    assume "budget_reach limit used hs"
    then show "used = sum_list hs \<and> used \<le> limit"
    proof (induction rule: budget_reach.induct)
      case (budget_drop used hs n used')
      with sum_list_remove1 [of n hs] show ?case by auto
    qed (auto simp: budget_new_def split: if_splits option.splits)
  qed
qed

theorem body_budget_exact_witness:
  "budget_reach 100 60 [60] \<and> (60 :: nat) = sum_list [60]"
proof -
  have "budget_reach 100 0 []" by (rule budget_start) (simp add: budget_new_def)
  then have r: "budget_reach 100 60 [60]"
    by (rule budget_hold) (simp add: checked_add_def)
  with body_budget_exact [of 100 undefined 60 "[60]"] show ?thesis by blast
qed

section \<open>Per-tenant slots\<close>

text \<open>
  64 shards, each a map from tenant to the requests it holds open; the shard is the top six bits
  of a multiplicative hash of the tenant id. Each method holds its shard's mutex throughout, so it
  is one atomic step.
\<close>

type_synonym tenant = "64 word"
type_synonym slots = "(tenant \<rightharpoonup> nat) list"

definition SHARDS :: nat where "SHARDS = 64"

definition shard_index :: "tenant \<Rightarrow> nat" where
  "shard_index tenant = unat (drop_bit 58 (tenant * 0x9E3779B97F4A7C15))"

definition slots_new :: "nat \<Rightarrow> slots option" where
  "slots_new limit = (if 0 < limit then Some (replicate SHARDS Map.empty) else None)"

definition slots_try_acquire :: "nat \<Rightarrow> tenant \<Rightarrow> slots \<Rightarrow> slots \<times> bool" where
  "slots_try_acquire limit tenant shards =
     (let i = shard_index tenant; shard = shards ! i;
          n = (case shard tenant of Some n \<Rightarrow> n | None \<Rightarrow> 0);
          shard = shard(tenant \<mapsto> n)
      in if n \<ge> limit then (shards[i := shard], False)
         else (shards[i := shard(tenant \<mapsto> n + 1)], True))"

definition slots_release :: "tenant \<Rightarrow> slots \<Rightarrow> slots" where
  "slots_release tenant shards =
     (let i = shard_index tenant; shard = shards ! i in
      case shard tenant of
        None \<Rightarrow> shards
      | Some n \<Rightarrow> (if n - 1 = 0 then shards[i := shard(tenant := None)]
                   else shards[i := shard(tenant \<mapsto> n - 1)]))"

definition slots_in_flight :: "tenant \<Rightarrow> slots \<Rightarrow> nat" where
  "slots_in_flight tenant shards =
     (case (shards ! shard_index tenant) tenant of Some n \<Rightarrow> n | None \<Rightarrow> 0)"

text \<open>
  Requests in and out, for any such counter: a request that got a slot holds it until it is dropped,
  which releases it once (\<^verbatim>\<open>TenantSlot\<close>). \<open>held\<close> lists the tenants of the requests open now.
\<close>

inductive counter_reach ::
  "('t \<Rightarrow> 's \<Rightarrow> 's \<times> bool) \<Rightarrow> ('t \<Rightarrow> 's \<Rightarrow> 's) \<Rightarrow> 's \<Rightarrow> 's \<Rightarrow> 't list \<Rightarrow> bool"
  for acquire release s0
where
  reach_init: "counter_reach acquire release s0 s0 []"
| reach_take: "counter_reach acquire release s0 s held \<Longrightarrow> acquire t s = (s', True) \<Longrightarrow>
     counter_reach acquire release s0 s' (t # held)"
| reach_full: "counter_reach acquire release s0 s held \<Longrightarrow> acquire t s = (s', False) \<Longrightarrow>
     counter_reach acquire release s0 s' held"
| reach_drop: "counter_reach acquire release s0 s held \<Longrightarrow> t \<in> set held \<Longrightarrow>
     counter_reach acquire release s0 (release t s) (remove1 t held)"

lemma count_list_remove1:
  "t \<in> set held \<Longrightarrow> count_list (remove1 t held) u + (if u = t then 1 else 0) = count_list held u"
  by (induction held) auto

text \<open>
  The contract: a bounded counter per tenant. Whatever satisfies these laws gives each tenant its
  own ceiling, whichever requests of other tenants come and go.
\<close>

locale tenant_counter =
  fixes acquire :: "'t \<Rightarrow> 's \<Rightarrow> 's \<times> bool"
    and release :: "'t \<Rightarrow> 's \<Rightarrow> 's"
    and in_flight :: "'t \<Rightarrow> 's \<Rightarrow> nat"
    and inv :: "'s \<Rightarrow> bool"
    and limit :: nat
  assumes acquire_inv: "inv s \<Longrightarrow> inv (fst (acquire t s))"
    and release_inv: "inv s \<Longrightarrow> inv (release t s)"
    and acquire_ok: "inv s \<Longrightarrow> snd (acquire t s) \<longleftrightarrow> in_flight t s < limit"
    and acquire_count: "inv s \<Longrightarrow>
      in_flight u (fst (acquire t s)) = in_flight u s + (if u = t \<and> in_flight t s < limit then 1 else 0)"
    and release_count: "inv s \<Longrightarrow>
      in_flight u (release t s) = in_flight u s - (if u = t then 1 else 0)"
begin

lemma reach_exact:
  assumes "counter_reach acquire release s0 s held" and "inv s0" and "\<And>u. in_flight u s0 = 0"
  shows "inv s \<and> (\<forall>u. in_flight u s = count_list held u \<and> in_flight u s \<le> limit)"
  using assms(1)
proof (induction rule: counter_reach.induct)
  case reach_init
  then show ?case using assms(2,3) by simp
next
  case (reach_take s held t s')
  then have "in_flight t s < limit" using acquire_ok [of s t] by simp
  with reach_take acquire_count [of s _ t] acquire_inv [of s t] show ?case by (auto; metis)
next
  case (reach_full s held t s')
  then have "\<not> in_flight t s < limit" using acquire_ok [of s t] by simp
  then have "in_flight u s' = in_flight u s" for u using reach_full acquire_count [of s u t] by simp
  moreover have "inv s'" using reach_full acquire_inv [of s t] by simp
  ultimately show ?case using reach_full by metis
next
  case (reach_drop s held t)
  have "in_flight u (release t s) = count_list (remove1 t held) u" for u
    using reach_drop release_count [of s u t] count_list_remove1 [of t held u] by (auto split: if_splits)
  moreover have "in_flight u (release t s) \<le> limit" for u
    using reach_drop release_count [of s u t] by (metis diff_le_self le_trans)
  ultimately show ?case using reach_drop release_inv [of s t] by simp
qed

end

text \<open>No shard stores a zero, every tenant is within the ceiling, and there are 64 shards.\<close>

definition slots_inv :: "nat \<Rightarrow> slots \<Rightarrow> bool" where
  "slots_inv limit shards \<longleftrightarrow>
     length shards = SHARDS \<and> (\<forall>m \<in> set shards. \<forall>t n. m t = Some n \<longrightarrow> 0 < n \<and> n \<le> limit)"

lemma shard_index_less: "shard_index t < SHARDS"
proof -
  have "unat (drop_bit 58 (x :: tenant)) < 64" for x
  proof -
    have "unat x < 2 ^ LENGTH(64)" by (rule unsigned_less)
    then show ?thesis
      unfolding unsigned_drop_bit_eq
      by (simp add: drop_bit_eq_div div_less_iff_less_mult take_bit_nat_eq_self)
  qed
  then show ?thesis by (simp add: shard_index_def SHARDS_def)
qed

lemma shard_nth_update:
  "slots_inv limit shards \<Longrightarrow>
   (shards[shard_index t := m] ! shard_index u) = (if shard_index u = shard_index t then m else shards ! shard_index u)"
  by (simp add: slots_inv_def shard_index_less)

lemma slots_inv_update:
  assumes "slots_inv limit shards" and "\<And>u n. m u = Some n \<Longrightarrow> 0 < n \<and> n \<le> limit"
  shows "slots_inv limit (shards[i := m])"
  using assms set_update_subset_insert [of shards i m] by (auto simp: slots_inv_def)

lemma slots_inv_shard:
  "slots_inv limit shards \<Longrightarrow> (shards ! shard_index t) u = Some n \<Longrightarrow> 0 < n \<and> n \<le> limit"
  by (metis nth_mem shard_index_less slots_inv_def)

lemma slots_try_acquire_inv:
  assumes "slots_inv limit shards" and "0 < limit"
  shows "slots_inv limit (fst (slots_try_acquire limit t shards))"
proof -
  let ?m = "shards ! shard_index t"
  have "0 < n \<and> n \<le> limit" if "(?m(t \<mapsto> k)) u = Some n" "0 < k" "k \<le> limit" for u n k
    using that slots_inv_shard [OF assms(1)] by (auto split: if_splits)
  then show ?thesis
    using assms slots_inv_shard [OF assms(1), of t t]
    by (auto simp: slots_try_acquire_def Let_def intro!: slots_inv_update split: option.splits)
qed

lemma slots_release_inv:
  assumes "slots_inv limit shards"
  shows "slots_inv limit (slots_release t shards)"
proof -
  let ?m = "shards ! shard_index t"
  have upd: "slots_inv limit (shards[shard_index t := ?m(t := k)])"
    if "\<And>j. k = Some j \<Longrightarrow> 0 < j \<and> j \<le> limit" for k
    using that slots_inv_shard [OF assms] by (intro slots_inv_update [OF assms]) (auto split: if_splits)
  show ?thesis
  proof (cases "?m t")
    case (Some n)
    then show ?thesis
      using upd [of None] upd [of "Some (n - 1)"] slots_inv_shard [OF assms Some]
      by (auto simp: slots_release_def Let_def)
  qed (simp add: slots_release_def assms)
qed

lemma slots_acquire_count:
  assumes "slots_inv limit shards" and "0 < limit"
  shows "slots_in_flight u (fst (slots_try_acquire limit t shards)) =
           slots_in_flight u shards + (if u = t \<and> slots_in_flight t shards < limit then 1 else 0)"
  using assms(2)
  by (auto simp: slots_in_flight_def slots_try_acquire_def Let_def shard_nth_update [OF assms(1)]
           split: option.splits)

lemma slots_release_count:
  assumes "slots_inv limit shards"
  shows "slots_in_flight u (slots_release t shards) =
           slots_in_flight u shards - (if u = t then 1 else 0)"
  by (auto simp: slots_in_flight_def slots_release_def Let_def shard_nth_update [OF assms]
           split: option.splits)

lemma slots_acquire_ok:
  "snd (slots_try_acquire limit t shards) \<longleftrightarrow> slots_in_flight t shards < limit"
  by (auto simp: slots_in_flight_def slots_try_acquire_def Let_def split: option.splits)

interpretation slots: tenant_counter "slots_try_acquire (Suc k)" slots_release slots_in_flight
    "slots_inv (Suc k)" "Suc k" for k
  by unfold_locales
     (simp_all add: slots_try_acquire_inv slots_release_inv slots_acquire_ok slots_acquire_count
        slots_release_count)

text \<open>
  C19. A tenant never holds more than its ceiling, and no other tenant's. Starting from an empty
  table, after any sequence of requests taken, refused and dropped, every tenant's counter is
  exactly the number of its requests still open, whatever shard it shares with others; it is within
  the limit, the next request is admitted exactly when it is below the limit, and a tenant with
  nothing open has no entry.
\<close>

theorem tenant_slots_exact:
  assumes "slots_new limit = Some s0" and "counter_reach (slots_try_acquire limit) slots_release s0 s held"
  shows "slots_in_flight t s = count_list held t \<and> slots_in_flight t s \<le> limit \<and>
         (snd (slots_try_acquire limit t s) \<longleftrightarrow> count_list held t < limit) \<and>
         (t \<notin> set held \<longrightarrow> (s ! shard_index t) t = None)"
proof -
  obtain k where k: "limit = Suc k" and s0: "s0 = replicate SHARDS Map.empty"
    using assms(1) by (cases limit) (auto simp: slots_new_def split: if_splits)
  have inv0: "slots_inv (Suc k) s0" by (simp add: s0 slots_inv_def)
  have zero: "slots_in_flight u s0 = 0" for u
    by (simp add: s0 slots_in_flight_def shard_index_less)
  note ex = slots.reach_exact [OF assms(2) [unfolded k] inv0 zero]
  have inv: "slots_inv limit s" using ex unfolding k by blast
  have exact: "slots_in_flight t s = count_list held t" using ex by blast
  have le: "slots_in_flight t s \<le> limit" using ex unfolding k by blast
  have "(s ! shard_index t) t = None" if "t \<notin> set held"
  proof (cases "(s ! shard_index t) t")
    case (Some n)
    with slots_inv_shard [OF inv Some] exact that show ?thesis
      by (simp add: slots_in_flight_def)
  qed simp
  with exact le show ?thesis by (simp add: slots_acquire_ok)
qed

theorem tenant_slots_exact_witness:
  "counter_reach (slots_try_acquire 1) slots_release (replicate SHARDS Map.empty)
     (fst (slots_try_acquire 1 7 (replicate SHARDS Map.empty))) [7] \<and>
   slots_in_flight 7 (fst (slots_try_acquire 1 7 (replicate SHARDS Map.empty))) = 1"
proof -
  let ?s = "replicate SHARDS Map.empty :: slots"
  have new: "slots_new 1 = Some ?s" by (simp add: slots_new_def)
  have "snd (slots_try_acquire 1 7 ?s)"
    by (simp add: slots_acquire_ok slots_in_flight_def shard_index_less)
  then have "slots_try_acquire 1 7 ?s = (fst (slots_try_acquire 1 7 ?s), True)"
    by (metis prod.collapse)
  then have r: "counter_reach (slots_try_acquire 1) slots_release ?s (fst (slots_try_acquire 1 7 ?s)) [7]"
    by (rule reach_take [OF reach_init])
  from tenant_slots_exact [OF new r, of 7] r show ?thesis by simp
qed

end
