(* ===== verification/Rate_Limit.thy ===== *)
theory Rate_Limit
  imports Cas_Loop "HOL-Library.Word"
begin

unbundle bit_operations_syntax

text \<open>
  The gateway's request-rate ceilings (\<^verbatim>\<open>ratelimit.rs\<close>): the global BYO counter, one atomic word
  that packs a window index with a count (\<open>byo_*\<close>), the per-credential counter, two count-min
  sketches rotated at each window boundary (\<open>windowed_rate\<close>), and the check that composes them
  (\<open>rate_check_at\<close>).

  The sketch is \<^verbatim>\<open>pingora_limits::Estimator\<close>, a third-party type: its constructor, \<^verbatim>\<open>incr\<close> and
  \<^verbatim>\<open>reset\<close> are parameters (\<open>sketch\<close>), and what the proofs rely on is that a sketch never
  under-counts (\<open>sketch_overcounts\<close>). So is the hasher that reduces a credential to a key.

  Proved: in every interleaving, and whatever clock readings arrive in which order, the BYO tier
  admits in each window exactly as many requests as the ceiling allows; the per-credential tier
  never admits more than the ceiling in a window; the window never moves back.
\<close>

section \<open>The BYO counter\<close>

definition WINDOW_MS :: nat where "WINDOW_MS = 1000"

definition byo_hi :: "64 word \<Rightarrow> 32 word" where "byo_hi cur = ucast (drop_bit 32 cur)"
definition byo_lo :: "64 word \<Rightarrow> 32 word" where "byo_lo cur = ucast cur"

definition sat_inc32 :: "32 word \<Rightarrow> 32 word" where
  "sat_inc32 n = (if n = - 1 then - 1 else n + 1)"

definition byo_next :: "64 word \<Rightarrow> 64 word \<Rightarrow> 64 word" where
  "byo_next window cur =
     (let window = (ucast window :: 32 word) in
      if byo_hi cur < window then push_bit 32 (ucast window) OR 1
      else (cur AND NOT (ucast (- 1 :: 32 word))) OR ucast (sat_inc32 (byo_lo cur)))"

datatype byo_op = Observe "64 word"

fun byo_attempt :: "byo_op \<Rightarrow> unit \<Rightarrow> 64 word \<Rightarrow> (64 word, byo_op, 32 word) attempt" where
  "byo_attempt (Observe window) _ cur =
     (let next = byo_next window cur in Swap next (byo_lo next))"

lemma byo_next_hi: "byo_hi (byo_next window cur) = max (byo_hi cur) (ucast window)"
proof -
  have "byo_hi (push_bit 32 (ucast w) OR 1) = w" for w :: "32 word"
    by (rule bit_word_eqI) (auto simp: byo_hi_def bit_simps)
  moreover have "byo_hi ((cur AND NOT (ucast (- 1 :: 32 word))) OR ucast n) = byo_hi cur" for n :: "32 word"
    by (rule bit_word_eqI) (auto simp: byo_hi_def bit_simps dest: bit_imp_le_length)
  ultimately show ?thesis by (auto simp: byo_next_def Let_def max_def)
qed

lemma byo_next_lo:
  "byo_lo (byo_next window cur) = (if byo_hi cur < ucast window then 1 else sat_inc32 (byo_lo cur))"
proof -
  have "byo_lo (push_bit 32 (ucast w) OR 1) = 1" for w :: "32 word"
    by (rule bit_word_eqI) (auto simp: byo_lo_def bit_simps)
  moreover have "byo_lo ((cur AND NOT (ucast (- 1 :: 32 word))) OR ucast n) = n" for n :: "32 word"
    by (rule bit_word_eqI) (auto simp: byo_lo_def bit_simps)
  ultimately show ?thesis by (auto simp: byo_next_def Let_def)
qed

lemma unat_sat_inc32: "unat (sat_inc32 n) = min (2 ^ 32 - 1) (unat n + 1)"
proof (cases "n = - 1")
  case False
  then have "n + 1 \<noteq> 0" by (metis add_eq_0_iff2)
  then have "unat (n + 1) = unat n + 1" using unatSuc [of n] by (simp add: add.commute)
  moreover have "unat (n + 1) < 2 ^ 32" using unsigned_less [of "n + 1"] by simp
  ultimately show ?thesis using False by (simp add: sat_inc32_def)
next
  case True
  then show ?thesis by (simp add: sat_inc32_def unsigned_minus_1_eq_mask mask_eq_exp_minus_1)
qed

text \<open>
  What a run charged: a pass that took effect is charged to the window of the word it wrote, and
  admitted when the count it got is within the ceiling (\<^verbatim>\<open>observe(window) > max\<close> is the refusal).
\<close>

fun charged_to :: "32 word \<Rightarrow> byo_op \<times> unit \<times> (64 word, byo_op, 32 word) attempt \<Rightarrow> bool" where
  "charged_to W (_, _, Swap v r) \<longleftrightarrow> byo_hi v = W"
| "charged_to W _ \<longleftrightarrow> False"

fun admitted_in :: "32 word \<Rightarrow> 32 word \<Rightarrow> byo_op \<times> unit \<times> (64 word, byo_op, 32 word) attempt \<Rightarrow> bool" where
  "admitted_in byo_max W (_, _, Swap v r) \<longleftrightarrow> byo_hi v = W \<and> r \<le> byo_max"
| "admitted_in byo_max W _ \<longleftrightarrow> False"

definition byo_charged :: "32 word \<Rightarrow> (byo_op \<times> unit \<times> (64 word, byo_op, 32 word) attempt) list \<Rightarrow> nat" where
  "byo_charged W h = length (filter (charged_to W) h)"

definition byo_admitted ::
  "32 word \<Rightarrow> 32 word \<Rightarrow> (byo_op \<times> unit \<times> (64 word, byo_op, 32 word) attempt) list \<Rightarrow> nat" where
  "byo_admitted byo_max W h = length (filter (admitted_in byo_max W) h)"

lemma byo_counts:
  assumes "linearized byo_attempt 0 h w" and "unat byo_max < 2 ^ 32 - 1"
  shows "unat (byo_lo w) = min (2 ^ 32 - 1) (byo_charged (byo_hi w) h) \<and>
         (\<forall>W > byo_hi w. byo_charged W h = 0) \<and>
         (\<forall>W. byo_admitted byo_max W h = min (unat byo_max) (byo_charged W h))"
  using assms(1)
proof (induction h arbitrary: w rule: rev_induct)
  case Nil
  then show ?case by (simp add: byo_lo_def byo_charged_def byo_admitted_def)
next
  case (snoc e h)
  obtain window a where e: "e = (Observe window, (), a)" by (cases e, rename_tac x y z, case_tac x) auto
  obtain v where lin: "linearized byo_attempt 0 h v" and a: "a = byo_attempt (Observe window) () v"
    and w: "w = byo_next window v"
    using snoc.prems by (auto simp: e linearized_snoc Let_def)
  note IH = snoc.IH [OF lin]
  have aw: "a = Swap w (byo_lo w)" by (simp add: a w Let_def)
  have ch: "byo_charged W (h @ [e]) = byo_charged W h + (if W = byo_hi w then 1 else 0)" for W
    by (auto simp: byo_charged_def e aw)
  have ad: "byo_admitted byo_max W (h @ [e]) =
      byo_admitted byo_max W h + (if W = byo_hi w \<and> byo_lo w \<le> byo_max then 1 else 0)" for W
    by (auto simp: byo_admitted_def e aw)
  have hi: "byo_hi w = max (byo_hi v) (ucast window)" by (simp add: w byo_next_hi)
  have lo: "unat (byo_lo w) = min (2 ^ 32 - 1) (byo_charged (byo_hi w) h + 1)"
  proof (cases "byo_hi v < ucast window")
    case True
    then have "byo_charged (byo_hi w) h = 0" using IH hi by (simp add: max_def)
    with True show ?thesis by (simp add: w byo_next_lo)
  next
    case False
    then have "byo_hi w = byo_hi v" by (simp add: hi max_def)
    with False IH show ?thesis by (simp add: w byo_next_lo unat_sat_inc32)
  qed
  have later: "byo_charged W h = 0" if "W > byo_hi w" for W
    using IH that hi by (metis max.strict_boundedE)
  have "byo_lo w \<le> byo_max \<longleftrightarrow> byo_charged (byo_hi w) h < unat byo_max"
    using lo assms(2) by (auto simp: word_le_nat_alt)
  then have "byo_admitted byo_max W (h @ [e]) = min (unat byo_max) (byo_charged W (h @ [e]))" for W
    using IH by (auto simp: ad ch)
  then show ?case using lo later by (auto simp: ch)
qed

interpretation byo: cas_object byo_attempt "\<lambda>_. True"
  by unfold_locales simp

text \<open>
  C28. The BYO ceiling is exact. In every interleaving of any number of threads, with any clock
  readings in any order, the requests admitted in a window are as many as were charged to it, up to
  the ceiling and never beyond; and a charge never moves the window back, so a late clock reading
  cannot reopen a closed window for a second budget.
\<close>

theorem byo_ceiling_exact:
  assumes "cas_reach byo_attempt 0 s" and "unat byo_max < 2 ^ 32 - 1"
  shows "byo_admitted byo_max W (history s) = min (unat byo_max) (byo_charged W (history s)) \<and>
         (byo_charged W (history s) \<noteq> 0 \<longrightarrow> W \<le> byo_hi (shared s)) \<and>
         byo_hi (shared s) \<le> byo_hi (byo_next window (shared s))"
proof -
  note counts = byo_counts [OF cas_reach_linearized [OF assms(1)] assms(2)]
  have "W \<le> byo_hi (shared s)" if "byo_charged W (history s) \<noteq> 0"
    using counts that by (meson linorder_not_le)
  then show ?thesis using counts by (simp add: byo_next_hi)
qed

definition byo_demo :: "(64 word, byo_op, unit, 32 word) cas_sys" where
  "byo_demo = \<lparr>shared = 1, threads = (\<lambda>_. Finished 0)(3 := Finished 1),
               history = [(Observe 0, (), Swap 1 1)]\<rparr>"

lemma byo_demo_reach: "cas_reach byo_attempt 0 byo_demo"
proof -
  let ?s0 = "\<lparr>shared = 0, threads = (\<lambda>_. Finished 0), history = []\<rparr>
    :: (64 word, byo_op, unit, 32 word) cas_sys"
  let ?s1 = "?s0\<lparr>threads := (threads ?s0)(3 := Ready (Observe 0))\<rparr>"
  let ?s2 = "?s1\<lparr>threads := (threads ?s1)(3 := Loaded (Observe 0) () 0)\<rparr>"
  have nxt: "byo_next 0 0 = 1" "byo_lo 1 = 1"
    by (simp_all add: byo_next_def byo_hi_def byo_lo_def sat_inc32_def)
  have 0: "cas_reach byo_attempt 0 ?s0" by (rule init) auto
  have 1: "cas_reach byo_attempt 0 ?s1" by (rule step [OF 0]) (rule start, simp)
  have "cas_step byo_attempt ?s1 ?s2"
    using load [of ?s1 3 "Observe 0" byo_attempt "()"] by (simp add: Let_def)
  then have 2: "cas_reach byo_attempt 0 ?s2" by (rule step [OF 1])
  have "cas_step byo_attempt ?s2 byo_demo"
    using swap [of ?s2 3 "Observe 0" "()" 0 byo_attempt 1 1] by (simp add: nxt byo_demo_def Let_def)
  then show ?thesis by (rule step [OF 2])
qed

theorem byo_ceiling_exact_witness:
  "cas_reach byo_attempt 0 byo_demo \<and> unat (5 :: 32 word) < 2 ^ 32 - 1 \<and>
   byo_admitted 5 0 (history byo_demo) = 1"
  using byo_ceiling_exact [OF byo_demo_reach, of 5 0 0] byo_demo_reach
  by (simp add: byo_demo_def byo_charged_def byo_hi_def)

section \<open>The per-credential counter\<close>

text \<open>
  A sketch is opaque: how to make one, how to charge a key and read its count, how to clear it.
\<close>

record 'e sketch =
  sk_new :: 'e
  sk_incr :: "'e \<Rightarrow> nat \<Rightarrow> 'e \<times> int"
  sk_reset :: "'e \<Rightarrow> 'e"

record 'e windowed_rate =
  slot0 :: 'e
  slot1 :: 'e
  claimed :: nat
  live :: nat

definition get_slot :: "nat \<Rightarrow> 'e windowed_rate \<Rightarrow> 'e" where
  "get_slot i r = (if i = 0 then slot0 r else slot1 r)"

definition set_slot :: "nat \<Rightarrow> 'e \<Rightarrow> 'e windowed_rate \<Rightarrow> 'e windowed_rate" where
  "set_slot i e r = (if i = 0 then r\<lparr>slot0 := e\<rparr> else r\<lparr>slot1 := e\<rparr>)"

definition windowed_new :: "'e sketch \<Rightarrow> 'e windowed_rate" where
  "windowed_new k = \<lparr>slot0 = sk_new k, slot1 = sk_new k, claimed = 0, live = 0\<rparr>"

definition windowed_rotate :: "'e sketch \<Rightarrow> nat \<Rightarrow> nat \<Rightarrow> 'e windowed_rate \<Rightarrow> 'e windowed_rate" where
  "windowed_rotate k frm to r =
     (let incoming = to mod 2;
          r = set_slot incoming (sk_reset k (get_slot incoming r)) r;
          r = r\<lparr>live := max (live r) to\<rparr>
      in if to - frm \<ge> 2 then set_slot (1 - incoming) (sk_reset k (get_slot (1 - incoming) r)) r
         else r)"

text \<open>
  \<^verbatim>\<open>observe\<close> run to its end by one thread: the \<open>claimed\<close> swap then succeeds.
\<close>

definition windowed_observe ::
  "'e sketch \<Rightarrow> nat \<Rightarrow> nat \<Rightarrow> 'e windowed_rate \<Rightarrow> 'e windowed_rate \<times> int" where
  "windowed_observe k key window r =
     (let claimed0 = claimed r;
          r = (if window > claimed0 then windowed_rotate k claimed0 window (r\<lparr>claimed := window\<rparr>) else r);
          i = live r mod 2;
          (e, n) = sk_incr k (get_slot i r) key
      in (set_slot i e r, n))"

section \<open>The check\<close>

datatype throttled = PerCredential | ByoGlobal

record 'e rate_limit =
  per_cred :: "('e windowed_rate \<times> int) option"
  byo_global :: "(64 word \<times> 32 word) option"
  started :: nat

definition rate_limit_new :: "'e sketch \<Rightarrow> nat \<Rightarrow> 32 word \<Rightarrow> nat \<Rightarrow> 'e rate_limit option" where
  "rate_limit_new k per_cred_rps byo_global_rps now =
     (if per_cred_rps = 0 \<and> byo_global_rps = 0 then None
      else Some \<lparr>per_cred = (if per_cred_rps \<noteq> 0 then Some (windowed_new k, int per_cred_rps) else None),
                 byo_global = (if byo_global_rps \<noteq> 0 then Some (0, byo_global_rps) else None),
                 started = now\<rparr>)"

text \<open>Instants are nanoseconds; \<^verbatim>\<open>as_millis() as u64\<close> truncates.\<close>

definition window_of :: "'e rate_limit \<Rightarrow> nat \<Rightarrow> nat" where
  "window_of rl now = (((now - started rl) div 1000000) mod 2 ^ 64) div WINDOW_MS"

definition rate_check_at ::
  "'e sketch \<Rightarrow> (string \<Rightarrow> nat) \<Rightarrow> string \<Rightarrow> bool \<Rightarrow> nat \<Rightarrow> 'e rate_limit \<Rightarrow>
   'e rate_limit \<times> throttled option" where
  "rate_check_at k hash_one raw_credential managed now rl =
     (let window = window_of rl now;
          (rl, over) =
            (case byo_global rl of
               Some (packed, byo_max) \<Rightarrow>
                 (if managed then (rl, False)
                  else let next = byo_next (of_nat window) packed
                       in (rl\<lparr>byo_global := Some (next, byo_max)\<rparr>, byo_max < byo_lo next))
             | None \<Rightarrow> (rl, False))
      in if over then (rl, Some ByoGlobal)
         else case per_cred rl of
           Some (rate, cred_max) \<Rightarrow>
             (let (rate, n) = windowed_observe k (hash_one raw_credential) window rate;
                  rl = rl\<lparr>per_cred := Some (rate, cred_max)\<rparr>
              in if n > cred_max then (rl, Some PerCredential) else (rl, None))
         | None \<Rightarrow> (rl, None))"

section \<open>The per-credential bound\<close>

text \<open>
  A sketch that was created or reset and then charged with \<open>ks\<close>; the promise of a count-min sketch
  is that the count it returns is at least the number of times the key was charged.
\<close>

definition sk_after :: "'e sketch \<Rightarrow> nat list \<Rightarrow> 'e \<Rightarrow> bool" where
  "sk_after k ks e \<longleftrightarrow> (\<exists>e0. (e0 = sk_new k \<or> (\<exists>e1. e0 = sk_reset k e1)) \<and>
     e = foldl (\<lambda>e key. fst (sk_incr k e key)) e0 ks)"

definition sketch_overcounts :: "'e sketch \<Rightarrow> bool" where
  "sketch_overcounts k \<longleftrightarrow>
     (\<forall>ks e key. sk_after k ks e \<longrightarrow> int (count_list ks key) + 1 \<le> snd (sk_incr k e key))"

lemma sk_after_fresh: "sk_after k [] (sk_new k)" "sk_after k [] (sk_reset k e)"
  by (auto simp: sk_after_def)

lemma sk_after_incr: "sk_after k ks e \<Longrightarrow> sk_after k (ks @ [key]) (fst (sk_incr k e key))"
  by (auto simp: sk_after_def)

lemma get_set_slot:
  "get_slot i (set_slot j e r) = (if (i = 0) = (j = 0) then e else get_slot i r)"
  "live (set_slot j e r) = live r" "claimed (set_slot j e r) = claimed r"
  "get_slot i (r\<lparr>live := n\<rparr>) = get_slot i r" "get_slot i (r\<lparr>claimed := n\<rparr>) = get_slot i r"
  by (simp_all add: get_slot_def set_slot_def)

definition rate_inv :: "'e sketch \<Rightarrow> nat list \<Rightarrow> 'e windowed_rate \<Rightarrow> bool" where
  "rate_inv k ks r \<longleftrightarrow> claimed r = live r \<and> sk_after k ks (get_slot (live r mod 2) r)"

lemma windowed_rotate_inv:
  assumes "claimed r = live r" and "live r < to"
  shows "rate_inv k [] (windowed_rotate k (live r) to (r\<lparr>claimed := to\<rparr>)) \<and>
         live (windowed_rotate k (live r) to (r\<lparr>claimed := to\<rparr>)) = to"
  using assms
  by (auto simp: rate_inv_def windowed_rotate_def Let_def get_set_slot max_def sk_after_fresh)

lemma windowed_observe_inv:
  assumes "rate_inv k ks r" and "sketch_overcounts k" and "windowed_observe k key window r = (r', n)"
  shows "live r' = max (live r) window \<and>
         rate_inv k ((if live r' = live r then ks else []) @ [key]) r' \<and>
         int (count_list (if live r' = live r then ks else []) key) + 1 \<le> n"
proof -
  define q where "q = (if window > claimed r then windowed_rotate k (claimed r) window (r\<lparr>claimed := window\<rparr>) else r)"
  have cl: "claimed r = live r" using assms(1) by (simp add: rate_inv_def)
  have q: "live q = max (live r) window \<and> rate_inv k (if live q = live r then ks else []) q"
    using windowed_rotate_inv [OF cl, of window k] assms(1) cl by (auto simp: q_def max_def)
  obtain e where e: "sk_incr k (get_slot (live q mod 2) q) key = (e, n)" "r' = set_slot (live q mod 2) e q"
    using assms(3) by (auto simp: windowed_observe_def Let_def q_def [symmetric] split: prod.splits)
  have after: "sk_after k (if live q = live r then ks else []) (get_slot (live q mod 2) q)"
    using q unfolding rate_inv_def by blast
  from sk_after_incr [OF this, of key] assms(2) [unfolded sketch_overcounts_def, rule_format, OF after, of key]
  show ?thesis using q e by (simp add: rate_inv_def get_set_slot)
qed

definition live_window :: "'e rate_limit \<Rightarrow> nat" where
  "live_window rl = (case per_cred rl of Some (r, _) \<Rightarrow> live r | None \<Rightarrow> 0)"

text \<open>A run of checks, one after another, with the window each was counted in and its verdict.\<close>

inductive rate_reach ::
  "'e sketch \<Rightarrow> (string \<Rightarrow> nat) \<Rightarrow> 'e rate_limit \<Rightarrow> 'e rate_limit \<Rightarrow> (string \<times> nat \<times> throttled option) list \<Rightarrow> bool"
  for k hash_one rl0
where
  rate_start: "rate_reach k hash_one rl0 rl0 []"
| rate_next: "rate_reach k hash_one rl0 rl lg \<Longrightarrow>
     rate_check_at k hash_one cred managed now rl = (rl', v) \<Longrightarrow>
     rate_reach k hash_one rl0 rl' (lg @ [(cred, live_window rl', v)])"

definition admitted_count :: "string \<Rightarrow> nat \<Rightarrow> (string \<times> nat \<times> throttled option) list \<Rightarrow> nat" where
  "admitted_count cred W lg = count_list lg (cred, W, None)"

lemma count_list_snoc: "count_list (xs @ [y]) x = count_list xs x + (if x = y then 1 else 0)"
  by (induction xs) auto

lemma check_at_per_cred:
  assumes "rate_check_at k hash_one cred managed now rl = (rl', v)" and "per_cred rl = Some (r, m)"
  shows "(per_cred rl' = Some (r, m) \<and> v = Some ByoGlobal) \<or>
         (\<exists>r' n. windowed_observe k (hash_one cred) (window_of rl now) r = (r', n) \<and>
            per_cred rl' = Some (r', m) \<and> (v = None \<longleftrightarrow> n \<le> m))"
  using assms by (auto simp: rate_check_at_def Let_def split: prod.splits option.splits if_splits)

lemma rate_reach_inv:
  assumes "rate_reach k hash_one rl0 rl lg" and "sketch_overcounts k"
    and "per_cred rl0 = Some (windowed_new k, int m)"
  shows "\<exists>r ks. per_cred rl = Some (r, int m) \<and> rate_inv k ks r \<and>
     (\<forall>c W. admitted_count c W lg \<le> m \<and> (live r < W \<longrightarrow> admitted_count c W lg = 0)) \<and>
     (\<forall>c. admitted_count c (live r) lg \<le> count_list ks (hash_one c))"
  using assms(1)
proof (induction rule: rate_reach.induct)
  case rate_start
  then show ?case using assms(3)
    by (auto simp: rate_inv_def windowed_new_def get_slot_def admitted_count_def intro: sk_after_fresh)
next
  case (rate_next rl lg cred managed now rl' v)
  then obtain r ks where r: "per_cred rl = Some (r, int m)" "rate_inv k ks r"
    and bound: "\<And>c W. admitted_count c W lg \<le> m" and late: "\<And>c W. live r < W \<Longrightarrow> admitted_count c W lg = 0"
    and cnt: "\<And>c. admitted_count c (live r) lg \<le> count_list ks (hash_one c)" by blast
  from check_at_per_cred [OF rate_next(2) r(1)] show ?case
  proof (elim disjE exE conjE)
    assume "per_cred rl' = Some (r, int m)" and "v = Some ByoGlobal"
    with r bound late cnt show ?thesis
      by (intro exI [of _ r] exI [of _ ks]) (simp add: admitted_count_def count_list_snoc)
  next
    fix r' n
    assume o: "windowed_observe k (hash_one cred) (window_of rl now) r = (r', n)"
      and rl': "per_cred rl' = Some (r', int m)" and v: "(v = None) = (n \<le> int m)"
    let ?ks = "(if live r' = live r then ks else [])"
    note ob = windowed_observe_inv [OF r(2) assms(2) o]
    from ob have le: "live r \<le> live r'" by simp
    from ob have inv: "rate_inv k (?ks @ [hash_one cred]) r'" by blast
    from ob have n: "int (count_list ?ks (hash_one cred)) + 1 \<le> n" by blast
    have lw: "live_window rl' = live r'" by (simp add: live_window_def rl')
    have old: "admitted_count c (live r') lg \<le> count_list ?ks (hash_one c)" for c
      using cnt [of c] late [of "live r'" c] le by auto
    have new: "admitted_count c W (lg @ [(cred, live_window rl', v)]) =
        admitted_count c W lg + (if c = cred \<and> W = live r' \<and> v = None then 1 else 0)" for c W
      by (auto simp: admitted_count_def count_list_snoc lw)
    have "admitted_count c W (lg @ [(cred, live_window rl', v)]) \<le> m" for c W
      using bound [of c W] old [of cred] n v by (auto simp: new)
    moreover have "admitted_count c W (lg @ [(cred, live_window rl', v)]) = 0" if "live r' < W" for c W
      using late [of W c] le that by (auto simp: new)
    moreover have "admitted_count c (live r') (lg @ [(cred, live_window rl', v)])
        \<le> count_list (?ks @ [hash_one cred]) (hash_one c)" for c
      using old [of c] by (auto simp: new count_list_snoc)
    ultimately show ?thesis using rl' inv by blast
  qed
qed

text \<open>
  No credential gets more than its ceiling in a window. For any sketch that never under-counts
  and any hasher, after any sequence of checks with any clock readings, a credential's requests
  admitted while a window was live are at most the per-credential ceiling, whatever else collides
  with it.
\<close>

theorem per_credential_ceiling:
  assumes "sketch_overcounts k" and "rate_limit_new k rps byo_rps t0 = Some rl0" and "0 < rps"
    and "rate_reach k hash_one rl0 rl lg"
  shows "admitted_count cred W lg \<le> rps"
proof -
  have "per_cred rl0 = Some (windowed_new k, int rps)"
    using assms(2,3) by (auto simp: rate_limit_new_def split: if_splits)
  from rate_reach_inv [OF assms(4,1) this] show ?thesis by blast
qed

text \<open>An exact counter is a sketch that never under-counts.\<close>

definition exact_sketch :: "(nat \<Rightarrow> nat) sketch" where
  "exact_sketch = \<lparr>sk_new = (\<lambda>_. 0), sk_incr = (\<lambda>e key. (e(key := e key + 1), int (e key) + 1)),
                   sk_reset = (\<lambda>_ _. 0)\<rparr>"

lemma exact_sketch_overcounts: "sketch_overcounts exact_sketch"
proof -
  have "foldl (\<lambda>e key. fst (sk_incr exact_sketch e key)) e0 ks key = e0 key + count_list ks key" for e0 ks key
    by (induction ks arbitrary: e0) (auto simp: exact_sketch_def)
  then show ?thesis
    unfolding sketch_overcounts_def sk_after_def by (auto simp: exact_sketch_def)
qed

theorem per_credential_ceiling_witness:
  "\<exists>rl0 rl lg. rate_limit_new exact_sketch 1 0 0 = Some rl0 \<and>
     rate_reach exact_sketch length rl0 rl lg \<and> length lg = 2 \<and> admitted_count ''a'' 0 lg \<le> 1"
proof -
  obtain rl0 where new: "rate_limit_new exact_sketch 1 0 0 = Some rl0"
    by (simp add: rate_limit_new_def)
  obtain rl1 v1 where 1: "rate_check_at exact_sketch length ''a'' True 5 rl0 = (rl1, v1)" by fastforce
  obtain rl2 v2 where 2: "rate_check_at exact_sketch length ''a'' True 9 rl1 = (rl2, v2)" by fastforce
  note r = rate_next [OF rate_next [OF rate_start 1] 2]
  from per_credential_ceiling [OF exact_sketch_overcounts new _ r] r new show ?thesis
    by (intro exI conjI) (assumption | simp)+
qed

end
