(* ===== verification/Admission_Sets.thy ===== *)
theory Admission_Sets
  imports Rust_Std
begin

text \<open>
  The sparse sets the control plane feeds the gateway and the request path reads:
  \<^item> \<^verbatim>\<open>deny.rs\<close>: who is cut off, tenants, credentials and signing-key ids (\<open>deny_*\<close>). A miss admits;
  \<^item> \<^verbatim>\<open>allowance.rs\<close>: who is out of quota (\<open>allowance_*\<close>). Until the set has been read, everyone is
    refused;
  \<^item> \<^verbatim>\<open>capture.rs\<close>: whose payloads are logged, and the head-bounded buffers they go to
    (\<open>capture_*\<close>);
  \<^item> \<^verbatim>\<open>live_keys.rs\<close>: the signing keys trusted at run time, at most 64 (\<open>live_*\<close>).

  A hash map is a partial function, a hash set a set; a stored value is its bytes. The JSON
  parser (\<^verbatim>\<open>serde_json\<close>) and the public-key decoder are parameters of the functions that call
  them. How the sets follow the store is in \<open>Store_Watch\<close>.
\<close>

section \<open>The deny set\<close>

datatype deny_reason = Spend | Fraud | UnknownReason

fun deny_http_status :: "deny_reason \<Rightarrow> nat" where
  "deny_http_status Spend = 402"
| "deny_http_status Fraud = 403"
| "deny_http_status UnknownReason = 403"

datatype deny_target = DenyTenant nat | DenyKey nat | DenyKid nat

record deny_set =
  denied :: "nat \<rightharpoonup> deny_reason"
  deny_keys :: "nat \<rightharpoonup> deny_reason"
  deny_kids :: "nat set"

definition deny_new :: deny_set where
  "deny_new = \<lparr>denied = Map.empty, deny_keys = Map.empty, deny_kids = {}\<rparr>"

definition kid_denied :: "deny_set \<Rightarrow> nat \<Rightarrow> bool" where
  "kid_denied d kid \<longleftrightarrow> deny_kids d \<noteq> {} \<and> kid \<in> deny_kids d"

definition deny_reason_for :: "deny_set \<Rightarrow> nat \<Rightarrow> nat option \<Rightarrow> deny_reason option" where
  "deny_reason_for d tenant_id key_id =
     (case denied d tenant_id of
        Some r \<Rightarrow> Some r
      | None \<Rightarrow> (case key_id of Some k \<Rightarrow> deny_keys d k | None \<Rightarrow> None))"

fun deny_insert_target :: "deny_target \<Rightarrow> deny_reason \<Rightarrow> deny_set \<Rightarrow> deny_set" where
  "deny_insert_target (DenyTenant t) r d = d\<lparr>denied := (denied d)(t \<mapsto> r)\<rparr>"
| "deny_insert_target (DenyKey k) r d = d\<lparr>deny_keys := (deny_keys d)(k \<mapsto> r)\<rparr>"
| "deny_insert_target (DenyKid k) r d = d\<lparr>deny_kids := insert k (deny_kids d)\<rparr>"

fun deny_remove_target :: "deny_target \<Rightarrow> deny_set \<Rightarrow> deny_set" where
  "deny_remove_target (DenyTenant t) d = d\<lparr>denied := (denied d)(t := None)\<rparr>"
| "deny_remove_target (DenyKey k) d = d\<lparr>deny_keys := (deny_keys d)(k := None)\<rparr>"
| "deny_remove_target (DenyKid k) d = d\<lparr>deny_kids := deny_kids d - {k}\<rparr>"

text \<open>\<open>?\<close> on a failed \<^verbatim>\<open>parse\<close> leaves the function: an id that is not a number names nobody.\<close>

definition deny_parse_key :: "string \<Rightarrow> deny_target option" where
  "deny_parse_key key =
     (case strip_prefix ''blackhole.'' key of
        None \<Rightarrow> None
      | Some rest \<Rightarrow>
          (case strip_prefix ''key.'' rest of
             Some k \<Rightarrow> map_option DenyKey (parse_uint U64_MAX k)
           | None \<Rightarrow>
               (case strip_prefix ''kid.'' rest of
                  Some kid \<Rightarrow> map_option DenyKid (parse_uint U32_MAX kid)
                | None \<Rightarrow> map_option DenyTenant (parse_uint U64_MAX rest))))"

text \<open>\<open>json_reason\<close>: the \<^verbatim>\<open>reason\<close> field of a JSON object, or nothing when it does not parse.\<close>

definition parse_reason :: "(string \<Rightarrow> string option) \<Rightarrow> string \<Rightarrow> deny_reason" where
  "parse_reason json_reason v =
     (let s = str_trim (case from_utf8 v of Some s \<Rightarrow> s | None \<Rightarrow> []);
          token = (if take 1 s = ''{'' then (case json_reason s of Some r \<Rightarrow> r | None \<Rightarrow> []) else s)
      in if token = ''spend'' then Spend
         else if token = ''fraud'' then Fraud else UnknownReason)"

section \<open>The allowance set\<close>

datatype allowance_target = AllowTenant nat | AllowKey nat

datatype allowance_reject = Exhausted | Unavailable

record allowance_set =
  allow_ready :: bool
  allow_tenants :: "nat set"
  allow_keys :: "nat set"

definition allowance_new :: allowance_set where
  "allowance_new = \<lparr>allow_ready = False, allow_tenants = {}, allow_keys = {}\<rparr>"

definition allowance_from_ready :: allowance_set where
  "allowance_from_ready = \<lparr>allow_ready = True, allow_tenants = {}, allow_keys = {}\<rparr>"

definition allowance_mark_ready :: "allowance_set \<Rightarrow> allowance_set" where
  "allowance_mark_ready a = a\<lparr>allow_ready := True\<rparr>"

definition allowance_reason_for :: "allowance_set \<Rightarrow> nat \<Rightarrow> nat option \<Rightarrow> allowance_reject option" where
  "allowance_reason_for a tenant_id key_id =
     (if \<not> allow_ready a then Some Unavailable
      else if (case key_id of Some k \<Rightarrow> k \<in> allow_keys a | None \<Rightarrow> False) then Some Exhausted
      else if tenant_id \<in> allow_tenants a then Some Exhausted
      else None)"

fun allowance_insert_target :: "allowance_target \<Rightarrow> allowance_set \<Rightarrow> allowance_set" where
  "allowance_insert_target (AllowTenant t) a = a\<lparr>allow_tenants := insert t (allow_tenants a)\<rparr>"
| "allowance_insert_target (AllowKey k) a = a\<lparr>allow_keys := insert k (allow_keys a)\<rparr>"

fun allowance_remove_target :: "allowance_target \<Rightarrow> allowance_set \<Rightarrow> allowance_set" where
  "allowance_remove_target (AllowTenant t) a = a\<lparr>allow_tenants := allow_tenants a - {t}\<rparr>"
| "allowance_remove_target (AllowKey k) a = a\<lparr>allow_keys := allow_keys a - {k}\<rparr>"

definition allowance_parse_key :: "string \<Rightarrow> allowance_target option" where
  "allowance_parse_key key =
     (case strip_prefix ''allowance.'' key of
        None \<Rightarrow> None
      | Some rest \<Rightarrow>
          (case strip_prefix ''key.'' rest of
             Some k \<Rightarrow> map_option AllowKey (parse_uint U64_MAX k)
           | None \<Rightarrow> map_option AllowTenant (parse_uint U64_MAX rest)))"

section \<open>The capture set\<close>

definition MAX_CAPTURE_BYTES :: nat where "MAX_CAPTURE_BYTES = 4 * 1024 * 1024"

record capture_rule =
  sample_n :: nat
  max_bytes :: nat

definition capture_samples :: "capture_rule \<Rightarrow> nat \<Rightarrow> bool" where
  "capture_samples r seq \<longleftrightarrow> sample_n r \<le> 1 \<or> seq mod (max (sample_n r) 1) = 0"

type_synonym capture_set = "nat \<rightharpoonup> capture_rule"

definition capture_parse_key :: "string \<Rightarrow> nat option" where
  "capture_parse_key key =
     (case strip_prefix ''aicapture.'' key of None \<Rightarrow> None | Some s \<Rightarrow> parse_uint U64_MAX s)"

text \<open>\<open>json_rule\<close>: the two optional fields of a JSON object, or nothing when it does not parse.\<close>

definition parse_rule ::
  "(string \<Rightarrow> (nat option \<times> nat option) option) \<Rightarrow> string \<Rightarrow> capture_rule \<Rightarrow> capture_rule" where
  "parse_rule json_rule v defaults =
     (let s = str_trim (case from_utf8 v of Some s \<Rightarrow> s | None \<Rightarrow> [])
      in if take 1 s \<noteq> ''{'' then defaults
         else case json_rule s of
           None \<Rightarrow> defaults
         | Some (n, b) \<Rightarrow>
             \<lparr>sample_n = max (case n of Some x \<Rightarrow> x | None \<Rightarrow> sample_n defaults) 1,
              max_bytes = min (case b of Some x \<Rightarrow> x | None \<Rightarrow> max_bytes defaults) MAX_CAPTURE_BYTES\<rparr>)"

record capture_bufs =
  cap_req :: string
  cap_resp :: string
  cap_req_truncated :: bool
  cap_resp_truncated :: bool
  cap_max :: nat

definition capture_bufs_new :: "nat \<Rightarrow> capture_bufs" where
  "capture_bufs_new mb =
     \<lparr>cap_req = [], cap_resp = [], cap_req_truncated = False, cap_resp_truncated = False, cap_max = mb\<rparr>"

definition capture_push :: "string \<Rightarrow> bool \<Rightarrow> string \<Rightarrow> nat \<Rightarrow> string \<times> bool" where
  "capture_push buf truncated chunk mx =
     (let room = mx - length buf in
      if room = 0 then (buf, truncated \<or> chunk \<noteq> [])
      else let taken = min room (length chunk)
           in (buf @ take taken chunk, truncated \<or> taken < length chunk))"

definition capture_push_req :: "string \<Rightarrow> capture_bufs \<Rightarrow> capture_bufs" where
  "capture_push_req chunk b =
     (let (buf, t) = capture_push (cap_req b) (cap_req_truncated b) chunk (cap_max b)
      in b\<lparr>cap_req := buf, cap_req_truncated := t\<rparr>)"

definition capture_push_resp :: "string \<Rightarrow> capture_bufs \<Rightarrow> capture_bufs" where
  "capture_push_resp chunk b =
     (let (buf, t) = capture_push (cap_resp b) (cap_resp_truncated b) chunk (cap_max b)
      in b\<lparr>cap_resp := buf, cap_resp_truncated := t\<rparr>)"

definition capture_clear_req :: "capture_bufs \<Rightarrow> capture_bufs" where
  "capture_clear_req b = b\<lparr>cap_req := [], cap_req_truncated := False\<rparr>"

section \<open>Live signing keys\<close>

definition MAX_SIGNING_KEYS :: nat where "MAX_SIGNING_KEYS = 64"

type_synonym 'vk live_keys = "nat \<rightharpoonup> 'vk"

text \<open>
  \<open>key_of\<close> decodes a stored value into a public key, \<open>is_dev\<close> recognises the public development
  key.
\<close>

definition live_put_with ::
  "(string \<Rightarrow> 'vk option) \<Rightarrow> ('vk \<Rightarrow> bool) \<Rightarrow> nat \<Rightarrow> string \<Rightarrow> bool \<Rightarrow> 'vk live_keys \<Rightarrow> 'vk live_keys" where
  "live_put_with key_of is_dev kid v refuse_dev m =
     (case key_of v of
        None \<Rightarrow> m
      | Some vk \<Rightarrow>
          (if refuse_dev \<and> is_dev vk then m
           else if card (dom m) \<ge> MAX_SIGNING_KEYS \<and> kid \<notin> dom m then m
           else m(kid \<mapsto> vk)))"

definition live_remove :: "nat \<Rightarrow> 'vk live_keys \<Rightarrow> 'vk live_keys" where
  "live_remove kid m = m(kid := None)"

definition is_canonical_kid :: "string \<Rightarrow> bool" where
  "is_canonical_kid s \<longleftrightarrow>
     s \<noteq> [] \<and> list_all is_ascii_digit s \<and> (length s = 1 \<or> s ! 0 \<noteq> CHR ''0'')"

definition live_parse_key :: "string \<Rightarrow> nat option" where
  "live_parse_key key =
     (case strip_prefix ''signing_key.'' key of
        None \<Rightarrow> None
      | Some kid \<Rightarrow> (if \<not> is_canonical_kid kid then None else parse_uint U32_MAX kid))"

lemma is_canonical_kid_iff: "is_canonical_kid s \<longleftrightarrow> canonical_decimal s"
  by (auto simp: is_canonical_kid_def canonical_decimal_def hd_conv_nth)

section \<open>Capture keeps the head of a body\<close>

lemma capture_push_spec:
  assumes "buf = take mx body" and "t \<longleftrightarrow> mx < length body"
  shows "capture_push buf t chunk mx = (take mx (body @ chunk), mx < length (body @ chunk))"
  using assms by (auto simp: capture_push_def Let_def min_def)

text \<open>
  A captured body is the head of what was sent. After any chunks, each direction holds exactly
  the first \<open>max_bytes\<close> bytes of what passed, is marked truncated just when there were more, and a
  retried attempt starts the request over without touching the response.
\<close>

theorem capture_keeps_head:
  "cap_req (foldl (\<lambda>b c. capture_push_req c b) (capture_clear_req b0) chunks) =
     take (cap_max b0) (concat chunks) \<and>
   (cap_req_truncated (foldl (\<lambda>b c. capture_push_req c b) (capture_clear_req b0) chunks) \<longleftrightarrow>
     cap_max b0 < length (concat chunks)) \<and>
   cap_resp (foldl (\<lambda>b c. capture_push_req c b) (capture_clear_req b0) chunks) = cap_resp b0 \<and>
   cap_resp (foldl (\<lambda>b c. capture_push_resp c b) (capture_bufs_new mb) chunks) = take mb (concat chunks) \<and>
   (cap_resp_truncated (foldl (\<lambda>b c. capture_push_resp c b) (capture_bufs_new mb) chunks) \<longleftrightarrow>
     mb < length (concat chunks))"
proof -
  have "cap_req b = take (cap_max b0) (concat chunks) \<and>
      cap_req_truncated b = (cap_max b0 < length (concat chunks)) \<and>
      cap_resp b = cap_resp b0 \<and> cap_max b = cap_max b0"
    if "b = foldl (\<lambda>b c. capture_push_req c b) (capture_clear_req b0) chunks" for b
    using that
  proof (induction chunks arbitrary: b rule: rev_induct)
    case (snoc c cs)
    then show ?case
      using capture_push_spec [of _ "cap_max b0" "concat cs" _ c]
      by (simp add: capture_push_req_def case_prod_unfold)
  qed (simp add: capture_clear_req_def)
  moreover have "cap_resp b = take mb (concat chunks) \<and>
      cap_resp_truncated b = (mb < length (concat chunks)) \<and> cap_max b = mb"
    if "b = foldl (\<lambda>b c. capture_push_resp c b) (capture_bufs_new mb) chunks" for b
    using that
  proof (induction chunks arbitrary: b rule: rev_induct)
    case (snoc c cs)
    then show ?case
      using capture_push_spec [of _ mb "concat cs" _ c]
      by (simp add: capture_push_resp_def case_prod_unfold)
  qed (simp add: capture_bufs_new_def)
  ultimately show ?thesis by blast
qed

end
