(* ===== verification/Store_Watch.thy ===== *)
theory Store_Watch
  imports Admission_Sets
begin

text \<open>
  How the sparse sets follow the control plane's key-value store (\<^verbatim>\<open>store_watch.rs\<close>). One loop,
  written once over the trait \<^verbatim>\<open>WatchedSet\<close>: seed from an on-disk snapshot or a scan, stream
  deltas in batches from a resume point, persist them, reconnect with a growing delay.

  \<^item> \<open>watched\<close> is the trait as a record of its methods; \<open>Deny\<close>, \<open>Allowance\<close>, \<open>Capture\<close> and
    \<open>SigningKeys\<close> are its four implementations.
  \<^item> \<open>watcher\<close> is the loop's state; \<open>load_snapshot\<close>, \<open>seed_from_scan\<close>, \<open>take_batch\<close>,
    \<open>persist_batch\<close>, \<open>watch_ended\<close> are its steps, \<open>watch_set\<close> one connection and
    \<open>watcher_round\<close> one turn of the reconnect loop.
  \<^item> The store, its watch and its snapshot writer are not part of the repository: what they do is
    the argument of each step (the entries a scan returned, the updates a watch delivered, whether
    a write succeeded).

  The locale \<open>watched_set\<close> is the contract of the trait: seeding is a run of puts and batches
  compose. \<open>mirrored_set\<close> adds that an entry is decided by the last update of its key, which
  the deny, allowance and capture sets satisfy (the signing keys, bounded and keeping the old key
  on a bad value, satisfy the first only). Proved for every mirrored set: however the updates are
  cut into batches and connections, catching up from a resume point the loop trusts gives exactly
  the store's contents, with no update lost.
\<close>

section \<open>The store's data\<close>

datatype version = Rev nat | Opaque string

fun as_u64 :: "version \<Rightarrow> nat option" where
  "as_u64 (Rev n) = Some n"
| "as_u64 (Opaque _) = None"

record kv_entry =
  e_key :: string
  e_value :: string
  e_version :: version

datatype kv_update = Put kv_entry | Delete string version | Purge string version

fun upd_key :: "kv_update \<Rightarrow> string" where
  "upd_key (Put e) = e_key e"
| "upd_key (Delete k _) = k"
| "upd_key (Purge k _) = k"

fun upd_version :: "kv_update \<Rightarrow> version" where
  "upd_version (Put e) = e_version e"
| "upd_version (Delete _ v) = v"
| "upd_version (Purge _ v) = v"

section \<open>The four sets\<close>

text \<open>
  Each set is its own loop in the source, over the same three cases: a put of a key that parses, a
  delete or purge of one, and anything else.
\<close>

fun deny_apply :: "(string \<Rightarrow> string option) \<Rightarrow> deny_set \<Rightarrow> kv_update \<Rightarrow> deny_set" where
  "deny_apply jr d (Put e) =
     (case deny_parse_key (e_key e) of
        Some t \<Rightarrow> deny_insert_target t (parse_reason jr (e_value e)) d | None \<Rightarrow> d)"
| "deny_apply jr d (Delete k _) =
     (case deny_parse_key k of Some t \<Rightarrow> deny_remove_target t d | None \<Rightarrow> d)"
| "deny_apply jr d (Purge k _) =
     (case deny_parse_key k of Some t \<Rightarrow> deny_remove_target t d | None \<Rightarrow> d)"

definition deny_apply_batch :: "(string \<Rightarrow> string option) \<Rightarrow> deny_set \<Rightarrow> kv_update list \<Rightarrow> deny_set" where
  "deny_apply_batch jr cur updates = foldl (deny_apply jr) cur updates"

definition denyset_from_entries :: "(string \<Rightarrow> string option) \<Rightarrow> kv_entry list \<Rightarrow> deny_set" where
  "denyset_from_entries jr entries =
     foldl (\<lambda>d e. case deny_parse_key (e_key e) of
                    Some t \<Rightarrow> deny_insert_target t (parse_reason jr (e_value e)) d | None \<Rightarrow> d)
           deny_new entries"

fun allowance_apply :: "allowance_set \<Rightarrow> kv_update \<Rightarrow> allowance_set" where
  "allowance_apply a (Put e) =
     (case allowance_parse_key (e_key e) of Some t \<Rightarrow> allowance_insert_target t a | None \<Rightarrow> a)"
| "allowance_apply a (Delete k _) =
     (case allowance_parse_key k of Some t \<Rightarrow> allowance_remove_target t a | None \<Rightarrow> a)"
| "allowance_apply a (Purge k _) =
     (case allowance_parse_key k of Some t \<Rightarrow> allowance_remove_target t a | None \<Rightarrow> a)"

definition apply_allowance_batch :: "allowance_set \<Rightarrow> kv_update list \<Rightarrow> allowance_set" where
  "apply_allowance_batch cur updates = foldl allowance_apply (allowance_mark_ready cur) updates"

definition allowanceset_from_entries :: "kv_entry list \<Rightarrow> allowance_set" where
  "allowanceset_from_entries entries =
     foldl (\<lambda>a e. case allowance_parse_key (e_key e) of
                    Some t \<Rightarrow> allowance_insert_target t a | None \<Rightarrow> a)
           allowance_from_ready entries"

fun capture_apply ::
  "(string \<Rightarrow> (nat option \<times> nat option) option) \<Rightarrow> capture_rule \<Rightarrow> capture_set \<Rightarrow> kv_update \<Rightarrow> capture_set"
where
  "capture_apply jr defaults c (Put e) =
     (case capture_parse_key (e_key e) of
        Some t \<Rightarrow> c(t \<mapsto> parse_rule jr (e_value e) defaults) | None \<Rightarrow> c)"
| "capture_apply jr defaults c (Delete k _) =
     (case capture_parse_key k of Some t \<Rightarrow> c(t := None) | None \<Rightarrow> c)"
| "capture_apply jr defaults c (Purge k _) =
     (case capture_parse_key k of Some t \<Rightarrow> c(t := None) | None \<Rightarrow> c)"

definition capture_apply_batch ::
  "(string \<Rightarrow> (nat option \<times> nat option) option) \<Rightarrow> capture_rule \<Rightarrow> capture_set \<Rightarrow> kv_update list \<Rightarrow> capture_set"
where
  "capture_apply_batch jr defaults cur updates = foldl (capture_apply jr defaults) cur updates"

text \<open>\<^verbatim>\<open>filter_map(..).collect()\<close> into a hash map: a later entry of the same tenant replaces.\<close>

definition captureset_from_entries ::
  "(string \<Rightarrow> (nat option \<times> nat option) option) \<Rightarrow> capture_rule \<Rightarrow> kv_entry list \<Rightarrow> capture_set"
where
  "captureset_from_entries jr defaults entries =
     foldl (\<lambda>c e. case capture_parse_key (e_key e) of
                    Some t \<Rightarrow> c(t \<mapsto> parse_rule jr (e_value e) defaults) | None \<Rightarrow> c)
           Map.empty entries"

fun signing_apply ::
  "(string \<Rightarrow> 'vk option) \<Rightarrow> ('vk \<Rightarrow> bool) \<Rightarrow> bool \<Rightarrow> 'vk live_keys \<Rightarrow> kv_update \<Rightarrow> 'vk live_keys"
where
  "signing_apply key_of is_dev refuse_dev m (Put e) =
     (case live_parse_key (e_key e) of
        Some kid \<Rightarrow> live_put_with key_of is_dev kid (e_value e) refuse_dev m | None \<Rightarrow> m)"
| "signing_apply key_of is_dev refuse_dev m (Delete k _) =
     (case live_parse_key k of Some kid \<Rightarrow> live_remove kid m | None \<Rightarrow> m)"
| "signing_apply key_of is_dev refuse_dev m (Purge k _) =
     (case live_parse_key k of Some kid \<Rightarrow> live_remove kid m | None \<Rightarrow> m)"

definition apply_signing_keys_batch ::
  "(string \<Rightarrow> 'vk option) \<Rightarrow> ('vk \<Rightarrow> bool) \<Rightarrow> bool \<Rightarrow> 'vk live_keys \<Rightarrow> kv_update list \<Rightarrow> 'vk live_keys"
where
  "apply_signing_keys_batch key_of is_dev refuse_dev cur updates =
     foldl (signing_apply key_of is_dev refuse_dev) cur updates"

definition livekeys_from_entries ::
  "(string \<Rightarrow> 'vk option) \<Rightarrow> ('vk \<Rightarrow> bool) \<Rightarrow> bool \<Rightarrow> kv_entry list \<Rightarrow> 'vk live_keys"
where
  "livekeys_from_entries key_of is_dev refuse_dev entries =
     foldl (\<lambda>m e. case live_parse_key (e_key e) of
                    Some kid \<Rightarrow> live_put_with key_of is_dev kid (e_value e) refuse_dev m | None \<Rightarrow> m)
           Map.empty entries"

section \<open>The trait\<close>

record 's watched =
  w_prefix :: string
  w_noun :: string
  w_cursorless :: bool
  w_from_entries :: "kv_entry list \<Rightarrow> 's"
  w_apply_batch :: "'s \<Rightarrow> kv_update list \<Rightarrow> 's"
  w_snapshot_path :: "string option \<Rightarrow> string option"

definition Deny :: "(string \<Rightarrow> string option) \<Rightarrow> deny_set watched" where
  "Deny jr = \<lparr>w_prefix = ''blackhole.'', w_noun = ''deny-set'', w_cursorless = True,
     w_from_entries = denyset_from_entries jr, w_apply_batch = deny_apply_batch jr,
     w_snapshot_path = (\<lambda>p. p)\<rparr>"

definition Allowance :: "allowance_set watched" where
  "Allowance = \<lparr>w_prefix = ''allowance.'', w_noun = ''allowance-set'', w_cursorless = False,
     w_from_entries = allowanceset_from_entries, w_apply_batch = apply_allowance_batch,
     w_snapshot_path = map_option (\<lambda>p. p @ ''.allowance'')\<rparr>"

definition Capture ::
  "(string \<Rightarrow> (nat option \<times> nat option) option) \<Rightarrow> capture_rule \<Rightarrow> capture_set watched" where
  "Capture jr defaults = \<lparr>w_prefix = ''aicapture.'', w_noun = ''capture-set'', w_cursorless = True,
     w_from_entries = captureset_from_entries jr defaults,
     w_apply_batch = capture_apply_batch jr defaults, w_snapshot_path = (\<lambda>_. None)\<rparr>"

definition SigningKeys ::
  "(string \<Rightarrow> 'vk option) \<Rightarrow> ('vk \<Rightarrow> bool) \<Rightarrow> bool \<Rightarrow> 'vk live_keys watched" where
  "SigningKeys key_of is_dev refuse_dev =
     \<lparr>w_prefix = ''signing_key.'', w_noun = ''signing-keys'', w_cursorless = True,
      w_from_entries = livekeys_from_entries key_of is_dev refuse_dev,
      w_apply_batch = apply_signing_keys_batch key_of is_dev refuse_dev,
      w_snapshot_path = map_option (\<lambda>p. p @ ''.signing_keys'')\<rparr>"

section \<open>The loop\<close>

text \<open>
  The state across reconnects: the published set, the resume point, whether it is trusted, the
  records the snapshot writer holds (none when there is no writer) and the reconnect delay in
  milliseconds.
\<close>

datatype snap_rec = SnapUpdate kv_update | SnapCursor "version option"

record 's watcher =
  w_slot :: 's
  w_cursor :: "version option"
  w_writer :: "snap_rec list option"
  w_seeded :: bool
  w_backoff :: nat

definition RECONNECT_BACKOFF_BASE :: nat where "RECONNECT_BACKOFF_BASE = 1000"
definition RECONNECT_BACKOFF_MAX :: nat where "RECONNECT_BACKOFF_MAX = 30000"

definition is_resumable :: "version option \<Rightarrow> bool" where
  "is_resumable cursor =
     (case cursor of
        None \<Rightarrow> False
      | Some v \<Rightarrow> (case as_u64 v of Some n \<Rightarrow> n > 0 | None \<Rightarrow> False))"

definition baseline_revision :: "kv_entry list \<Rightarrow> nat" where
  "baseline_revision entries =
     foldr max (List.map_filter (\<lambda>e. as_u64 (e_version e)) entries) 0"

definition backoff_grow :: "nat \<Rightarrow> nat" where
  "backoff_grow d = min (d * 2) RECONNECT_BACKOFF_MAX"

definition backoff_credit :: "nat \<Rightarrow> nat \<Rightarrow> nat" where
  "backoff_credit watch_ran_for d =
     (if watch_ran_for \<ge> RECONNECT_BACKOFF_MAX then RECONNECT_BACKOFF_BASE else d)"

definition watcher_init :: "'s \<Rightarrow> 's watcher" where
  "watcher_init s = \<lparr>w_slot = s, w_cursor = None, w_writer = None, w_seeded = False,
                     w_backoff = RECONNECT_BACKOFF_BASE\<rparr>"

text \<open>What loading the snapshot gave, and what the writer found when it opened the file.\<close>

datatype snapshot_load = Snapshot "kv_entry list" "version option" | NoSnapshot | LoadFailed

definition load_snapshot ::
  "'s watched \<Rightarrow> string option \<Rightarrow> snapshot_load \<Rightarrow> snap_rec list option \<Rightarrow> 's watcher \<Rightarrow> 's watcher"
where
  "load_snapshot W path loaded opened ws =
     (case w_snapshot_path W path of
        None \<Rightarrow> ws
      | Some _ \<Rightarrow>
          (let ws =
             (case loaded of
                Snapshot entries cursor \<Rightarrow>
                  (let resumable = is_resumable cursor;
                       complete = (cursor \<noteq> None);
                       ws = (if complete \<or> w_cursorless W then ws\<lparr>w_slot := w_from_entries W entries\<rparr>
                             else ws)
                   in if resumable then ws\<lparr>w_cursor := cursor, w_seeded := True\<rparr> else ws)
              | NoSnapshot \<Rightarrow> ws
              | LoadFailed \<Rightarrow> ws)
           in case opened of Some recs \<Rightarrow> ws\<lparr>w_writer := Some recs\<rparr> | None \<Rightarrow> ws))"

text \<open>
  The rebuild is staged in a temporary file and renamed over the old one: it succeeds whole, or the
  writer is gone.
\<close>

definition rebuild_snapshot :: "bool \<Rightarrow> kv_entry list \<Rightarrow> version option \<Rightarrow> snap_rec list option" where
  "rebuild_snapshot ok entries cursor =
     (if ok then Some (map (\<lambda>e. SnapUpdate (Put e)) entries @ [SnapCursor cursor]) else None)"

definition seed_from_scan ::
  "'s watched \<Rightarrow> string option \<Rightarrow> kv_entry list \<Rightarrow> bool \<Rightarrow> 's watcher \<Rightarrow> 's watcher" where
  "seed_from_scan W path entries rebuild_ok ws =
     (let baseline_rev = baseline_revision entries;
          ws = ws\<lparr>w_slot := w_from_entries W entries\<rparr>;
          ws = ws\<lparr>w_cursor := Some (Rev baseline_rev)\<rparr>;
          ws = (if w_writer ws \<noteq> None \<and> w_snapshot_path W path \<noteq> None
                then ws\<lparr>w_writer := rebuild_snapshot rebuild_ok entries (w_cursor ws)\<rparr> else ws)
      in ws\<lparr>w_seeded := is_resumable (w_cursor ws)\<rparr>)"

text \<open>
  What the writer answered: one result per update, the checkpoint's (whether it asks for a
  compaction, or an error), and what a compaction left.
\<close>

record persist_io =
  write_ok :: "bool list"
  checkpointed :: "bool option"
  compacted :: "snap_rec list option"

definition persist_batch ::
  "snap_rec list option \<Rightarrow> persist_io \<Rightarrow> kv_update list \<Rightarrow> version option \<Rightarrow> snap_rec list option" where
  "persist_batch writer io updates cursor =
     (let (writer, needs_compact) =
        (case writer of
           Some recs \<Rightarrow>
             (let recs = recs @ map (SnapUpdate \<circ> fst) (filter snd (zip updates (write_ok io)))
              in case checkpointed io of
                   Some b \<Rightarrow> (Some (recs @ [SnapCursor cursor]), b)
                 | None \<Rightarrow> (Some recs, False))
         | None \<Rightarrow> (None, False))
      in if needs_compact then (case writer of Some _ \<Rightarrow> compacted io | None \<Rightarrow> writer) else writer)"

definition take_batch ::
  "'s watched \<Rightarrow> persist_io \<Rightarrow> kv_update list \<Rightarrow> 's watcher \<Rightarrow> 's watcher" where
  "take_batch W io batch ws =
     (let ws = ws\<lparr>w_slot := w_apply_batch W (w_slot ws) batch\<rparr>;
          ws = (if batch = [] then ws else ws\<lparr>w_cursor := Some (upd_version (last batch))\<rparr>)
      in ws\<lparr>w_writer := persist_batch (w_writer ws) io batch (w_cursor ws)\<rparr>)"

datatype watch_end = EndOk | CursorExpired | EndError

definition watch_ended :: "watch_end \<Rightarrow> 's watcher \<Rightarrow> 's watcher" where
  "watch_ended why ws =
     (case why of CursorExpired \<Rightarrow> ws\<lparr>w_seeded := False, w_cursor := None\<rparr> | _ \<Rightarrow> ws)"

text \<open>
  One connection, as the store behaved in it. A scan that failed, or a store that has no watcher,
  ends it; the batches come in order; then the watch ends, or the process is told to stop.
\<close>

datatype session_end = Shutdown | Ended watch_end

record session =
  scanned :: "kv_entry list option"
  rebuilt :: bool
  has_watcher :: bool
  batches :: "(kv_update list \<times> persist_io) list"
  session_end :: session_end

definition watch_set :: "'s watched \<Rightarrow> string option \<Rightarrow> session \<Rightarrow> 's watcher \<Rightarrow> 's watcher \<times> bool" where
  "watch_set W path se ws =
     (if \<not> w_seeded ws \<and> scanned se = None then (ws, False)
      else let ws = (if \<not> w_seeded ws
                     then (case scanned se of
                             Some entries \<Rightarrow> seed_from_scan W path entries (rebuilt se) ws
                           | None \<Rightarrow> ws)
                     else ws)
           in if \<not> has_watcher se then (ws, False)
              else let ws = foldl (\<lambda>ws (b, io). take_batch W io b ws) ws (batches se)
                   in case session_end se of
                        Shutdown \<Rightarrow> (ws, True)
                      | Ended why \<Rightarrow> (watch_ended why ws, False))"

text \<open>
  One turn of the reconnect loop: a connect that failed or a connection that ran for some
  milliseconds; the delay slept before the next, nothing when the process stops.
\<close>

datatype turn = ConnectFailed | Connected session nat

fun watcher_round ::
  "'s watched \<Rightarrow> string option \<Rightarrow> turn \<Rightarrow> 's watcher \<Rightarrow> 's watcher \<times> nat option" where
  "watcher_round W path ConnectFailed ws =
     (ws\<lparr>w_backoff := backoff_grow (w_backoff ws)\<rparr>, Some (w_backoff ws))"
| "watcher_round W path (Connected se watched_for) ws =
     (let (ws, stop) = watch_set W path se ws
      in if stop then (ws, None)
         else let ws = ws\<lparr>w_backoff := backoff_credit watched_for (w_backoff ws)\<rparr>
              in (ws\<lparr>w_backoff := backoff_grow (w_backoff ws)\<rparr>, Some (w_backoff ws)))"

section \<open>The contract of a watched set\<close>

locale watched_set =
  fixes W :: "'s watched"
  assumes seed_snoc: "w_from_entries W (es @ [e]) = w_apply_batch W (w_from_entries W es) [Put e]"
    and seed_nil: "w_apply_batch W (w_from_entries W es) [] = w_from_entries W es"
    and batch_append: "w_apply_batch W (w_apply_batch W s us) vs = w_apply_batch W s (us @ vs)"
begin

lemma seed_is_puts: "w_from_entries W es = w_apply_batch W (w_from_entries W []) (map Put es)"
  by (induction es rule: rev_induct) (simp_all add: seed_nil seed_snoc batch_append)

lemma batches_concat:
  "foldl (w_apply_batch W) (w_apply_batch W s us) bs = w_apply_batch W s (us @ concat bs)"
  by (induction bs arbitrary: us) (simp_all add: batch_append)

lemma seed_then_batches:
  "foldl (w_apply_batch W) (w_from_entries W es) bs =
   w_apply_batch W (w_from_entries W []) (map Put es @ concat bs)"
  by (simp only: seed_is_puts [of es] batches_concat)

end

text \<open>The store's contents after a run of updates.\<close>

fun kv_step :: "(string \<rightharpoonup> string) \<Rightarrow> kv_update \<Rightarrow> (string \<rightharpoonup> string)" where
  "kv_step m (Put e) = m(e_key e \<mapsto> e_value e)"
| "kv_step m (Delete k _) = m(k := None)"
| "kv_step m (Purge k _) = m(k := None)"

definition kv_after :: "(string \<rightharpoonup> string) \<Rightarrow> kv_update list \<Rightarrow> (string \<rightharpoonup> string)" where
  "kv_after m us = foldl kv_step m us"

lemma kv_after_simps [simp]:
  "kv_after m [] = m"
  "kv_after m (u # us) = kv_after (kv_step m u) us"
  "kv_after m (us @ vs) = kv_after (kv_after m us) vs"
  by (simp_all add: kv_after_def)

lemma kv_step_other: "k \<noteq> upd_key u \<Longrightarrow> kv_step m u k = m k"
  by (cases u) auto

lemma kv_step_same: "kv_step m u (upd_key u) = kv_step m' u (upd_key u)"
  by (cases u) auto

lemma kv_after_untouched: "k \<notin> upd_key ` set us \<Longrightarrow> kv_after m us k = m k"
  by (induction us arbitrary: m) (auto simp: kv_step_other)

lemma kv_after_cong: "m k = m' k \<Longrightarrow> kv_after m us k = kv_after m' us k"
proof (induction us arbitrary: m m')
  case (Cons u us)
  have "kv_step m u k = kv_step m' u k"
    using Cons.prems kv_step_other [of k u] kv_step_same [of m u m'] by metis
  with Cons.IH [of "kv_step m u" "kv_step m' u"] show ?case by simp
qed simp

lemma kv_after_touched: "k \<in> upd_key ` set us \<Longrightarrow> kv_after m us k = kv_after m' us k"
proof (induction us arbitrary: m m')
  case (Cons u us)
  show ?case
  proof (cases "k \<in> upd_key ` set us")
    case False
    with Cons.prems have "k = upd_key u" by auto
    then have "kv_step m u k = kv_step m' u k" using kv_step_same by metis
    then show ?thesis using kv_after_cong [of "kv_step m u" k "kv_step m' u" us] by simp
  qed (use Cons.IH [of "kv_step m u" "kv_step m' u"] in simp)
qed simp

lemma kv_after_filter: "P k \<Longrightarrow> kv_after m (filter (\<lambda>u. P (upd_key u)) us) k = kv_after m us k"
proof (induction us arbitrary: m)
  case (Cons u us)
  show ?case
  proof (cases "P (upd_key u)")
    case False
    with Cons.prems have "m k = kv_step m u k" using kv_step_other [of k u m] by metis
    with False Cons show ?thesis using kv_after_cong [of m k "kv_step m u" us] by simp
  qed (use Cons in simp)
qed simp

lemma dom_kv_after: "dom (kv_after m us) \<subseteq> dom m \<union> upd_key ` set us"
  using kv_after_untouched by fastforce

text \<open>
  A set shows a store: what it holds for a target is what the store holds under a key that names
  it. \<open>one_spelling\<close>: no two of the keys name the same target.
\<close>

definition mirrors ::
  "(string \<Rightarrow> 't option) \<Rightarrow> ('t \<Rightarrow> string \<Rightarrow> 'v) \<Rightarrow> ('s \<Rightarrow> 't \<Rightarrow> 'v option) \<Rightarrow> 's \<Rightarrow> (string \<rightharpoonup> string) \<Rightarrow> bool"
where
  "mirrors target val look s m \<longleftrightarrow>
     (\<forall>t x. look s t = Some x \<longleftrightarrow> (\<exists>k v. m k = Some v \<and> target k = Some t \<and> x = val t v))"

definition one_spelling :: "(string \<Rightarrow> 't option) \<Rightarrow> string set \<Rightarrow> bool" where
  "one_spelling target K \<longleftrightarrow>
     (\<forall>k \<in> K. \<forall>k' \<in> K. target k \<noteq> None \<longrightarrow> target k = target k' \<longrightarrow> k = k')"

definition has_prefix :: "string \<Rightarrow> string \<Rightarrow> bool" where
  "has_prefix p k \<longleftrightarrow> take (length p) k = p"

lemma one_spellingD:
  "one_spelling target K \<Longrightarrow> k \<in> K \<Longrightarrow> k' \<in> K \<Longrightarrow> target k = Some t \<Longrightarrow> target k' = Some t \<Longrightarrow> k = k'"
  by (auto simp: one_spelling_def)

locale mirrored_set = watched_set W
  for W :: "'s watched" +
  fixes target :: "string \<Rightarrow> 't option"
    and val :: "'t \<Rightarrow> string \<Rightarrow> 'v"
    and look :: "'s \<Rightarrow> 't \<Rightarrow> 'v option"
  assumes look_empty: "look (w_from_entries W []) t = None"
    and look_nil: "look (w_apply_batch W s []) t = look s t"
    and look_put: "look (w_apply_batch W s [Put e]) t =
      (if target (e_key e) = Some t then Some (val t (e_value e)) else look s t)"
    and look_delete: "look (w_apply_batch W s [Delete k ver]) t = (if target k = Some t then None else look s t)"
    and look_purge: "look (w_apply_batch W s [Purge k ver]) t = (if target k = Some t then None else look s t)"
    and target_prefix: "target k = Some t \<Longrightarrow> has_prefix (w_prefix W) k"
begin

lemma mirrors_step:
  assumes "mirrors target val look s m" and "one_spelling target K" and "dom m \<union> {upd_key u} \<subseteq> K"
  shows "mirrors target val look (w_apply_batch W s [u]) (kv_step m u)"
proof -
  define nv where "nv = (case u of Put e \<Rightarrow> Some (e_value e) | _ \<Rightarrow> None)"
  have m': "kv_step m u = m(upd_key u := nv)" by (cases u) (auto simp: nv_def)
  have look': "look (w_apply_batch W s [u]) t =
      (if target (upd_key u) = Some t then map_option (val t) nv else look s t)" for t
    by (cases u) (auto simp: nv_def look_put look_delete look_purge)
  have "look (w_apply_batch W s [u]) t = Some x \<longleftrightarrow>
      (\<exists>k v. kv_step m u k = Some v \<and> target k = Some t \<and> x = val t v)" for t x
  proof (cases "target (upd_key u) = Some t")
    case True
    then have "k = upd_key u" if "m k = Some v" "target k = Some t" for k v
      using one_spellingD [OF assms(2) _ _ that(2) True] that(1) assms(3) by auto
    with True show ?thesis by (auto simp: m' look' split: if_splits)
  next
    case False
    then have "(kv_step m u k = Some v \<and> target k = Some t \<and> x = val t v) \<longleftrightarrow>
        (m k = Some v \<and> target k = Some t \<and> x = val t v)" for k v by (auto simp: m')
    then have "(\<exists>k v. kv_step m u k = Some v \<and> target k = Some t \<and> x = val t v) \<longleftrightarrow> look s t = Some x"
      using assms(1) unfolding mirrors_def by presburger
    then show ?thesis using False by (simp add: look')
  qed
  then show ?thesis by (simp add: mirrors_def)
qed

lemma mirrors_batch:
  assumes "mirrors target val look s m" and "one_spelling target K" and "dom m \<union> upd_key ` set us \<subseteq> K"
  shows "mirrors target val look (w_apply_batch W s us) (kv_after m us)"
  using assms
proof (induction us arbitrary: s m)
  case Nil
  then show ?case by (simp add: mirrors_def look_nil)
next
  case (Cons u us)
  have "mirrors target val look (w_apply_batch W s [u]) (kv_step m u)"
    using Cons.prems by (intro mirrors_step) auto
  moreover have "dom (kv_step m u) \<union> upd_key ` set us \<subseteq> K"
    using Cons.prems(3) dom_kv_after [of m "[u]"] by auto
  ultimately show ?case
    using Cons.IH [of "w_apply_batch W s [u]" "kv_step m u"] Cons.prems(2) batch_append [of s "[u]" us]
    by simp
qed

lemma mirrors_seed:
  assumes "one_spelling target K" and "e_key ` set es \<subseteq> K"
  shows "mirrors target val look (w_from_entries W es) (kv_after Map.empty (map Put es))"
proof -
  have "mirrors target val look (w_from_entries W []) Map.empty"
    by (simp add: mirrors_def look_empty)
  then have "mirrors target val look (w_apply_batch W (w_from_entries W []) (map Put es))
      (kv_after Map.empty (map Put es))"
    by (rule mirrors_batch [OF _ assms(1)]) (use assms(2) in auto)
  then show ?thesis by (simp only: seed_is_puts [symmetric])
qed

text \<open>Only the keys under the set's prefix count.\<close>

lemma mirrors_cong:
  assumes "mirrors target val look s m" and "\<And>k. has_prefix (w_prefix W) k \<Longrightarrow> m k = m' k"
  shows "mirrors target val look s m'"
  using assms target_prefix unfolding mirrors_def by metis

end

section \<open>What the store promises\<close>

text \<open>
  The bucket's history \<open>H\<close>: its updates in order, numbered by revision from 1. A scan lists, once
  each, the entries under the prefix as they are at some revision, with the revision that wrote
  each. A watch from a revision above 0 delivers, in order, the updates under the prefix after it;
  from 0 or without one it delivers what it likes. A snapshot holds entries and a cursor from which
  replaying the history gives the store.
\<close>

definition numbered :: "kv_update list \<Rightarrow> bool" where
  "numbered H \<longleftrightarrow> (\<forall>i < length H. upd_version (H ! i) = Rev (Suc i))"

definition kv_at :: "kv_update list \<Rightarrow> nat \<Rightarrow> (string \<rightharpoonup> string)" where
  "kv_at H r = kv_after Map.empty (take r H)"

definition is_scan :: "string \<Rightarrow> kv_update list \<Rightarrow> nat \<Rightarrow> kv_entry list \<Rightarrow> bool" where
  "is_scan p H n es \<longleftrightarrow>
     n \<le> length H \<and> distinct (map e_key es) \<and>
     (\<forall>k v. (\<exists>e \<in> set es. e_key e = k \<and> e_value e = v) \<longleftrightarrow> has_prefix p k \<and> kv_at H n k = Some v) \<and>
     (\<forall>e \<in> set es. \<exists>r \<le> n. e_version e = Rev r)"

definition catches_up :: "string \<Rightarrow> kv_update list \<Rightarrow> nat \<Rightarrow> (string \<rightharpoonup> string) \<Rightarrow> bool" where
  "catches_up p H r m \<longleftrightarrow>
     0 < r \<and> r \<le> length H \<and> dom m \<subseteq> upd_key ` set H \<and>
     (\<forall>k. has_prefix p k \<longrightarrow> kv_after m (drop r H) k = kv_after Map.empty H k)"

definition sound_snapshot :: "string \<Rightarrow> kv_update list \<Rightarrow> snapshot_load \<Rightarrow> bool" where
  "sound_snapshot p H l \<longleftrightarrow>
     (case l of
        Snapshot es (Some (Rev r)) \<Rightarrow> r = 0 \<or> catches_up p H r (kv_after Map.empty (map Put es))
      | _ \<Rightarrow> True)"

definition delivers :: "string \<Rightarrow> kv_update list \<Rightarrow> version option \<Rightarrow> kv_update list list \<Rightarrow> bool" where
  "delivers p H cursor bs \<longleftrightarrow>
     [] \<notin> set bs \<and>
     (case cursor of
        Some (Rev r) \<Rightarrow>
          r = 0 \<or> (\<exists>n. concat bs = take n (filter (\<lambda>u. has_prefix p (upd_key u)) (drop r H)))
      | _ \<Rightarrow> True)"

definition store_session :: "'s watched \<Rightarrow> string option \<Rightarrow> kv_update list \<Rightarrow> 's watcher \<Rightarrow> session \<Rightarrow> bool" where
  "store_session W path H ws se \<longleftrightarrow>
     (\<forall>es. scanned se = Some es \<longrightarrow> (\<exists>n. is_scan (w_prefix W) H n es)) \<and>
     delivers (w_prefix W) H
       (if w_seeded ws then w_cursor ws
        else case scanned se of Some es \<Rightarrow> Some (Rev (baseline_revision es)) | None \<Rightarrow> None)
       (map fst (batches se))"

text \<open>The loop run against such a store: from boot, any turns in any order.\<close>

inductive watch_reach ::
  "'s watched \<Rightarrow> string option \<Rightarrow> kv_update list \<Rightarrow> 's \<Rightarrow> 's watcher \<Rightarrow> bool" for W path H s0
where
  boot: "sound_snapshot (w_prefix W) H loaded \<Longrightarrow>
     watch_reach W path H s0 (load_snapshot W path loaded opened (watcher_init s0))"
| failed: "watch_reach W path H s0 ws \<Longrightarrow>
     watch_reach W path H s0 (fst (watcher_round W path ConnectFailed ws))"
| connected: "watch_reach W path H s0 ws \<Longrightarrow> store_session W path H ws se \<Longrightarrow>
     watch_reach W path H s0 (fst (watcher_round W path (Connected se t) ws))"

lemma kv_at_split: "r \<le> n \<Longrightarrow> kv_at H n = kv_after (kv_at H r) (drop r (take n H))"
  unfolding kv_at_def
  by (metis kv_after_simps(3) append_take_drop_id min.absorb1 take_take)

lemma kv_at_full: "kv_after Map.empty H = kv_after (kv_at H r) (drop r H)"
  unfolding kv_at_def by (metis kv_after_simps(3) append_take_drop_id)

lemma catch_up_any:
  assumes "r \<le> n" and "m k = kv_at H n k"
  shows "kv_after m (drop r H) k = kv_after Map.empty H k"
proof (cases "k \<in> upd_key ` set (drop r H)")
  case True
  then show ?thesis by (subst kv_at_full [of H r]) (rule kv_after_touched)
next
  case False
  moreover have "set (drop r (take n H)) \<subseteq> set (drop r H)" by (metis drop_take set_take_subset)
  ultimately have "kv_at H n k = kv_at H r k"
    unfolding kv_at_split [OF assms(1)] by (intro kv_after_untouched) auto
  with False assms(2) show ?thesis
    by (simp add: kv_at_full [of H r] kv_after_untouched)
qed

lemma puts_map_of:
  "distinct (map e_key es) \<Longrightarrow>
   kv_after Map.empty (map Put es) k = Some v \<longleftrightarrow> (\<exists>e \<in> set es. e_key e = k \<and> e_value e = v)"
proof (induction es rule: rev_induct)
  case (snoc e es)
  then have "e_key x \<noteq> e_key e" if "x \<in> set es" for x using that by (auto simp: image_iff)
  with snoc show ?case by (cases "k = e_key e") auto
qed simp

lemma foldr_max_le: "(\<And>x. x \<in> set xs \<Longrightarrow> x \<le> n) \<Longrightarrow> foldr max xs 0 \<le> (n :: nat)"
  by (induction xs) auto

lemma baseline_le: "is_scan p H n es \<Longrightarrow> baseline_revision es \<le> n"
  unfolding baseline_revision_def
  by (rule foldr_max_le) (force simp: is_scan_def List.map_filter_def)

lemma scan_catches_up:
  assumes "is_scan p H n es" and "0 < baseline_revision es"
  shows "catches_up p H (baseline_revision es) (kv_after Map.empty (map Put es))"
proof -
  let ?m = "kv_after Map.empty (map Put es)"
  have d: "distinct (map e_key es)" using assms(1) by (simp add: is_scan_def)
  have view: "?m k = (if has_prefix p k then kv_at H n k else None)" for k
  proof -
    have "?m k = Some v \<longleftrightarrow> has_prefix p k \<and> kv_at H n k = Some v" for v
      using assms(1) puts_map_of [OF d, of k v] unfolding is_scan_def by blast
    then show ?thesis by (metis not_None_eq)
  qed
  have "dom ?m \<subseteq> dom (kv_at H n)" using view by (auto split: if_splits)
  also have "\<dots> \<subseteq> upd_key ` set H"
    using dom_kv_after [of Map.empty "take n H"] set_take_subset [of n H] by (auto simp: kv_at_def)
  finally show ?thesis
    using catch_up_any [OF baseline_le [OF assms(1)], of ?m _ H] view assms(2) baseline_le [OF assms(1)] assms(1)
    by (auto simp: catches_up_def is_scan_def)
qed

lemma filter_split_at:
  "take n (filter P xs) \<noteq> [] \<Longrightarrow>
   \<exists>i < length xs. last (take n (filter P xs)) = xs ! i \<and>
       filter P (take (Suc i) xs) = take n (filter P xs) \<and>
       filter P (drop (Suc i) xs) = drop n (filter P xs)"
proof (induction xs arbitrary: n)
  case (Cons x xs)
  show ?case
  proof (cases "P x")
    case True
    then obtain n' where n: "n = Suc n'" using Cons.prems by (cases n) auto
    show ?thesis
    proof (cases "take n' (filter P xs) = []")
      case False
      from Cons.IH [OF this] obtain i where "i < length xs"
        "last (take n' (filter P xs)) = xs ! i" "filter P (take (Suc i) xs) = take n' (filter P xs)"
        "filter P (drop (Suc i) xs) = drop n' (filter P xs)" by blast
      with True n False show ?thesis by (intro exI [of _ "Suc i"]) auto
    qed (use True n in \<open>intro exI [of _ 0], auto simp: take_eq_Nil\<close>)
  next
    case False
    with Cons.prems have "take n (filter P xs) \<noteq> []" by simp
    from Cons.IH [OF this] obtain i where "i < length xs"
      "last (take n (filter P xs)) = xs ! i" "filter P (take (Suc i) xs) = take n (filter P xs)"
      "filter P (drop (Suc i) xs) = drop n (filter P xs)" by blast
    with False show ?thesis by (intro exI [of _ "Suc i"]) auto
  qed
qed simp

lemma batch_catches_up:
  assumes "catches_up p H r m" and "numbered H" and "b \<noteq> []"
    and "b @ rest = take n (filter (\<lambda>u. has_prefix p (upd_key u)) (drop r H))"
  obtains r' where "upd_version (last b) = Rev r'" and "catches_up p H r' (kv_after m b)"
    and "\<exists>n'. rest = take n' (filter (\<lambda>u. has_prefix p (upd_key u)) (drop r' H))"
proof -
  let ?P = "\<lambda>u. has_prefix p (upd_key u)" and ?D = "drop r H"
  let ?F = "filter ?P ?D"
  have len: "length b \<le> n" "length b \<le> length ?F"
    using arg_cong [OF assms(4), of length] by auto
  have b: "b = take (length b) ?F" and rest: "rest = take (n - length b) (drop (length b) ?F)"
    using arg_cong [OF assms(4), of "take (length b)"] arg_cong [OF assms(4), of "drop (length b)"] len
    by (simp_all add: drop_take)
  from filter_split_at [of "length b" ?P ?D] assms(3) b obtain i
    where i: "i < length ?D" "last b = ?D ! i" "filter ?P (take (Suc i) ?D) = b"
      "filter ?P (drop (Suc i) ?D) = drop (length b) ?F" by metis
  let ?r = "r + Suc i"
  have v: "upd_version (last b) = Rev ?r" using i assms(1,2) by (simp add: numbered_def catches_up_def)
  have "kv_after (kv_after m b) (drop ?r H) k = kv_after Map.empty H k" if "has_prefix p k" for k
  proof -
    have "kv_after m b k = kv_after m (take (Suc i) ?D) k"
      using kv_after_filter [of "has_prefix p" k m "take (Suc i) ?D"] that i(3) by simp
    then have "kv_after (kv_after m b) (drop (Suc i) ?D) k =
        kv_after (kv_after m (take (Suc i) ?D)) (drop (Suc i) ?D) k"
      by (rule kv_after_cong)
    also have "\<dots> = kv_after m ?D k" by (metis kv_after_simps(3) append_take_drop_id)
    finally show ?thesis using assms(1) that by (simp add: catches_up_def add.commute)
  qed
  moreover have "set b \<subseteq> set H" by (metis b filter_is_subset set_drop_subset set_take_subset subset_trans)
  then have "dom (kv_after m b) \<subseteq> upd_key ` set H"
    using dom_kv_after [of m b] assms(1) unfolding catches_up_def by blast
  ultimately have "catches_up p H ?r (kv_after m b)" using i(1) by (simp add: catches_up_def)
  moreover have "rest = take (n - length b) (filter ?P (drop ?r H))"
    using rest i(4) by (simp add: add.commute)
  ultimately show ?thesis using that v by blast
qed

lemma seed_from_scan_fields:
  "w_slot (seed_from_scan W path es ok ws) = w_from_entries W es"
  "w_cursor (seed_from_scan W path es ok ws) = Some (Rev (baseline_revision es))"
  "w_seeded (seed_from_scan W path es ok ws) \<longleftrightarrow> 0 < baseline_revision es"
  by (auto simp: seed_from_scan_def Let_def is_resumable_def split: if_splits)

lemma take_batch_fields:
  "w_slot (take_batch W io b ws) = w_apply_batch W (w_slot ws) b"
  "w_cursor (take_batch W io b ws) = (if b = [] then w_cursor ws else Some (upd_version (last b)))"
  "w_seeded (take_batch W io b ws) = w_seeded ws"
  by (auto simp: take_batch_def Let_def)

context mirrored_set
begin

definition in_step :: "kv_update list \<Rightarrow> 's watcher \<Rightarrow> bool" where
  "in_step H ws \<longleftrightarrow> (\<exists>r m. w_cursor ws = Some (Rev r) \<and> catches_up (w_prefix W) H r m \<and>
     mirrors target val look (w_slot ws) m)"

lemma take_batch_in_step:
  assumes "in_step H ws" and "numbered H" and "one_spelling target (upd_key ` set H)"
    and "delivers (w_prefix W) H (w_cursor ws) (map fst (b # bs))"
  shows "in_step H (take_batch W (snd b) (fst b) ws) \<and>
         delivers (w_prefix W) H (w_cursor (take_batch W (snd b) (fst b) ws)) (map fst bs)"
proof -
  obtain r m where rm: "w_cursor ws = Some (Rev r)" "catches_up (w_prefix W) H r m"
    "mirrors target val look (w_slot ws) m" using assms(1) by (auto simp: in_step_def)
  have ne: "fst b \<noteq> []" and ne': "[] \<notin> set (map fst bs)" using assms(4) by (auto simp: delivers_def)
  obtain n where n: "fst b @ concat (map fst bs) =
      take n (filter (\<lambda>u. has_prefix (w_prefix W) (upd_key u)) (drop r H))"
    using assms(4) rm(1,2) by (auto simp: delivers_def catches_up_def)
  from batch_catches_up [OF rm(2) assms(2) ne n] obtain r'
    where r': "upd_version (last (fst b)) = Rev r'" "catches_up (w_prefix W) H r' (kv_after m (fst b))"
      "\<exists>n'. concat (map fst bs) = take n' (filter (\<lambda>u. has_prefix (w_prefix W) (upd_key u)) (drop r' H))"
    by blast
  have "set (fst b) \<subseteq> set H"
    using arg_cong [OF n, of set] by (auto dest!: in_set_takeD in_set_dropD)
  then have "mirrors target val look (w_apply_batch W (w_slot ws) (fst b)) (kv_after m (fst b))"
    using rm(2) by (intro mirrors_batch [OF rm(3) assms(3)]) (auto simp: catches_up_def)
  then show ?thesis
    using r' ne ne' rm by (auto simp: in_step_def take_batch_fields delivers_def)
qed

lemma batches_in_step:
  assumes "numbered H" and "one_spelling target (upd_key ` set H)"
  shows "in_step H ws \<Longrightarrow> delivers (w_prefix W) H (w_cursor ws) (map fst bs) \<Longrightarrow>
    in_step H (foldl (\<lambda>ws (b, io). take_batch W io b ws) ws bs)"
proof (induction bs arbitrary: ws)
  case (Cons b bs)
  from take_batch_in_step [OF Cons.prems(1) assms Cons.prems(2)] Cons.IH
  show ?case by (simp add: case_prod_unfold)
qed simp

lemma batches_keep_seeded:
  "w_seeded (foldl (\<lambda>ws (b, io). take_batch W io b ws) ws bs) = w_seeded ws"
  by (induction bs arbitrary: ws) (simp_all add: take_batch_fields split: prod.split)

lemma seed_in_step:
  assumes "is_scan (w_prefix W) H n es" and "one_spelling target (upd_key ` set H)"
    and "w_seeded (seed_from_scan W path es ok ws)"
  shows "in_step H (seed_from_scan W path es ok ws)"
proof -
  have pos: "0 < baseline_revision es"
    using assms(3) by (simp add: seed_from_scan_fields)
  note up = scan_catches_up [OF assms(1) pos]
  have "e_key ` set es \<subseteq> dom (kv_after Map.empty (map Put es))"
    using assms(1) puts_map_of [of es] by (fastforce simp: is_scan_def)
  then have "e_key ` set es \<subseteq> upd_key ` set H" using up by (auto simp: catches_up_def)
  from mirrors_seed [OF assms(2) this] up show ?thesis
    by (auto simp: in_step_def seed_from_scan_fields)
qed

lemma watch_set_in_step:
  assumes "store_session W path H ws se" and "numbered H" and "one_spelling target (upd_key ` set H)"
    and "w_seeded ws \<Longrightarrow> in_step H ws" and "w_seeded (fst (watch_set W path se ws))"
  shows "in_step H (fst (watch_set W path se ws))"
proof (cases "w_seeded ws \<or> scanned se \<noteq> None")
  case True
  define q where "q = (if \<not> w_seeded ws then (case scanned se of
      Some entries \<Rightarrow> seed_from_scan W path entries (rebuilt se) ws | None \<Rightarrow> ws) else ws)"
  define e where "e = foldl (\<lambda>ws (b, io). take_batch W io b ws) q (batches se)"
  have run: "watch_set W path se ws = (if \<not> has_watcher se then (q, False)
      else case session_end se of Shutdown \<Rightarrow> (e, True) | Ended why \<Rightarrow> (watch_ended why e, False))"
    unfolding watch_set_def q_def e_def Let_def using True by (cases "w_seeded ws") auto
  have seeded: "w_seeded q" and ended: "has_watcher se \<Longrightarrow> session_end se \<noteq> Ended CursorExpired"
    using assms(5) batches_keep_seeded [of q "batches se"]
    by (auto simp: run e_def watch_ended_def split: if_splits session_end.splits watch_end.splits)
  have q: "in_step H q"
  proof (cases "w_seeded ws")
    case False
    with True obtain es where es: "scanned se = Some es" by blast
    with assms(1) obtain n where "is_scan (w_prefix W) H n es" by (auto simp: store_session_def)
    with seeded False es show ?thesis by (simp add: q_def) (rule seed_in_step [OF _ assms(3)])
  qed (simp add: q_def assms(4))
  have "delivers (w_prefix W) H (w_cursor q) (map fst (batches se))"
    using assms(1) True by (auto simp: store_session_def q_def seed_from_scan_fields split: if_splits)
  from batches_in_step [OF assms(2,3) q this] q ended show ?thesis
    by (auto simp: run e_def watch_ended_def split: session_end.splits watch_end.splits)
qed (use assms in \<open>auto simp: watch_set_def\<close>)

lemma in_step_cong: "w_slot a = w_slot b \<Longrightarrow> w_cursor a = w_cursor b \<Longrightarrow> in_step H a = in_step H b"
  by (simp add: in_step_def)

lemma reach_in_step:
  assumes "watch_reach W path H s0 ws" and "numbered H" and "one_spelling target (upd_key ` set H)"
  shows "w_seeded ws \<longrightarrow> in_step H ws"
  using assms(1)
proof (induction rule: watch_reach.induct)
  case (boot loaded opened)
  show ?case
  proof
    assume sd: "w_seeded (load_snapshot W path loaded opened (watcher_init s0))"
    then obtain es r where l: "loaded = Snapshot es (Some (Rev r))" "0 < r" "w_snapshot_path W path \<noteq> None"
      by (auto simp: load_snapshot_def watcher_init_def is_resumable_def Let_def
          split: option.splits snapshot_load.splits if_splits elim: as_u64.elims)
    let ?m = "kv_after Map.empty (map Put es)"
    have up: "catches_up (w_prefix W) H r ?m" using boot l by (simp add: sound_snapshot_def)
    have "k \<in> dom (kv_after m (map Put es))" if "k \<in> e_key ` set es" for k m
      using that
    proof (induction es arbitrary: m)
      case (Cons a es)
      then show ?case
        by (cases "k \<in> e_key ` set es") (auto simp: kv_after_untouched image_iff domIff)
    qed simp
    then have "e_key ` set es \<subseteq> upd_key ` set H" using up unfolding catches_up_def by blast
    from mirrors_seed [OF assms(3) this] up l
    show "in_step H (load_snapshot W path loaded opened (watcher_init s0))"
      by (auto simp: in_step_def load_snapshot_def is_resumable_def Let_def split: option.splits)
  qed
next
  case (failed ws)
  then show ?case by (simp add: in_step_def)
next
  case (connected ws se t)
  have eq: "w_seeded (fst (watcher_round W path (Connected se t) ws)) = w_seeded (fst (watch_set W path se ws))"
    "w_slot (fst (watcher_round W path (Connected se t) ws)) = w_slot (fst (watch_set W path se ws))"
    "w_cursor (fst (watcher_round W path (Connected se t) ws)) = w_cursor (fst (watch_set W path se ws))"
    by (simp_all add: Let_def split: prod.splits)
  show ?case
    using watch_set_in_step [OF connected(2) assms(2,3)] connected.IH
    unfolding eq(1) in_step_cong [OF eq(2,3)] by blast
qed

lemma reach_no_gap:
  assumes "watch_reach W path H s0 ws" and "numbered H" and "one_spelling target (upd_key ` set H)"
    and "w_seeded ws"
  shows "\<exists>r. w_cursor ws = Some (Rev r) \<and> 0 < r \<and> r \<le> length H \<and>
    mirrors target val look
      (w_apply_batch W (w_slot ws) (filter (\<lambda>u. has_prefix (w_prefix W) (upd_key u)) (drop r H)))
      (kv_after Map.empty H)"
proof -
  let ?P = "\<lambda>u. has_prefix (w_prefix W) (upd_key u)"
  obtain r m where rm: "w_cursor ws = Some (Rev r)" "catches_up (w_prefix W) H r m"
    "mirrors target val look (w_slot ws) m"
    using reach_in_step [OF assms(1-3)] assms(4) by (auto simp: in_step_def)
  have "mirrors target val look (w_apply_batch W (w_slot ws) (filter ?P (drop r H)))
      (kv_after m (filter ?P (drop r H)))"
    using rm(2) by (intro mirrors_batch [OF rm(3) assms(3)]) (auto simp: catches_up_def dest: in_set_dropD)
  then have "mirrors target val look (w_apply_batch W (w_slot ws) (filter ?P (drop r H)))
      (kv_after Map.empty H)"
    by (rule mirrors_cong)
       (use rm(2) kv_after_filter [of "has_prefix (w_prefix W)"] in \<open>simp add: catches_up_def\<close>)
  with rm show ?thesis by (auto simp: catches_up_def)
qed

end

section \<open>The four sets satisfy the contract\<close>

definition deny_val :: "(string \<Rightarrow> string option) \<Rightarrow> deny_target \<Rightarrow> string \<Rightarrow> deny_reason option" where
  "deny_val jr t v = (case t of DenyKid _ \<Rightarrow> None | _ \<Rightarrow> Some (parse_reason jr v))"

definition deny_look :: "deny_set \<Rightarrow> deny_target \<Rightarrow> deny_reason option option" where
  "deny_look d t =
     (case t of
        DenyTenant n \<Rightarrow> map_option Some (denied d n)
      | DenyKey k \<Rightarrow> map_option Some (deny_keys d k)
      | DenyKid k \<Rightarrow> (if k \<in> deny_kids d then Some None else None))"

lemma deny_look_insert:
  "deny_look (deny_insert_target u r d) t =
     (if t = u then Some (case t of DenyKid _ \<Rightarrow> None | _ \<Rightarrow> Some r) else deny_look d t)"
  by (cases u; cases t) (auto simp: deny_look_def)

lemma deny_look_remove: "deny_look (deny_remove_target u d) t = (if t = u then None else deny_look d t)"
  by (cases u; cases t) (auto simp: deny_look_def)

lemma strip_prefix_has_prefix: "strip_prefix p k = Some r \<Longrightarrow> has_prefix p k"
  by (auto simp: strip_prefix_def has_prefix_def split: if_splits)

lemma parse_key_prefix:
  "deny_parse_key k = Some t \<Longrightarrow> has_prefix ''blackhole.'' k"
  "allowance_parse_key k = Some a \<Longrightarrow> has_prefix ''allowance.'' k"
  "capture_parse_key k = Some n \<Longrightarrow> has_prefix ''aicapture.'' k"
  unfolding deny_parse_key_def allowance_parse_key_def capture_parse_key_def
  by (auto split: option.splits dest: strip_prefix_has_prefix)

interpretation deny: mirrored_set "Deny jr" deny_parse_key "deny_val jr" deny_look for jr
  by unfold_locales
     (auto simp: Deny_def denyset_from_entries_def deny_apply_batch_def deny_new_def deny_look_insert
        deny_look_remove deny_val_def parse_key_prefix deny_look_def [of "deny_new"]
        deny_look_def [of "\<lparr>denied = Map.empty, deny_keys = Map.empty, deny_kids = {}\<rparr>"]
      split: option.splits deny_target.splits)

text \<open>What an exhausted target holds is that it is one.\<close>

definition allowance_look :: "allowance_set \<Rightarrow> allowance_target \<Rightarrow> unit option" where
  "allowance_look a t =
     (if (case t of AllowTenant n \<Rightarrow> n \<in> allow_tenants a | AllowKey k \<Rightarrow> k \<in> allow_keys a)
      then Some () else None)"

lemma allowance_look_change:
  "allowance_look (allowance_insert_target u a) t = (if t = u then Some () else allowance_look a t)"
  "allowance_look (allowance_remove_target u a) t = (if t = u then None else allowance_look a t)"
  "allowance_look (allowance_mark_ready a) t = allowance_look a t"
  "allowance_look allowance_from_ready t = None"
  by (cases u; cases t;
      auto simp: allowance_look_def allowance_mark_ready_def allowance_from_ready_def)+

lemma allow_ready_change [simp]:
  "allow_ready (allowance_insert_target u a) = allow_ready a"
  "allow_ready (allowance_remove_target u a) = allow_ready a"
  by (cases u; simp)+

lemma allowance_ready_fold:
  "allow_ready (foldl allowance_apply a us) = allow_ready a"
  by (induction us arbitrary: a, simp, rename_tac u us a, case_tac u) (auto split: option.splits)

lemma mark_ready_id: "allow_ready a \<Longrightarrow> allowance_mark_ready a = a"
  by (simp add: allowance_mark_ready_def)

lemma allowance_seed_fold: "allowanceset_from_entries es = foldl allowance_apply allowance_from_ready (map Put es)"
  by (induction es rule: rev_induct) (simp_all add: allowanceset_from_entries_def)

lemma allowance_seed_ready: "allow_ready (allowanceset_from_entries es)"
  by (simp add: allowance_seed_fold allowance_ready_fold) (simp add: allowance_from_ready_def)

interpretation allowance: mirrored_set Allowance allowance_parse_key "\<lambda>_ _. ()" allowance_look
proof (unfold_locales, goal_cases)
  case (1 es e)
  then show ?case
    by (simp add: Allowance_def apply_allowance_batch_def mark_ready_id allowance_seed_ready)
       (unfold allowanceset_from_entries_def, simp)
next
  case (2 es)
  then show ?case by (simp add: Allowance_def apply_allowance_batch_def mark_ready_id allowance_seed_ready)
next
  case (3 s us vs)
  have "allow_ready (foldl allowance_apply (allowance_mark_ready s) us)"
    by (simp add: allowance_ready_fold allowance_mark_ready_def)
  then show ?case by (simp add: Allowance_def apply_allowance_batch_def mark_ready_id)
qed (auto simp: Allowance_def apply_allowance_batch_def allowanceset_from_entries_def
       allowance_look_change parse_key_prefix split: option.splits)

interpretation capture: mirrored_set "Capture jr defaults" capture_parse_key
    "\<lambda>_ v. parse_rule jr v defaults" "\<lambda>c. c" for jr defaults
  by unfold_locales
     (auto simp: Capture_def captureset_from_entries_def capture_apply_batch_def parse_key_prefix
      split: option.splits)

text \<open>The signing keys satisfy the base contract only: a put can be refused, and keeps the old key.\<close>

interpretation signing: watched_set "SigningKeys key_of is_dev refuse_dev" for key_of is_dev refuse_dev
  by unfold_locales
     (simp_all add: SigningKeys_def livekeys_from_entries_def apply_signing_keys_batch_def)

section \<open>Properties\<close>

lemma deny_look_reason:
  "deny_reason_for d t k \<noteq> None \<longleftrightarrow>
     deny_look d (DenyTenant t) \<noteq> None \<or> (\<exists>kk. k = Some kk \<and> deny_look d (DenyKey kk) \<noteq> None)"
  by (auto simp: deny_reason_for_def deny_look_def split: option.splits)

lemma mirrors_dom:
  "mirrors target val look s m \<Longrightarrow> look s t \<noteq> None \<longleftrightarrow> (\<exists>k \<in> dom m. target k = Some t)"
  unfolding mirrors_def by (metis domI domIff not_None_eq)

text \<open>
  C3. The deny set loses nothing. Whatever connections succeed, fail, are cut or are resumed, and
  however the updates are batched, when the loop holds a resume point it trusts, applying the
  updates after it gives exactly the store: a tenant or credential is refused just when the store
  holds an entry that names it, and a signing-key id is distrusted just when an entry names it.
  The set in memory is behind the store by those updates. The store is assumed to number its updates, to
  answer scans and to resume watches as documented, no two keys of the bucket to spell the same
  target, and the snapshot loaded at boot to give the store once the updates after its cursor are applied
  (\<open>sound_snapshot\<close>).
\<close>

theorem deny_watch_no_gap:
  assumes "watch_reach (Deny jr) path H deny_new ws" and "numbered H"
    and "one_spelling deny_parse_key (upd_key ` set H)" and "w_seeded ws"
  shows "\<exists>r d. w_cursor ws = Some (Rev r) \<and> 0 < r \<and> r \<le> length H \<and>
    d = deny_apply_batch jr (w_slot ws) (filter (\<lambda>u. has_prefix ''blackhole.'' (upd_key u)) (drop r H)) \<and>
    (\<forall>t k. deny_reason_for d t k \<noteq> None \<longleftrightarrow>
       (\<exists>key \<in> dom (kv_after Map.empty H). deny_parse_key key = Some (DenyTenant t) \<or>
          (\<exists>kk. k = Some kk \<and> deny_parse_key key = Some (DenyKey kk)))) \<and>
    (\<forall>kid. kid_denied d kid \<longleftrightarrow> (\<exists>key \<in> dom (kv_after Map.empty H). deny_parse_key key = Some (DenyKid kid)))"
proof -
  obtain r where r: "w_cursor ws = Some (Rev r)" "0 < r" "r \<le> length H"
    "mirrors deny_parse_key (deny_val jr) deny_look
      (w_apply_batch (Deny jr) (w_slot ws) (filter (\<lambda>u. has_prefix (w_prefix (Deny jr)) (upd_key u)) (drop r H)))
      (kv_after Map.empty H)"
    using deny.reach_no_gap [OF assms] by blast
  define d where "d = deny_apply_batch jr (w_slot ws) (filter (\<lambda>u. has_prefix ''blackhole.'' (upd_key u)) (drop r H))"
  have m: "mirrors deny_parse_key (deny_val jr) deny_look d (kv_after Map.empty H)"
    using r(4) by (simp add: d_def Deny_def)
  note look = mirrors_dom [OF m]
  have reason: "deny_reason_for d t k \<noteq> None \<longleftrightarrow>
      (\<exists>key \<in> dom (kv_after Map.empty H). deny_parse_key key = Some (DenyTenant t) \<or>
         (\<exists>kk. k = Some kk \<and> deny_parse_key key = Some (DenyKey kk)))" for t k
    unfolding deny_look_reason look by blast
  have "kid_denied d kid \<longleftrightarrow> deny_look d (DenyKid kid) \<noteq> None" for kid
    by (auto simp: kid_denied_def deny_look_def)
  then have kid: "kid_denied d kid \<longleftrightarrow>
      (\<exists>key \<in> dom (kv_after Map.empty H). deny_parse_key key = Some (DenyKid kid))" for kid
    by (simp only: look)
  show ?thesis
    by (rule exI [of _ r], rule exI [of _ d], intro conjI allI)
       (fact r(1), fact r(2), fact r(3), fact d_def, fact reason, fact kid)
qed

definition demo_entry :: kv_entry where
  "demo_entry = \<lparr>e_key = ''blackhole.42'', e_value = ''spend'', e_version = Rev 1\<rparr>"

definition demo_session :: session where
  "demo_session = \<lparr>scanned = Some [demo_entry], rebuilt = True, has_watcher = True, batches = [],
                   session_end = Ended EndOk\<rparr>"

definition demo_watcher :: "deny_set watcher" where
  "demo_watcher = fst (watcher_round (Deny (\<lambda>_. None)) None (Connected demo_session 0)
     (load_snapshot (Deny (\<lambda>_. None)) None NoSnapshot None (watcher_init deny_new)))"

lemma demo_reach: "watch_reach (Deny (\<lambda>_. None)) None [Put demo_entry] deny_new demo_watcher"
proof -
  have "is_scan ''blackhole.'' [Put demo_entry] 1 [demo_entry]"
    by (auto simp: is_scan_def kv_at_def demo_entry_def has_prefix_def)
  then have "store_session (Deny (\<lambda>_. None)) None [Put demo_entry] ws demo_session"
    if "\<not> w_seeded ws" for ws
    using that by (auto simp: store_session_def demo_session_def Deny_def delivers_def intro: exI [of _ 0])
  then show ?thesis
    unfolding demo_watcher_def
    by (intro connected boot) (simp_all add: sound_snapshot_def load_snapshot_def Deny_def watcher_init_def)
qed

lemma demo_seeded: "w_seeded demo_watcher"
  by (simp add: demo_watcher_def load_snapshot_def Deny_def watcher_init_def watch_set_def
      demo_session_def seed_from_scan_def Let_def is_resumable_def baseline_revision_def
      List.map_filter_def demo_entry_def watch_ended_def)

theorem deny_watch_no_gap_witness:
  "w_seeded demo_watcher \<and> (\<exists>r. w_cursor demo_watcher = Some (Rev r) \<and> 0 < r \<and> r \<le> 1)"
  using deny_watch_no_gap [OF demo_reach _ _ demo_seeded] demo_seeded
  by (auto simp: numbered_def demo_entry_def one_spelling_def)

text \<open>
  C22. Quota refuses until it has been read. A snapshot without a cursor never makes the allowance
  set ready, while the deny set is seeded from it; a connection makes an unread set ready exactly
  when its scan succeeded, an empty scan included; and a set that is not ready refuses every
  managed request, whoever asks.
\<close>

theorem allowance_fails_closed:
  assumes "\<not> allow_ready (w_slot ws)" and "\<not> w_seeded ws"
  shows "(allow_ready (w_slot (load_snapshot Allowance path loaded opened ws)) \<longleftrightarrow>
            path \<noteq> None \<and> (\<exists>es v. loaded = Snapshot es (Some v))) \<and>
         (allow_ready (w_slot (fst (watch_set Allowance path se ws))) \<longleftrightarrow> scanned se \<noteq> None) \<and>
         allowance_reason_for (w_slot ws) tenant key = Some Unavailable \<and>
         w_slot (load_snapshot (Deny jr) (Some p) (Snapshot es None) opened dws) = denyset_from_entries jr es"
proof -
  have ready: "allow_ready (w_slot (foldl (\<lambda>ws (b, io). take_batch Allowance io b ws) q bs))"
    if "allow_ready (w_slot q)" for q bs
    using that
  proof (induction bs arbitrary: q)
    case (Cons b bs)
    have "allow_ready (w_slot (take_batch Allowance (snd b) (fst b) q))"
      by (simp add: take_batch_fields Allowance_def apply_allowance_batch_def allowance_ready_fold allowance_mark_ready_def)
    from Cons.IH [OF this] show ?case by (simp add: case_prod_unfold)
  qed simp
  have seed: "allow_ready (w_slot (seed_from_scan Allowance path es ok ws))" for es ok
    by (simp add: seed_from_scan_fields Allowance_def allowance_seed_ready)
  have end_slot: "w_slot (watch_ended why q) = w_slot q" for why and q :: "allowance_set watcher"
    by (simp add: watch_ended_def split: watch_end.splits)
  have "allow_ready (w_slot (fst (watch_set Allowance path se ws))) \<longleftrightarrow> scanned se \<noteq> None"
    using assms ready seed
    by (auto simp: watch_set_def Let_def end_slot split: option.splits session_end.splits)
  moreover have "allow_ready (w_slot (load_snapshot Allowance path loaded opened ws)) \<longleftrightarrow>
      path \<noteq> None \<and> (\<exists>es v. loaded = Snapshot es (Some v))"
    using assms(1)
    by (auto simp: load_snapshot_def Allowance_def Let_def allowance_seed_ready is_resumable_def
        split: option.splits snapshot_load.splits if_splits)
  moreover have "w_slot (load_snapshot (Deny jr) (Some p) (Snapshot es None) opened dws) = denyset_from_entries jr es"
    by (auto simp: load_snapshot_def Deny_def Let_def is_resumable_def split: option.splits)
  ultimately show ?thesis using assms(1) by (simp add: allowance_reason_for_def)
qed

theorem allowance_fails_closed_witness:
  "\<not> allow_ready allowance_new \<and>
   allowance_reason_for allowance_new 7 None = Some Unavailable \<and>
   \<not> allow_ready (w_slot (load_snapshot Allowance (Some ''p'') (Snapshot [] None) None (watcher_init allowance_new)))"
  using allowance_fails_closed [of "watcher_init allowance_new" "Some ''p''" "Snapshot [] None" None undefined 7 None]
  by (simp add: watcher_init_def allowance_new_def)

text \<open>
  The bound on live keys, whatever is seeded and applied.
\<close>

definition live_inv :: "'vk live_keys \<Rightarrow> bool" where
  "live_inv m \<longleftrightarrow> finite (dom m) \<and> card (dom m) \<le> MAX_SIGNING_KEYS"

lemma live_put_inv: "live_inv m \<Longrightarrow> live_inv (live_put_with ko dev kid v refuse m)"
  by (auto simp: live_inv_def live_put_with_def card_insert_if insert_absorb domIff split: option.splits)

lemma live_remove_inv: "live_inv m \<Longrightarrow> live_inv (live_remove kid m)"
  unfolding live_inv_def live_remove_def
  by (metis card_Diff1_le dom_fun_upd finite_Diff le_trans)

lemma signing_apply_inv: "live_inv m \<Longrightarrow> live_inv (signing_apply ko dev refuse m u)"
  by (cases u) (auto simp: live_put_inv live_remove_inv split: option.splits)

lemma signing_fold_inv: "live_inv m \<Longrightarrow> live_inv (foldl (signing_apply ko dev refuse) m us)"
  by (induction us arbitrary: m) (auto simp: signing_apply_inv)

lemma live_put_keeps:
  "live_put_with ko dev kid v refuse m k = Some vk \<Longrightarrow>
     m k = Some vk \<or> (k = kid \<and> ko v = Some vk \<and> \<not> (refuse \<and> dev vk))"
  by (auto simp: live_put_with_def split: option.splits if_splits)

lemma live_parse_key_spelling:
  assumes "live_parse_key k = Some n" shows "k = ''signing_key.'' @ show_nat n"
proof -
  obtain kid where kid: "strip_prefix ''signing_key.'' k = Some kid" "canonical_decimal kid"
    "parse_uint U32_MAX kid = Some n"
    using assms by (auto simp: live_parse_key_def is_canonical_kid_iff split: option.splits if_splits)
  from kid(1) [unfolded strip_prefix_Some] show_parse_uint [OF kid(2,3)] show ?thesis by simp
qed

lemma live_parse_key_show: "kid \<le> U32_MAX \<Longrightarrow> live_parse_key (''signing_key.'' @ show_nat kid) = Some kid"
  using canonical_show [of kid]
  by (simp only: live_parse_key_def strip_prefix_append is_canonical_kid_iff) (simp add: parse_uint_show)

text \<open>
  The live keyring is bounded and holds only keys the control plane published. After a seed and
  any batches there are at most 64 live keys; each is the decoded value of a put of exactly the
  canonical key \<open>signing_key.{kid}\<close>; where the development key is refused, it is never among them;
  and a delete of the kid's key, applied last, leaves the kid untrusted.
\<close>

theorem live_keyring_bounded:
  assumes "m = foldl (apply_signing_keys_batch ko dev refuse) (livekeys_from_entries ko dev refuse es) bs"
  shows "finite (dom m) \<and> card (dom m) \<le> MAX_SIGNING_KEYS \<and>
    (\<forall>kid vk. m kid = Some vk \<longrightarrow> \<not> (refuse \<and> dev vk) \<and>
       (\<exists>e. Put e \<in> set (map Put es @ concat bs) \<and> e_key e = ''signing_key.'' @ show_nat kid \<and>
            ko (e_value e) = Some vk)) \<and>
    (kid \<le> U32_MAX \<longrightarrow>
       apply_signing_keys_batch ko dev refuse m [Delete (''signing_key.'' @ show_nat kid) ver] kid = None)"
proof -
  let ?W = "SigningKeys ko dev refuse"
  have m: "m = foldl (signing_apply ko dev refuse) Map.empty (map Put es @ concat bs)"
    using signing.seed_then_batches [of ko dev refuse es bs] assms
    by (simp add: SigningKeys_def apply_signing_keys_batch_def livekeys_from_entries_def)
  have "live_inv m" unfolding m by (rule signing_fold_inv) (simp add: live_inv_def)
  moreover have "\<not> (refuse \<and> dev vk) \<and> (\<exists>e. Put e \<in> set us \<and> live_parse_key (e_key e) = Some kid \<and>
      ko (e_value e) = Some vk)"
    if "foldl (signing_apply ko dev refuse) Map.empty us kid = Some vk" for us kid vk
    using that
  proof (induction us rule: rev_induct)
    case (snoc u us)
    then show ?case
      by (cases u) (auto split: option.splits if_splits simp: live_remove_def dest!: live_put_keeps)
  qed simp
  moreover have "apply_signing_keys_batch ko dev refuse m [Delete (''signing_key.'' @ show_nat kid) ver] kid = None"
    if "kid \<le> U32_MAX"
    using live_parse_key_show [OF that]
    by (simp only: apply_signing_keys_batch_def foldl.simps signing_apply.simps option.case live_remove_def) simp
  ultimately show ?thesis
    unfolding live_inv_def m using live_parse_key_spelling by blast
qed

theorem live_keyring_bounded_witness:
  "card (dom (foldl (apply_signing_keys_batch Some (\<lambda>v. v = ''dev'') True)
       (livekeys_from_entries Some (\<lambda>v. v = ''dev'') True
          [\<lparr>e_key = ''signing_key.7'', e_value = ''k'', e_version = Rev 1\<rparr>]) [])) \<le> 64 \<and>
   livekeys_from_entries Some (\<lambda>v. v = ''dev'') True
          [\<lparr>e_key = ''signing_key.7'', e_value = ''k'', e_version = Rev 1\<rparr>] 7 = Some ''k''"
  using live_keyring_bounded [OF refl, where ?ko = Some and ?dev = "\<lambda>v. v = ''dev''" and ?refuse = True
      and ?es = "[\<lparr>e_key = ''signing_key.7'', e_value = ''k'', e_version = Rev 1\<rparr>]" and ?bs = "[]"]
  by (simp add: MAX_SIGNING_KEYS_def livekeys_from_entries_def live_parse_key_def strip_prefix_def
      is_canonical_kid_def parse_uint_def is_ascii_digit_def digit_val_10 live_put_with_def)

text \<open>What the snapshot's records say: the updates in order, and the last cursor.\<close>

definition snap_updates :: "snap_rec list \<Rightarrow> kv_update list" where
  "snap_updates recs = List.map_filter (\<lambda>r. case r of SnapUpdate u \<Rightarrow> Some u | SnapCursor _ \<Rightarrow> None) recs"

definition snap_cursor :: "snap_rec list \<Rightarrow> version option" where
  "snap_cursor recs =
     foldl (\<lambda>c r. case r of SnapCursor v \<Rightarrow> v | SnapUpdate _ \<Rightarrow> c) None recs"

lemma snap_simps:
  "snap_updates (a @ b) = snap_updates a @ snap_updates b"
  "snap_updates (map (SnapUpdate \<circ> fst) xs) = map fst xs"
  "snap_updates [SnapCursor c] = []"
  "snap_cursor (a @ b @ [SnapCursor c]) = c"
  by (simp_all add: snap_updates_def snap_cursor_def List.map_filter_def comp_def)

lemma snap_cursor_updates: "snap_cursor (a @ map (SnapUpdate \<circ> f) xs) = snap_cursor a"
  by (induction xs rule: rev_induct) (simp_all add: snap_cursor_def)

lemma zip_all_true: "length us = length ws \<Longrightarrow> list_all (\<lambda>b. b) ws \<Longrightarrow> map fst (filter snd (zip us ws)) = us"
  by (induction us ws rule: list_induct2) auto

text \<open>
  A cursor on disk is never ahead of its data while the writes succeed. Persisting a batch
  whose writes all succeed appends exactly the batch; the cursor record follows it when the
  checkpoint succeeds, and otherwise the file keeps the older cursor, from which the batch is
  replayed.
\<close>

theorem persist_cursor_after_data:
  assumes "length (write_ok io) = length updates" and "list_all (\<lambda>b. b) (write_ok io)"
    and "checkpointed io \<noteq> Some True"
  shows "\<exists>recs'. persist_batch (Some recs) io updates cursor = Some recs' \<and>
    snap_updates recs' = snap_updates recs @ updates \<and>
    snap_cursor recs' = (if checkpointed io = None then snap_cursor recs else cursor)"
  using assms
  by (auto simp: persist_batch_def Let_def snap_simps snap_cursor_updates zip_all_true
      split: option.splits)

theorem persist_cursor_after_data_witness:
  "\<exists>recs'. persist_batch (Some []) \<lparr>write_ok = [True], checkpointed = Some False, compacted = None\<rparr>
      [Delete ''blackhole.42'' (Rev 9)] (Some (Rev 9)) = Some recs' \<and>
    snap_updates recs' = [Delete ''blackhole.42'' (Rev 9)] \<and> snap_cursor recs' = Some (Rev 9)"
  using persist_cursor_after_data [of "\<lparr>write_ok = [True], checkpointed = Some False, compacted = None\<rparr>"
      "[Delete ''blackhole.42'' (Rev 9)]" "[]" "Some (Rev 9)"]
  by (simp add: snap_updates_def List.map_filter_def)

text \<open>
  A write that fails does not stop the checkpoint: the cursor is then ahead of the data, and a
  restart from the file resumes after an update the file does not hold.
\<close>

lemma persist_cursor_ahead:
  "\<exists>recs'. persist_batch (Some []) \<lparr>write_ok = [False], checkpointed = Some False, compacted = None\<rparr>
      [Put demo_entry] (Some (Rev 1)) = Some recs' \<and>
    snap_updates recs' = [] \<and> snap_cursor recs' = Some (Rev 1)"
  by (simp add: persist_batch_def snap_updates_def snap_cursor_def List.map_filter_def)

text \<open>
  Two spellings of one id: the store still holds an entry for tenant 42, the set does not.
\<close>

lemma two_spellings_one_target:
  "deny_parse_key ''blackhole.42'' = Some (DenyTenant 42) \<and>
   deny_parse_key ''blackhole.+42'' = Some (DenyTenant 42) \<and>
   deny_parse_key ''blackhole.042'' = Some (DenyTenant 42) \<and>
   (let us = [Put demo_entry, Put (demo_entry\<lparr>e_key := ''blackhole.042''\<rparr>), Delete ''blackhole.042'' (Rev 3)]
    in kv_after Map.empty us ''blackhole.42'' = Some ''spend'' \<and>
       deny_reason_for (deny_apply_batch jr deny_new us) 42 None = None)"
  by (simp add: deny_parse_key_def strip_prefix_def parse_uint_def digit_val_10 is_ascii_digit_def
      demo_entry_def deny_apply_batch_def deny_reason_for_def deny_new_def)

definition short_turn :: "turn \<Rightarrow> bool" where
  "short_turn t = (case t of ConnectFailed \<Rightarrow> True
     | Connected se d \<Rightarrow> d < RECONNECT_BACKOFF_MAX \<and> session_end se \<noteq> Shutdown)"

lemma watch_set_backoff: "w_backoff (fst (watch_set W path se ws)) = w_backoff ws"
proof -
  have "w_backoff (foldl (\<lambda>ws (b, io). take_batch W io b ws) q bs) = w_backoff q" for q bs
    by (induction bs arbitrary: q) (simp_all add: take_batch_def Let_def split: prod.split)
  then show ?thesis
    by (auto simp: watch_set_def seed_from_scan_def watch_ended_def Let_def
        split: option.splits session_end.splits watch_end.splits)
qed

lemma watch_set_stop: "snd (watch_set W path se ws) \<Longrightarrow> session_end se = Shutdown"
  by (auto simp: watch_set_def Let_def split: if_splits session_end.splits)

lemma short_turn_step:
  "short_turn t \<Longrightarrow> w_backoff (fst (watcher_round W path t ws)) = backoff_grow (w_backoff ws)"
proof (cases t)
  case (Connected se d)
  moreover assume "short_turn t"
  ultimately show ?thesis
    using watch_set_backoff [of W path se ws] watch_set_stop [of W path se ws]
    by (cases "watch_set W path se ws") (auto simp: short_turn_def backoff_credit_def)
qed simp

text \<open>
  The reconnect delay doubles and is capped. After any run of failed connects and connections
  that lasted less than the cap, the next delay is the base doubled that many times, at most 30
  seconds; a connection that lasted the cap or longer is followed by the base delay.
\<close>

theorem reconnect_delay_schedule:
  assumes "list_all short_turn ts" and "w_backoff ws = RECONNECT_BACKOFF_BASE"
  shows "w_backoff (foldl (\<lambda>ws t. fst (watcher_round W path t ws)) ws ts) =
           min (RECONNECT_BACKOFF_BASE * 2 ^ length ts) RECONNECT_BACKOFF_MAX \<and>
         (d \<ge> RECONNECT_BACKOFF_MAX \<and> session_end se \<noteq> Shutdown \<longrightarrow>
            snd (watcher_round W path (Connected se d) any_ws) = Some RECONNECT_BACKOFF_BASE)"
proof
  show "w_backoff (foldl (\<lambda>ws t. fst (watcher_round W path t ws)) ws ts) =
      min (RECONNECT_BACKOFF_BASE * 2 ^ length ts) RECONNECT_BACKOFF_MAX"
    using assms(1)
  proof (induction ts rule: rev_induct)
    case Nil
    then show ?case by (simp add: assms(2) RECONNECT_BACKOFF_BASE_def RECONNECT_BACKOFF_MAX_def)
  next
    case (snoc t ts)
    then show ?case by (simp add: short_turn_step) (simp add: backoff_grow_def min_def)
  qed
  show "d \<ge> RECONNECT_BACKOFF_MAX \<and> session_end se \<noteq> Shutdown \<longrightarrow>
      snd (watcher_round W path (Connected se d) any_ws) = Some RECONNECT_BACKOFF_BASE"
    using watch_set_stop [of W path se any_ws]
    by (auto simp: backoff_credit_def Let_def split: prod.splits)
qed

theorem reconnect_delay_schedule_witness:
  "w_backoff (foldl (\<lambda>ws t. fst (watcher_round Allowance None t ws)) (watcher_init allowance_new)
     [ConnectFailed, ConnectFailed, ConnectFailed]) = 8000"
  using reconnect_delay_schedule [of "[ConnectFailed, ConnectFailed, ConnectFailed]" "watcher_init allowance_new" Allowance None]
  by (simp add: short_turn_def watcher_init_def RECONNECT_BACKOFF_BASE_def RECONNECT_BACKOFF_MAX_def)

end
