(* ===== verification/Virtual_Key.thy ===== *)
theory Virtual_Key
  imports Admission_Sets
begin

text \<open>
  The stateless virtual API key (\<^verbatim>\<open>key.rs\<close>): \<^verbatim>\<open>bai_v1\<close>, \<^verbatim>\<open>bai_v2\<close> and \<^verbatim>\<open>bai_v3\<close> tokens, their
  payloads, minting and verification against the config ring, the live ring and the deny set.

  Ed25519 (\<^verbatim>\<open>ed25519_dalek\<close>) and base64 (\<^verbatim>\<open>base64\<close>) are third-party: signing, strict
  verification, encoding and decoding into a buffer of a given size are the fields of \<open>crypto\<close>,
  a parameter of every definition that uses them.

  Proved: a token is accepted only with a signature, by a trusted and not distrusted key, over
  exactly the token's own bytes up to its last separator; what is accepted is what those bytes
  say; an expiry verdict is given only for an authentic token; and every minted token verifies to
  the identity it was minted for.
\<close>

record ('vk, 'sk) crypto =
  decode_slice :: "nat \<Rightarrow> string \<Rightarrow> string option"
  encode :: "string \<Rightarrow> string"
  verify_strict :: "'vk \<Rightarrow> string \<Rightarrow> string \<Rightarrow> bool"
  sign :: "'sk \<Rightarrow> string \<Rightarrow> string"

section \<open>Payloads\<close>

record virtual_key =
  tenant_id :: nat
  vpc_id :: nat
  key_id :: "nat option"

definition PREFIX_V1 :: string where "PREFIX_V1 = ''bai_v1''"
definition PREFIX_V2 :: string where "PREFIX_V2 = ''bai_v2''"
definition PREFIX_V3 :: string where "PREFIX_V3 = ''bai_v3''"
definition LEEWAY_SECS :: nat where "LEEWAY_SECS = 30"
definition SIGNED_BYTES_CAP :: nat where "SIGNED_BYTES_CAP = 64"

definition starts_with :: "string \<Rightarrow> string \<Rightarrow> bool" where
  "starts_with s p \<longleftrightarrow> take (length p) s = p"

definition is_managed_prefix :: "string \<Rightarrow> bool" where
  "is_managed_prefix token \<longleftrightarrow>
     starts_with token PREFIX_V1 \<or> starts_with token PREFIX_V2 \<or> starts_with token PREFIX_V3"

definition encode_payload_v1 :: "virtual_key \<Rightarrow> string" where
  "encode_payload_v1 vk = to_le_bytes 8 (tenant_id vk) @ to_le_bytes 8 (vpc_id vk)"

definition encode_payload_v2 :: "virtual_key \<Rightarrow> nat \<Rightarrow> string" where
  "encode_payload_v2 vk kid = to_le_bytes 8 (tenant_id vk) @ to_le_bytes 8 (vpc_id vk) @ to_le_bytes 8 kid"

definition encode_payload_v3 :: "virtual_key \<Rightarrow> nat \<Rightarrow> nat \<Rightarrow> string" where
  "encode_payload_v3 vk kid exp_at = encode_payload_v2 vk kid @ to_le_bytes 8 exp_at"

definition decode_payload_v1 :: "string \<Rightarrow> virtual_key option" where
  "decode_payload_v1 bytes =
     (if length bytes \<noteq> 16 then None
      else Some \<lparr>tenant_id = from_le_bytes (take 8 bytes), vpc_id = from_le_bytes (drop 8 bytes),
                 key_id = None\<rparr>)"

definition decode_payload_v2 :: "string \<Rightarrow> virtual_key option" where
  "decode_payload_v2 bytes =
     (if length bytes \<noteq> 24 then None
      else Some \<lparr>tenant_id = from_le_bytes (take 8 bytes),
                 vpc_id = from_le_bytes (take 8 (drop 8 bytes)),
                 key_id = Some (from_le_bytes (drop 16 bytes))\<rparr>)"

definition decode_payload_v3 :: "string \<Rightarrow> (virtual_key \<times> nat) option" where
  "decode_payload_v3 bytes =
     (if length bytes \<noteq> 32 then None
      else case decode_payload_v2 (take 24 bytes) of
             None \<Rightarrow> None
           | Some vk \<Rightarrow> Some (vk, from_le_bytes (drop 24 bytes)))"

section \<open>Verification\<close>

datatype key_error = Malformed | BadVersion | UnknownKid nat | BadSignature | Distrusted nat | Expired

fun splitn :: "nat \<Rightarrow> char \<Rightarrow> string \<Rightarrow> string list" where
  "splitn 0 c s = []"
| "splitn (Suc 0) c s = [s]"
| "splitn (Suc (Suc n)) c s =
     (case find_char c s of None \<Rightarrow> [s] | Some (a, b) \<Rightarrow> a # splitn (Suc n) c b)"

definition write_signed_bytes :: "string \<Rightarrow> nat \<Rightarrow> string \<Rightarrow> string option" where
  "write_signed_bytes prefix kid payload_b64 =
     (let out = prefix @ ''.'' @ show_nat kid @ ''.'' @ payload_b64
      in if length out \<le> SIGNED_BYTES_CAP then Some out else None)"

definition key_version :: "string \<Rightarrow> key_error + nat" where
  "key_version prefix =
     (if prefix = PREFIX_V1 then Inr 1
      else if prefix = PREFIX_V2 then Inr 2
      else if prefix = PREFIX_V3 then Inr 3
      else if starts_with prefix ''bai_v'' then Inl BadVersion
      else Inl Malformed)"

text \<open>What the payload of a verified token says, by version.\<close>

definition read_payload :: "nat \<Rightarrow> string \<Rightarrow> nat option \<Rightarrow> key_error + virtual_key" where
  "read_payload version payload now =
     (if version = 1 then (case decode_payload_v1 payload of Some vk \<Rightarrow> Inr vk | None \<Rightarrow> Inl Malformed)
      else if version = 2 then (case decode_payload_v2 payload of Some vk \<Rightarrow> Inr vk | None \<Rightarrow> Inl Malformed)
      else if version = 3 then
        (case decode_payload_v3 payload of
           None \<Rightarrow> Inl Malformed
         | Some (vk, exp_at) \<Rightarrow>
             (if (case now of None \<Rightarrow> True | Some n \<Rightarrow> n > saturating_add U64_MAX exp_at LEEWAY_SECS)
              then Inl Expired else Inr vk))
      else Inl BadVersion)"

definition verify_with ::
  "('vk, 'sk) crypto \<Rightarrow> (nat \<rightharpoonup> 'vk) \<Rightarrow> 'vk live_keys \<Rightarrow> deny_set \<Rightarrow> nat option \<Rightarrow> string \<Rightarrow>
   key_error + virtual_key" where
  "verify_with cr ring live deny now token =
     (case splitn 4 CHR ''.'' token of
        [prefix, kid_str, payload_b64, sig_b64] \<Rightarrow>
          (case key_version prefix of
             Inl e \<Rightarrow> Inl e
           | Inr version \<Rightarrow>
               if \<not> is_canonical_kid kid_str then Inl Malformed
               else case parse_uint U32_MAX kid_str of
                 None \<Rightarrow> Inl Malformed
               | Some kid \<Rightarrow>
                   (case decode_slice cr 40 payload_b64 of
                      None \<Rightarrow> Inl Malformed
                    | Some payload \<Rightarrow>
                        (case decode_slice cr 72 sig_b64 of
                           None \<Rightarrow> Inl Malformed
                         | Some signature \<Rightarrow>
                             if length signature \<noteq> 64 then Inl Malformed
                             else if kid_denied deny kid then Inl (Distrusted kid)
                             else case (case ring kid of Some vk \<Rightarrow> Some vk | None \<Rightarrow> live kid) of
                               None \<Rightarrow> Inl (UnknownKid kid)
                             | Some vk \<Rightarrow>
                                 (case write_signed_bytes prefix kid payload_b64 of
                                    None \<Rightarrow> Inl Malformed
                                  | Some signed \<Rightarrow>
                                      if \<not> verify_strict cr vk signed signature then Inl BadSignature
                                      else read_payload version payload now))))
      | _ \<Rightarrow> Inl Malformed)"

definition verify_at :: "('vk, 'sk) crypto \<Rightarrow> (nat \<rightharpoonup> 'vk) \<Rightarrow> string \<Rightarrow> nat \<Rightarrow> key_error + virtual_key" where
  "verify_at cr ring token now = verify_with cr ring Map.empty deny_new (Some now) token"

text \<open>
  A public key from a stored value: raw, or base64 in either alphabet. \<open>std\<close>, \<open>url\<close> decode,
  \<open>from_bytes\<close> reads 32 bytes as a key.
\<close>

definition verifying_key_from_value ::
  "(string \<Rightarrow> string option) \<Rightarrow> (string \<Rightarrow> string option) \<Rightarrow> (string \<Rightarrow> 'vk option) \<Rightarrow> string \<Rightarrow> 'vk option"
where
  "verifying_key_from_value std url from_bytes bytes =
     (if length bytes = 32 then from_bytes bytes
      else case from_utf8 bytes of
        None \<Rightarrow> None
      | Some s \<Rightarrow>
          (let s = str_trim s;
               key32 = (\<lambda>d. if length d = 32 then Some d else None);
               arr = (case Option.bind (std s) key32 of
                        Some a \<Rightarrow> Some a | None \<Rightarrow> Option.bind (url s) key32)
           in Option.bind arr from_bytes))"

definition DEV_PUBLIC_KEY :: string where
  "DEV_PUBLIC_KEY = map char_of
     [234, 74, 108, 99, 226, 156, 82, 10, 190, 245, 80, 123, 19, 46, 197, 249, 149, 71, 118, 174,
      190, 190, 123, 146, 66, 30, 234, 105, 20, 70, 210, 44 :: nat]"

definition is_public_dev_key :: "('vk \<Rightarrow> string) \<Rightarrow> 'vk \<Rightarrow> bool" where
  "is_public_dev_key to_bytes vk \<longleftrightarrow> to_bytes vk = DEV_PUBLIC_KEY"

section \<open>Minting\<close>

text \<open>\<^verbatim>\<open>expect\<close> on bytes that do not fit panics: no token.\<close>

definition mint_token :: "('vk, 'sk) crypto \<Rightarrow> string \<Rightarrow> string \<Rightarrow> nat \<Rightarrow> 'sk \<Rightarrow> string option" where
  "mint_token cr prefix payload kid sk =
     (let payload_b64 = encode cr payload
      in case write_signed_bytes prefix kid payload_b64 of
           None \<Rightarrow> None
         | Some signed \<Rightarrow>
             (let sig_b64 = encode cr (sign cr sk signed)
              in Some (prefix @ ''.'' @ show_nat kid @ ''.'' @ payload_b64 @ ''.'' @ sig_b64)))"

definition mint :: "('vk, 'sk) crypto \<Rightarrow> virtual_key \<Rightarrow> nat \<Rightarrow> 'sk \<Rightarrow> string option" where
  "mint cr vk kid sk = mint_token cr PREFIX_V1 (encode_payload_v1 vk) kid sk"

definition mint_v2 :: "('vk, 'sk) crypto \<Rightarrow> virtual_key \<Rightarrow> nat \<Rightarrow> nat \<Rightarrow> 'sk \<Rightarrow> string option" where
  "mint_v2 cr vk k kid sk = mint_token cr PREFIX_V2 (encode_payload_v2 vk k) kid sk"

definition mint_v3 :: "('vk, 'sk) crypto \<Rightarrow> virtual_key \<Rightarrow> nat \<Rightarrow> nat \<Rightarrow> nat \<Rightarrow> 'sk \<Rightarrow> string option" where
  "mint_v3 cr vk k exp_at kid sk = mint_token cr PREFIX_V3 (encode_payload_v3 vk k exp_at) kid sk"

section \<open>Splitting and joining\<close>

lemma find_char_SomeD: "find_char c s = Some (a, b) \<Longrightarrow> s = a @ c # b \<and> c \<notin> set a"
proof (induction s arbitrary: a)
  case (Cons d s)
  show ?case
  proof (cases "d = c")
    case False
    with Cons.prems have "find_char c s = Some (tl a, b)" and "a = d # tl a"
      by (auto simp: find_char_def split: if_splits)
    with Cons.IH [of "tl a"] False show ?thesis by (metis append_Cons set_ConsD)
  qed (use Cons.prems in \<open>auto simp: find_char_def\<close>)
qed (simp add: find_char_def)

lemma find_char_append: "c \<notin> set a \<Longrightarrow> find_char c (a @ c # b) = Some (a, b)"
  by (induction a) (auto simp: find_char_def)

lemma four_Suc: "(4 :: nat) = Suc (Suc (Suc (Suc 0)))"
  by simp

lemma splitn_join:
  "splitn 4 c s = [p, k, q, g] \<Longrightarrow> s = p @ [c] @ k @ [c] @ q @ [c] @ g"
  by (auto simp: four_Suc split: option.splits
      dest!: find_char_SomeD)

lemma splitn_4: "c \<notin> set p \<Longrightarrow> c \<notin> set k \<Longrightarrow> c \<notin> set q \<Longrightarrow>
  splitn 4 c (p @ c # k @ c # q @ c # g) = [p, k, q, g]"
  by (simp add: four_Suc find_char_append)

section \<open>Soundness\<close>

text \<open>
  C1. A key is accepted only when a trusted key signed exactly what it says. If verification
  succeeds, the token splits as signed bytes, a separator and a signature; the signature is 64 bytes
  and verifies over those bytes of the token itself under the key its kid names in the config ring,
  or in the live ring when config does not name it; the kid is spelled canonically and is not
  distrusted; the identity is the payload's, decoded for the signed version; and a \<^verbatim>\<open>bai_v3\<close> key was
  read with a clock not past its expiry plus the leeway.
\<close>

theorem verify_accepts_only_signed:
  assumes "verify_with cr ring live deny now token = Inr identity"
  shows "\<exists>prefix kid payload_b64 sig_b64 payload signature vk.
    token = (prefix @ ''.'' @ show_nat kid @ ''.'' @ payload_b64) @ ''.'' @ sig_b64 \<and>
    kid \<le> U32_MAX \<and> \<not> kid_denied deny kid \<and>
    (ring kid = Some vk \<or> ring kid = None \<and> live kid = Some vk) \<and>
    decode_slice cr 40 payload_b64 = Some payload \<and> decode_slice cr 72 sig_b64 = Some signature \<and>
    length signature = 64 \<and>
    verify_strict cr vk (prefix @ ''.'' @ show_nat kid @ ''.'' @ payload_b64) signature \<and>
    (prefix = PREFIX_V1 \<and> decode_payload_v1 payload = Some identity \<or>
     prefix = PREFIX_V2 \<and> decode_payload_v2 payload = Some identity \<or>
     prefix = PREFIX_V3 \<and> (\<exists>exp_at n. decode_payload_v3 payload = Some (identity, exp_at) \<and>
        now = Some n \<and> n \<le> saturating_add U64_MAX exp_at LEEWAY_SECS))"
proof -
  obtain prefix kid_str payload_b64 sig_b64 version kid payload signature vk signed
    where split: "splitn 4 CHR ''.'' token = [prefix, kid_str, payload_b64, sig_b64]"
      and version: "key_version prefix = Inr version"
      and canon: "is_canonical_kid kid_str" and kid: "parse_uint U32_MAX kid_str = Some kid"
      and payload: "decode_slice cr 40 payload_b64 = Some payload"
      and sig: "decode_slice cr 72 sig_b64 = Some signature" "length signature = 64"
      and deny: "\<not> kid_denied deny kid"
      and vk: "ring kid = Some vk \<or> ring kid = None \<and> live kid = Some vk"
      and signed: "write_signed_bytes prefix kid payload_b64 = Some signed"
      and ok: "verify_strict cr vk signed signature" and id: "read_payload version payload now = Inr identity"
    using assms unfolding verify_with_def
    by (auto split: list.splits sum.splits option.splits if_splits)
  have "kid_str = show_nat kid" using show_parse_uint canon kid by (simp add: is_canonical_kid_iff)
  then have token: "token = (prefix @ ''.'' @ show_nat kid @ ''.'' @ payload_b64) @ ''.'' @ sig_b64"
    using splitn_join [OF split] by simp
  have signed': "signed = prefix @ ''.'' @ show_nat kid @ ''.'' @ payload_b64"
    using signed by (auto simp: write_signed_bytes_def Let_def split: if_splits)
  have what: "prefix = PREFIX_V1 \<and> decode_payload_v1 payload = Some identity \<or>
     prefix = PREFIX_V2 \<and> decode_payload_v2 payload = Some identity \<or>
     prefix = PREFIX_V3 \<and> (\<exists>exp_at n. decode_payload_v3 payload = Some (identity, exp_at) \<and>
        now = Some n \<and> n \<le> saturating_add U64_MAX exp_at LEEWAY_SECS)"
    using version id
    by (auto simp: key_version_def read_payload_def split: if_splits option.splits)
  show ?thesis
    using token parse_uint_le [OF kid] deny vk payload sig ok [unfolded signed'] what by blast
qed

section \<open>Round trip\<close>

text \<open>
  What the crates promise for one payload and one key pair: decoding undoes encoding, the alphabet
  has no dot and 32 bytes take at most 43 characters, a signature has 64 bytes and verifies.
\<close>

definition crypto_ok :: "('vk, 'sk) crypto \<Rightarrow> 'vk \<Rightarrow> 'sk \<Rightarrow> string \<Rightarrow> bool" where
  "crypto_ok cr vk sk payload \<longleftrightarrow>
     decode_slice cr 40 (encode cr payload) = Some payload \<and>
     CHR ''.'' \<notin> set (encode cr payload) \<and> length (encode cr payload) \<le> 43 \<and>
     (\<forall>m. length (sign cr sk m) = 64 \<and>
          decode_slice cr 72 (encode cr (sign cr sk m)) = Some (sign cr sk m) \<and>
          verify_strict cr vk m (sign cr sk m))"

lemma length_show_nat: "n < 10 ^ Suc k \<Longrightarrow> length (show_nat n) \<le> Suc k"
proof (induction k arbitrary: n)
  case 0
  then show ?case by (simp add: show_nat.simps)
next
  case (Suc k)
  then have "n div 10 < 10 ^ Suc k" by (simp add: less_mult_imp_div_less mult.commute)
  from Suc.IH [OF this] show ?case by (subst show_nat.simps) auto
qed

lemma show_nat_no_dot: "CHR ''.'' \<notin> set (show_nat n)"
  using canonical_show [of n]
  by (auto simp: canonical_decimal_def list_all_iff is_ascii_digit_def dest!: bspec)

lemma mint_token_verifies:
  assumes ok: "crypto_ok cr vk sk payload" and kid: "kid \<le> U32_MAX" "\<not> kid_denied deny kid"
    and vk: "ring kid = Some vk \<or> ring kid = None \<and> live kid = Some vk"
    and p: "key_version prefix = Inr version" "length prefix = 6" "CHR ''.'' \<notin> set prefix"
  shows "\<exists>t. mint_token cr prefix payload kid sk = Some t \<and>
    verify_with cr ring live deny now t = read_payload version payload now"
proof -
  let ?signed = "prefix @ ''.'' @ show_nat kid @ ''.'' @ encode cr payload"
  let ?sig = "sign cr sk ?signed"
  have "length (show_nat kid) \<le> 10" using length_show_nat [of kid 9] kid(1) by simp
  then have w: "write_signed_bytes prefix kid (encode cr payload) = Some ?signed"
    using ok p(2) by (simp add: write_signed_bytes_def Let_def SIGNED_BYTES_CAP_def crypto_ok_def)
  have m: "mint_token cr prefix payload kid sk = Some (?signed @ ''.'' @ encode cr ?sig)"
    using w by (simp add: mint_token_def Let_def)
  have split: "splitn 4 CHR ''.'' (?signed @ ''.'' @ encode cr ?sig) =
      [prefix, show_nat kid, encode cr payload, encode cr ?sig]"
    using splitn_4 [OF p(3) show_nat_no_dot, of "encode cr payload"] ok by (simp add: crypto_ok_def)
  have "is_canonical_kid (show_nat kid)" using canonical_show by (simp add: is_canonical_kid_iff)
  then have "verify_with cr ring live deny now (?signed @ ''.'' @ encode cr ?sig) = read_payload version payload now"
    unfolding verify_with_def split
    using ok kid vk p(1) w by (auto simp: parse_uint_show crypto_ok_def)
  with m show ?thesis by blast
qed

lemma prefix_facts:
  "key_version PREFIX_V1 = Inr 1" "key_version PREFIX_V2 = Inr 2" "key_version PREFIX_V3 = Inr 3"
  "length PREFIX_V1 = 6" "length PREFIX_V2 = 6" "length PREFIX_V3 = 6"
  "CHR ''.'' \<notin> set PREFIX_V1" "CHR ''.'' \<notin> set PREFIX_V2" "CHR ''.'' \<notin> set PREFIX_V3"
  by (simp_all add: key_version_def PREFIX_V1_def PREFIX_V2_def PREFIX_V3_def)

lemma payload_roundtrip:
  assumes "tenant_id v < 2 ^ 64" and "vpc_id v < 2 ^ 64" and "k < 2 ^ 64" and "e < 2 ^ 64"
  shows "decode_payload_v1 (encode_payload_v1 v) = Some (v\<lparr>key_id := None\<rparr>)"
    and "decode_payload_v2 (encode_payload_v2 v k) = Some (v\<lparr>key_id := Some k\<rparr>)"
    and "decode_payload_v3 (encode_payload_v3 v k e) = Some (v\<lparr>key_id := Some k\<rparr>, e)"
proof -
  have le: "from_le_bytes (to_le_bytes 8 n) = n" if "n < 2 ^ 64" for n
    using that by (intro from_to_le_bytes) simp
  show 1: "decode_payload_v2 (encode_payload_v2 v k) = Some (v\<lparr>key_id := Some k\<rparr>)"
    using assms by (simp add: decode_payload_v2_def encode_payload_v2_def le)
  have l: "length (encode_payload_v2 v k) = 24" by (simp add: encode_payload_v2_def)
  show "decode_payload_v1 (encode_payload_v1 v) = Some (v\<lparr>key_id := None\<rparr>)"
    using assms by (simp add: decode_payload_v1_def encode_payload_v1_def le)
  show "decode_payload_v3 (encode_payload_v3 v k e) = Some (v\<lparr>key_id := Some k\<rparr>, e)"
    using assms 1 l by (simp add: decode_payload_v3_def encode_payload_v3_def le)
qed

text \<open>
  C32. A minted key verifies to whom it was minted for. With a trusted, not distrusted kid, each of
  the three versions mints a token (the bytes to sign always fit), and verifying it gives back
  tenant, vpc and credential; a \<^verbatim>\<open>bai_v3\<close> key does so until its expiry plus the leeway has passed
  and is then refused as expired, as it is without a clock.
\<close>

theorem minted_key_verifies:
  assumes "tenant_id v < 2 ^ 64" and "vpc_id v < 2 ^ 64" and "k < 2 ^ 64" and "e < 2 ^ 64"
    and "\<forall>payload \<in> {encode_payload_v1 v, encode_payload_v2 v k, encode_payload_v3 v k e}.
           crypto_ok cr vk sk payload"
    and "kid \<le> U32_MAX" and "\<not> kid_denied deny kid"
    and "ring kid = Some vk \<or> ring kid = None \<and> live kid = Some vk"
  shows "(\<exists>t. mint cr v kid sk = Some t \<and>
            verify_with cr ring live deny now t = Inr (v\<lparr>key_id := None\<rparr>)) \<and>
         (\<exists>t. mint_v2 cr v k kid sk = Some t \<and>
            verify_with cr ring live deny now t = Inr (v\<lparr>key_id := Some k\<rparr>)) \<and>
         (\<exists>t. mint_v3 cr v k e kid sk = Some t \<and>
            verify_with cr ring live deny now t =
              (if \<exists>n. now = Some n \<and> n \<le> saturating_add U64_MAX e LEEWAY_SECS
               then Inr (v\<lparr>key_id := Some k\<rparr>) else Inl Expired))"
proof -
  note rt = payload_roundtrip [OF assms(1-4)]
  note mt = mint_token_verifies [where ?ring = ring and ?live = live and ?now = now, OF _ assms(6-8)]
  have "\<exists>t. mint cr v kid sk = Some t \<and> verify_with cr ring live deny now t = Inr (v\<lparr>key_id := None\<rparr>)"
    using mt [OF _ prefix_facts(1,4,7), where ?cr = cr and ?sk = sk and ?payload = "encode_payload_v1 v"] assms(5) rt(1)
    by (simp add: mint_def read_payload_def)
  moreover have "\<exists>t. mint_v2 cr v k kid sk = Some t \<and>
      verify_with cr ring live deny now t = Inr (v\<lparr>key_id := Some k\<rparr>)"
    using mt [OF _ prefix_facts(2,5,8), where ?cr = cr and ?sk = sk and ?payload = "encode_payload_v2 v k"] assms(5) rt(2)
    by (simp add: mint_v2_def read_payload_def)
  moreover have "read_payload 3 (encode_payload_v3 v k e) now =
      (if \<exists>n. now = Some n \<and> n \<le> saturating_add U64_MAX e LEEWAY_SECS
       then Inr (v\<lparr>key_id := Some k\<rparr>) else Inl Expired)"
    using rt(3) by (auto simp: read_payload_def not_less split: option.splits)
  ultimately show ?thesis
    using mt [OF _ prefix_facts(3,6,9), where ?cr = cr and ?sk = sk and ?payload = "encode_payload_v3 v k e"] assms(5)
    by (simp add: mint_v3_def)
qed

text \<open>
  The reason for a refusal gives nothing away. A token is told it is expired only after its
  signature verified under a trusted key; a distrusted kid is refused before any signature is
  checked, whatever either ring holds.
\<close>

theorem refusal_order:
  fixes cr :: "('vk, 'sk) crypto"
  shows "(verify_with cr ring live deny now token = Inl Expired \<longrightarrow>
      (\<exists>prefix kid payload_b64 sig_b64 signature vk.
         token = (prefix @ ''.'' @ show_nat kid @ ''.'' @ payload_b64) @ ''.'' @ sig_b64 \<and>
         \<not> kid_denied deny kid \<and> (ring kid = Some vk \<or> ring kid = None \<and> live kid = Some vk) \<and>
         decode_slice cr 72 sig_b64 = Some signature \<and>
         verify_strict cr vk (prefix @ ''.'' @ show_nat kid @ ''.'' @ payload_b64) signature)) \<and>
   (verify_with cr ring live deny now token = Inl (Distrusted kid) \<longrightarrow>
      kid_denied deny kid \<and>
      verify_with cr ring' live' deny now' token = Inl (Distrusted kid) \<and>
      verify_with (cr\<lparr>verify_strict := \<lambda>_ _ _. True\<rparr>) ring live deny now token = Inl (Distrusted kid))"
proof
  show "verify_with cr ring live deny now token = Inl Expired \<longrightarrow>
      (\<exists>prefix kid payload_b64 sig_b64 signature vk.
         token = (prefix @ ''.'' @ show_nat kid @ ''.'' @ payload_b64) @ ''.'' @ sig_b64 \<and>
         \<not> kid_denied deny kid \<and> (ring kid = Some vk \<or> ring kid = None \<and> live kid = Some vk) \<and>
         decode_slice cr 72 sig_b64 = Some signature \<and>
         verify_strict cr vk (prefix @ ''.'' @ show_nat kid @ ''.'' @ payload_b64) signature)"
  proof
    assume "verify_with cr ring live deny now token = Inl Expired"
    then obtain prefix kid_str payload_b64 sig_b64 kid signature vk signed
      where split: "splitn 4 CHR ''.'' token = [prefix, kid_str, payload_b64, sig_b64]"
        and canon: "is_canonical_kid kid_str" and kid: "parse_uint U32_MAX kid_str = Some kid"
        and deny: "\<not> kid_denied deny kid" and sg: "decode_slice cr 72 sig_b64 = Some signature"
        and vk: "ring kid = Some vk \<or> ring kid = None \<and> live kid = Some vk"
        and signed: "write_signed_bytes prefix kid payload_b64 = Some signed"
        and ok: "verify_strict cr vk signed signature"
      unfolding verify_with_def
      by (auto simp: key_version_def split: list.splits sum.splits option.splits if_splits)
    have "kid_str = show_nat kid" using show_parse_uint canon kid by (simp add: is_canonical_kid_iff)
    then have token: "token = (prefix @ ''.'' @ show_nat kid @ ''.'' @ payload_b64) @ ''.'' @ sig_b64"
      using splitn_join [OF split] by simp
    have "signed = prefix @ ''.'' @ show_nat kid @ ''.'' @ payload_b64"
      using signed by (auto simp: write_signed_bytes_def Let_def split: if_splits)
    with token deny vk ok sg show "\<exists>prefix kid payload_b64 sig_b64 signature vk.
         token = (prefix @ ''.'' @ show_nat kid @ ''.'' @ payload_b64) @ ''.'' @ sig_b64 \<and>
         \<not> kid_denied deny kid \<and> (ring kid = Some vk \<or> ring kid = None \<and> live kid = Some vk) \<and>
         decode_slice cr 72 sig_b64 = Some signature \<and>
         verify_strict cr vk (prefix @ ''.'' @ show_nat kid @ ''.'' @ payload_b64) signature"
      by blast
  qed
  show "verify_with cr ring live deny now token = Inl (Distrusted kid) \<longrightarrow>
      kid_denied deny kid \<and>
      verify_with cr ring' live' deny now' token = Inl (Distrusted kid) \<and>
      verify_with (cr\<lparr>verify_strict := \<lambda>_ _ _. True\<rparr>) ring live deny now token = Inl (Distrusted kid)"
  proof
    assume "verify_with cr ring live deny now token = Inl (Distrusted kid)"
    then obtain prefix kid_str payload_b64 sig_b64 version payload signature
      where "splitn 4 CHR ''.'' token = [prefix, kid_str, payload_b64, sig_b64]"
        and "key_version prefix = Inr version"
        and "is_canonical_kid kid_str" and "parse_uint U32_MAX kid_str = Some kid"
        and "decode_slice cr 40 payload_b64 = Some payload"
        and "decode_slice cr 72 sig_b64 = Some signature" "length signature = 64"
        and deny: "kid_denied deny kid"
      unfolding verify_with_def
      by (auto simp: key_version_def read_payload_def
          split: list.splits sum.splits option.splits if_splits)
    then have "verify_with cr2 ring2 live2 deny now2 token = Inl (Distrusted kid)"
      if "decode_slice cr2 = decode_slice cr" for cr2 :: "('vk, 'sk) crypto" and ring2 live2 now2
      using that by (simp add: verify_with_def)
    with deny show "kid_denied deny kid \<and>
      verify_with cr ring' live' deny now' token = Inl (Distrusted kid) \<and>
      verify_with (cr\<lparr>verify_strict := \<lambda>_ _ _. True\<rparr>) ring live deny now token = Inl (Distrusted kid)"
      by simp
  qed
qed

text \<open>A signature scheme and an encoding to run the definitions on.\<close>

definition demo_sign :: "string \<Rightarrow> string \<Rightarrow> string" where
  "demo_sign k m = take 64 (k @ m @ replicate 64 CHR ''x'')"

definition demo_crypto :: "(string, string) crypto" where
  "demo_crypto = \<lparr>decode_slice = (\<lambda>_ s. Some s), encode = (\<lambda>s. s),
     verify_strict = (\<lambda>k m s. s = demo_sign k m), sign = demo_sign\<rparr>"

definition demo_key :: virtual_key where
  "demo_key = \<lparr>tenant_id = 42, vpc_id = 99, key_id = None\<rparr>"

lemma demo_payloads:
  "CHR ''.'' \<notin> set (encode_payload_v3 demo_key 7 1000)" "length (encode_payload_v3 demo_key 7 1000) = 32"
  "CHR ''.'' \<notin> set (encode_payload_v2 demo_key 7)" "length (encode_payload_v2 demo_key 7) = 24"
  "CHR ''.'' \<notin> set (encode_payload_v1 demo_key)" "length (encode_payload_v1 demo_key) = 16"
  by code_simp+

lemma length_demo_sign: "length (demo_sign k m) = 64"
  unfolding demo_sign_def length_take length_append length_replicate by linarith

lemma demo_denies: "kid_denied deny_new kid \<longleftrightarrow> False"
  by (simp add: kid_denied_def deny_new_def)

lemma demo_crypto_ok:
  "CHR ''.'' \<notin> set p \<Longrightarrow> length p \<le> 43 \<Longrightarrow> crypto_ok demo_crypto k k p"
  by (simp add: crypto_ok_def demo_crypto_def length_demo_sign)

theorem minted_key_verifies_witness:
  "\<exists>t. mint_v2 demo_crypto demo_key 7 3 ''k'' = Some t \<and>
     verify_with demo_crypto [3 \<mapsto> ''k''] Map.empty deny_new None t = Inr (demo_key\<lparr>key_id := Some 7\<rparr>)"
  using minted_key_verifies [of demo_key 7 1000 demo_crypto "''k''" "''k''" 3 deny_new "[3 \<mapsto> ''k'']" Map.empty None]
  by (simp add: demo_payloads demo_crypto_ok demo_denies) (simp add: demo_key_def)

theorem verify_accepts_only_signed_witness:
  "\<exists>t. verify_with demo_crypto [3 \<mapsto> ''k''] Map.empty deny_new None t = Inr (demo_key\<lparr>key_id := Some 7\<rparr>) \<and>
     (\<exists>a b. t = a @ ''.'' @ b \<and> demo_sign ''k'' a = b)"
proof -
  have "\<exists>t. mint_token demo_crypto PREFIX_V2 (encode_payload_v2 demo_key 7) 3 ''k'' = Some t \<and>
      verify_with demo_crypto [3 \<mapsto> ''k''] Map.empty deny_new None t = read_payload 2 (encode_payload_v2 demo_key 7) None"
    by (rule mint_token_verifies [of _ "''k''"])
       (simp_all add: demo_payloads demo_crypto_ok demo_denies prefix_facts)
  then obtain t where t: "verify_with demo_crypto [3 \<mapsto> ''k''] Map.empty deny_new None t = Inr (demo_key\<lparr>key_id := Some 7\<rparr>)"
    using payload_roundtrip(2) [of demo_key 7 0] by (auto simp: read_payload_def demo_key_def)
  from verify_accepts_only_signed [OF t] obtain prefix kid payload_b64 sig_b64 signature vk
    where "t = (prefix @ ''.'' @ show_nat kid @ ''.'' @ payload_b64) @ ''.'' @ sig_b64"
      and "[3 \<mapsto> ''k''] kid = Some vk" and "decode_slice demo_crypto 72 sig_b64 = Some signature"
      and "verify_strict demo_crypto vk (prefix @ ''.'' @ show_nat kid @ ''.'' @ payload_b64) signature"
    by auto
  then have "t = (prefix @ ''.'' @ show_nat kid @ ''.'' @ payload_b64) @ ''.'' @ sig_b64 \<and>
      demo_sign ''k'' (prefix @ ''.'' @ show_nat kid @ ''.'' @ payload_b64) = sig_b64"
    by (auto simp: demo_crypto_def split: if_splits)
  with t show ?thesis by blast
qed

theorem refusal_order_witness:
  "\<exists>t. verify_with demo_crypto [3 \<mapsto> ''k''] Map.empty deny_new None t = Inl Expired \<and>
     (\<exists>a b. t = a @ ''.'' @ b \<and> demo_sign ''k'' a = b)"
proof -
  have "\<exists>t. mint_token demo_crypto PREFIX_V3 (encode_payload_v3 demo_key 7 1000) 3 ''k'' = Some t \<and>
      verify_with demo_crypto [3 \<mapsto> ''k''] Map.empty deny_new None t =
      read_payload 3 (encode_payload_v3 demo_key 7 1000) None"
    by (rule mint_token_verifies [of _ "''k''"])
       (simp_all add: demo_payloads demo_crypto_ok demo_denies prefix_facts)
  then obtain t where t: "verify_with demo_crypto [3 \<mapsto> ''k''] Map.empty deny_new None t = Inl Expired"
    using payload_roundtrip(3) [of demo_key 7 1000] by (auto simp: read_payload_def demo_key_def)
  with refusal_order [where ?cr = demo_crypto and ?ring = "[3 \<mapsto> ''k'']" and ?live = Map.empty
      and ?deny = deny_new and ?now = None and ?token = t]
  obtain prefix kid payload_b64 sig_b64 signature vk
    where "t = (prefix @ ''.'' @ show_nat kid @ ''.'' @ payload_b64) @ ''.'' @ sig_b64"
      and "[3 \<mapsto> ''k''] kid = Some vk" and "decode_slice demo_crypto 72 sig_b64 = Some signature"
      and "verify_strict demo_crypto vk (prefix @ ''.'' @ show_nat kid @ ''.'' @ payload_b64) signature"
    by auto
  then have "t = (prefix @ ''.'' @ show_nat kid @ ''.'' @ payload_b64) @ ''.'' @ sig_b64 \<and>
      demo_sign ''k'' (prefix @ ''.'' @ show_nat kid @ ''.'' @ payload_b64) = sig_b64"
    by (auto simp: demo_crypto_def split: if_splits)
  with t show ?thesis by blast
qed

end
