(* ===== verification/Gateway_Retry.thy ===== *)
theory Gateway_Retry
  imports Prelude
begin

text \<open>
  Whether a failed attempt at a provider is retried, and how (\<^verbatim>\<open>retry.rs\<close>): one decision for every
  hook. The types carry the source's fields; \<open>decide\<close> and its three parts \<open>decide_connect\<close>,
  \<open>answered\<close> and \<open>connection\<close> follow the source's order of tests.

  Proved: a body the provider may already have is never sent again unless the provider proved it
  unprocessed, nothing is resent once the client is gone or has part of an answer; whoever resends
  holds the body; a throttle never becomes spend at another vendor; a refused stream is resent on
  its leg once, drains apart.
\<close>

datatype retry = SameLeg | NextCandidate

datatype relay_retry = RelayCandidate nat | RelayKey nat nat | RelayReset nat

record lost =
  downstream :: bool
  responded :: bool
  delivered :: bool
  refused :: bool
  goaway :: bool
  reset_unread :: bool
  reused :: bool
  refused_resent :: bool
  h2_body_unsent :: bool
  pingora_retries :: bool

record walk =
  orig :: "nat option"
  next_cand :: bool
  next_addr :: bool

record parent = reset_spent :: bool

record body =
  replayable :: bool
  truncated :: bool
  body_parent :: "parent option"

datatype failure =
    FConnect bool
  | FStatus nat bool "nat option"
  | FLost lost

record failed =
  f_failure :: failure
  f_walk :: "walk option"
  f_body :: body

record stand =
  key_walk_unreplayable :: bool
  failover_unreplayable :: bool

datatype decision = Stand stand | Resend retry | Rerun relay_retry

definition stand_default :: stand where
  "stand_default = \<lparr>key_walk_unreplayable = False, failover_unreplayable = False\<rparr>"

definition STAND :: decision where "STAND = Stand stand_default"

definition may_resend :: "lost \<Rightarrow> bool" where
  "may_resend l \<longleftrightarrow>
     (let unproven = delivered l \<and> \<not> refused l \<and> \<not> reset_unread l
      in \<not> downstream l \<and> \<not> responded l \<and> \<not> unproven)"

definition drain :: "lost \<Rightarrow> bool" where
  "drain l \<longleftrightarrow> refused l \<and> reused l \<and> goaway l"

definition resends_refusal :: "lost \<Rightarrow> bool" where
  "resends_refusal l \<longleftrightarrow> refused l \<and> (drain l \<or> \<not> refused_resent l)"

definition spends_resend :: "lost \<Rightarrow> bool" where
  "spends_resend l \<longleftrightarrow> refused l \<and> \<not> drain l"

definition is_pool_key_failure :: "nat \<Rightarrow> bool" where
  "is_pool_key_failure status \<longleftrightarrow> status = 401"

definition is_candidate_refusal :: "nat \<Rightarrow> bool" where
  "is_candidate_refusal status \<longleftrightarrow> 401 \<le> status \<and> status \<le> 403"

definition decide_connect :: "walk option \<Rightarrow> bool \<Rightarrow> decision" where
  "decide_connect w retries_left =
     (case w of
        Some w \<Rightarrow> (if next_addr w then Resend SameLeg
                   else if next_cand w then Resend NextCandidate else STAND)
      | None \<Rightarrow> (if retries_left then Resend SameLeg else STAND))"

text \<open>The failover half of \<^verbatim>\<open>answered\<close>, from the test for a walk on.\<close>

definition answered_walk :: "nat \<Rightarrow> bool \<Rightarrow> walk option \<Rightarrow> body \<Rightarrow> nat option \<Rightarrow> stand \<Rightarrow> decision" where
  "answered_walk status managed w b rerun_at st =
     (case w of
        None \<Rightarrow> Stand st
      | Some w \<Rightarrow>
          (let refusal = managed \<and> is_candidate_refusal status
           in if (status < 500 \<and> \<not> refusal) \<or> \<not> next_cand w then Stand st
              else if \<not> replayable b then
                (case rerun_at of
                   Some o' \<Rightarrow> Rerun (RelayCandidate o')
                 | None \<Rightarrow> Stand (st\<lparr>failover_unreplayable := True\<rparr>))
              else Resend NextCandidate))"

definition answered :: "nat \<Rightarrow> bool \<Rightarrow> nat option \<Rightarrow> walk option \<Rightarrow> body \<Rightarrow> decision" where
  "answered status managed next_key w b =
     (let rerun_at = (if body_parent b \<noteq> None then Option.bind w orig else None)
      in if managed \<and> (status = 429 \<or> is_pool_key_failure status) then
           (case next_key of
              Some key \<Rightarrow>
                (if replayable b then Resend SameLeg
                 else case rerun_at of
                   Some candidate \<Rightarrow> Rerun (RelayKey candidate key)
                 | None \<Rightarrow>
                     (let st = stand_default\<lparr>key_walk_unreplayable := True\<rparr>
                      in if status = 429 then Stand st else answered_walk status managed w b rerun_at st))
            | None \<Rightarrow>
                (if status = 429 then Stand stand_default
                 else answered_walk status managed w b rerun_at stand_default))
         else answered_walk status managed w b rerun_at stand_default)"

definition connection :: "lost \<Rightarrow> walk option \<Rightarrow> body \<Rightarrow> decision" where
  "connection l w b =
     (if \<not> may_resend l then STAND
      else let walk = Option.bind w (\<lambda>w. map_option (\<lambda>o'. (o', next_cand w)) (orig w)) in
        case body_parent b of
          Some parent \<Rightarrow>
            (case walk of
               Some (o', nx) \<Rightarrow>
                 (if (reused l \<or> refused l) \<and> \<not> reset_spent parent then Rerun (RelayReset o')
                  else if nx then Rerun (RelayCandidate o') else STAND)
             | None \<Rightarrow> STAND)
        | None \<Rightarrow>
            if truncated b then STAND
            else (case walk of
                    Some (_, nx) \<Rightarrow>
                      (if resends_refusal l then Resend SameLeg
                       else if reused l \<and> \<not> refused l then Resend SameLeg
                       else if nx then Resend NextCandidate else STAND)
                  | None \<Rightarrow>
                      (if resends_refusal l then Resend SameLeg
                       else if refused l then STAND
                       else if h2_body_unsent l \<and> reused l then Resend SameLeg
                       else if h2_body_unsent l then STAND
                       else if pingora_retries l then Resend SameLeg else STAND)))"

definition decide :: "failed \<Rightarrow> decision" where
  "decide f =
     (case f_failure f of
        FConnect retries_left \<Rightarrow> decide_connect (f_walk f) retries_left
      | FStatus status managed next_key \<Rightarrow> answered status managed next_key (f_walk f) (f_body f)
      | FLost l \<Rightarrow> connection l (f_walk f) (f_body f))"

definition retried :: "decision \<Rightarrow> bool" where
  "retried d \<longleftrightarrow> (case d of Stand _ \<Rightarrow> False | _ \<Rightarrow> True)"

definition changes_vendor :: "decision \<Rightarrow> bool" where
  "changes_vendor d \<longleftrightarrow> d = Resend NextCandidate \<or> (\<exists>c. d = Rerun (RelayCandidate c))"

lemmas retry_defs = decide_def decide_connect_def answered_def answered_walk_def connection_def
  may_resend_def STAND_def retried_def Let_def

text \<open>A refused stream on a fresh connection, a walk with a next candidate, a small body.\<close>

definition demo_lost :: lost where
  "demo_lost = \<lparr>downstream = False, responded = False, delivered = True, refused = True, goaway = False,
     reset_unread = False, reused = False, refused_resent = False, h2_body_unsent = False,
     pingora_retries = False\<rparr>"

definition demo_walk :: walk where
  "demo_walk = \<lparr>orig = Some 0, next_cand = True, next_addr = False\<rparr>"

definition demo_body :: body where
  "demo_body = \<lparr>replayable = True, truncated = False, body_parent = None\<rparr>"

definition demo_failed :: "failure \<Rightarrow> failed" where
  "demo_failed fl = \<lparr>f_failure = fl, f_walk = Some demo_walk, f_body = demo_body\<rparr>"

lemmas demo_defs = demo_failed_def demo_lost_def demo_walk_def demo_body_def

lemma demo_decisions:
  "decide (demo_failed (FLost demo_lost)) = Resend SameLeg"
  "decide (demo_failed (FStatus 503 False None)) = Resend NextCandidate"
  by (simp_all add: retry_defs demo_defs resends_refusal_def is_pool_key_failure_def)

text \<open>
  C5. A body the provider may have is sent again only on its proof. When a connection that was up fails and the
  attempt is retried in any form, the client is still there and has received nothing, and either
  the whole body cannot have been delivered or the provider proved it unprocessed: it refused the
  stream, or reset the connection with the request unread.
\<close>

theorem no_blind_resend:
  assumes "f_failure f = FLost l" and "retried (decide f)"
  shows "\<not> downstream l \<and> \<not> responded l \<and> (delivered l \<longrightarrow> refused l \<or> reset_unread l)"
  using assms by (auto simp: retry_defs split: if_splits)

theorem no_blind_resend_witness:
  "retried (decide (demo_failed (FLost demo_lost))) \<and> delivered demo_lost \<and> refused demo_lost"
  using no_blind_resend [of "demo_failed (FLost demo_lost)" demo_lost] demo_decisions
  by (simp add: demo_defs retried_def)

text \<open>
  Who retries holds the body. An answered or lost attempt is resent by the proxy only when it
  still holds the whole body (replayable after a status, not truncated after a lost connection and
  no parent in charge); it is re-run by a parent only when there is one and the failing candidate
  has a catalog index; and a candidate is given up only when the walk has a next one.
\<close>

theorem resend_holds_the_body:
  "(decide f = Resend r \<longrightarrow>
      (case f_failure f of
         FConnect _ \<Rightarrow> True
       | FStatus _ _ _ \<Rightarrow> replayable (f_body f)
       | FLost _ \<Rightarrow> \<not> truncated (f_body f) \<and> body_parent (f_body f) = None)) \<and>
   (decide f = Rerun rr \<longrightarrow>
      body_parent (f_body f) \<noteq> None \<and>
      (\<exists>w c. f_walk f = Some w \<and> orig w = Some c \<and>
         rr \<in> {RelayCandidate c, RelayReset c} \<union> {RelayKey c k | k. True})) \<and>
   (changes_vendor (decide f) \<longrightarrow> (\<exists>w. f_walk f = Some w \<and> next_cand w))"
proof (intro conjI)
  show "decide f = Resend r \<longrightarrow>
      (case f_failure f of
         FConnect _ \<Rightarrow> True
       | FStatus _ _ _ \<Rightarrow> replayable (f_body f)
       | FLost _ \<Rightarrow> \<not> truncated (f_body f) \<and> body_parent (f_body f) = None)"
    by (cases "f_failure f") (auto simp: retry_defs split: if_splits option.splits)
  show "decide f = Rerun rr \<longrightarrow>
      body_parent (f_body f) \<noteq> None \<and>
      (\<exists>w c. f_walk f = Some w \<and> orig w = Some c \<and>
         rr \<in> {RelayCandidate c, RelayReset c} \<union> {RelayKey c k | k. True})"
    by (cases "f_failure f"; cases "f_walk f")
       (auto simp: retry_defs bind_eq_Some_conv split: if_splits option.splits)
  show "changes_vendor (decide f) \<longrightarrow> (\<exists>w. f_walk f = Some w \<and> next_cand w)"
    by (cases "f_failure f"; cases "f_walk f")
       (auto simp: retry_defs changes_vendor_def bind_eq_Some_conv split: if_splits option.splits)
qed

theorem resend_holds_the_body_witness:
  "decide (demo_failed (FStatus 503 False None)) = Resend NextCandidate \<and>
   replayable (f_body (demo_failed (FStatus 503 False None)))"
  using resend_holds_the_body [of "demo_failed (FStatus 503 False None)" NextCandidate] demo_decisions
  by (simp add: demo_failed_def)

text \<open>
  A throttle is never spent elsewhere. A 429 never moves the request to another candidate, and
  no status below 500 does but a managed 401, 402 or 403; nothing but those and a 5xx, a failed
  connect or a lost connection ever does.
\<close>

theorem throttle_stays_home:
  assumes "f_failure f = FStatus status managed next_key" and "changes_vendor (decide f)"
  shows "status \<noteq> 429 \<and> (status < 500 \<longrightarrow> managed \<and> status \<in> {401, 402, 403})"
  using assms
  by (cases "f_walk f")
     (auto simp: retry_defs changes_vendor_def is_candidate_refusal_def is_pool_key_failure_def
       split: if_splits option.splits)

theorem throttle_stays_home_witness:
  "changes_vendor (decide (demo_failed (FStatus 503 False None))) \<and> (503 :: nat) \<noteq> 429"
  using throttle_stays_home [of "demo_failed (FStatus 503 False None)" 503 False None] demo_decisions
  by (simp add: demo_failed_def changes_vendor_def)

text \<open>
  A leg's failures in a row, each resent on the leg: the flag of the one refused-stream resend is
  set by the first that spends it and seen by the next.
\<close>

inductive leg_run :: "bool \<Rightarrow> lost list \<Rightarrow> bool" where
  leg_start: "leg_run False []"
| leg_step: "leg_run spent ls \<Longrightarrow> refused_resent l = spent \<Longrightarrow> connection l w b = Resend SameLeg \<Longrightarrow>
     leg_run (spent \<or> spends_resend l) (ls @ [l])"

text \<open>
  A refused stream is resent on its leg once. In any run of failures resent on one leg, at most
  one is a refusal that is not a drain of a pooled connection; and a parent re-runs a candidate on
  a fresh connection only when it has not done so before.
\<close>

theorem one_refusal_resend:
  assumes "leg_run spent ls"
  shows "length (filter spends_resend ls) \<le> 1 \<and>
         (connection l w b = Rerun (RelayReset c) \<longrightarrow>
            (\<exists>p. body_parent b = Some p \<and> \<not> reset_spent p))"
proof
  have "length (filter spends_resend ls) = (if spent then 1 else 0)"
    using assms
  proof (induction rule: leg_run.induct)
    case (leg_step spent ls l w b)
    then have "spends_resend l \<longrightarrow> \<not> spent"
      by (auto simp: connection_def spends_resend_def resends_refusal_def STAND_def Let_def
          split: if_splits option.splits)
    with leg_step show ?case by auto
  qed simp
  then show "length (filter spends_resend ls) \<le> 1" by simp
  show "connection l w b = Rerun (RelayReset c) \<longrightarrow> (\<exists>p. body_parent b = Some p \<and> \<not> reset_spent p)"
    by (auto simp: connection_def STAND_def Let_def split: if_splits option.splits)
qed

theorem one_refusal_resend_witness:
  "leg_run True [demo_lost] \<and> length (filter spends_resend [demo_lost]) = 1"
proof -
  have "connection demo_lost (Some demo_walk) demo_body = Resend SameLeg"
    using demo_decisions(1) by (simp add: decide_def demo_failed_def)
  from leg_step [OF leg_start _ this] have "leg_run (spends_resend demo_lost) [demo_lost]"
    by (simp add: demo_lost_def)
  moreover have "spends_resend demo_lost" by (simp add: spends_resend_def drain_def demo_lost_def)
  ultimately have r: "leg_run True [demo_lost]" by simp
  from one_refusal_resend [OF r] r \<open>spends_resend demo_lost\<close> show ?thesis by simp
qed

end
