(* ===== verification/Session_Pin.thy ===== *)
theory Session_Pin
  imports Prelude "HOL-Library.Word" "HOL-Library.Product_Lexorder"
begin

unbundle bit_operations_syntax

text \<open>
  The order in which a managed request tries the candidates of its catalog row (\<^verbatim>\<open>pin.rs\<close>): a
  rendezvous hash over the row's leading first-party hosts, the rest in catalog order, unusable
  ones last. A walk is its list of catalog indices; a candidate is its provider's name and the id
  prefixes the provider claims (\<^verbatim>\<open>model_id_match\<close>, none for an aggregator).

  Proved: the order is a permutation of the walk (no candidate is lost, none is tried twice); it is
  the stable sort by (unusable, past the lead, hash), so an unusable host never precedes a usable
  one, an aggregator never a usable first-party host of the lead, and removing a host or losing
  its usability keeps the relative order of all the others.
\<close>

record candidate =
  c_name :: string
  c_id_match :: "string list"

record model_route =
  r_model :: string
  r_candidates :: "candidate list"

definition mix :: "64 word \<Rightarrow> 64 word" where
  "mix z =
     (let z = z + 0x9E3779B97F4A7C15;
          z = (z XOR drop_bit 30 z) * 0xBF58476D1CE4E5B9;
          z = (z XOR drop_bit 27 z) * 0x94D049BB133111EB
      in z XOR drop_bit 31 z)"

definition affinity :: "64 word \<Rightarrow> 64 word \<Rightarrow> 64 word option \<Rightarrow> 64 word" where
  "affinity tenant_id vpc_id key_id =
     (let h = mix (tenant_id XOR 0x243F6A8885A308D3);
          h = mix (h XOR vpc_id)
      in mix (h XOR (case key_id of None \<Rightarrow> 0 | Some k \<Rightarrow> k XOR 0x13198A2E03707344)))"

definition name_hash :: "string \<Rightarrow> 64 word" where
  "name_hash name = foldl (\<lambda>h b. (h XOR of_char b) * 0x00000100000001B3) 0xCBF29CE484222325 name"

definition pin_key :: "64 word \<Rightarrow> string \<Rightarrow> 64 word" where
  "pin_key aff model = mix (aff XOR name_hash model * 0xA0761D6478BD642F)"

definition first_party :: "model_route \<Rightarrow> nat \<Rightarrow> bool" where
  "first_party route orig \<longleftrightarrow>
     orig < length (r_candidates route) \<and> c_id_match (r_candidates route ! orig) \<noteq> []"

definition pin_hash :: "model_route \<Rightarrow> 64 word \<Rightarrow> bool \<Rightarrow> nat \<Rightarrow> 64 word" where
  "pin_hash route key rest orig =
     (if orig < length (r_candidates route) \<and> \<not> rest
      then NOT (mix (key XOR name_hash (c_name (r_candidates route ! orig)))) else 0)"

definition preferred :: "nat list \<Rightarrow> model_route \<Rightarrow> 64 word \<Rightarrow> (nat \<Rightarrow> bool) \<Rightarrow> nat list" where
  "preferred walk route key usable =
     (let lead = length (takeWhile (first_party route) walk);
          keyed = map (\<lambda>(slot, orig).
                    let rest = slot \<ge> lead
                    in (\<not> usable orig, rest, pin_hash route key rest orig, slot, orig))
                  (enumerate 0 walk)
      in map (\<lambda>(_, _, _, _, orig). orig) (sort keyed))"

text \<open>\<open>catalog\<close>: the model names of the rows, which are sorted, so the binary search is membership.\<close>

definition pin_order :: "string list \<Rightarrow> nat list \<Rightarrow> model_route \<Rightarrow> 64 word \<Rightarrow> 8 word \<Rightarrow> nat list option" where
  "pin_order catalog walk route aff dispatchable =
     (if walk = [] then None
      else if r_model route \<notin> set catalog then None
      else Some (preferred walk route (pin_key aff (r_model route)) (\<lambda>orig. bit dispatchable orig)))"

section \<open>The order is a stable sort\<close>

lemma insort_slot:
  assumes "\<And>t. t \<in> set ts \<Longrightarrow> n < fst (snd t) \<and> fst t = g (snd (snd t))"
  shows "map (\<lambda>(_, _, x). x) (insort (g x, n, x) ts) = insort_key g x (map (\<lambda>(_, _, x). x) ts)"
  using assms
proof (induction ts)
  case (Cons t ts)
  obtain k i y where t: "t = (k, i, y)" by (cases t)
  with Cons.prems [of t] have "n < i" "k = g y" by auto
  then have "((g x, n, x) \<le> t) = (g x \<le> g y)" by (auto simp: t)
  with Cons t show ?case by (auto simp: \<open>k = g y\<close>)
qed simp

lemma sort_slots:
  "map (\<lambda>(_, _, x). x) (sort (map (\<lambda>(i, x). (g x, i, x)) (enumerate n xs))) = sort_key g xs"
proof (induction xs arbitrary: n)
  case (Cons x xs)
  let ?ts = "sort (map (\<lambda>(i, x). (g x, i, x)) (enumerate (Suc n) xs))"
  have "n < fst (snd t) \<and> fst t = g (snd (snd t))" if "t \<in> set ?ts" for t
    using that by (auto simp: in_set_enumerate_eq)
  then have "map (\<lambda>(_, _, x). x) (insort (g x, n, x) ?ts) = insort_key g x (map (\<lambda>(_, _, x). x) ?ts)"
    by (rule insort_slot)
  with Cons.IH [of "Suc n"] show ?case by simp
qed simp

lemma sort_map_iso:
  assumes "\<And>a b. h a \<le> h b \<longleftrightarrow> a \<le> b"
  shows "sort (map h xs) = map h (sort xs)"
proof -
  have "insort (h x) (map h ys) = map h (insort x ys)" for x ys
    by (induction ys) (auto simp: assms)
  then show ?thesis by (induction xs) simp_all
qed

lemma sort_key_eq:
  assumes "\<And>x. x \<in> set xs \<Longrightarrow> f x = g x"
  shows "sort_key f xs = sort_key g xs"
proof -
  have "insort_key f x ys = insort_key g x ys" if "\<And>y. y \<in> insert x (set ys) \<Longrightarrow> f y = g y" for x ys
    using that by (induction ys) auto
  then have "sort_key f (x # xs) = sort_key g (x # xs)"
    if "sort_key f xs = sort_key g xs" "\<And>y. y \<in> insert x (set xs) \<Longrightarrow> f y = g y" for x xs
    using that by (metis set_sort sort_key_simps(2))
  then show ?thesis using assms by (induction xs) auto
qed

definition pin_rank :: "nat list \<Rightarrow> model_route \<Rightarrow> 64 word \<Rightarrow> (nat \<Rightarrow> bool) \<Rightarrow> nat \<Rightarrow> bool \<times> bool \<times> 64 word" where
  "pin_rank lead route key usable orig =
     (\<not> usable orig, orig \<notin> set lead, pin_hash route key (orig \<notin> set lead) orig)"

lemma lead_slot:
  assumes "distinct walk" and "(slot, orig) \<in> set (enumerate 0 walk)"
  shows "slot \<ge> length (takeWhile P walk) \<longleftrightarrow> orig \<notin> set (takeWhile P walk)"
proof -
  have slot: "slot < length walk" "walk ! slot = orig" using assms(2) by (auto simp: in_set_enumerate_eq)
  have t: "takeWhile P walk = take (length (takeWhile P walk)) walk" by (rule takeWhile_eq_take)
  have "orig \<in> set (take n walk) \<longleftrightarrow> slot < n" for n
    using slot assms(1) by (auto simp: in_set_conv_nth nth_eq_iff_index_eq)
  then show ?thesis by (metis t linorder_not_le)
qed

lemma preferred_sort_key:
  assumes "distinct walk"
  shows "preferred walk route key usable =
    sort_key (pin_rank (takeWhile (first_party route) walk) route key usable) walk"
proof -
  let ?lead = "takeWhile (first_party route) walk"
  let ?g = "pin_rank ?lead route key usable"
  let ?h = "\<lambda>((a, b, c), i, x). (a, b, c, i, x) :: bool \<times> bool \<times> 64 word \<times> nat \<times> nat"
  have "map (\<lambda>(slot, orig). let rest = slot \<ge> length ?lead
      in (\<not> usable orig, rest, pin_hash route key rest orig, slot, orig)) (enumerate 0 walk) =
    map ?h (map (\<lambda>(i, x). (?g x, i, x)) (enumerate 0 walk))"
    using lead_slot [OF assms] by (auto simp: pin_rank_def Let_def)
  moreover have "sort (map ?h ts) = map ?h (sort ts)" for ts
    by (rule sort_map_iso) auto
  moreover have "map (\<lambda>(_, _, _, _, x). x) (map ?h ts) = map (\<lambda>(_, _, x). x) ts" for ts
    by auto
  ultimately show ?thesis
    unfolding preferred_def Let_def by (simp only: sort_slots)
qed

text \<open>
  Pinning reorders and never drops. The pinned walk holds exactly the candidates of the walk,
  each once; no unusable candidate precedes a usable one, and among the usable no host from past
  the lead precedes a lead host.
\<close>

theorem pin_is_permutation:
  assumes "distinct walk" and "pin_order catalog walk route aff dispatchable = Some out"
  shows "distinct out \<and> set out = set walk \<and> length out = length walk \<and>
    (\<forall>i j. i < j \<and> j < length out \<longrightarrow>
       (bit dispatchable (out ! j) \<longrightarrow> bit dispatchable (out ! i)) \<and>
       (bit dispatchable (out ! j) \<and> out ! j \<in> set (takeWhile (first_party route) walk) \<longrightarrow>
          out ! i \<in> set (takeWhile (first_party route) walk)))"
proof -
  let ?lead = "takeWhile (first_party route) walk"
  let ?g = "pin_rank ?lead route (pin_key aff (r_model route)) (bit dispatchable)"
  have out: "out = sort_key ?g walk"
    using assms by (auto simp: pin_order_def preferred_sort_key split: if_splits)
  have "?g (out ! i) \<le> ?g (out ! j)" if "i < j" "j < length out" for i j
    using that sorted_sort_key [of ?g walk] by (auto simp: out sorted_iff_nth_mono_less)
  then show ?thesis
    using assms(1) by (auto simp: out pin_rank_def) 
qed

text \<open>
  C40. Only the callers of a removed host move. On a walk without repeats, removing any candidates by a filter leaves the others
  in the same relative order, when no first-party host stands behind the lead; and marking
  candidates unusable does so always. So a caller whose first choice stays keeps it.
\<close>

theorem pin_stable_under_removal:
  assumes "distinct walk"
  shows "((\<forall>x \<in> set (dropWhile (first_party route) walk). \<not> first_party route x) \<longrightarrow>
           preferred (filter P walk) route key usable = filter P (preferred walk route key usable)) \<and>
         ((\<forall>x. P x \<longrightarrow> usable' x = usable x) \<longrightarrow>
           filter P (preferred walk route key usable') = filter P (preferred walk route key usable))"
proof (intro conjI impI)
  let ?lead = "takeWhile (first_party route) walk"
  show "filter P (preferred walk route key usable') = filter P (preferred walk route key usable)"
    if "\<forall>x. P x \<longrightarrow> usable' x = usable x"
  proof -
    have "sort_key (pin_rank ?lead route key usable') (filter P walk) =
        sort_key (pin_rank ?lead route key usable) (filter P walk)"
      using that by (intro sort_key_eq) (auto simp: pin_rank_def)
    then show ?thesis by (simp only: preferred_sort_key [OF assms] filter_sort)
  qed
  show "preferred (filter P walk) route key usable = filter P (preferred walk route key usable)"
    if rest: "\<forall>x \<in> set (dropWhile (first_party route) walk). \<not> first_party route x"
  proof -
    have "takeWhile (first_party route) (filter P walk) = filter P ?lead"
    proof -
      have "filter P walk = filter P ?lead @ filter P (dropWhile (first_party route) walk)"
        by (metis filter_append takeWhile_dropWhile_id)
      moreover have "takeWhile (first_party route) ys = []" if "\<forall>y \<in> set ys. \<not> first_party route y" for ys
        using that by (cases ys) auto
      then have "takeWhile (first_party route) (filter P (dropWhile (first_party route) walk)) = []"
        using rest by simp
      moreover have "\<forall>x \<in> set (filter P ?lead). first_party route x" by (auto dest: set_takeWhileD)
      ultimately show ?thesis by (metis append_Nil2 takeWhile_append2)
    qed
    then have "sort_key (pin_rank (takeWhile (first_party route) (filter P walk)) route key usable) (filter P walk) =
        sort_key (pin_rank ?lead route key usable) (filter P walk)"
      by (intro sort_key_eq) (auto simp: pin_rank_def)
    then show ?thesis
      using assms by (simp only: preferred_sort_key [OF assms] preferred_sort_key [OF distinct_filter [OF assms]] filter_sort)
  qed
qed

text \<open>Anthropic, a cloud that resells it, and an aggregator.\<close>

definition demo_route :: model_route where
  "demo_route = \<lparr>r_model = ''claude'', r_candidates =
     [\<lparr>c_name = ''anthropic'', c_id_match = [''claude'']\<rparr>, \<lparr>c_name = ''bedrock'', c_id_match = [''anthropic.'']\<rparr>,
      \<lparr>c_name = ''openrouter'', c_id_match = []\<rparr>]\<rparr>"

theorem pin_is_permutation_witness:
  "distinct [0, 1, 2 :: nat] \<and>
   (\<exists>out. pin_order [''claude''] [0, 1, 2] demo_route 5 7 = Some out \<and> set out = {0, 1, 2})"
proof -
  obtain out where out: "pin_order [''claude''] [0, 1, 2] demo_route 5 7 = Some out"
    by (simp add: pin_order_def demo_route_def)
  with pin_is_permutation [OF _ out] show ?thesis by auto
qed

theorem pin_stable_under_removal_witness:
  "preferred (filter (\<lambda>x. x \<noteq> 0) [0, 1, 2]) demo_route 9 (\<lambda>_. True) =
   filter (\<lambda>x. x \<noteq> 0) (preferred [0, 1, 2] demo_route 9 (\<lambda>_. True))"
proof -
  have "\<forall>x \<in> set (dropWhile (first_party demo_route) [0, 1, 2]). \<not> first_party demo_route x"
    by (simp add: first_party_def demo_route_def)
  moreover have "distinct [0, 1, 2 :: nat]" by simp
  ultimately show ?thesis using pin_stable_under_removal by blast
qed

end
