(* ===== verification/Job_Kernel.thy ===== *)
theory Job_Kernel
  imports BTree_Map
begin

text \<open>
  The decision logic of the agent's job notify (\<^verbatim>\<open>tools/job_notify/kernel.rs\<close>): one pure state
  machine per session, fed events about its kept jobs, its callbacks and its reconciles, returning
  the actions to perform. The types have the source's constructors and fields; \<open>kernel_step\<close> is
  \<^verbatim>\<open>Kernel::step\<close>, \<open>on_callback\<close>, \<open>release\<close>, \<open>on_tick\<close>, \<open>maybe_start\<close> and \<open>on_listed\<close> its
  methods. A \<^verbatim>\<open>BTreeMap\<close> is a key-sorted association list. Times are unbounded numbers of
  milliseconds; the source's are \<^verbatim>\<open>u64\<close> on a monotonic clock, to which it adds at most 30 seconds.

  Proved: every callback is answered at most once, and is answered, still waiting, or closed by
  its sender, at most sixteen wait and none past its limit once time is reported; one reconcile
  runs at a time, spaced from the last, and one that answers a callback began after it arrived; a
  stream is closed only for a job whose keep succeeded and whose proof came inside its window; an
  unheld job that ended is handed over with its listed end; and a reconcile that was asked for is
  running or has a wake-up, so no use and no release is forgotten.
\<close>

section \<open>Data\<close>

type_synonym millis = nat
type_synonym call_id = nat
type_synonym reconcile_id = nat

definition MAX_WAITING :: nat where "MAX_WAITING = 16"
definition ANSWER_LIMIT :: millis where "ANSWER_LIMIT = 20000"
definition RECONCILE_SPACING :: millis where "RECONCILE_SPACING = 1000"
definition USE_SPACING :: millis where "USE_SPACING = 30000"
definition PROOF_WINDOW :: millis where "PROOF_WINDOW = 30000"

datatype keep_outcome = KeepSucceeded | KeepRefused | KeepFailed

datatype job_state =
    Proving (keep_succeeded: bool) (window_until: "millis option") (proof_seen: bool)
  | Closing
  | Unheld nat bool
  | TakenState nat bool

datatype table_job = TableRunning | TableEnded | TableTaken | TableAbsent

record facts =
  open_reconcile_done :: bool
  facts_job :: table_job

datatype listed_job = LRunning | LExited int | LEnded int nat | LLost nat

record listed_end =
  end_code :: "int option"
  end_at :: nat

datatype event =
    Callback call_id string facts millis
  | CallClosed call_id
  | Tick millis
  | Kept string bool bool
  | KeepAnswered string keep_outcome millis
  | StreamClosed string nat bool millis
  | StreamEnded string
  | EvListed reconcile_id "(string, listed_job) btree option" millis
  | EvTaken string
  | PutBack string bool nat
  | Forgotten string
  | EvUse millis
  | TranscriptSwitched

datatype why =
  WProof | WHint | WNotReadBack | WListed | WRecorded | WTaken | WUnknown | WLate | WFull | WUnlisted

datatype held_why = HUnavailable | HRefused | HKeepFailed | HNoProof | HEnded

datatype action =
    Answer call_id nat why
  | Held string held_why
  | SendKeep string bool
  | CloseStream string
  | StartReconcile reconcile_id
  | ApplyShellExit string int
  | Follow string nat "listed_end option"
  | ReadInThenFollow string nat
  | CloseFollow string

record batch =
  b_waiters :: "call_id list"
  not_before :: "millis option"

record running_rec =
  run_id :: reconcile_id
  run_transcript :: nat
  run_waiters :: "call_id list"

record kernel =
  k_jobs :: "(string, job_state) btree"
  k_waiting :: "(call_id, millis) btree"
  k_running :: "running_rec option"
  k_next :: "batch option"
  k_last_end :: "millis option"
  k_next_reconcile :: reconcile_id
  k_transcript :: nat

definition kernel_new :: kernel where
  "kernel_new = \<lparr>k_jobs = [], k_waiting = [], k_running = None, k_next = None, k_last_end = None,
                 k_next_reconcile = 0, k_transcript = 0\<rparr>"

section \<open>Operations\<close>

definition batch_default :: batch where
  "batch_default = \<lparr>b_waiters = [], not_before = None\<rparr>"

definition urgent :: "batch \<Rightarrow> batch" where
  "urgent b = b\<lparr>not_before := None\<rparr>"

text \<open>\<^verbatim>\<open>self.next.get_or_insert_with(Batch::default).urgent()\<close>\<close>

definition ask_urgent :: "kernel \<Rightarrow> kernel" where
  "ask_urgent k =
     k\<lparr>k_next := Some (urgent (case k_next k of Some b \<Rightarrow> b | None \<Rightarrow> batch_default))\<rparr>"

definition is_unheld :: "job_state \<Rightarrow> bool" where
  "is_unheld s = (case s of Unheld _ _ \<Rightarrow> True | TakenState _ _ \<Rightarrow> True | _ \<Rightarrow> False)"

definition has_unheld :: "kernel \<Rightarrow> bool" where
  "has_unheld k \<longleftrightarrow> list_ex (\<lambda>(_, s). is_unheld s) (k_jobs k)"

definition min_opt :: "nat list \<Rightarrow> nat option" where
  "min_opt xs = (case xs of [] \<Rightarrow> None | x # ys \<Rightarrow> Some (foldl min x ys))"

definition next_wake :: "kernel \<Rightarrow> millis option" where
  "next_wake k =
     (let waiters = map snd (k_waiting k);
          windows = List.map_filter (\<lambda>(_, s). case s of Proving _ w _ \<Rightarrow> w | _ \<Rightarrow> None) (k_jobs k);
          start = (case (k_running k, k_next k, k_last_end k) of
                     (None, Some b, Some e) \<Rightarrow>
                       [max (e + RECONCILE_SPACING) (case not_before b of Some t \<Rightarrow> t | None \<Rightarrow> 0)]
                   | _ \<Rightarrow> [])
      in min_opt (waiters @ windows @ start))"

definition release :: "string \<Rightarrow> kernel \<Rightarrow> kernel \<times> action list" where
  "release job k = (k\<lparr>k_jobs := bt_insert job Closing (k_jobs k)\<rparr>, [CloseStream job])"

definition maybe_start :: "millis \<Rightarrow> kernel \<Rightarrow> kernel \<times> action list" where
  "maybe_start now k =
     (case (k_running k, k_next k) of
        (None, Some b) \<Rightarrow>
          (if (case k_last_end k of Some e \<Rightarrow> now < e + RECONCILE_SPACING | None \<Rightarrow> False) then (k, [])
           else if (case not_before b of Some t \<Rightarrow> now < t | None \<Rightarrow> False) then (k, [])
           else let i = k_next_reconcile k
                in (k\<lparr>k_next := None, k_next_reconcile := i + 1,
                      k_running := Some \<lparr>run_id = i, run_transcript = k_transcript k,
                                         run_waiters = b_waiters b\<rparr>\<rparr>,
                    [StartReconcile i]))
      | _ \<Rightarrow> (k, []))"

definition on_callback :: "call_id \<Rightarrow> string \<Rightarrow> facts \<Rightarrow> millis \<Rightarrow> kernel \<Rightarrow> kernel \<times> action list" where
  "on_callback call job f now k =
     (if length (k_waiting k) \<ge> MAX_WAITING then (k, [Answer call 503 WFull])
      else if \<not> open_reconcile_done f then (k, [Answer call 200 WNotReadBack])
      else if facts_job f = TableTaken then (k, [Answer call 503 WTaken])
      else case bt_get (k_jobs k) job of
        Some (Proving ks wu pr) \<Rightarrow>
          (let inside = (case wu of None \<Rightarrow> True | Some t \<Rightarrow> now < t)
           in if inside then
                (let k = k\<lparr>k_jobs := bt_insert job (Proving ks wu True) (k_jobs k)\<rparr>;
                     (k, out) = (if ks then release job k else (k, []))
                 in (k, out @ [Answer call 200 WProof]))
              else (k, [Answer call 200 WHint]))
      | Some Closing \<Rightarrow> (k, [Answer call 200 WHint])
      | Some (TakenState _ _) \<Rightarrow> (k, [Answer call 503 WTaken])
      | Some (Unheld _ _) \<Rightarrow>
          (let k = k\<lparr>k_waiting := bt_insert call (now + ANSWER_LIMIT) (k_waiting k)\<rparr>;
               b = urgent (case k_next k of Some b \<Rightarrow> b | None \<Rightarrow> batch_default);
               k = k\<lparr>k_next := Some (b\<lparr>b_waiters := b_waiters b @ [call]\<rparr>)\<rparr>
           in maybe_start now k)
      | None \<Rightarrow>
          (k, [case facts_job f of
                 TableRunning \<Rightarrow> Answer call 200 WHint
               | TableEnded \<Rightarrow> Answer call 200 WRecorded
               | TableTaken \<Rightarrow> Answer call 503 WTaken
               | TableAbsent \<Rightarrow> Answer call 410 WUnknown]))"

definition on_tick :: "millis \<Rightarrow> kernel \<Rightarrow> kernel \<times> action list" where
  "on_tick now k =
     (let late = map fst (filter (\<lambda>(_, by). by \<le> now) (k_waiting k));
          k = k\<lparr>k_waiting := fold bt_remove late (k_waiting k)\<rparr>;
          out = map (\<lambda>c. Answer c 503 WLate) late;
          closed = map fst (filter (\<lambda>(_, s). case s of Proving _ (Some t) _ \<Rightarrow> t \<le> now | _ \<Rightarrow> False)
                              (k_jobs k));
          k = k\<lparr>k_jobs := fold bt_remove closed (k_jobs k)\<rparr>;
          (k, started) = maybe_start now k
      in (k, out @ map (\<lambda>j. Held j HNoProof) closed @ started))"

text \<open>What a listing, or its failure, does to one unheld job.\<close>

definition hand_over ::
  "(string, listed_job) btree option \<Rightarrow> string \<times> nat \<times> bool \<Rightarrow>
   (string, job_state) btree \<times> action list \<Rightarrow> (string, job_state) btree \<times> action list"
where
  "hand_over listing e acc =
     (let (job, offset, shell_exit_seen) = e; (jobs, out) = acc;
          followed = (\<lambda>en. (bt_remove job jobs, out @ [Follow job offset en]))
      in case map_option (\<lambda>l. bt_get l job) listing of
           Some (Some LRunning) \<Rightarrow> (jobs, out)
         | Some (Some (LExited code)) \<Rightarrow>
             (if \<not> shell_exit_seen
              then (bt_insert job (Unheld offset True) jobs, out @ [ApplyShellExit job code])
              else (jobs, out))
         | Some (Some (LEnded code t)) \<Rightarrow> followed (Some \<lparr>end_code = Some code, end_at = t\<rparr>)
         | Some (Some (LLost t)) \<Rightarrow> followed (Some \<lparr>end_code = None, end_at = t\<rparr>)
         | Some None \<Rightarrow> followed None
         | None \<Rightarrow> followed None)"

definition unheld_jobs :: "(string, job_state) btree \<Rightarrow> (string \<times> nat \<times> bool) list" where
  "unheld_jobs jobs =
     List.map_filter (\<lambda>(j, s). case s of Unheld off seen \<Rightarrow> Some (j, off, seen) | _ \<Rightarrow> None) jobs"

text \<open>Answer the waiters still waiting.\<close>

fun answer_waiters ::
  "nat \<Rightarrow> why \<Rightarrow> call_id list \<Rightarrow> (call_id, millis) btree \<Rightarrow> (call_id, millis) btree \<times> action list"
where
  "answer_waiters status w [] waiting = (waiting, [])"
| "answer_waiters status w (c # cs) waiting =
     (case bt_get waiting c of
        None \<Rightarrow> answer_waiters status w cs waiting
      | Some _ \<Rightarrow>
          (let (waiting, out) = answer_waiters status w cs (bt_remove c waiting)
           in (waiting, Answer c status w # out)))"

definition on_listed ::
  "reconcile_id \<Rightarrow> (string, listed_job) btree option \<Rightarrow> millis \<Rightarrow> kernel \<Rightarrow> kernel \<times> action list" where
  "on_listed reconcile listing now k =
     (case k_running k of
        None \<Rightarrow> (k, [])
      | Some r \<Rightarrow>
          (if run_id r \<noteq> reconcile then (k, [])
           else let k = k\<lparr>k_running := None, k_last_end := Some now\<rparr>;
                    (jobs, out) = (if run_transcript r = k_transcript k
                                   then fold (hand_over listing) (unheld_jobs (k_jobs k)) (k_jobs k, [])
                                   else (k_jobs k, []));
                    (status, w) = (if listing \<noteq> None then (200, WListed) else (503, WUnlisted));
                    (waiting, answers) = answer_waiters status w (run_waiters r) (k_waiting k);
                    (k, started) = maybe_start now (k\<lparr>k_jobs := jobs, k_waiting := waiting\<rparr>)
                in (k, out @ answers @ started)))"

definition on_kept :: "string \<Rightarrow> bool \<Rightarrow> bool \<Rightarrow> kernel \<Rightarrow> kernel \<times> action list" where
  "on_kept job notify_available adopted k =
     (if notify_available
      then (k\<lparr>k_jobs := bt_insert job (Proving False None False) (k_jobs k)\<rparr>, [SendKeep job True])
      else if \<not> adopted
      then (k\<lparr>k_jobs := bt_remove job (k_jobs k)\<rparr>, [SendKeep job False, Held job HUnavailable])
      else (k, [Held job HUnavailable]))"

definition on_keep_answered :: "string \<Rightarrow> keep_outcome \<Rightarrow> millis \<Rightarrow> kernel \<Rightarrow> kernel \<times> action list" where
  "on_keep_answered job outcome now k =
     (case bt_get (k_jobs k) job of
        Some (Proving ks wu pr) \<Rightarrow>
          (case outcome of
             KeepSucceeded \<Rightarrow>
               (let k = k\<lparr>k_jobs := bt_insert job (Proving True (Some (now + PROOF_WINDOW)) pr) (k_jobs k)\<rparr>
                in if pr then release job k else (k, []))
           | KeepRefused \<Rightarrow>
               (k\<lparr>k_jobs := bt_remove job (k_jobs k)\<rparr>, [SendKeep job False, Held job HRefused])
           | KeepFailed \<Rightarrow> (k\<lparr>k_jobs := bt_remove job (k_jobs k)\<rparr>, [Held job HKeepFailed]))
      | _ \<Rightarrow> (k, []))"

definition on_use :: "millis \<Rightarrow> kernel \<Rightarrow> kernel \<times> action list" where
  "on_use now k =
     (if \<not> has_unheld k then (k, [])
      else if k_running k \<noteq> None then (ask_urgent k, [])
      else if k_next k = None then
        (let nb = (case k_last_end k of
                     None \<Rightarrow> None
                   | Some e \<Rightarrow> (if now < e + USE_SPACING then Some (e + USE_SPACING) else None))
         in maybe_start now (k\<lparr>k_next := Some \<lparr>b_waiters = [], not_before = nb\<rparr>\<rparr>))
      else (k, []))"

fun kernel_step :: "event \<Rightarrow> kernel \<Rightarrow> kernel \<times> action list" where
  "kernel_step (Callback call job f now) k = on_callback call job f now k"
| "kernel_step (CallClosed call) k = (k\<lparr>k_waiting := bt_remove call (k_waiting k)\<rparr>, [])"
| "kernel_step (Tick now) k = on_tick now k"
| "kernel_step (Kept job avail adopted) k = on_kept job avail adopted k"
| "kernel_step (KeepAnswered job outcome now) k = on_keep_answered job outcome now k"
| "kernel_step (StreamClosed job offset seen now) k =
     (if bt_get (k_jobs k) job = Some Closing
      then maybe_start now (ask_urgent (k\<lparr>k_jobs := bt_insert job (Unheld offset seen) (k_jobs k)\<rparr>))
      else (k, []))"
| "kernel_step (StreamEnded job) k =
     (case bt_get (k_jobs k) job of
        Some (Proving _ _ _) \<Rightarrow> (k\<lparr>k_jobs := bt_remove job (k_jobs k)\<rparr>, [Held job HEnded])
      | Some Closing \<Rightarrow> (k\<lparr>k_jobs := bt_remove job (k_jobs k)\<rparr>, [Held job HEnded])
      | _ \<Rightarrow> (k, []))"
| "kernel_step (EvListed reconcile jobs now) k = on_listed reconcile jobs now k"
| "kernel_step (EvTaken job) k =
     (case bt_get (k_jobs k) job of
        Some (Unheld off seen) \<Rightarrow>
          (k\<lparr>k_jobs := bt_insert job (TakenState off seen) (k_jobs k)\<rparr>, [ReadInThenFollow job off])
      | _ \<Rightarrow> (k, []))"
| "kernel_step (PutBack job still_running off) k =
     (case bt_get (k_jobs k) job of
        Some (TakenState _ seen) \<Rightarrow>
          (if still_running
           then (k\<lparr>k_jobs := bt_insert job (Unheld off seen) (k_jobs k)\<rparr>, [CloseFollow job])
           else (k\<lparr>k_jobs := bt_remove job (k_jobs k)\<rparr>, []))
      | _ \<Rightarrow> (k, []))"
| "kernel_step (Forgotten job) k = (k\<lparr>k_jobs := bt_remove job (k_jobs k)\<rparr>, [])"
| "kernel_step (EvUse now) k = on_use now k"
| "kernel_step TranscriptSwitched k = (k\<lparr>k_jobs := [], k_transcript := k_transcript k + 1\<rparr>, [])"

text \<open>A session's life: what happened, and what was done about each event.\<close>

inductive kernel_reach :: "(event \<times> action list) list \<Rightarrow> kernel \<Rightarrow> bool" where
  reach_new: "kernel_reach [] kernel_new"
| reach_step: "kernel_reach lg k \<Longrightarrow> kernel_step e k = (k', out) \<Longrightarrow> kernel_reach (lg @ [(e, out)]) k'"

section \<open>The invariant\<close>

definition state_ok :: "job_state \<Rightarrow> bool" where
  "state_ok s = (case s of Proving ks wu pr \<Rightarrow> (ks \<longleftrightarrow> wu \<noteq> None) \<and> \<not> (ks \<and> pr) | _ \<Rightarrow> True)"

text \<open>
  The maps are ordered; a proving job's window is open exactly when its keep succeeded, and its
  proof is then not in yet; at most sixteen callbacks wait; a reconcile that is asked for while
  none runs has a last one to be spaced from, and only that spacing can hold it back.
\<close>

definition kernel_inv :: "kernel \<Rightarrow> bool" where
  "kernel_inv k \<longleftrightarrow>
     bt_wf (k_jobs k) \<and> bt_wf (k_waiting k) \<and>
     (\<forall>(j, s) \<in> set (k_jobs k). state_ok s) \<and>
     length (k_waiting k) \<le> MAX_WAITING \<and>
     (k_running k = None \<and> k_next k \<noteq> None \<longrightarrow> k_last_end k \<noteq> None) \<and>
     (\<forall>b t. k_next k = Some b \<and> not_before b = Some t \<longrightarrow>
        k_running k = None \<and> (\<exists>e. k_last_end k = Some e \<and> t = e + USE_SPACING))"

lemma maybe_start_cases:
  obtains (idle) "maybe_start now k = (k, [])"
      "k_running k = None \<Longrightarrow> k_next k = None \<or> k_last_end k \<noteq> None \<or>
         (\<exists>b t. k_next k = Some b \<and> not_before b = Some t)"
  | (started) b where "k_running k = None" "k_next k = Some b"
      "\<And>e. k_last_end k = Some e \<Longrightarrow> e + RECONCILE_SPACING \<le> now"
      "\<And>t. not_before b = Some t \<Longrightarrow> t \<le> now"
      "maybe_start now k =
         (k\<lparr>k_next := None, k_next_reconcile := k_next_reconcile k + 1,
            k_running := Some \<lparr>run_id = k_next_reconcile k, run_transcript = k_transcript k,
                               run_waiters = b_waiters b\<rparr>\<rparr>, [StartReconcile (k_next_reconcile k)])"
proof (cases "maybe_start now k = (k, [])")
  case True
  then show ?thesis
    by (intro idle) (auto simp: maybe_start_def Let_def split: option.splits if_splits)
next
  case False
  then obtain b where b: "k_running k = None" "k_next k = Some b"
    by (auto simp: maybe_start_def split: option.splits)
  with False show ?thesis
    by (intro started [of b]) (auto simp: maybe_start_def Let_def not_less split: option.splits if_splits)
qed

lemma maybe_start_keeps [simp]:
  "k_jobs (fst (maybe_start now k)) = k_jobs k"
  "k_waiting (fst (maybe_start now k)) = k_waiting k"
  "k_last_end (fst (maybe_start now k)) = k_last_end k"
  "k_transcript (fst (maybe_start now k)) = k_transcript k"
  by (rule maybe_start_cases [of now k]; simp)+

text \<open>The part of the invariant about the schedule, as \<open>maybe_start\<close> restores it.\<close>

definition sched_ok :: "kernel \<Rightarrow> bool" where
  "sched_ok k \<longleftrightarrow>
     (k_running k = None \<and> k_next k \<noteq> None \<longrightarrow> k_last_end k \<noteq> None) \<and>
     (\<forall>b t. k_next k = Some b \<and> not_before b = Some t \<longrightarrow>
        k_running k = None \<and> (\<exists>e. k_last_end k = Some e \<and> t = e + USE_SPACING))"

lemma maybe_start_sched:
  assumes "\<forall>b t. k_next k = Some b \<and> not_before b = Some t \<longrightarrow>
        k_running k = None \<and> (\<exists>e. k_last_end k = Some e \<and> t = e + USE_SPACING)"
  shows "sched_ok (fst (maybe_start now k))"
  using assms by (cases rule: maybe_start_cases [of now k]) (auto simp: sched_ok_def)

lemma ask_urgent_next: "k_next (ask_urgent k) = Some b \<Longrightarrow> not_before b = None"
  by (auto simp: ask_urgent_def urgent_def)

lemma ask_urgent_keeps [simp]:
  "k_jobs (ask_urgent k) = k_jobs k" "k_waiting (ask_urgent k) = k_waiting k"
  "k_running (ask_urgent k) = k_running k" "k_last_end (ask_urgent k) = k_last_end k"
  "k_transcript (ask_urgent k) = k_transcript k" "k_next_reconcile (ask_urgent k) = k_next_reconcile k"
  by (simp_all add: ask_urgent_def)

definition jobs_ok :: "(string, job_state) btree \<Rightarrow> bool" where
  "jobs_ok m \<longleftrightarrow> bt_wf m \<and> (\<forall>(j, s) \<in> set m. state_ok s)"

lemma jobs_ok_insert: "jobs_ok m \<Longrightarrow> state_ok s \<Longrightarrow> jobs_ok (bt_insert j s m)"
  using set_bt_insert_subset [of j s m] by (auto simp: jobs_ok_def)

lemma jobs_ok_remove: "jobs_ok m \<Longrightarrow> jobs_ok (bt_remove j m)"
  by (auto simp: jobs_ok_def set_bt_remove)

lemma jobs_ok_get: "jobs_ok m \<Longrightarrow> bt_get m j = Some s \<Longrightarrow> state_ok s"
  by (auto simp: jobs_ok_def dest: map_of_SomeD)

lemma fold_remove_ok: "jobs_ok m \<Longrightarrow> jobs_ok (fold bt_remove js m)"
  by (induction js arbitrary: m) (auto simp: jobs_ok_remove)

definition wait_ok :: "(call_id, millis) btree \<Rightarrow> bool" where
  "wait_ok w \<longleftrightarrow> bt_wf w \<and> length w \<le> MAX_WAITING"

lemma wait_ok_remove: "wait_ok w \<Longrightarrow> wait_ok (bt_remove c w)"
  using length_bt_remove [of c w] by (auto simp: wait_ok_def)

lemma fold_remove_wait: "wait_ok w \<Longrightarrow> wait_ok (fold bt_remove cs w)"
  by (induction cs arbitrary: w) (auto simp: wait_ok_remove)

lemma answer_waiters_wait: "wait_ok w \<Longrightarrow> wait_ok (fst (answer_waiters st y cs w))"
  by (induction st y cs w rule: answer_waiters.induct)
     (auto simp: wait_ok_remove split: option.splits prod.splits)

lemma hand_over_ok: "jobs_ok (fst acc) \<Longrightarrow> jobs_ok (fst (hand_over l e acc))"
  by (auto simp: hand_over_def jobs_ok_remove jobs_ok_insert state_ok_def Let_def
      split: prod.splits option.splits listed_job.splits)

lemma fold_hand_over_ok: "jobs_ok (fst acc) \<Longrightarrow> jobs_ok (fst (fold (hand_over l) es acc))"
  by (induction es arbitrary: acc) (auto simp: hand_over_ok)

lemma kernel_inv_split:
  "kernel_inv k \<longleftrightarrow> jobs_ok (k_jobs k) \<and> wait_ok (k_waiting k) \<and> sched_ok k"
  by (auto simp: kernel_inv_def jobs_ok_def wait_ok_def sched_ok_def)

lemma sched_cong:
  "k_running a = k_running b \<Longrightarrow> k_next a = k_next b \<Longrightarrow> k_last_end a = k_last_end b \<Longrightarrow> sched_ok a = sched_ok b"
  by (simp add: sched_ok_def)

lemma step_jobs_ok:
  assumes "jobs_ok (k_jobs k)"
  shows "jobs_ok (k_jobs (fst (kernel_step e k)))"
proof (cases e)
  case (Callback call job f now)
  then show ?thesis
    using assms jobs_ok_get [OF assms, of job]
    by (auto simp: on_callback_def release_def Let_def state_ok_def intro!: jobs_ok_insert
        split: option.splits job_state.splits if_splits)
next
  case (Tick now)
  then show ?thesis using assms by (simp add: on_tick_def Let_def fold_remove_ok case_prod_unfold)
next
  case (KeepAnswered job outcome now)
  then show ?thesis
    using assms
    by (auto simp: on_keep_answered_def release_def Let_def state_ok_def intro!: jobs_ok_insert jobs_ok_remove
        split: option.splits job_state.splits keep_outcome.splits if_splits)
next
  case (EvListed reconcile jobs now)
  then show ?thesis
    using assms fold_hand_over_ok [of "(k_jobs k, [])"]
    by (auto simp: on_listed_def Let_def case_prod_unfold split: option.splits if_splits)
next
  case (EvUse now)
  then show ?thesis using assms by (simp add: on_use_def Let_def)
qed (use assms in \<open>auto simp: on_kept_def state_ok_def jobs_ok_def [of "[]"]
      intro!: jobs_ok_insert jobs_ok_remove split: option.splits job_state.splits if_splits\<close>)

lemma step_wait_ok:
  assumes "wait_ok (k_waiting k)"
  shows "wait_ok (k_waiting (fst (kernel_step e k)))"
proof (cases e)
  case (Callback call job f now)
  show ?thesis
  proof (cases "length (k_waiting k) \<ge> MAX_WAITING")
    case False
    then have "wait_ok (bt_insert call t (k_waiting k))" for t
      using assms length_bt_insert [of call t "k_waiting k"] by (auto simp: wait_ok_def)
    with assms show ?thesis
      by (auto simp: Callback on_callback_def release_def Let_def split: option.splits job_state.splits if_splits)
  qed (use assms in \<open>simp add: Callback on_callback_def\<close>)
next
  case (Tick now)
  then show ?thesis using assms by (simp add: on_tick_def Let_def fold_remove_wait case_prod_unfold)
next
  case (EvListed reconcile jobs now)
  then show ?thesis
    using assms by (auto simp: on_listed_def Let_def case_prod_unfold answer_waiters_wait
        split: option.splits if_splits)
next
  case (KeepAnswered job outcome now)
  then show ?thesis
    using assms by (auto simp: on_keep_answered_def release_def Let_def
        split: option.splits job_state.splits keep_outcome.splits if_splits)
next
  case (EvUse now)
  then show ?thesis using assms by (simp add: on_use_def Let_def)
qed (use assms in \<open>auto simp: on_kept_def wait_ok_remove
      split: option.splits job_state.splits if_splits\<close>)

lemma step_sched_ok:
  assumes "sched_ok k"
  shows "sched_ok (fst (kernel_step e k))"
proof (cases e)
  case (Callback call job f now)
  have m: "sched_ok (fst (maybe_start now (k\<lparr>k_waiting := w,
      k_next := Some ((urgent b)\<lparr>b_waiters := ws\<rparr>)\<rparr>)))" for w b ws
    by (rule maybe_start_sched) (simp add: urgent_def)
  have s: "sched_ok (k\<lparr>k_jobs := j\<rparr>)" for j
    using assms sched_cong [of "k\<lparr>k_jobs := j\<rparr>" k] by simp
  show ?thesis
    using assms m s by (auto simp: Callback on_callback_def release_def Let_def
        split: option.splits job_state.splits if_splits)
next
  case (Tick now)
  have "sched_ok (fst (maybe_start now (k\<lparr>k_waiting := w, k_jobs := j\<rparr>)))" for w j
    by (rule maybe_start_sched) (use assms in \<open>auto simp: sched_ok_def\<close>)
  then show ?thesis by (simp add: Tick on_tick_def Let_def case_prod_unfold)
next
  case (KeepAnswered job outcome now)
  have s: "sched_ok (k\<lparr>k_jobs := j\<rparr>)" for j
    using assms sched_cong [of "k\<lparr>k_jobs := j\<rparr>" k] by simp
  then show ?thesis
    using assms by (auto simp: KeepAnswered on_keep_answered_def release_def Let_def
        split: option.splits job_state.splits keep_outcome.splits if_splits)
next
  case (StreamClosed job offset seen now)
  have "sched_ok (fst (maybe_start now (ask_urgent (k\<lparr>k_jobs := j\<rparr>))))" for j
    by (rule maybe_start_sched) (use ask_urgent_next in auto)
  then show ?thesis using assms by (simp add: StreamClosed)
next
  case (EvListed reconcile jobs now)
  have "sched_ok (fst (maybe_start now (k\<lparr>k_running := None, k_last_end := Some now,
      k_jobs := j, k_waiting := w\<rparr>)))" if "k_running k \<noteq> None" for j w
    by (rule maybe_start_sched) (use assms that in \<open>auto simp: sched_ok_def\<close>)
  then show ?thesis
    using assms by (auto simp: EvListed on_listed_def Let_def case_prod_unfold split: option.splits if_splits)
next
  case (EvUse now)
  let ?nb = "case k_last_end k of None \<Rightarrow> None
    | Some e \<Rightarrow> if now < e + USE_SPACING then Some (e + USE_SPACING) else None"
  have "sched_ok (fst (maybe_start now (k\<lparr>k_next := Some \<lparr>b_waiters = [], not_before = ?nb\<rparr>\<rparr>)))"
    if "k_running k = None"
    by (rule maybe_start_sched) (use that in \<open>auto split: option.splits if_splits\<close>)
  moreover have "sched_ok (ask_urgent k)" if "k_running k \<noteq> None"
    using that ask_urgent_next [of k] by (auto simp: sched_ok_def)
  ultimately show ?thesis
    using assms unfolding EvUse kernel_step.simps on_use_def Let_def by (simp split: if_split)
qed (use assms in \<open>auto simp: on_kept_def sched_ok_def
      split: option.splits job_state.splits if_splits\<close>)

lemma kernel_step_inv: "kernel_inv k \<Longrightarrow> kernel_inv (fst (kernel_step e k))"
  by (simp add: kernel_inv_split step_jobs_ok step_wait_ok step_sched_ok)

lemma kernel_reach_inv: "kernel_reach lg k \<Longrightarrow> kernel_inv k"
proof (induction rule: kernel_reach.induct)
  case reach_new
  then show ?case by (simp add: kernel_inv_def kernel_new_def)
next
  case (reach_step lg k e k' out)
  then show ?case using kernel_step_inv [of k e] by simp
qed

section \<open>Every callback is answered once\<close>

definition answers :: "action list \<Rightarrow> call_id list" where
  "answers out = List.map_filter (\<lambda>a. case a of Answer c _ _ \<Rightarrow> Some c | _ \<Rightarrow> None) out"

lemma answers_simps [simp]:
  "answers [] = []" "answers (a @ b) = answers a @ answers b"
  "answers (Answer c st w # out) = c # answers out"
  "answers (Held j h # out) = answers out" "answers (SendKeep j nf # out) = answers out"
  "answers (CloseStream j # out) = answers out" "answers (StartReconcile i # out) = answers out"
  "answers (ApplyShellExit j z # out) = answers out" "answers (Follow j n en # out) = answers out"
  "answers (ReadInThenFollow j n # out) = answers out" "answers (CloseFollow j # out) = answers out"
  by (simp_all add: answers_def List.map_filter_def)

lemma answers_map [simp]:
  "answers (map ((\<lambda>c. Answer c st w) \<circ> f) cs) = map f cs" "answers (map ((\<lambda>j. Held j h) \<circ> g) js) = []"
  by (induction cs, simp_all, induction js, simp_all)

lemma answers_maybe_start [simp]: "answers (snd (maybe_start now k)) = []"
  by (rule maybe_start_cases [of now k]) auto

fun arrived :: "event \<Rightarrow> call_id set" where
  "arrived (Callback c _ _ _) = {c}"
| "arrived _ = {}"

fun closed_by :: "event \<Rightarrow> call_id set" where
  "closed_by (CallClosed c) = {c}"
| "closed_by _ = {}"

abbreviation waiting_calls :: "kernel \<Rightarrow> call_id set" where
  "waiting_calls k \<equiv> fst ` set (k_waiting k)"

lemma keys_remove: "fst ` set (bt_remove c w) = fst ` set w - {c}"
  by (auto simp: set_bt_remove)

lemma keys_fold_remove: "fst ` set (fold bt_remove cs w) = fst ` set w - set cs"
  by (induction cs arbitrary: w) (auto simp: keys_remove)

lemma map_of_None_iff: "bt_get w c = None \<longleftrightarrow> c \<notin> fst ` set w"
  by (simp add: map_of_eq_None_iff)

lemma answer_waiters_answers:
  assumes "answer_waiters st y cs w = (w', out)"
  shows "distinct (answers out) \<and> set (answers out) = set cs \<inter> fst ` set w \<and>
         fst ` set w' = fst ` set w - set cs"
  using assms
proof (induction st y cs w arbitrary: w' out rule: answer_waiters.induct)
  case (2 st y c cs w)
  show ?case
  proof (cases "bt_get w c")
    case None
    with 2 show ?thesis by (auto simp: map_of_None_iff)
  next
    case (Some t)
    obtain w2 out2 where r: "answer_waiters st y cs (bt_remove c w) = (w2, out2)" by fastforce
    with 2(3) Some have eq: "w' = w2" "out = Answer c st y # out2" by auto
    have "c \<in> fst ` set w" using Some by (metis map_of_None_iff option.distinct(1))
    with 2(2) [OF Some r] eq show ?thesis by (auto simp: keys_remove)
  qed
qed auto

lemma answers_hand_over: "answers (snd (fold (hand_over l) es acc)) = answers (snd acc)"
proof (induction es arbitrary: acc)
  case (Cons e es)
  have "answers (snd (hand_over l e acc)) = answers (snd acc)"
    by (auto simp: hand_over_def Let_def split: prod.splits option.splits listed_job.splits)
  with Cons show ?case by simp
qed simp

text \<open>One step: who waited or arrived, and did not hang up, is waiting or was answered, not both.\<close>

definition accounted :: "event \<Rightarrow> kernel \<Rightarrow> kernel \<Rightarrow> action list \<Rightarrow> bool" where
  "accounted e k k' out \<longleftrightarrow>
     distinct (answers out) \<and> set (answers out) \<inter> waiting_calls k' = {} \<and>
     set (answers out) \<union> waiting_calls k' = (waiting_calls k - closed_by e) \<union> arrived e"

lemma accounted_quiet:
  "waiting_calls k' = waiting_calls k - closed_by e \<Longrightarrow> answers out = [] \<Longrightarrow> arrived e = {} \<Longrightarrow> accounted e k k' out"
  by (simp add: accounted_def)

lemma maybe_start_out: "maybe_start now k = (k', out) \<Longrightarrow> k_waiting k' = k_waiting k \<and> answers out = []"
  by (metis fst_conv snd_conv maybe_start_keeps(2) answers_maybe_start)

lemma callback_outcome:
  assumes "on_callback call job f now k = (k', out)"
  shows "answers out = [call] \<and> k_waiting k' = k_waiting k \<or>
         answers out = [] \<and> k_waiting k' = bt_insert call (now + ANSWER_LIMIT) (k_waiting k)"
  using assms
  by (auto simp: on_callback_def release_def Let_def dest!: maybe_start_out
      split: option.splits job_state.splits if_splits table_job.splits)

lemma callback_accounted:
  assumes "on_callback call job f now k = (k', out)" and "call \<notin> waiting_calls k"
  shows "accounted (Callback call job f now) k k' out"
  using callback_outcome [OF assms(1)] assms(2)
  unfolding accounted_def arrived.simps closed_by.simps
  by (metis Diff_empty Int_insert_left_if0 Un_commute Un_empty_left distinct.simps
      distinct_singleton empty_set inf_bot_left insert_is_Un keys_bt_insert list.simps(15))

lemma tick_accounted:
  assumes "on_tick now k = (k', out)" and "bt_wf (k_waiting k)"
  shows "accounted (Tick now) k k' out \<and> (\<forall>(c, t) \<in> set (k_waiting k'). now < t)"
proof -
  let ?late = "map fst (filter (\<lambda>(_, t). t \<le> now) (k_waiting k))"
  have w: "k_waiting k' = fold bt_remove ?late (k_waiting k)" and o: "answers out = ?late"
    using assms(1) by (auto simp: on_tick_def Let_def case_prod_unfold)
  have d: "distinct (map fst (k_waiting k))" by (rule bt_wf_distinct [OF assms(2)])
  have "distinct ?late" using d by (simp add: distinct_map inj_on_def)
  moreover have "set ?late \<subseteq> waiting_calls k" by auto
  ultimately have "accounted (Tick now) k k' out"
    unfolding accounted_def w o keys_fold_remove by auto
  moreover have "set (fold bt_remove cs m) \<subseteq> {e \<in> set m. fst e \<notin> set cs}" for cs and m :: "(call_id, millis) btree"
  proof (induction cs arbitrary: m)
    case (Cons c cs)
    show ?case using Cons [of "bt_remove c m"] by (auto simp: set_bt_remove)
  qed simp
  from this [of ?late "k_waiting k"] have "\<forall>(c, t) \<in> set (k_waiting k'). now < t"
    unfolding w by (force simp: not_le [symmetric])
  ultimately show ?thesis by blast
qed

lemma listed_accounted:
  assumes "on_listed i l now k = (k', out)"
  shows "accounted (EvListed i l now) k k' out"
proof (cases "k_running k")
  case (Some r)
  show ?thesis
  proof (cases "run_id r = i")
    case True
    let ?st = "if l \<noteq> None then 200 else 503" and ?w = "if l \<noteq> None then WListed else WUnlisted"
    obtain w ans where aw: "answer_waiters ?st ?w (run_waiters r) (k_waiting k) = (w, ans)" by fastforce
    have "k_waiting k' = w" and "answers out = answers ans"
      using assms Some True aw
      by (auto simp: on_listed_def Let_def case_prod_unfold answers_hand_over split: if_splits)
    with answer_waiters_answers [OF aw] show ?thesis by (auto simp: accounted_def)
  qed (use assms Some in \<open>simp add: on_listed_def accounted_quiet\<close>)
qed (use assms in \<open>simp add: on_listed_def accounted_quiet\<close>)

lemma step_accounted:
  assumes "kernel_step e k = (k', out)" and "kernel_inv k" and "arrived e \<inter> waiting_calls k = {}"
  shows "accounted e k k' out"
proof (cases e)
  case (Callback call job f now)
  then show ?thesis using assms callback_accounted by simp
next
  case (Tick now)
  then show ?thesis using assms tick_accounted by (simp add: kernel_inv_def)
next
  case (EvListed i l now)
  then show ?thesis using assms listed_accounted by simp
next
  case (CallClosed c)
  then have "k' = k\<lparr>k_waiting := bt_remove c (k_waiting k)\<rparr>" "out = []" using assms(1) by auto
  then show ?thesis using CallClosed by (intro accounted_quiet) (simp_all add: keys_remove)
next
  case (KeepAnswered job outcome now)
  then show ?thesis
    using assms by (intro accounted_quiet) (auto simp: on_keep_answered_def release_def Let_def
        split: option.splits job_state.splits keep_outcome.splits if_splits)
next
  case (StreamClosed job off seen now)
  then show ?thesis
    using assms by (intro accounted_quiet) (auto split: if_splits dest!: maybe_start_out)
next
  case (EvUse now)
  then show ?thesis
    using assms by (intro accounted_quiet)
      (auto simp: on_use_def Let_def split: if_splits dest!: maybe_start_out)
qed (use assms in \<open>auto intro!: accounted_quiet simp: on_kept_def
      split: option.splits job_state.splits if_splits\<close>)

definition calls :: "(event \<times> action list) list \<Rightarrow> call_id list" where
  "calls lg = List.map_filter (\<lambda>(e, _). case e of Callback c _ _ _ \<Rightarrow> Some c | _ \<Rightarrow> None) lg"

definition all_answers :: "(event \<times> action list) list \<Rightarrow> call_id list" where
  "all_answers lg = concat (map (\<lambda>(_, out). answers out) lg)"

definition hung_up :: "(event \<times> action list) list \<Rightarrow> call_id set" where
  "hung_up lg = (\<Union>(e, _) \<in> set lg. closed_by e)"

lemma log_simps [simp]:
  "all_answers [] = []" "all_answers (lg @ [(e, out)]) = all_answers lg @ answers out"
  "hung_up [] = {}" "hung_up (lg @ [(e, out)]) = hung_up lg \<union> closed_by e" "calls [] = []"
  by (auto simp: all_answers_def hung_up_def calls_def List.map_filter_def)

lemma calls_snoc: "set (calls (lg @ [(e, out)])) = set (calls lg) \<union> arrived e"
  and distinct_calls: "distinct (calls (lg @ [(e, out)])) \<Longrightarrow> distinct (calls lg) \<and> arrived e \<inter> set (calls lg) = {}"
  by (cases e; auto simp: calls_def List.map_filter_def)+

text \<open>
  C4. Every callback gets exactly one answer. In any life of a session whose callbacks have distinct
  numbers, no callback is answered twice; every callback that arrived has been answered, or is still
  waiting, or was closed by its sender; nobody who was answered still waits, nobody else is ever
  answered; and at most sixteen wait.
\<close>

theorem callbacks_answered_once:
  assumes "kernel_reach lg k" and "distinct (calls lg)"
  shows "distinct (all_answers lg) \<and> set (all_answers lg) \<inter> waiting_calls k = {} \<and>
         set (calls lg) \<subseteq> set (all_answers lg) \<union> waiting_calls k \<union> hung_up lg \<and>
         set (all_answers lg) \<union> waiting_calls k \<subseteq> set (calls lg) \<and> length (k_waiting k) \<le> 16"
proof -
  have "distinct (all_answers lg) \<and> set (all_answers lg) \<inter> waiting_calls k = {} \<and>
      set (calls lg) \<subseteq> set (all_answers lg) \<union> waiting_calls k \<union> hung_up lg \<and>
      set (all_answers lg) \<union> waiting_calls k \<subseteq> set (calls lg)"
    using assms
  proof (induction rule: kernel_reach.induct)
    case (reach_step lg k e k' out)
    from distinct_calls [OF reach_step.prems] have new: "distinct (calls lg)" "arrived e \<inter> set (calls lg) = {}"
      by auto
    note IH = reach_step.IH [OF new(1)]
    from IH new(2) have "arrived e \<inter> waiting_calls k = {}" by blast
    from step_accounted [OF reach_step.hyps(2) kernel_reach_inv [OF reach_step.hyps(1)] this]
    have acc: "distinct (answers out)" "set (answers out) \<inter> waiting_calls k' = {}"
      "set (answers out) \<union> waiting_calls k' = (waiting_calls k - closed_by e) \<union> arrived e"
      by (simp_all add: accounted_def)
    have "set (all_answers lg) \<inter> (set (answers out) \<union> waiting_calls k') = {}"
      unfolding acc(3) using IH new(2) by blast
    then have 1: "distinct (all_answers lg @ answers out)"
      and 2: "set (all_answers lg @ answers out) \<inter> waiting_calls k' = {}"
      using IH acc(1,2) unfolding distinct_append set_append by blast+
    have 3: "set (calls lg) \<union> arrived e \<subseteq>
        set (all_answers lg @ answers out) \<union> waiting_calls k' \<union> (hung_up lg \<union> closed_by e)"
      using IH acc(3) unfolding set_append by blast
    have 4: "set (all_answers lg @ answers out) \<union> waiting_calls k' \<subseteq> set (calls lg) \<union> arrived e"
      using IH acc(3) unfolding set_append by blast
    from 1 2 3 4 show ?case unfolding log_simps calls_snoc by blast
  qed (simp add: kernel_new_def)
  moreover have "length (k_waiting k) \<le> 16"
    using kernel_reach_inv [OF assms(1)] by (simp add: kernel_inv_def MAX_WAITING_def)
  ultimately show ?thesis by blast
qed

lemma min_opt_le: "x \<in> set xs \<Longrightarrow> \<exists>w. min_opt xs = Some w \<and> w \<le> x"
proof -
  have "foldl min a ys \<le> a \<and> (\<forall>y \<in> set ys. foldl min a ys \<le> y)" for a :: nat and ys
    by (induction ys arbitrary: a) (simp, simp, metis min.boundedE)
  then show "x \<in> set xs \<Longrightarrow> \<exists>w. min_opt xs = Some w \<and> w \<le> x"
    by (cases xs) (auto simp: min_opt_def)
qed

lemma next_wake_waiting:
  assumes "(c, t) \<in> set (k_waiting k)"
  shows "\<exists>w. next_wake k = Some w \<and> w \<le> t"
proof -
  have "t \<in> set (map snd (k_waiting k))" using assms by force
  moreover obtain rest where "next_wake k = min_opt (map snd (k_waiting k) @ rest)"
    by (simp add: next_wake_def Let_def)
  ultimately show ?thesis using min_opt_le [of t "map snd (k_waiting k) @ rest"] by simp
qed

text \<open>
  C31. No callback waits past its limit. A callback starts waiting for exactly twenty seconds from its
  arrival; while one waits, the kernel asks to be woken no later than its limit; and once a time is
  reported, every callback whose limit has come is answered 503 and none of them waits any more.
\<close>

theorem callbacks_answered_in_time:
  assumes "kernel_reach lg k" and "kernel_step (Tick now) k = (k', out)"
  shows "(\<forall>(c, t) \<in> set (k_waiting k). \<exists>w. next_wake k = Some w \<and> w \<le> t) \<and>
         (\<forall>(c, t) \<in> set (k_waiting k'). now < t) \<and>
         (\<forall>(c, t) \<in> set (k_waiting k). t \<le> now \<longrightarrow> Answer c 503 WLate \<in> set out) \<and>
         (on_callback call job f at_now k = (k2, out2) \<and> call \<notin> waiting_calls k \<and> call \<in> waiting_calls k2 \<longrightarrow>
            bt_get (k_waiting k2) call = Some (at_now + 20000))"
proof (intro conjI)
  show "\<forall>(c, t) \<in> set (k_waiting k). \<exists>w. next_wake k = Some w \<and> w \<le> t"
    using next_wake_waiting by blast
  have "bt_wf (k_waiting k)" using kernel_reach_inv [OF assms(1)] by (simp add: kernel_inv_def)
  with tick_accounted assms(2) show "\<forall>(c, t) \<in> set (k_waiting k'). now < t" by simp
  show "\<forall>(c, t) \<in> set (k_waiting k). t \<le> now \<longrightarrow> Answer c 503 WLate \<in> set out"
    using assms(2) by (force simp: on_tick_def Let_def case_prod_unfold)
  show "on_callback call job f at_now k = (k2, out2) \<and> call \<notin> waiting_calls k \<and> call \<in> waiting_calls k2 \<longrightarrow>
      bt_get (k_waiting k2) call = Some (at_now + 20000)"
    using callback_outcome [of call job f at_now k k2 out2]
    by (metis ANSWER_LIMIT_def bt_get_insert fun_upd_same)
qed

section \<open>One reconcile at a time, each after what asked for it\<close>

definition starts :: "action list \<Rightarrow> reconcile_id list" where
  "starts out = List.map_filter (\<lambda>a. case a of StartReconcile i \<Rightarrow> Some i | _ \<Rightarrow> None) out"

lemma starts_simps [simp]:
  "starts [] = []" "starts (a @ b) = starts a @ starts b"
  "starts (Answer c st w # out) = starts out"
  "starts (Held j h # out) = starts out" "starts (SendKeep j nf # out) = starts out"
  "starts (CloseStream j # out) = starts out" "starts (StartReconcile i # out) = i # starts out"
  "starts (ApplyShellExit j z # out) = starts out" "starts (Follow j n en # out) = starts out"
  "starts (ReadInThenFollow j n # out) = starts out" "starts (CloseFollow j # out) = starts out"
  by (simp_all add: starts_def List.map_filter_def)

lemma in_starts: "StartReconcile i \<in> set out \<longleftrightarrow> i \<in> set (starts out)"
proof (induction out)
  case (Cons a out)
  then show ?case by (cases a) auto
qed simp

lemma starts_map [simp]:
  "starts (map ((\<lambda>c. Answer c st w) \<circ> f) cs) = []" "starts (map ((\<lambda>j. Held j h) \<circ> g) js) = []"
  by (induction cs, simp_all, induction js, simp_all)

lemma starts_hand_over: "starts (snd (fold (hand_over l) es acc)) = starts (snd acc)"
proof (induction es arbitrary: acc)
  case (Cons e es)
  have "starts (snd (hand_over l e acc)) = starts (snd acc)"
    by (auto simp: hand_over_def Let_def split: prod.splits option.splits listed_job.splits)
  with Cons show ?case by simp
qed simp

lemma starts_answer_waiters: "starts (snd (answer_waiters st y cs w)) = []"
  by (induction st y cs w rule: answer_waiters.induct) (auto split: option.splits prod.splits)

fun event_time :: "event \<Rightarrow> millis option" where
  "event_time (Callback _ _ _ now) = Some now"
| "event_time (Tick now) = Some now"
| "event_time (StreamClosed _ _ _ now) = Some now"
| "event_time (EvUse now) = Some now"
| "event_time _ = None"

definition next_waiters :: "kernel \<Rightarrow> call_id set" where
  "next_waiters k = (case k_next k of None \<Rightarrow> {} | Some b \<Rightarrow> set (b_waiters b))"

text \<open>
  What a step does to the schedule: nothing new runs, and what runs goes on unless its own listing
  came; or, with none running and the spacing passed, the next one starts with who waited for it.
\<close>

definition sched_step :: "event \<Rightarrow> kernel \<Rightarrow> kernel \<Rightarrow> action list \<Rightarrow> bool" where
  "sched_step e k k' out \<longleftrightarrow>
     next_waiters k' \<subseteq> next_waiters k \<union> arrived e \<and>
     (starts out = [] \<and> k_next_reconcile k' = k_next_reconcile k \<and>
        (k_running k' = k_running k \<or>
         (\<exists>l t r. e = EvListed (run_id r) l t \<and> k_running k = Some r \<and> k_running k' = None)) \<or>
      starts out = [k_next_reconcile k] \<and> k_next_reconcile k' = Suc (k_next_reconcile k) \<and>
        k_running k = None \<and>
        (\<exists>r. k_running k' = Some r \<and> run_id r = k_next_reconcile k \<and>
             set (run_waiters r) \<subseteq> next_waiters k \<union> arrived e) \<and>
        (\<exists>now. event_time e = Some now \<and> (\<forall>t. k_last_end k = Some t \<longrightarrow> t + RECONCILE_SPACING \<le> now)))"

lemma sched_step_ms:
  assumes "maybe_start now q = (k', out')" and "starts out0 = []" and "event_time e = Some now"
    and "k_running q = k_running k" and "k_next_reconcile q = k_next_reconcile k"
    and "k_last_end q = k_last_end k" and "next_waiters q \<subseteq> next_waiters k \<union> arrived e"
  shows "sched_step e k k' (out0 @ out')"
  using assms
  by (cases rule: maybe_start_cases [of now q]) (auto simp: sched_step_def next_waiters_def)

lemma sched_step_quiet:
  "k_running k' = k_running k \<Longrightarrow> k_next_reconcile k' = k_next_reconcile k \<Longrightarrow>
   next_waiters k' \<subseteq> next_waiters k \<union> arrived e \<Longrightarrow> starts out = [] \<Longrightarrow> sched_step e k k' out"
  by (simp add: sched_step_def)

lemma next_waiters_cong: "k_next a = k_next b \<Longrightarrow> next_waiters a = next_waiters b"
  by (simp add: next_waiters_def)

lemma ask_urgent_waiters [simp]: "next_waiters (ask_urgent k) = next_waiters k"
  by (auto simp: next_waiters_def ask_urgent_def urgent_def batch_default_def split: option.splits)

lemma callback_sched:
  assumes "on_callback call job f now k = (k', out)"
  shows "sched_step (Callback call job f now) k k' out"
proof -
  let ?b = "urgent (case k_next k of Some b \<Rightarrow> b | None \<Rightarrow> batch_default)"
  let ?q = "k\<lparr>k_waiting := bt_insert call (now + ANSWER_LIMIT) (k_waiting k),
              k_next := Some (?b\<lparr>b_waiters := b_waiters ?b @ [call]\<rparr>)\<rparr>"
  have w: "next_waiters ?q \<subseteq> next_waiters k \<union> {call}"
    by (auto simp: next_waiters_def urgent_def batch_default_def split: option.splits)
  have "maybe_start now ?q = (k', out) \<or>
      k_running k' = k_running k \<and> k_next_reconcile k' = k_next_reconcile k \<and> k_next k' = k_next k \<and> starts out = []"
    using assms by (auto simp: on_callback_def release_def Let_def
        split: option.splits job_state.splits if_splits table_job.splits)
  then show ?thesis
  proof
    assume "maybe_start now ?q = (k', out)"
    from sched_step_ms [OF this, of "[]" "Callback call job f now" k] w show ?thesis by simp
  next
    assume "k_running k' = k_running k \<and> k_next_reconcile k' = k_next_reconcile k \<and>
      k_next k' = k_next k \<and> starts out = []"
    then show ?thesis by (intro sched_step_quiet) (auto simp: next_waiters_def)
  qed
qed

lemma listed_sched:
  assumes "on_listed i l now k = (k', out)"
  shows "sched_step (EvListed i l now) k k' out"
proof (cases "k_running k")
  case (Some r)
  show ?thesis
  proof (cases "run_id r = i")
    case True
    have "maybe_start now q = (q, [])" if "k_last_end q = Some now" for q
      using that by (cases rule: maybe_start_cases [of now q]) (auto simp: RECONCILE_SPACING_def)
    then have "k_running k' = None" "k_next_reconcile k' = k_next_reconcile k" "k_next k' = k_next k"
      "starts out = []"
      using assms Some True
      by (auto simp: on_listed_def Let_def case_prod_unfold starts_hand_over starts_answer_waiters split: if_splits)
    then show ?thesis using Some True by (auto simp: sched_step_def next_waiters_cong [of k' k])
  qed (use assms Some in \<open>simp add: on_listed_def sched_step_quiet\<close>)
qed (use assms in \<open>simp add: on_listed_def sched_step_quiet\<close>)

lemma step_sched:
  assumes "kernel_step e k = (k', out)"
  shows "sched_step e k k' out"
proof (cases e)
  case (Callback call job f now)
  then show ?thesis using assms callback_sched by simp
next
  case (EvListed i l now)
  then show ?thesis using assms listed_sched by simp
next
  case (Tick now)
  let ?late = "map fst (filter (\<lambda>(_, t). t \<le> now) (k_waiting k))"
  let ?closed = "map fst (filter (\<lambda>(_, s). case s of Proving _ (Some t) _ \<Rightarrow> t \<le> now | _ \<Rightarrow> False) (k_jobs k))"
  let ?q = "k\<lparr>k_waiting := fold bt_remove ?late (k_waiting k), k_jobs := fold bt_remove ?closed (k_jobs k)\<rparr>"
  obtain o1 where ms: "maybe_start now ?q = (k', o1)"
    and out: "out = (map (\<lambda>c. Answer c 503 WLate) ?late @ map (\<lambda>j. Held j HNoProof) ?closed) @ o1"
    using assms by (auto simp: Tick on_tick_def Let_def split: prod.splits)
  show ?thesis
    unfolding out by (rule sched_step_ms [OF ms]) (auto simp: Tick next_waiters_def)
next
  case (KeepAnswered job outcome now)
  then show ?thesis
    using assms by (intro sched_step_quiet) (auto simp: on_keep_answered_def release_def Let_def next_waiters_def
        split: option.splits job_state.splits keep_outcome.splits if_splits)
next
  case (StreamClosed job off seen now)
  show ?thesis
  proof (cases "bt_get (k_jobs k) job = Some Closing")
    case True
    let ?q = "ask_urgent (k\<lparr>k_jobs := bt_insert job (Unheld off seen) (k_jobs k)\<rparr>)"
    have "maybe_start now ?q = (k', out)" using assms True by (simp add: StreamClosed)
    moreover have "next_waiters ?q = next_waiters k"
      unfolding ask_urgent_waiters by (simp add: next_waiters_def)
    ultimately show ?thesis using sched_step_ms [of now ?q k' out "[]" e k] by (simp add: StreamClosed)
  qed (use assms in \<open>simp add: StreamClosed sched_step_quiet\<close>)
next
  case (EvUse now)
  show ?thesis
  proof (cases "has_unheld k \<and> k_running k = None \<and> k_next k = None")
    case True
    then obtain nb where "maybe_start now (k\<lparr>k_next := Some \<lparr>b_waiters = [], not_before = nb\<rparr>\<rparr>) = (k', out)"
      using assms by (auto simp: EvUse on_use_def Let_def)
    from sched_step_ms [OF this, of "[]" e k] show ?thesis by (simp add: EvUse next_waiters_def)
  next
    case False
    with assms show ?thesis
      by (intro sched_step_quiet) (auto simp: EvUse on_use_def split: if_splits)
  qed
qed (use assms in \<open>auto intro!: sched_step_quiet simp: on_kept_def next_waiters_def
      split: option.splits job_state.splits if_splits\<close>)

definition all_starts :: "(event \<times> action list) list \<Rightarrow> reconcile_id list" where
  "all_starts lg = concat (map (\<lambda>(_, out). starts out) lg)"

lemma all_starts_simps [simp]:
  "all_starts [] = []" "all_starts (lg @ [(e, out)]) = all_starts lg @ starts out"
  by (simp_all add: all_starts_def)

text \<open>
  One reconcile at a time, spaced. Over a session's life reconciles start in the order of their
  numbers, each once; one starts only while none runs and at least a second after the last ended; and
  one that runs is ended by nothing but its own listing.
\<close>

theorem reconcile_discipline:
  assumes "kernel_reach lg k" and "kernel_step e k = (k', out)"
  shows "all_starts lg = [0..<k_next_reconcile k] \<and>
         (StartReconcile i \<in> set out \<longrightarrow> i = k_next_reconcile k \<and> k_running k = None \<and>
            (\<exists>now. event_time e = Some now \<and> (\<forall>t. k_last_end k = Some t \<longrightarrow> t + 1000 \<le> now))) \<and>
         (\<forall>r. k_running k = Some r \<and> k_running k' \<noteq> Some r \<longrightarrow>
            (\<exists>l t. e = EvListed (run_id r) l t) \<and> k_running k' = None \<and> starts out = [])"
proof (intro conjI)
  show "all_starts lg = [0..<k_next_reconcile k]"
    using assms(1)
  proof (induction rule: kernel_reach.induct)
    case (reach_step lg k e k' out)
    from step_sched [OF reach_step.hyps(2)] reach_step.IH show ?case by (auto simp: sched_step_def)
  qed (simp add: kernel_new_def)
  show "StartReconcile i \<in> set out \<longrightarrow> i = k_next_reconcile k \<and> k_running k = None \<and>
      (\<exists>now. event_time e = Some now \<and> (\<forall>t. k_last_end k = Some t \<longrightarrow> t + 1000 \<le> now))"
    using step_sched [OF assms(2)] by (auto simp: in_starts sched_step_def RECONCILE_SPACING_def)
  show "\<forall>r. k_running k = Some r \<and> k_running k' \<noteq> Some r \<longrightarrow>
      (\<exists>l t. e = EvListed (run_id r) l t) \<and> k_running k' = None \<and> starts out = []"
    using step_sched [OF assms(2)] by (auto simp: sched_step_def)
qed

lemma waiters_called:
  assumes "kernel_reach lg k"
  shows "next_waiters k \<subseteq> set (calls lg) \<and>
    (\<forall>r. k_running k = Some r \<longrightarrow> (\<exists>lg1 e out lg2. lg = lg1 @ (e, out) # lg2 \<and>
       StartReconcile (run_id r) \<in> set out \<and> set (run_waiters r) \<subseteq> set (calls (lg1 @ [(e, out)]))))"
  using assms
proof (induction rule: kernel_reach.induct)
  case (reach_step lg k e k' out)
  note st = step_sched [OF reach_step.hyps(2), unfolded sched_step_def]
  have "next_waiters k' \<subseteq> set (calls (lg @ [(e, out)]))"
    using st reach_step.IH unfolding calls_snoc by blast
  moreover have "\<exists>lg1 e' out' lg2. lg @ [(e, out)] = lg1 @ (e', out') # lg2 \<and>
      StartReconcile (run_id r) \<in> set out' \<and> set (run_waiters r) \<subseteq> set (calls (lg1 @ [(e', out')]))"
    if r: "k_running k' = Some r" for r
  proof (cases "k_running k = Some r")
    case True
    with reach_step.IH obtain lg1 e1 out1 lg2 where "lg = lg1 @ (e1, out1) # lg2"
      "StartReconcile (run_id r) \<in> set out1" "set (run_waiters r) \<subseteq> set (calls (lg1 @ [(e1, out1)]))" by blast
    then show ?thesis by (intro exI [of _ lg1] exI [of _ e1] exI [of _ out1] exI [of _ "lg2 @ [(e, out)]"]) simp
  next
    case False
    with st r have s: "starts out = [run_id r]" "set (run_waiters r) \<subseteq> next_waiters k \<union> arrived e" by auto
    have "StartReconcile (run_id r) \<in> set out" by (simp add: in_starts s(1))
    moreover have "set (run_waiters r) \<subseteq> set (calls (lg @ [(e, out)]))"
      using s(2) reach_step.IH unfolding calls_snoc by blast
    ultimately show ?thesis by blast
  qed
  ultimately show ?case by blast
qed (simp add: next_waiters_def kernel_new_def)

text \<open>
  A callback answered from a listing was answered by a fresh one. When a listing's arrival
  answers a callback, the reconcile that listed was started no earlier than the step in which the
  callback arrived, so the listing cannot predate the end the callback announced.
\<close>

theorem listing_answers_are_fresh:
  assumes "kernel_reach lg k" and "kernel_step (EvListed i l now) k = (k', out)"
    and "Answer c st w \<in> set out"
  shows "(\<exists>lg1 e out1 lg2. lg = lg1 @ (e, out1) # lg2 \<and> StartReconcile i \<in> set out1 \<and>
            c \<in> set (calls (lg1 @ [(e, out1)]))) \<and> c \<in> waiting_calls k"
proof -
  from assms(3) have c: "c \<in> set (answers out)"
  proof (induction out)
    case (Cons a out)
    then show ?case by (cases a) auto
  qed simp
  from step_accounted [OF assms(2) kernel_reach_inv [OF assms(1)]]
  have wk: "c \<in> waiting_calls k" using c unfolding accounted_def by auto
  obtain r where r: "k_running k = Some r" "run_id r = i"
    using assms(2) c by (auto simp: on_listed_def split: option.splits if_splits)
  obtain v ans where aw: "answer_waiters (if l \<noteq> None then 200 else 503) (if l \<noteq> None then WListed else WUnlisted)
      (run_waiters r) (k_waiting k) = (v, ans)" by fastforce
  have "answers out = answers ans"
    using assms(2) r aw by (auto simp: on_listed_def Let_def case_prod_unfold answers_hand_over split: if_splits)
  with answer_waiters_answers [OF aw] c have "c \<in> set (run_waiters r)" by auto
  with waiters_called [OF assms(1)] r wk show ?thesis by blast
qed

section \<open>Release, hand-over, wake-up\<close>





text \<open>What a listing makes of one unheld job: its next state, if any, and what is done.\<close>

definition hand_effect ::
  "(string, listed_job) btree option \<Rightarrow> string \<Rightarrow> nat \<Rightarrow> bool \<Rightarrow> job_state option \<times> action list" where
  "hand_effect listing job off seen =
     (case map_option (\<lambda>l. bt_get l job) listing of
        Some (Some LRunning) \<Rightarrow> (Some (Unheld off seen), [])
      | Some (Some (LExited code)) \<Rightarrow>
          (Some (Unheld off True), if seen then [] else [ApplyShellExit job code])
      | Some (Some (LEnded code t)) \<Rightarrow> (None, [Follow job off (Some \<lparr>end_code = Some code, end_at = t\<rparr>)])
      | Some (Some (LLost t)) \<Rightarrow> (None, [Follow job off (Some \<lparr>end_code = None, end_at = t\<rparr>)])
      | _ \<Rightarrow> (None, [Follow job off None]))"

lemma hand_over_effect:
  assumes "bt_get jobs job = Some (Unheld off seen)" and "hand_over l (job, off, seen) (jobs, out) = (jobs', out')"
  shows "bt_get jobs' = (bt_get jobs)(job := fst (hand_effect l job off seen)) \<and>
         out' = out @ snd (hand_effect l job off seen)"
  using assms
  by (auto simp: hand_over_def hand_effect_def Let_def fun_eq_iff
      split: option.splits listed_job.splits if_splits)

lemma fold_hand_over_effect:
  assumes "distinct (map fst es)" and "\<forall>(j, off, seen) \<in> set es. bt_get jobs j = Some (Unheld off seen)"
    and "fold (hand_over l) es (jobs, out) = (jobs', out')"
  shows "(\<forall>j. bt_get jobs' j = (case map_of es j of
            Some (off, seen) \<Rightarrow> fst (hand_effect l j off seen) | None \<Rightarrow> bt_get jobs j)) \<and>
         out' = out @ concat (map (\<lambda>(j, off, seen). snd (hand_effect l j off seen)) es)"
  using assms
proof (induction es arbitrary: jobs out)
  case (Cons e es)
  obtain j off seen where e: "e = (j, off, seen)" by (cases e)
  obtain j1 o1 where h: "hand_over l (j, off, seen) (jobs, out) = (j1, o1)" by fastforce
  have get: "bt_get jobs j = Some (Unheld off seen)" using Cons.prems(2) e by auto
  note eff = hand_over_effect [OF get h]
  have j: "j \<notin> fst ` set es" and d: "distinct (map fst es)" using Cons.prems(1) e by auto
  have "bt_get j1 a = Some (Unheld b c)" if "(a, b, c) \<in> set es" for a b c
  proof -
    have "a \<noteq> j" using that j by force
    with eff Cons.prems(2) that show ?thesis by auto
  qed
  then have "\<forall>(a, b, c) \<in> set es. bt_get j1 a = Some (Unheld b c)" by auto
  from Cons.IH [OF d this, of o1] Cons.prems(3) e h
  have IH: "(\<forall>x. bt_get jobs' x = (case map_of es x of Some (off, seen) \<Rightarrow> fst (hand_effect l x off seen)
        | None \<Rightarrow> bt_get j1 x))"
    "out' = o1 @ concat (map (\<lambda>(j, off, seen). snd (hand_effect l j off seen)) es)" by simp_all
  have "map_of es j = None" using j by (simp add: map_of_eq_None_iff)
  with IH eff show ?case by (auto simp: e split: option.splits)
qed simp

lemma unheld_jobs_simps [simp]:
  "unheld_jobs [] = []"
  "unheld_jobs ((j, Unheld off seen) # m) = (j, off, seen) # unheld_jobs m"
  "unheld_jobs ((j, Proving ks wu pr) # m) = unheld_jobs m"
  "unheld_jobs ((j, Closing) # m) = unheld_jobs m"
  "unheld_jobs ((j, TakenState off seen) # m) = unheld_jobs m"
  by (simp_all add: unheld_jobs_def List.map_filter_def)

lemma unheld_jobs_keys: "fst ` set (unheld_jobs m) \<subseteq> fst ` set m"
proof (induction m)
  case (Cons a m)
  then show ?case by (cases a; cases "snd a") auto
qed simp

lemma unheld_jobs_spec:
  assumes "distinct (map fst m)"
  shows "distinct (map fst (unheld_jobs m)) \<and>
         map_of (unheld_jobs m) j = (case bt_get m j of Some (Unheld off seen) \<Rightarrow> Some (off, seen) | _ \<Rightarrow> None)"
  using assms
proof (induction m)
  case (Cons a m)
  obtain j' s where a: "a = (j', s)" by (cases a)
  have "j' \<notin> fst ` set (unheld_jobs m)" using Cons.prems a unheld_jobs_keys [of m] by auto
  moreover have "bt_get m j' = None" using Cons.prems a by (simp add: map_of_eq_None_iff)
  moreover have IH: "distinct (map fst (unheld_jobs m))"
    "map_of (unheld_jobs m) j = (case bt_get m j of Some (Unheld off seen) \<Rightarrow> Some (off, seen) | _ \<Rightarrow> None)"
    using Cons by auto
  ultimately show ?case by (cases s; cases "j = j'") (simp_all add: a)
qed simp

text \<open>
  An unheld job's end is never overlooked. When the running reconcile's listing arrives, on the
  transcript it began on, each unheld job is treated by what was listed of it: running, it stays;
  its shell exited, that is applied once and it stays; ended or lost, it is handed to a follow from
  its offset with the listed end; missing, or not listed because listing failed, it is handed to a
  follow without one. Jobs in any other state are untouched.
\<close>

theorem listing_hands_over:
  assumes "kernel_reach lg k" and "k_running k = Some r" and "run_transcript r = k_transcript k"
    and "kernel_step (EvListed (run_id r) l now) k = (k', out)"
  shows "bt_get (k_jobs k') j =
           (case bt_get (k_jobs k) j of
              Some (Unheld off seen) \<Rightarrow> fst (hand_effect l j off seen) | s \<Rightarrow> s) \<and>
         (bt_get (k_jobs k) j = Some (Unheld off seen) \<longrightarrow> set (snd (hand_effect l j off seen)) \<subseteq> set out)"
proof -
  have wf: "bt_wf (k_jobs k)" using kernel_reach_inv [OF assms(1)] by (simp add: kernel_inv_def)
  note un = unheld_jobs_spec [OF bt_wf_distinct [OF wf]]
  obtain jobs o1 where f: "fold (hand_over l) (unheld_jobs (k_jobs k)) (k_jobs k, []) = (jobs, o1)" by fastforce
  have "\<forall>(a, b, c) \<in> set (unheld_jobs (k_jobs k)). bt_get (k_jobs k) a = Some (Unheld b c)"
  proof safe
    fix a b c assume "(a, b, c) \<in> set (unheld_jobs (k_jobs k))"
    moreover have "distinct (map fst (unheld_jobs (k_jobs k)))" using un by blast
    ultimately have "map_of (unheld_jobs (k_jobs k)) a = Some (b, c)" by (simp only: map_of_is_SomeI)
    with un [of a] show "bt_get (k_jobs k) a = Some (Unheld b c)"
      by (auto split: option.splits job_state.splits)
  qed
  from fold_hand_over_effect [OF _ this f] un
  have eff: "bt_get jobs j = (case map_of (unheld_jobs (k_jobs k)) j of
        Some (off, seen) \<Rightarrow> fst (hand_effect l j off seen) | None \<Rightarrow> bt_get (k_jobs k) j)"
    and o1: "o1 = concat (map (\<lambda>(j, off, seen). snd (hand_effect l j off seen)) (unheld_jobs (k_jobs k)))"
    by auto
  have k': "k_jobs k' = jobs" and out: "set o1 \<subseteq> set out"
    using assms(2,3,4) f by (auto simp: on_listed_def Let_def case_prod_unfold)
  have "set (snd (hand_effect l j off seen)) \<subseteq> set out" if "bt_get (k_jobs k) j = Some (Unheld off seen)"
  proof -
    have "map_of (unheld_jobs (k_jobs k)) j = Some (off, seen)" using un [of j] that by simp
    then have "(j, off, seen) \<in> set (unheld_jobs (k_jobs k))" by (rule map_of_SomeD)
    then show ?thesis using out o1 by fastforce
  qed
  moreover have "bt_get (k_jobs k') j = (case bt_get (k_jobs k) j of
      Some (Unheld off seen) \<Rightarrow> fst (hand_effect l j off seen) | s \<Rightarrow> s)"
    using un [of j] eff by (simp add: k' split: option.splits job_state.splits)
  ultimately show ?thesis by blast
qed

text \<open>
  A reconcile that was asked for is never forgotten. In every reachable state where one is asked
  for and none runs, there is a wake-up time, and reporting any time from the earliest start on
  starts it; and a use of the sandbox while a job is unheld leaves one running or asked for, as does
  a release whose stream has closed.
\<close>

theorem asked_reconcile_starts:
  assumes "kernel_reach lg k"
  shows "(k_running k = None \<and> k_next k = Some b \<longrightarrow>
            (\<exists>t0 w. next_wake k = Some w \<and> w \<le> t0 \<and>
               (\<forall>now \<ge> t0. StartReconcile (k_next_reconcile k) \<in> set (snd (kernel_step (Tick now) k))))) \<and>
         (has_unheld k \<longrightarrow> (let k' = fst (kernel_step (EvUse now) k) in k_running k' \<noteq> None \<or> k_next k' \<noteq> None)) \<and>
         (bt_get (k_jobs k) job = Some Closing \<longrightarrow>
            (let k' = fst (kernel_step (StreamClosed job off seen now) k)
             in bt_get (k_jobs k') job = Some (Unheld off seen) \<and> (k_running k' \<noteq> None \<or> k_next k' \<noteq> None)))"
proof (intro conjI impI)
  have left: "k_running (fst (maybe_start now q)) \<noteq> None \<or> k_next (fst (maybe_start now q)) \<noteq> None"
    if "k_next q \<noteq> None" for now q
    using that by (cases rule: maybe_start_cases [of now q]) auto
  show "let k' = fst (kernel_step (EvUse now) k) in k_running k' \<noteq> None \<or> k_next k' \<noteq> None"
    if "has_unheld k"
    using that left by (auto simp: on_use_def Let_def)
  show "let k' = fst (kernel_step (StreamClosed job off seen now) k)
      in bt_get (k_jobs k') job = Some (Unheld off seen) \<and> (k_running k' \<noteq> None \<or> k_next k' \<noteq> None)"
    if "bt_get (k_jobs k) job = Some Closing"
    using that left by (simp add: Let_def ask_urgent_def)
  assume a: "k_running k = None \<and> k_next k = Some b"
  then obtain e where e: "k_last_end k = Some e"
    using kernel_reach_inv [OF assms] by (auto simp: kernel_inv_def)
  let ?t0 = "max (e + RECONCILE_SPACING) (case not_before b of Some t \<Rightarrow> t | None \<Rightarrow> 0)"
  obtain w where w: "next_wake k = Some w" "w \<le> ?t0"
  proof -
    obtain A B where "next_wake k = min_opt (A @ B @ [?t0])" using a e by (simp add: next_wake_def Let_def)
    with min_opt_le [of ?t0 "A @ B @ [?t0]"] that show ?thesis by auto
  qed
  have "StartReconcile (k_next_reconcile k) \<in> set (snd (kernel_step (Tick now) k))" if "?t0 \<le> now" for now
    using that a e by (auto simp: on_tick_def maybe_start_def Let_def case_prod_unfold split: option.splits)
  with w show "\<exists>t0 w. next_wake k = Some w \<and> w \<le> t0 \<and>
      (\<forall>now \<ge> t0. StartReconcile (k_next_reconcile k) \<in> set (snd (kernel_step (Tick now) k)))"
    by blast
qed

section \<open>A session, run\<close>

text \<open>
  A job is kept with notify, its keep succeeds, its proof comes, its stream closes (a reconcile
  starts), and a callback for it arrives while that one runs.
\<close>

definition demo_facts :: facts where
  "demo_facts = \<lparr>open_reconcile_done = True, facts_job = TableRunning\<rparr>"

definition demo_events :: "event list" where
  "demo_events = [Kept ''j'' True False, KeepAnswered ''j'' KeepSucceeded 10, Callback 1 ''j'' demo_facts 20,
     StreamClosed ''j'' 3 False 30, Callback 2 ''j'' demo_facts 40, EvListed 0 (Some []) 50]"

fun kernel_log :: "event list \<Rightarrow> kernel \<Rightarrow> (event \<times> action list) list \<times> kernel" where
  "kernel_log [] k = ([], k)"
| "kernel_log (e # es) k =
     (let (k1, out) = kernel_step e k; (lg, k2) = kernel_log es k1 in ((e, out) # lg, k2))"

lemma kernel_log_reach: "kernel_reach lg k \<Longrightarrow> kernel_log es k = (lg', k') \<Longrightarrow> kernel_reach (lg @ lg') k'"
proof (induction es arbitrary: lg k lg')
  case (Cons e es)
  obtain k1 out where s: "kernel_step e k = (k1, out)" by fastforce
  obtain lg2 where r: "kernel_log es k1 = (lg2, k')" using Cons.prems(2) s by (auto split: prod.splits)
  from Cons.IH [OF reach_step [OF Cons.prems(1) s] r] Cons.prems(2) s r show ?case by simp
qed simp

lemma demo_reach_n: "kernel_reach (fst (kernel_log es kernel_new)) (snd (kernel_log es kernel_new))"
  using kernel_log_reach [OF reach_new, of es] by (cases "kernel_log es kernel_new") simp

lemma demo_logs:
  "kernel_log (take 5 demo_events) kernel_new =
     ([(Kept ''j'' True False, [SendKeep ''j'' True]), (KeepAnswered ''j'' KeepSucceeded 10, []),
       (Callback 1 ''j'' demo_facts 20, [CloseStream ''j'', Answer 1 200 WProof]),
       (StreamClosed ''j'' 3 False 30, [StartReconcile 0]), (Callback 2 ''j'' demo_facts 40, [])],
      \<lparr>k_jobs = [(''j'', Unheld 3 False)], k_waiting = [(2, 20040)],
       k_running = Some \<lparr>run_id = 0, run_transcript = 0, run_waiters = []\<rparr>,
       k_next = Some \<lparr>b_waiters = [2], not_before = None\<rparr>, k_last_end = None,
       k_next_reconcile = 1, k_transcript = 0\<rparr>)"
  by (simp add: demo_events_def demo_facts_def kernel_new_def on_kept_def on_keep_answered_def on_callback_def
      release_def maybe_start_def ask_urgent_def urgent_def batch_default_def MAX_WAITING_def
      PROOF_WINDOW_def ANSWER_LIMIT_def)

abbreviation demo_log5 :: "(event \<times> action list) list" where
  "demo_log5 \<equiv> fst (kernel_log (take 5 demo_events) kernel_new)"

abbreviation demo_k5 :: kernel where
  "demo_k5 \<equiv> snd (kernel_log (take 5 demo_events) kernel_new)"

theorem callbacks_answered_once_witness:
  "distinct (calls demo_log5) \<and> distinct (all_answers demo_log5) \<and>
   {1, 2} \<subseteq> set (all_answers demo_log5) \<union> waiting_calls demo_k5"
  using callbacks_answered_once [OF demo_reach_n, of "take 5 demo_events"]
  by (simp add: demo_logs calls_def List.map_filter_def hung_up_def all_answers_def)

theorem callbacks_answered_in_time_witness:
  "Answer 2 503 WLate \<in> set (snd (kernel_step (Tick 20040) demo_k5)) \<and>
   (\<exists>w. next_wake demo_k5 = Some w \<and> w \<le> 20040)"
proof -
  obtain k' out where s: "kernel_step (Tick 20040) demo_k5 = (k', out)" by fastforce
  from callbacks_answered_in_time [OF demo_reach_n s] s show ?thesis by (simp add: demo_logs)
qed

theorem reconcile_discipline_witness:
  "all_starts demo_log5 = [0..<k_next_reconcile demo_k5] \<and> k_next_reconcile demo_k5 = 1"
proof -
  obtain k' out where s: "kernel_step (Tick 41) demo_k5 = (k', out)" by fastforce
  from reconcile_discipline [OF demo_reach_n s] show ?thesis by (simp add: demo_logs)
qed

text \<open>The first reconcile is listed, the second starts with the callback waiting on it.\<close>

definition demo_events8 :: "event list" where
  "demo_events8 = take 5 demo_events @ [EvListed 0 (Some [(''j'', LRunning)]) 50, Tick 1050]"

lemma demo_log8:
  "kernel_log demo_events8 kernel_new =
     (demo_log5 @ [(EvListed 0 (Some [(''j'', LRunning)]) 50, []), (Tick 1050, [StartReconcile 1])],
      \<lparr>k_jobs = [(''j'', Unheld 3 False)], k_waiting = [(2, 20040)],
       k_running = Some \<lparr>run_id = 1, run_transcript = 0, run_waiters = [2]\<rparr>,
       k_next = None, k_last_end = Some 50, k_next_reconcile = 2, k_transcript = 0\<rparr>)"
  by (simp add: demo_events8_def demo_events_def demo_facts_def kernel_new_def on_kept_def on_keep_answered_def
      on_callback_def release_def maybe_start_def ask_urgent_def urgent_def batch_default_def MAX_WAITING_def
      PROOF_WINDOW_def ANSWER_LIMIT_def on_listed_def on_tick_def unheld_jobs_def List.map_filter_def
      hand_over_def RECONCILE_SPACING_def)

theorem listing_answers_are_fresh_witness:
  "Answer 2 200 WListed \<in> set (snd (kernel_step (EvListed 1 (Some []) 1100) (snd (kernel_log demo_events8 kernel_new)))) \<and>
   (\<exists>lg1 e out1 lg2. fst (kernel_log demo_events8 kernel_new) = lg1 @ (e, out1) # lg2 \<and>
      StartReconcile 1 \<in> set out1 \<and> 2 \<in> set (calls (lg1 @ [(e, out1)])))"
proof -
  let ?k = "snd (kernel_log demo_events8 kernel_new)"
  obtain k' out where s: "kernel_step (EvListed 1 (Some []) 1100) ?k = (k', out)" by fastforce
  then have a: "Answer 2 200 WListed \<in> set out"
    by (auto simp: demo_log8 on_listed_def Let_def case_prod_unfold)
  from listing_answers_are_fresh [OF demo_reach_n s a] s a show ?thesis by simp
qed

theorem listing_hands_over_witness:
  "bt_get (k_jobs (fst (kernel_step (EvListed 1 (Some []) 1100) (snd (kernel_log demo_events8 kernel_new))))) ''j'' = None \<and>
   Follow ''j'' 3 None \<in> set (snd (kernel_step (EvListed 1 (Some []) 1100) (snd (kernel_log demo_events8 kernel_new))))"
proof -
  let ?k = "snd (kernel_log demo_events8 kernel_new)"
  let ?r = "\<lparr>run_id = 1, run_transcript = 0, run_waiters = [2]\<rparr> :: running_rec"
  obtain k' out where s: "kernel_step (EvListed (run_id ?r) (Some []) 1100) ?k = (k', out)" by fastforce
  have r: "k_running ?k = Some ?r" "run_transcript ?r = k_transcript ?k" by (simp_all add: demo_log8)
  from listing_hands_over [OF demo_reach_n r s, of "''j''" 3 False] s show ?thesis
    by (simp add: demo_log8 hand_effect_def)
qed


theorem asked_reconcile_starts_witness:
  "has_unheld demo_k5 \<and> (let k' = fst (kernel_step (EvUse 60) demo_k5) in k_running k' \<noteq> None \<or> k_next k' \<noteq> None)"
proof -
  have u: "has_unheld demo_k5" by (simp add: demo_logs has_unheld_def is_unheld_def)
  with asked_reconcile_starts [OF demo_reach_n, of "take 5 demo_events"] show ?thesis by blast
qed

end
