(* ===== verification/Pricing.thy ===== *)
theory Pricing
  imports Rust_Std "HOL-Library.Char_ord" "HOL-Library.List_Lexorder"
begin

text \<open>
  The reference pricer, \<^verbatim>\<open>providers/src/pricing.rs\<close>, and the types of the rate tables it reads,
  \<^verbatim>\<open>providers/src/rates.rs\<close>. One usage row in; what is owed to the vendor and what is charged to the
  customer out, in integer micro-dollars. The generated table (\<^verbatim>\<open>ROW_RATES\<close> and the credit fee) is
  the parameter \<open>tables\<close>. An amount is a \<^verbatim>\<open>u64\<close> or a \<^verbatim>\<open>u128\<close> as a natural number, with the checked
  operations of the source; a refusal is \<open>Inl\<close> of the reason.

  Proved: a priced side is the exact rational cost of the row's tokens and tool calls, rounded once,
  half up, and its parts are each within a micro-dollar and together within three of it; a sane row
  never overflows; every prompt token is billed in exactly one bucket on either wire; the
  fallback of a row with no reported cost is the dearest endpoint that could have served it; a
  reported cost is read exactly; the table lookup is the search it stands for.
\<close>

section \<open>Results and checked arithmetic\<close>

abbreviation U128_MAX :: nat where "U128_MAX \<equiv> 340282366920938463463374607431768211455"

fun bind_res :: "'e + 'a \<Rightarrow> ('a \<Rightarrow> 'e + 'b) \<Rightarrow> 'e + 'b" where
  "bind_res (Inl e) f = Inl e"
| "bind_res (Inr a) f = f a"

fun ok_or :: "'e \<Rightarrow> 'a option \<Rightarrow> 'e + 'a" where
  "ok_or e None = Inl e"
| "ok_or e (Some a) = Inr a"

lemma bind_res_Inr [simp]: "bind_res x f = Inr b \<longleftrightarrow> (\<exists>a. x = Inr a \<and> f a = Inr b)"
  by (cases x) auto

lemma ok_or_Inr [simp]: "ok_or e x = Inr a \<longleftrightarrow> x = Some a"
  by (cases x) auto

lemma bind_res_Inl [simp]: "bind_res x f = Inl e \<longleftrightarrow> x = Inl e \<or> (\<exists>a. x = Inr a \<and> f a = Inl e)"
  by (cases x) auto

lemma ok_or_Inl [simp]: "ok_or e x = Inl e' \<longleftrightarrow> x = None \<and> e' = e"
  by (cases x) auto

section \<open>Rates\<close>

text \<open>
  A rate is micro-dollars per million tokens. \<open>usd\<close> reads a decimal; \<open>None\<close> is a failed assertion or
  an overflow, which stops the build.
\<close>

record usd_acc =
  ua_whole :: u64
  ua_frac :: u64
  ua_digits :: nat
  ua_point :: bool

fun usd_scan :: "string \<Rightarrow> usd_acc \<Rightarrow> usd_acc option" where
  "usd_scan [] a = Some a"
| "usd_scan (c # s) a =
     (if c = CHR ''.''
      then (if ua_point a then None else usd_scan s (a\<lparr>ua_point := True\<rparr>))
      else if \<not> is_ascii_digit c then None
      else let d = byte c - 48 in
        if ua_point a
        then (if U64_MAX < ua_frac a * 10 + d \<or> 6 < ua_digits a + 1 then None
              else usd_scan s (a\<lparr>ua_frac := ua_frac a * 10 + d, ua_digits := ua_digits a + 1\<rparr>))
        else (if U64_MAX < ua_whole a * 10 + d then None
              else usd_scan s (a\<lparr>ua_whole := ua_whole a * 10 + d\<rparr>)))"

definition usd :: "string \<Rightarrow> u64 option" where
  "usd s =
     (if s = [] then None
      else case usd_scan s \<lparr>ua_whole = 0, ua_frac = 0, ua_digits = 0, ua_point = False\<rparr> of
        None \<Rightarrow> None
      | Some a \<Rightarrow>
          (let frac = ua_frac a * 10 ^ (6 - ua_digits a)
           in if ua_whole a * 1000000 + frac \<le> U64_MAX then Some (ua_whole a * 1000000 + frac) else None))"

definition ONE :: nat where "ONE = 10000"

record token_rates =
  tr_input :: u64
  tr_output :: u64
  tr_cache_read :: u64
  tr_cache_write_5m :: u64
  tr_cache_write_1h :: "u64 option"

datatype service_class = CStandard | CFast | CUltrafast | CFlex | COffPeak

record long_context =
  lc_threshold :: u64
  lc_inclusive :: bool

record off_peak =
  op_peak :: "(u16 \<times> u16) list"
  op_weekdays_only :: bool
  op_holidays :: "u32 list"
  op_covered_from :: u32
  op_covered_until :: u32
  op_rates :: token_rates

definition op_contains :: "off_peak \<Rightarrow> u64 \<Rightarrow> bool option" where
  "op_contains op unix_secs =
     (let day = unix_secs div 86400;
          minute = (unix_secs mod 86400) div 60;
          weekday = (day + 3) mod 7
      in if op_weekdays_only op \<and> 5 \<le> weekday then Some True
         else if \<not> list_ex (\<lambda>(s, e). s \<le> minute \<and> minute < e) (op_peak op) then Some True
         else if U32_MAX < day then None
         else if day < op_covered_from op \<or> op_covered_until op < day then None
         else Some (List.member (op_holidays op) day))"

section \<open>What a row says\<close>

datatype tier = TStandard | TDefault | TPriority | TUltrafast | TFlex | TUnknown

definition tier_parse :: "string \<Rightarrow> tier" where
  "tier_parse s =
     (if s = ''standard'' then TStandard
      else if s = ''default'' \<or> s = ''on_demand'' \<or> s = ''auto'' \<or> s = ''asap'' then TDefault
      else if s = ''priority'' \<or> s = ''fast'' then TPriority
      else if s = ''ultrafast'' then TUltrafast
      else if s = ''flex'' then TFlex
      else TUnknown)"

datatype speed = SpStandard | SpFast | SpUnknown

definition speed_parse :: "string \<Rightarrow> speed" where
  "speed_parse s = (if s = ''standard'' then SpStandard else if s = ''fast'' then SpFast else SpUnknown)"

datatype geo = GGlobal | GUs | GUnknown

definition geo_parse :: "string \<Rightarrow> geo" where
  "geo_parse s =
     (if s = ''global'' \<or> s = ''not_available'' then GGlobal
      else if s = ''us'' then GUs else GUnknown)"

datatype tool =
    WebSearch | WebSearchPreview | WebSearchPage | WebFetch | CodeExecution | FileSearch
  | ImageGeneration | ComputerUse | Mcp | Shell | ToolSearch | XSearch | XPosts | XUsers
  | DocumentSearch | Sources | ToolCalls

definition TOOL_ALL :: "tool list" where
  "TOOL_ALL =
     [WebSearch, WebSearchPreview, WebSearchPage, WebFetch, CodeExecution, FileSearch,
      ImageGeneration, ComputerUse, Mcp, Shell, ToolSearch, XSearch, XPosts, XUsers,
      DocumentSearch, Sources, ToolCalls]"

fun tool_str :: "tool \<Rightarrow> string" where
  "tool_str WebSearch = ''web_search''"
| "tool_str WebSearchPreview = ''web_search_preview''"
| "tool_str WebSearchPage = ''web_search_page''"
| "tool_str WebFetch = ''web_fetch''"
| "tool_str CodeExecution = ''code_execution''"
| "tool_str FileSearch = ''file_search''"
| "tool_str ImageGeneration = ''image_generation''"
| "tool_str ComputerUse = ''computer_use''"
| "tool_str Mcp = ''mcp''"
| "tool_str Shell = ''shell''"
| "tool_str ToolSearch = ''tool_search''"
| "tool_str XSearch = ''x_search''"
| "tool_str XPosts = ''x_posts''"
| "tool_str XUsers = ''x_users''"
| "tool_str DocumentSearch = ''document_search''"
| "tool_str Sources = ''sources''"
| "tool_str ToolCalls = ''tool_calls''"

definition tool_parse :: "string \<Rightarrow> tool option" where
  "tool_parse s = List.find (\<lambda>t. tool_str t = s) TOOL_ALL"

datatype unpriced =
    NoPriceModel | UnknownModel | UnknownProvider | NotACandidate | Unverified | UnknownVariant
  | UnknownClass | UnknownGeo | NoRate | NoToolFee | UnknownTool | InconsistentTokens
  | BadReportedCost | UnknownHost | UnknownCalendar | Overflow

text \<open>The counts are an array with one cell per kind.\<close>

type_synonym tool_counts = "tool \<Rightarrow> u64"

definition counts_new :: tool_counts where
  "counts_new = (\<lambda>_. 0)"

fun counts_pairs :: "string list \<Rightarrow> tool_counts \<Rightarrow> unpriced + tool_counts" where
  "counts_pairs [] out = Inr out"
| "counts_pairs (pair # ps) out =
     bind_res (ok_or UnknownTool (split_once ''='' pair)) (\<lambda>(k, n).
     bind_res (ok_or UnknownTool (tool_parse k)) (\<lambda>t.
     bind_res (ok_or UnknownTool (parse_uint U64_MAX n)) (\<lambda>v.
       counts_pairs ps (out(t := v)))))"

definition counts_parse :: "string \<Rightarrow> unpriced + tool_counts" where
  "counts_parse s = counts_pairs (filter (\<lambda>p. p \<noteq> []) (split_char CHR '','' s)) counts_new"

definition counts_used :: "tool_counts \<Rightarrow> (tool \<times> u64) list" where
  "counts_used c = filter (\<lambda>(t, n). 0 < n \<and> t \<noteq> ToolCalls) (map (\<lambda>t. (t, c t)) TOOL_ALL)"

section \<open>Cards and tables\<close>

record card =
  c_standard :: token_rates
  c_long :: "token_rates option"
  c_fast :: "token_rates option"
  c_fast_long :: "token_rates option"
  c_ultrafast :: "token_rates option"
  c_ultrafast_long :: "token_rates option"
  c_flex :: "token_rates option"
  c_flex_long :: "token_rates option"
  c_off_peak :: "off_peak option"
  c_long_context :: "long_context option"
  c_geo_us :: "u32 option"
  c_tools :: "(tool \<times> u64) list"

definition card_new :: "token_rates \<Rightarrow> card" where
  "card_new standard =
     \<lparr>c_standard = standard, c_long = None, c_fast = None, c_fast_long = None, c_ultrafast = None,
      c_ultrafast_long = None, c_flex = None, c_flex_long = None, c_off_peak = None,
      c_long_context = None, c_geo_us = None, c_tools = []\<rparr>"

fun variant :: "card \<Rightarrow> service_class \<Rightarrow> bool \<Rightarrow> token_rates option" where
  "variant c CStandard False = Some (c_standard c)"
| "variant c CStandard True = c_long c"
| "variant c CFast False = c_fast c"
| "variant c CFast True = c_fast_long c"
| "variant c CUltrafast False = c_ultrafast c"
| "variant c CUltrafast True = c_ultrafast_long c"
| "variant c CFlex False = c_flex c"
| "variant c CFlex True = c_flex_long c"
| "variant c COffPeak False = map_option op_rates (c_off_peak c)"
| "variant c COffPeak True = None"

definition tool_fee :: "card \<Rightarrow> tool \<Rightarrow> u64 option" where
  "tool_fee c t = map_option snd (List.find (\<lambda>(k, _). k = t) (c_tools c))"

datatype provider_id =
    OpenAi | Anthropic | OpenRouter | Fireworks | Groq | DeepSeek | Together | Cerebras | Mistral
  | XAi | OpenAiCodex | Bedrock | HuggingFace | Nvidia | KimiCoding | OpenCodeGo | OpenCodeZen

definition PROVIDER_ALL :: "provider_id list" where
  "PROVIDER_ALL =
     [OpenAi, Anthropic, OpenRouter, Fireworks, Groq, DeepSeek, Together, Cerebras, Mistral, XAi,
      OpenAiCodex, Bedrock, HuggingFace, Nvidia, KimiCoding, OpenCodeGo, OpenCodeZen]"

fun provider_name :: "provider_id \<Rightarrow> string" where
  "provider_name OpenAi = ''openai''"
| "provider_name Anthropic = ''anthropic''"
| "provider_name OpenRouter = ''openrouter''"
| "provider_name Fireworks = ''fireworks''"
| "provider_name Groq = ''groq''"
| "provider_name DeepSeek = ''deepseek''"
| "provider_name Together = ''together''"
| "provider_name Cerebras = ''cerebras''"
| "provider_name Mistral = ''mistral''"
| "provider_name XAi = ''xai''"
| "provider_name OpenAiCodex = ''openai-codex''"
| "provider_name Bedrock = ''bedrock''"
| "provider_name HuggingFace = ''huggingface''"
| "provider_name Nvidia = ''nvidia''"
| "provider_name KimiCoding = ''kimi-coding''"
| "provider_name OpenCodeGo = ''opencode-go''"
| "provider_name OpenCodeZen = ''opencode-zen''"

text \<open>The provider table holds one row per id, in this order and under this name.\<close>

definition by_name :: "string \<Rightarrow> provider_id option" where
  "by_name name = List.find (\<lambda>p. eq_ignore_ascii_case (provider_name p) name) PROVIDER_ALL"

datatype wire_format = WireOpenAi | WireAnthropic

record or_endpoint =
  oe_host :: string
  oe_tag :: string
  oe_class :: service_class
  oe_card :: card

datatype cost_card = ListCard | Own card | OpenRouterCard "or_endpoint list" | UnverifiedCard string

record candidate_cost =
  cc_provider :: provider_id
  cc_card :: cost_card

record row_rates =
  rr_model :: string
  rr_list :: card
  rr_cost :: "candidate_cost list"

record tables =
  ROW_RATES :: "row_rates list"
  OPENROUTER_CREDIT_FEE :: u32

text \<open>The search of the standard library's \<^verbatim>\<open>binary_search_by\<close>: halve while more than one is left.\<close>

function bs_base :: "row_rates list \<Rightarrow> string \<Rightarrow> nat \<Rightarrow> nat \<Rightarrow> nat" where
  "bs_base rows m base n =
     (if n \<le> 1 then base
      else let half = n div 2; mid = base + half
           in bs_base rows m (if m < rr_model (rows ! mid) then base else mid) (n - half))"
  by pat_completeness auto
termination by (relation "measure (\<lambda>(_, _, _, n). n)") auto

declare bs_base.simps [simp del]

definition for_row :: "tables \<Rightarrow> string \<Rightarrow> row_rates option" where
  "for_row tb m =
     (let rows = ROW_RATES tb
      in if rows = [] then None
         else let i = bs_base rows m 0 (length rows)
              in if rr_model (rows ! i) = m then Some (rows ! i) else None)"

section \<open>The row and the result\<close>

record usage_row =
  price_model :: "string option"
  provider :: "string option"
  price_variant :: "string option"
  usage_wire :: wire_format
  input_tokens :: u64
  output_tokens :: u64
  cache_read_tokens :: u64
  cache_write_tokens :: u64
  cache_write_1h_tokens :: u64
  gateway_cache_write_tokens :: u64
  server_tools :: tool_counts
  service_tier :: "tier option"
  speed :: "speed option"
  inference_geo :: "geo option"
  upstream_cost_usd :: "(unpriced + nat) option"
  upstream_tool_cost_usd :: "(unpriced + nat) option"
  served_by :: "string option"
  usage_estimated :: bool
  upstream_may_continue :: bool
  cache_hit :: bool
  unix_secs :: u64

definition usage_row_default :: usage_row where
  "usage_row_default =
     \<lparr>price_model = None, provider = None, price_variant = None, usage_wire = WireAnthropic,
      input_tokens = 0, output_tokens = 0, cache_read_tokens = 0, cache_write_tokens = 0,
      cache_write_1h_tokens = 0, gateway_cache_write_tokens = 0, server_tools = counts_new,
      service_tier = None, speed = None, inference_geo = None, upstream_cost_usd = None,
      upstream_tool_cost_usd = None, served_by = None, usage_estimated = False,
      upstream_may_continue = False, cache_hit = False, unix_secs = 0\<rparr>"

datatype status = PricedStatus | Estimated

datatype cost_basis = TokensBasis | Reported | DearestEndpoint | CacheHit

record parts =
  p_input :: u64
  p_cache_read :: u64
  p_cache_write_5m :: u64
  p_cache_write_1h :: u64
  p_output :: u64
  p_tools :: u64

definition parts_default :: parts where
  "parts_default =
     \<lparr>p_input = 0, p_cache_read = 0, p_cache_write_5m = 0, p_cache_write_1h = 0, p_output = 0,
      p_tools = 0\<rparr>"

record side =
  micros :: u64
  s_class :: service_class
  s_long :: bool
  multiplier :: u64
  s_parts :: parts

record priced =
  pr_status :: status
  pr_basis :: cost_basis
  pr_cost :: side
  pr_price :: side

section \<open>Exact arithmetic\<close>

text \<open>
  A numerator counts \<open>DEN\<close>ths of a micro-dollar: attodollars times two multipliers in basis points.
\<close>

definition ATTO_PER_MICRO :: nat where "ATTO_PER_MICRO = 1000000000000"
definition SLOTS :: nat where "SLOTS = 2"
definition DEN :: nat where "DEN = ATTO_PER_MICRO * ONE ^ SLOTS"

type_synonym mults = "u32 \<times> u32"

definition mult_factor :: "mults \<Rightarrow> nat" where
  "mult_factor m = fst m * snd m"

definition mult_bps :: "mults \<Rightarrow> u64" where
  "mult_bps m = (let q = mult_factor m div ONE ^ (SLOTS - 1) in if q \<le> U64_MAX then q else U64_MAX)"

definition round_half_up :: "nat \<Rightarrow> unpriced + u64" where
  "round_half_up num =
     bind_res (ok_or Overflow (checked_add U128_MAX num (DEN div 2))) (\<lambda>x.
       let q = x div DEN in if q \<le> U64_MAX then Inr q else Inl Overflow)"

definition tokens_num :: "u64 \<Rightarrow> u64 \<Rightarrow> nat \<Rightarrow> unpriced + nat" where
  "tokens_num tokens rate f =
     ok_or Overflow
       (do { x \<leftarrow> checked_mul U128_MAX tokens rate;
             x \<leftarrow> checked_mul U128_MAX x 1000000;
             checked_mul U128_MAX x f })"

definition fee_num :: "u64 \<Rightarrow> u64 \<Rightarrow> nat \<Rightarrow> unpriced + nat" where
  "fee_num cnt mics f =
     ok_or Overflow
       (do { x \<leftarrow> checked_mul U128_MAX cnt mics;
             x \<leftarrow> checked_mul U128_MAX x ATTO_PER_MICRO;
             checked_mul U128_MAX x f })"

text \<open>A reported cost: at most 36 significant digits, leading zeros not counted.\<close>

fun atto_digits :: "string \<Rightarrow> nat \<Rightarrow> nat \<Rightarrow> nat option" where
  "atto_digits [] n sig = Some n"
| "atto_digits (d # s) n sig =
     (if n = 0 \<and> d = CHR ''0'' then atto_digits s n sig
      else if 36 < sig + 1 then None
      else atto_digits s (n * 10 + (byte d - 48)) (sig + 1))"

definition split_exponent :: "string \<Rightarrow> (string \<times> int) option" where
  "split_exponent s =
     (if list_ex (\<lambda>c. c = CHR ''e'' \<or> c = CHR ''E'') s
      then let mant = takeWhile (\<lambda>c. c \<noteq> CHR ''e'' \<and> c \<noteq> CHR ''E'') s;
               e = drop (length mant + 1) s;
               e = (case strip_prefix ''+'' e of Some e' \<Rightarrow> e' | None \<Rightarrow> e)
           in map_option (\<lambda>x. (mant, x)) (parse_i32 e)
      else Some (s, 0))"

definition scale_atto :: "nat \<Rightarrow> int \<Rightarrow> unpriced + nat" where
  "scale_atto n shift =
     (if 0 \<le> shift
      then (if 10 ^ nat shift \<le> U128_MAX
            then ok_or Overflow (checked_mul U128_MAX n (10 ^ nat shift)) else Inl Overflow)
      else let k = nat (- shift)
           in if 36 < k then Inr 0 else Inr ((n + 10 ^ k div 2) div 10 ^ k))"

definition parse_usd_atto :: "string \<Rightarrow> unpriced + nat" where
  "parse_usd_atto s =
     (case split_exponent s of
        None \<Rightarrow> Inl BadReportedCost
      | Some (mant, ex) \<Rightarrow>
          (let (whole, frac) = (case split_once ''.'' mant of Some p \<Rightarrow> p | None \<Rightarrow> (mant, []))
           in if (whole = [] \<and> frac = []) \<or> \<not> list_all is_ascii_digit whole
                 \<or> \<not> list_all is_ascii_digit frac \<or> \<not> (-40 \<le> ex \<and> ex \<le> 40)
              then Inl BadReportedCost
              else case atto_digits (whole @ frac) 0 0 of
                None \<Rightarrow> Inl BadReportedCost
              | Some n \<Rightarrow>
                  (if 2147483647 < length frac then Inl BadReportedCost
                   else scale_atto n (ex - int (length frac) + 18))))"

section \<open>The pricer\<close>

record tokens =
  fresh :: u64
  gateway_writes :: u64
  read_toks :: u64
  write_5m :: u64
  write_1h :: u64
  out_toks :: u64

definition tokens_of :: "usage_row \<Rightarrow> unpriced + tokens" where
  "tokens_of r =
     bind_res (ok_or InconsistentTokens
                 (checked_sub (cache_write_tokens r) (cache_write_1h_tokens r))) (\<lambda>write_5m.
     bind_res (case usage_wire r of
                 WireAnthropic \<Rightarrow> Inr (input_tokens r)
               | WireOpenAi \<Rightarrow>
                   ok_or InconsistentTokens
                     (do { x \<leftarrow> checked_sub (input_tokens r) (cache_read_tokens r);
                           checked_sub x (cache_write_tokens r) })) (\<lambda>fresh.
     if fresh < gateway_cache_write_tokens r then Inl InconsistentTokens
     else Inr \<lparr>fresh = fresh, gateway_writes = gateway_cache_write_tokens r,
               read_toks = cache_read_tokens r, write_5m = write_5m,
               write_1h = cache_write_1h_tokens r, out_toks = output_tokens r\<rparr>))"

definition prompt :: "tokens \<Rightarrow> u64" where
  "prompt t =
     saturating_add U64_MAX
       (saturating_add U64_MAX (saturating_add U64_MAX (fresh t) (read_toks t)) (write_5m t))
       (write_1h t)"

definition served_class :: "usage_row \<Rightarrow> unpriced + service_class" where
  "served_class r =
     bind_res (case service_tier r of
                 None \<Rightarrow> Inr CStandard
               | Some TStandard \<Rightarrow> Inr CStandard
               | Some TDefault \<Rightarrow> Inr CStandard
               | Some TPriority \<Rightarrow> Inr CFast
               | Some TUltrafast \<Rightarrow> Inr CUltrafast
               | Some TFlex \<Rightarrow> Inr CFlex
               | Some TUnknown \<Rightarrow> Inl UnknownClass) (\<lambda>tier.
     bind_res (case speed r of
                 None \<Rightarrow> Inr CStandard
               | Some SpStandard \<Rightarrow> Inr CStandard
               | Some SpFast \<Rightarrow> Inr CFast
               | Some SpUnknown \<Rightarrow> Inl UnknownClass) (\<lambda>spd.
     if spd = CStandard then Inr tier
     else if (tier = CStandard \<or> tier = CFast) \<and> spd = CFast then Inr CFast
     else Inl UnknownClass))"

definition geo_us :: "usage_row \<Rightarrow> unpriced + bool" where
  "geo_us r =
     (case inference_geo r of
        None \<Rightarrow> Inr False
      | Some GGlobal \<Rightarrow> Inr False
      | Some GUs \<Rightarrow> Inr True
      | Some GUnknown \<Rightarrow> Inl UnknownGeo)"

text \<open>
  One side on one card, in the source's order: the tier, the class, the rates, the multipliers, the
  token components, the tool fees, the total, the rounded parts.
\<close>

definition is_long :: "card \<Rightarrow> tokens \<Rightarrow> bool" where
  "is_long c t =
     (case c_long_context c of
        None \<Rightarrow> False
      | Some lc \<Rightarrow> if lc_inclusive lc then lc_threshold lc \<le> prompt t else lc_threshold lc < prompt t)"

definition side_class :: "card \<Rightarrow> bool \<Rightarrow> usage_row \<Rightarrow> service_class \<Rightarrow> unpriced + service_class" where
  "side_class c long r class =
     (case c_off_peak c of
        Some op \<Rightarrow>
          (if class = CStandard \<and> \<not> long
           then (case op_contains op (unix_secs r) of
                   Some True \<Rightarrow> Inr COffPeak
                 | Some False \<Rightarrow> Inr CStandard
                 | None \<Rightarrow> Inl UnknownCalendar)
           else Inr class)
      | None \<Rightarrow> Inr class)"

fun tools_num :: "card \<Rightarrow> nat \<Rightarrow> (tool \<times> u64) list \<Rightarrow> nat \<Rightarrow> unpriced + nat" where
  "tools_num c f [] acc = Inr acc"
| "tools_num c f ((t, n) # us) acc =
     bind_res (ok_or NoToolFee (tool_fee c t)) (\<lambda>per_call.
     bind_res (fee_num n per_call f) (\<lambda>x.
     bind_res (ok_or Overflow (checked_add U128_MAX acc x)) (\<lambda>acc.
       tools_num c f us acc)))"

fun sum_num :: "nat list \<Rightarrow> nat \<Rightarrow> nat option" where
  "sum_num [] acc = Some acc"
| "sum_num (x # xs) acc = (case checked_add U128_MAX acc x of None \<Rightarrow> None | Some a \<Rightarrow> sum_num xs a)"

definition side_nums ::
  "card \<Rightarrow> tokens \<Rightarrow> usage_row \<Rightarrow> token_rates \<Rightarrow> u32 \<Rightarrow> u32 \<Rightarrow> unpriced + nat list" where
  "side_nums c t r rates geo fee =
     (let f = mult_factor (geo, fee);
          input_toks = fresh t - gateway_writes t;
          gw_as_write = gateway_writes t
      in
      bind_res (if 0 < write_1h t then ok_or NoRate (tr_cache_write_1h rates) else Inr 0) (\<lambda>write_1h_rate.
      bind_res (tokens_num input_toks (tr_input rates) f) (\<lambda>inp.
      bind_res (tokens_num (read_toks t) (tr_cache_read rates) f) (\<lambda>rd.
      bind_res (ok_or Overflow (checked_add U64_MAX (write_5m t) gw_as_write)) (\<lambda>w5_tokens.
      bind_res (tokens_num w5_tokens (tr_cache_write_5m rates) f) (\<lambda>w5.
      bind_res (tokens_num (write_1h t) write_1h_rate f) (\<lambda>w1.
      bind_res (tokens_num (out_toks t) (tr_output rates) f) (\<lambda>outp.
      bind_res (tools_num c (mult_factor (ONE, fee)) (counts_used (server_tools r)) 0) (\<lambda>tools.
      Inr [inp, rd, w5, w1, outp, tools])))))))))"

fun round_all :: "nat list \<Rightarrow> unpriced + u64 list" where
  "round_all [] = Inr []"
| "round_all (x # xs) = bind_res (round_half_up x) (\<lambda>q. bind_res (round_all xs) (\<lambda>qs. Inr (q # qs)))"

fun parts_of :: "u64 list \<Rightarrow> parts" where
  "parts_of [p_in, p_r, p_w5, p_w1, p_o, p_t] =
     \<lparr>p_input = p_in, p_cache_read = p_r, p_cache_write_5m = p_w5, p_cache_write_1h = p_w1,
      p_output = p_o, p_tools = p_t\<rparr>"
| "parts_of _ = parts_default"

definition price_side ::
  "card \<Rightarrow> tokens \<Rightarrow> usage_row \<Rightarrow> service_class \<Rightarrow> bool \<Rightarrow> u32 \<Rightarrow> unpriced + side \<times> nat" where
  "price_side c t r class us fee =
     (let long = is_long c t in
      bind_res (side_class c long r class) (\<lambda>class.
      bind_res (ok_or NoRate (variant c class long)) (\<lambda>rates.
      bind_res (if us then ok_or UnknownGeo (c_geo_us c) else Inr ONE) (\<lambda>geo.
      bind_res (side_nums c t r rates geo fee) (\<lambda>nums.
      bind_res (ok_or Overflow (sum_num nums 0)) (\<lambda>total.
      bind_res (round_all nums) (\<lambda>parts.
      bind_res (round_half_up total) (\<lambda>mics.
      Inr (\<lparr>micros = mics, s_class = class, s_long = long, multiplier = mult_bps (geo, fee),
             s_parts = parts_of parts\<rparr>,
           total)))))))))"

fun dearest :: "u32 \<Rightarrow> or_endpoint list \<Rightarrow> usage_row \<Rightarrow> tokens \<Rightarrow> (side \<times> nat) option \<Rightarrow>
    unpriced + (side \<times> nat) option" where
  "dearest fee [] r t best = Inr best"
| "dearest fee (e # es) r t best =
     bind_res (price_side (oe_card e) t r CStandard False fee) (\<lambda>got.
       dearest fee es r t
         (case best of
            None \<Rightarrow> Some got
          | Some b \<Rightarrow> (if snd b < snd got then Some got else best)))"

definition could_serve :: "usage_row \<Rightarrow> service_class \<Rightarrow> or_endpoint \<Rightarrow> bool" where
  "could_serve r class e \<longleftrightarrow>
     oe_class e = class
     \<and> (case served_by r of None \<Rightarrow> True | Some h \<Rightarrow> eq_ignore_ascii_case (oe_host e) h)"

definition dearest_endpoint ::
  "u32 \<Rightarrow> or_endpoint list \<Rightarrow> usage_row \<Rightarrow> tokens \<Rightarrow> service_class \<Rightarrow> bool \<Rightarrow> unpriced + side" where
  "dearest_endpoint fee endpoints r t class geo =
     (if geo then Inl UnknownGeo
      else bind_res (dearest fee (filter (could_serve r class) endpoints) r t None) (\<lambda>best.
        case best of
          None \<Rightarrow> Inl UnknownHost
        | Some (s, _) \<Rightarrow> Inr (s\<lparr>s_class := class\<rparr>)))"

definition zero_side :: side where
  "zero_side = \<lparr>micros = 0, s_class = CStandard, s_long = False, multiplier = ONE,
                s_parts = parts_default\<rparr>"

definition reported_side :: "u32 \<Rightarrow> provider_id \<Rightarrow> service_class \<Rightarrow> nat \<Rightarrow> unpriced + side" where
  "reported_side fee p class atto =
     (let m = (if p = OpenRouter then fee else ONE, ONE)
      in bind_res (ok_or Overflow (checked_mul U128_MAX atto (mult_factor m))) (\<lambda>num.
         bind_res (round_half_up num) (\<lambda>mics.
         Inr \<lparr>micros = mics, s_class = class, s_long = False, multiplier = mult_bps m,
              s_parts = parts_default\<rparr>)))"

definition variant_known :: "provider_id \<Rightarrow> string option \<Rightarrow> bool" where
  "variant_known p v =
     (case v of
        None \<Rightarrow> True
      | Some s \<Rightarrow> (p = Bedrock \<and> s = ''regional'')
               \<or> (p = OpenRouter \<and> (s = ''regional'' \<or> s = ''global'')))"

definition cost_side ::
  "tables \<Rightarrow> row_rates \<Rightarrow> cost_card \<Rightarrow> provider_id \<Rightarrow> usage_row \<Rightarrow> tokens \<Rightarrow> service_class \<Rightarrow> bool \<Rightarrow> status \<Rightarrow>
   unpriced + side \<times> cost_basis \<times> status" where
  "cost_side tb row cand p r t class geo st =
     (case (cand, upstream_cost_usd r) of
        (UnverifiedCard _, _) \<Rightarrow> Inl Unverified
      | (_, Some atto) \<Rightarrow>
          bind_res atto (\<lambda>atto.
          bind_res (reported_side (OPENROUTER_CREDIT_FEE tb) p class atto) (\<lambda>s. Inr (s, Reported, st)))
      | (ListCard, None) \<Rightarrow>
          bind_res (price_side (rr_list row) t r class geo ONE) (\<lambda>(s, _). Inr (s, TokensBasis, st))
      | (Own c, None) \<Rightarrow>
          bind_res (price_side c t r class geo ONE) (\<lambda>(s, _). Inr (s, TokensBasis, st))
      | (OpenRouterCard endpoints, None) \<Rightarrow>
          (if server_tools r WebSearch < server_tools r ToolCalls then Inl NoToolFee
           else bind_res (dearest_endpoint (OPENROUTER_CREDIT_FEE tb) endpoints r t class geo) (\<lambda>s.
             Inr (s, DearestEndpoint, Estimated))))"

definition price :: "tables \<Rightarrow> usage_row \<Rightarrow> unpriced + priced" where
  "price tb r =
     (if cache_hit r
      then Inr \<lparr>pr_status = PricedStatus, pr_basis = CacheHit, pr_cost = zero_side, pr_price = zero_side\<rparr>
      else
        bind_res (ok_or NoPriceModel (price_model r)) (\<lambda>model.
        bind_res (ok_or UnknownModel (for_row tb model)) (\<lambda>row.
        bind_res (ok_or UnknownProvider (Option.bind (provider r) by_name)) (\<lambda>p.
        bind_res (ok_or NotACandidate (List.find (\<lambda>c. cc_provider c = p) (rr_cost row))) (\<lambda>cand.
        if \<not> variant_known p (price_variant r) then Inl UnknownVariant
        else
          bind_res (tokens_of r) (\<lambda>t.
          bind_res (served_class r) (\<lambda>class.
          if (p = Anthropic \<or> p = Bedrock) \<and> service_tier r \<noteq> None \<and> service_tier r \<noteq> Some TStandard
          then Inl UnknownClass
          else
            bind_res (geo_us r) (\<lambda>geo.
            bind_res (cost_side tb row (cc_card cand) p r t class geo
                        (if usage_estimated r \<or> upstream_may_continue r then Estimated else PricedStatus))
              (\<lambda>(s, basis, st).
                Inr \<lparr>pr_status = st, pr_basis = basis, pr_cost = s, pr_price = s\<rparr>)))))))))"

section \<open>Rounding\<close>

definition round_half :: "real \<Rightarrow> nat" where
  "round_half x = nat \<lfloor>x + 1 / 2\<rfloor>"

lemma DEN_num: "DEN = 100000000000000000000"
  by (simp add: DEN_def ATTO_PER_MICRO_def ONE_def SLOTS_def)

lemma half_up_nat:
  fixes d :: nat
  assumes "0 < d" and "even d"
  shows "(x + d div 2) div d = round_half (real x / real d)"
proof -
  have "real (x + d div 2) / real d = real x / real d + 1 / 2"
    using assms by (auto elim!: evenE simp: field_simps)
  then have "\<lfloor>real x / real d + 1 / 2\<rfloor> = int ((x + d div 2) div d)"
    by (metis floor_divide_of_nat_eq)
  then show ?thesis by (simp add: round_half_def)
qed

lemma round_half_up_exact:
  assumes "round_half_up x = Inr q"
  shows "q = round_half (real x / real DEN)"
proof -
  have "q = (x + DEN div 2) div DEN"
    using assms by (auto simp: round_half_up_def Let_def split: if_splits)
  then show ?thesis using half_up_nat [of DEN x] by (simp add: DEN_num)
qed

lemma round_half_bounds:
  assumes "0 \<le> x"
  shows "real (round_half x) \<le> x + 1 / 2" and "x - 1 / 2 < real (round_half x)"
proof -
  have *: "real (round_half x) = real_of_int \<lfloor>x + 1 / 2\<rfloor>"
    using assms by (simp add: round_half_def)
  show "real (round_half x) \<le> x + 1 / 2" unfolding * by linarith
  show "x - 1 / 2 < real (round_half x)" unfolding * by linarith
qed

lemma round_half_mono: "x \<le> y \<Longrightarrow> round_half x \<le> round_half y"
  unfolding round_half_def by (intro nat_mono floor_mono) simp

section \<open>The exact cost\<close>

text \<open>
  In rational micro-dollars: what \<open>n\<close> tokens cost at a rate, a multiplier in basis points, the fees of
  the tool calls, and the six components of a side.
\<close>

definition token_cost :: "u64 \<Rightarrow> u64 \<Rightarrow> real" where
  "token_cost n rate = real n * real rate / 1000000"

definition bps :: "nat \<Rightarrow> real" where
  "bps m = real m / 10000"

definition fees :: "card \<Rightarrow> (tool \<times> u64) list \<Rightarrow> nat" where
  "fees c us = (\<Sum>(t, n) \<leftarrow> us. n * the (tool_fee c t))"

definition exact_parts :: "card \<Rightarrow> token_rates \<Rightarrow> nat \<Rightarrow> nat \<Rightarrow> tokens \<Rightarrow> tool_counts \<Rightarrow> real list" where
  "exact_parts c rates geo fee t cnt =
     [token_cost (fresh t - gateway_writes t) (tr_input rates) * bps geo * bps fee,
      token_cost (read_toks t) (tr_cache_read rates) * bps geo * bps fee,
      token_cost (write_5m t + gateway_writes t) (tr_cache_write_5m rates) * bps geo * bps fee,
      token_cost (write_1h t) (if 0 < write_1h t then the (tr_cache_write_1h rates) else 0) * bps geo * bps fee,
      token_cost (out_toks t) (tr_output rates) * bps geo * bps fee,
      real (fees c (counts_used cnt)) * bps fee]"

definition parts_list :: "parts \<Rightarrow> nat list" where
  "parts_list p = [p_input p, p_cache_read p, p_cache_write_5m p, p_cache_write_1h p, p_output p, p_tools p]"

lemma checked_mul_Some [simp]: "checked_mul mx a b = Some c \<longleftrightarrow> a * b \<le> mx \<and> c = a * b"
  by (auto simp: checked_mul_def)

lemma tokens_num_Inr:
  "tokens_num n rate f = Inr x \<Longrightarrow> x = n * rate * 1000000 * f"
  by (auto simp: tokens_num_def Option.bind_eq_Some_conv)

lemma fee_num_Inr: "fee_num n fee f = Inr x \<Longrightarrow> x = n * fee * ATTO_PER_MICRO * f"
  by (auto simp: fee_num_def Option.bind_eq_Some_conv)

lemma tokens_num_cost:
  assumes "tokens_num n rate (mult_factor (g, h)) = Inr x"
  shows "real x / real DEN = token_cost n rate * bps g * bps h"
  using tokens_num_Inr [OF assms]
  by (simp add: DEN_num token_cost_def bps_def mult_factor_def field_simps)

lemma tools_num_Inr:
  "tools_num c f us acc = Inr x \<Longrightarrow>
     x = acc + fees c us * ATTO_PER_MICRO * f \<and> (\<forall>(t, n) \<in> set us. tool_fee c t \<noteq> None)"
proof (induction c f us acc rule: tools_num.induct)
  case (2 c f t n us acc)
  then obtain per_call y where "tool_fee c t = Some per_call" and y: "fee_num n per_call f = Inr y"
    and "tools_num c f us (acc + y) = Inr x"
    by auto
  with 2(1) [of "acc + y"] fee_num_Inr [OF y] show ?case
    by (auto simp: fees_def algebra_simps)
qed (auto simp: fees_def)

lemma sum_num_Some: "sum_num xs acc = Some x \<Longrightarrow> x = acc + sum_list xs"
  by (induction xs acc rule: sum_num.induct) (auto split: option.splits)

lemma side_nums_exact:
  assumes "side_nums c t r rates geo fee = Inr nums"
  shows "map (\<lambda>x. real x / real DEN) nums = exact_parts c rates geo fee t (server_tools r)"
    and "0 < write_1h t \<longrightarrow> tr_cache_write_1h rates \<noteq> None"
    and "\<forall>(k, n) \<in> set (counts_used (server_tools r)). tool_fee c k \<noteq> None"
proof -
  let ?f = "mult_factor (geo, fee)"
  from assms obtain w1r inp rd w5 w1 outp tools where
    w1r: "(if 0 < write_1h t then ok_or NoRate (tr_cache_write_1h rates) else Inr 0) = Inr w1r" and
    inp: "tokens_num (fresh t - gateway_writes t) (tr_input rates) ?f = Inr inp" and
    rd: "tokens_num (read_toks t) (tr_cache_read rates) ?f = Inr rd" and
    w5: "tokens_num (write_5m t + gateway_writes t) (tr_cache_write_5m rates) ?f = Inr w5" and
    w1: "tokens_num (write_1h t) w1r ?f = Inr w1" and
    outp: "tokens_num (out_toks t) (tr_output rates) ?f = Inr outp" and
    tools: "tools_num c (mult_factor (ONE, fee)) (counts_used (server_tools r)) 0 = Inr tools" and
    nums: "nums = [inp, rd, w5, w1, outp, tools]"
    unfolding side_nums_def Let_def bind_res_Inr ok_or_Inr checked_add_Some by blast
  have w1r': "w1r = (if 0 < write_1h t then the (tr_cache_write_1h rates) else 0)"
    and "0 < write_1h t \<longrightarrow> tr_cache_write_1h rates \<noteq> None"
    using w1r by (auto split: if_splits)
  then show "0 < write_1h t \<longrightarrow> tr_cache_write_1h rates \<noteq> None" by simp
  have tools': "real tools / real DEN = real (fees c (counts_used (server_tools r))) * bps fee"
    using tools_num_Inr [OF tools]
    by (simp add: DEN_num ATTO_PER_MICRO_def mult_factor_def ONE_def bps_def field_simps)
  show "\<forall>(k, n) \<in> set (counts_used (server_tools r)). tool_fee c k \<noteq> None"
    using tools_num_Inr [OF tools] by simp
  show "map (\<lambda>x. real x / real DEN) nums = exact_parts c rates geo fee t (server_tools r)"
    using tokens_num_cost [OF inp] tokens_num_cost [OF rd] tokens_num_cost [OF w5]
      tokens_num_cost [OF w1] tokens_num_cost [OF outp] tools'
    by (simp add: nums exact_parts_def w1r')
qed

lemma round_all_exact: "round_all xs = Inr qs \<Longrightarrow> qs = map (\<lambda>x. round_half (real x / real DEN)) xs"
  by (induction xs arbitrary: qs) (auto dest: round_half_up_exact)

lemma parts_list_of: "length qs = 6 \<Longrightarrow> parts_list (parts_of qs) = qs"
  by (auto simp: length_Suc_conv numeral_eq_Suc parts_list_def)

lemma exact_parts_length: "length (exact_parts c rates geo fee t cnt) = 6"
  by (simp add: exact_parts_def)

lemma sum_list_divide: "real (sum_list xs) / d = sum_list (map (\<lambda>x. real x / d) xs)"
  by (induction xs) (simp_all add: add_divide_distrib)

lemma price_side_cases:
  assumes "price_side c t r cl us fee = Inr (s, tot)"
  obtains rates geo where
    "s_long s = is_long c t"
    "side_class c (s_long s) r cl = Inr (s_class s)"
    "variant c (s_class s) (s_long s) = Some rates"
    "geo = (if us then the (c_geo_us c) else ONE)" "us \<longrightarrow> c_geo_us c \<noteq> None"
    "multiplier s = mult_bps (geo, fee)"
    "0 < write_1h t \<longrightarrow> tr_cache_write_1h rates \<noteq> None"
    "\<forall>(k, n) \<in> set (counts_used (server_tools r)). tool_fee c k \<noteq> None"
    "parts_list (s_parts s) = map round_half (exact_parts c rates geo fee t (server_tools r))"
    "real tot / real DEN = sum_list (exact_parts c rates geo fee t (server_tools r))"
    "micros s = round_half (real tot / real DEN)"
proof -
  let ?long = "is_long c t"
  from assms obtain cl' rates geo nums qs mics where
    cl': "side_class c ?long r cl = Inr cl'" "variant c cl' ?long = Some rates" and
    geo: "(if us then ok_or UnknownGeo (c_geo_us c) else Inr ONE) = Inr geo" and
    nums: "side_nums c t r rates geo fee = Inr nums" and
    tt: "sum_num nums 0 = Some tot" and qs: "round_all nums = Inr qs" and
    mics: "round_half_up tot = Inr mics" and
    s: "s = \<lparr>micros = mics, s_class = cl', s_long = ?long, multiplier = mult_bps (geo, fee),
             s_parts = parts_of qs\<rparr>"
    unfolding price_side_def Let_def bind_res_Inr ok_or_Inr by blast
  let ?xs = "exact_parts c rates geo fee t (server_tools r)"
  have geo': "geo = (if us then the (c_geo_us c) else ONE)" "us \<longrightarrow> c_geo_us c \<noteq> None"
    using geo by (auto split: if_splits)
  note exact = side_nums_exact [OF nums]
  have "qs = map round_half ?xs"
    using round_all_exact [OF qs] exact(1) [symmetric] by (simp add: comp_def)
  then have parts': "parts_list (s_parts s) = map round_half ?xs"
    by (simp add: s parts_list_of exact_parts_length)
  have "real tot / real DEN = sum_list ?xs"
    using sum_num_Some [OF tt] exact(1) by (simp add: sum_list_divide)
  with that [of rates geo] geo' cl' exact(2,3) parts' round_half_up_exact [OF mics]
  show thesis by (simp add: s)
qed

lemma exact_parts_nonneg: "\<forall>x \<in> set (exact_parts c rates geo fee t cnt). 0 \<le> x"
  by (simp add: exact_parts_def token_cost_def bps_def)

lemma rounded_sum:
  assumes "\<forall>x \<in> set xs. 0 \<le> (x :: real)"
  shows "real (sum_list (map round_half xs)) \<le> sum_list xs + real (length xs) / 2"
    and "sum_list xs - real (length xs) / 2 \<le> real (sum_list (map round_half xs))"
  using assms
proof (induction xs)
  case (Cons x xs)
  { case 1 with Cons.IH(1) round_half_bounds(1) [of x] show ?case by (simp add: add_divide_distrib) }
  { case 2 with Cons.IH(2) round_half_bounds(2) [of x] show ?case by (simp add: add_divide_distrib) }
qed simp_all

lemma rounded_parts_near:
  assumes "\<forall>x \<in> set xs. 0 \<le> (x :: real)" and "length xs = 6"
  shows "\<bar>int (sum_list (map round_half xs)) - int (round_half (sum_list xs))\<bar> \<le> 3"
proof -
  have "0 \<le> sum_list xs" using assms(1) by (simp add: sum_list_nonneg)
  from rounded_sum [OF assms(1)] round_half_bounds [OF this]
  have "\<bar>real (sum_list (map round_half xs)) - real (round_half (sum_list xs))\<bar> < 4"
    using assms(2) by linarith
  then have "\<bar>int (sum_list (map round_half xs)) - int (round_half (sum_list xs))\<bar> < 4"
    by linarith
  then show ?thesis by simp
qed

section \<open>What a priced row means\<close>

text \<open>The candidate that serves the row, and what it costs.\<close>

definition serving :: "tables \<Rightarrow> usage_row \<Rightarrow> row_rates \<Rightarrow> provider_id \<Rightarrow> cost_card \<Rightarrow> bool" where
  "serving tb r row p cost \<longleftrightarrow>
     (\<exists>m n cand. price_model r = Some m \<and> for_row tb m = Some row
        \<and> provider r = Some n \<and> by_name n = Some p
        \<and> List.find (\<lambda>c. cc_provider c = p) (rr_cost row) = Some cand \<and> cost = cc_card cand)"

definition initial_status :: "usage_row \<Rightarrow> status" where
  "initial_status r = (if usage_estimated r \<or> upstream_may_continue r then Estimated else PricedStatus)"

lemma price_cases:
  assumes "price tb r = Inr p"
  obtains (hit) "cache_hit r" "pr_basis p = CacheHit" "pr_cost p = zero_side" "pr_price p = zero_side"
  | (served) row prov cost t cl us where
      "\<not> cache_hit r" "serving tb r row prov cost" "variant_known prov (price_variant r)"
      "tokens_of r = Inr t" "served_class r = Inr cl" "geo_us r = Inr us"
      "cost_side tb row cost prov r t cl us (initial_status r) = Inr (pr_cost p, pr_basis p, pr_status p)"
      "pr_price p = pr_cost p"
proof (cases "cache_hit r")
  case True
  with assms hit show thesis by (auto simp: price_def)
next
  case False
  with assms obtain m row prov cand t cl us s basis st where
    "price_model r = Some m" "for_row tb m = Some row" "Option.bind (provider r) by_name = Some prov"
    "List.find (\<lambda>c. cc_provider c = prov) (rr_cost row) = Some cand"
    "variant_known prov (price_variant r)" "tokens_of r = Inr t" "served_class r = Inr cl" "geo_us r = Inr us"
    "cost_side tb row (cc_card cand) prov r t cl us (initial_status r) = Inr (s, basis, st)"
    "p = \<lparr>pr_status = st, pr_basis = basis, pr_cost = s, pr_price = s\<rparr>"
    unfolding price_def initial_status_def
    by (auto split: if_splits prod.splits)
  with False served [of row prov "cc_card cand" t cl us] show thesis
    by (auto simp: serving_def Option.bind_eq_Some_conv)
qed

lemma geo_us_Inr: "geo_us r = Inr us \<longleftrightarrow>
    (inference_geo r = Some GUs \<and> us) \<or> (inference_geo r \<in> {None, Some GGlobal} \<and> \<not> us)"
  by (auto simp: geo_us_def split: option.splits geo.splits)

lemma cost_side_tokens:
  assumes "cost_side tb row cost prov r t cl us st = Inr (s, TokensBasis, st')"
  shows "\<exists>c tot. (cost = ListCard \<and> c = rr_list row \<or> cost = Own c)
           \<and> price_side c t r cl us ONE = Inr (s, tot) \<and> st' = st"
  using assms by (auto simp: cost_side_def split: cost_card.splits option.splits prod.splits if_splits)

lemma cost_side_dearest:
  assumes "cost_side tb row cost prov r t cl us st = Inr (s, DearestEndpoint, st')"
  shows "\<exists>es. cost = OpenRouterCard es \<and> upstream_cost_usd r = None
           \<and> server_tools r ToolCalls \<le> server_tools r WebSearch
           \<and> dearest_endpoint (OPENROUTER_CREDIT_FEE tb) es r t cl us = Inr s \<and> st' = Estimated"
  using assms by (auto simp: cost_side_def split: cost_card.splits option.splits prod.splits if_splits)

lemma cost_side_reported:
  assumes "cost_side tb row cost prov r t cl us st = Inr (s, Reported, st')"
  shows "\<exists>atto. upstream_cost_usd r = Some (Inr atto) \<and> st' = st
           \<and> reported_side (OPENROUTER_CREDIT_FEE tb) prov cl atto = Inr s"
  using assms by (auto simp: cost_side_def split: cost_card.splits option.splits prod.splits if_splits)

lemma cost_side_basis:
  "cost_side tb row cost prov r t cl us st = Inr (s, b, st') \<Longrightarrow> b \<noteq> CacheHit"
  by (auto simp: cost_side_def split: cost_card.splits option.splits prod.splits if_splits)

text \<open>
  C2. A row priced from its tokens is charged exactly what it costs. The customer's side is the
  vendor's; the card is the serving candidate's own, or the list card when the row's own vendor
  served; every component is its tokens (or calls) times the published rate (or fee) and the
  multipliers, computed exactly and rounded half up to a micro-dollar; the total is the exact sum
  rounded once, and the rounded parts add up to it within three micro-dollars. Every tool used has a
  fee on the card, and one-hour cache writes have a rate.
\<close>

theorem price_is_exact:
  assumes "price tb r = Inr p" and "pr_basis p = TokensBasis"
  shows "pr_price p = pr_cost p \<and>
    (\<exists>row prov cost c t rates geo.
       serving tb r row prov cost \<and> (cost = ListCard \<and> c = rr_list row \<or> cost = Own c)
       \<and> tokens_of r = Inr t
       \<and> variant c (s_class (pr_cost p)) (is_long c t) = Some rates
       \<and> geo = (if inference_geo r = Some GUs then the (c_geo_us c) else ONE)
       \<and> (inference_geo r = Some GUs \<longrightarrow> c_geo_us c \<noteq> None)
       \<and> (\<forall>(k, n) \<in> set (counts_used (server_tools r)). tool_fee c k \<noteq> None)
       \<and> (0 < write_1h t \<longrightarrow> tr_cache_write_1h rates \<noteq> None)
       \<and> micros (pr_cost p) = round_half (sum_list (exact_parts c rates geo ONE t (server_tools r)))
       \<and> parts_list (s_parts (pr_cost p)) = map round_half (exact_parts c rates geo ONE t (server_tools r))
       \<and> \<bar>int (sum_list (parts_list (s_parts (pr_cost p)))) - int (micros (pr_cost p))\<bar> \<le> 3)"
  using assms(1)
proof (cases rule: price_cases)
  case hit
  with assms(2) show ?thesis by simp
next
  case (served row prov cost t cl us)
  from cost_side_tokens [OF served(7) [unfolded assms(2)]] obtain c tot where
    c: "cost = ListCard \<and> c = rr_list row \<or> cost = Own c"
    and side: "price_side c t r cl us ONE = Inr (pr_cost p, tot)" by auto
  have us: "us \<longleftrightarrow> inference_geo r = Some GUs" using served(6) by (auto simp: geo_us_Inr)
  from side show ?thesis
  proof (cases rule: price_side_cases)
    case (1 rates geo)
    let ?xs = "exact_parts c rates geo ONE t (server_tools r)"
    from 1 rounded_parts_near [OF exact_parts_nonneg exact_parts_length, of c rates geo ONE t "server_tools r"]
    have near: "\<bar>int (sum_list (parts_list (s_parts (pr_cost p)))) - int (micros (pr_cost p))\<bar> \<le> 3"
      by simp
    show ?thesis
      by (rule conjI [OF served(8)], intro exI [of _ row] exI [of _ prov] exI [of _ cost] exI [of _ c]
            exI [of _ t] exI [of _ rates] exI [of _ geo])
         (use 1 us c served(2,4) near in simp)
  qed
qed

text \<open>The endpoint walk keeps a maximum: everything walked is bounded by it, and it was walked.\<close>

lemma dearest_max:
  assumes "dearest fee es r t best = Inr res"
  shows "(\<forall>e \<in> set es. \<exists>s k. price_side (oe_card e) t r CStandard False fee = Inr (s, k)
            \<and> (\<exists>b. res = Some b \<and> k \<le> snd b))
       \<and> (\<forall>b. best = Some b \<longrightarrow> (\<exists>b'. res = Some b' \<and> snd b \<le> snd b'))
       \<and> (res = best \<or> (\<exists>e \<in> set es. \<exists>b. res = Some b \<and> price_side (oe_card e) t r CStandard False fee = Inr b))"
  using assms
proof (induction es arbitrary: best)
  case (Cons e es)
  from Cons.prems obtain got where got: "price_side (oe_card e) t r CStandard False fee = Inr got"
    and rest: "dearest fee es r t
        (case best of None \<Rightarrow> Some got | Some b \<Rightarrow> if snd b < snd got then Some got else best) = Inr res"
    by auto
  obtain s k where sk: "got = (s, k)" by (cases got)
  note IH = Cons.IH [OF rest]
  obtain b where b: "res = Some b" "k \<le> snd b" "\<forall>x. best = Some x \<longrightarrow> snd x \<le> snd b"
    using IH sk by (fastforce split: option.splits if_splits)
  have "res = best \<or> (\<exists>e' \<in> set (e # es). \<exists>b. res = Some b \<and> price_side (oe_card e') t r CStandard False fee = Inr b)"
    using IH got by (fastforce split: option.splits if_splits)
  with IH b got sk show ?case by auto
qed simp

lemma price_side_numerator:
  "price_side c t r cl us fee = Inr (s, k) \<Longrightarrow> micros s = round_half (real k / real DEN)"
  by (erule price_side_cases) simp

text \<open>
  C29. A cost that was not reported is bounded from above. A row OpenRouter served without reporting
  its cost is an estimate; every endpoint listed for the served class, and for the host when the row
  names one, can be priced, none of them comes to more than what is charged, and one of them comes to
  exactly that. No such row is priced when a tool ran that no endpoint lists a fee for.
\<close>

theorem dearest_endpoint_bounds:
  assumes "price tb r = Inr p" and "pr_basis p = DearestEndpoint"
  shows "pr_status p = Estimated \<and> pr_price p = pr_cost p \<and>
    (\<exists>row prov es t cl.
       serving tb r row prov (OpenRouterCard es) \<and> tokens_of r = Inr t \<and> served_class r = Inr cl
       \<and> upstream_cost_usd r = None \<and> server_tools r ToolCalls \<le> server_tools r WebSearch
       \<and> (\<forall>e \<in> set es. could_serve r cl e \<longrightarrow>
            (\<exists>s k. price_side (oe_card e) t r CStandard False (OPENROUTER_CREDIT_FEE tb) = Inr (s, k)
                 \<and> micros s \<le> micros (pr_cost p)))
       \<and> (\<exists>e \<in> set es. could_serve r cl e \<and>
            (\<exists>s k. price_side (oe_card e) t r CStandard False (OPENROUTER_CREDIT_FEE tb) = Inr (s, k)
                 \<and> pr_cost p = s\<lparr>s_class := cl\<rparr>)))"
  using assms(1)
proof (cases rule: price_cases)
  case hit
  with assms(2) show ?thesis by simp
next
  case (served row prov cost t cl us)
  let ?fee = "OPENROUTER_CREDIT_FEE tb"
  from cost_side_dearest [OF served(7) [unfolded assms(2)]] obtain es where
    es: "cost = OpenRouterCard es" "upstream_cost_usd r = None"
      "server_tools r ToolCalls \<le> server_tools r WebSearch" "pr_status p = Estimated"
    and best: "dearest_endpoint ?fee es r t cl us = Inr (pr_cost p)" by auto
  from best obtain s k where d: "dearest ?fee (filter (could_serve r cl) es) r t None = Inr (Some (s, k))"
    and s: "pr_cost p = s\<lparr>s_class := cl\<rparr>"
    by (auto simp: dearest_endpoint_def split: if_splits option.splits)
  note mx = dearest_max [OF d]
  then obtain e where e: "e \<in> set es" "could_serve r cl e"
    "price_side (oe_card e) t r CStandard False ?fee = Inr (s, k)" by auto
  have upper: "\<exists>s' k'. price_side (oe_card e') t r CStandard False ?fee = Inr (s', k')
      \<and> micros s' \<le> micros (pr_cost p)" if e': "e' \<in> set es" "could_serve r cl e'" for e'
  proof -
    from mx e' obtain s' k' where *: "price_side (oe_card e') t r CStandard False ?fee = Inr (s', k')" "k' \<le> k"
      by auto
    from \<open>k' \<le> k\<close> have "real k' / real DEN \<le> real k / real DEN"
      by (simp add: divide_right_mono)
    with * show ?thesis
      using price_side_numerator [OF *(1)] price_side_numerator [OF e(3)] round_half_mono s by auto
  qed
  show ?thesis
    by (intro conjI es(4) served(8) exI [of _ row] exI [of _ prov] exI [of _ es] exI [of _ t] exI [of _ cl])
       (use served es upper e s in auto)
qed

section \<open>The tokens of a row\<close>

lemma tokens_of_refused:
  "tokens_of r = Inl e \<longleftrightarrow> e = InconsistentTokens \<and>
       (cache_write_tokens r < cache_write_1h_tokens r
        \<or> (usage_wire r = WireOpenAi \<and> input_tokens r < cache_read_tokens r + cache_write_tokens r)
        \<or> (case usage_wire r of WireAnthropic \<Rightarrow> input_tokens r
             | WireOpenAi \<Rightarrow> input_tokens r - cache_read_tokens r - cache_write_tokens r)
           < gateway_cache_write_tokens r)"
  by (cases "usage_wire r") (auto simp: tokens_of_def checked_sub_def)

lemma tokens_of_buckets:
  "tokens_of r = Inr t \<Longrightarrow>
     fresh t + read_toks t + write_5m t + write_1h t
         = (case usage_wire r of
              WireOpenAi \<Rightarrow> input_tokens r
            | WireAnthropic \<Rightarrow> input_tokens r + cache_read_tokens r + cache_write_tokens r)
       \<and> write_1h t = cache_write_1h_tokens r \<and> write_5m t + write_1h t = cache_write_tokens r
       \<and> gateway_writes t = gateway_cache_write_tokens r \<and> gateway_writes t \<le> fresh t
       \<and> read_toks t = cache_read_tokens r \<and> out_toks t = output_tokens r"
  by (cases "usage_wire r") (auto simp: tokens_of_def Option.bind_eq_Some_conv split: if_splits)

text \<open>
  C33. Every prompt token is billed once. A row is refused as inconsistent exactly when its counts
  contradict each other: more one-hour writes than writes, more cached tokens than input on the wire
  that counts them inside it, more gateway writes than uncached input. Otherwise the four buckets add
  up to the prompt the row reports, on the OpenAI wire the input count and on the Anthropic wire the
  input with the cache reads and writes beside it, and the gateway's own writes are part of the
  uncached bucket.
\<close>

theorem tokens_billed_once:
  "(\<forall>e. tokens_of r = Inl e \<longleftrightarrow> e = InconsistentTokens \<and>
       (cache_write_tokens r < cache_write_1h_tokens r
        \<or> (usage_wire r = WireOpenAi \<and> input_tokens r < cache_read_tokens r + cache_write_tokens r)
        \<or> (case usage_wire r of WireAnthropic \<Rightarrow> input_tokens r
             | WireOpenAi \<Rightarrow> input_tokens r - cache_read_tokens r - cache_write_tokens r)
           < gateway_cache_write_tokens r))
   \<and> (\<forall>t. tokens_of r = Inr t \<longrightarrow>
     fresh t + read_toks t + write_5m t + write_1h t
         = (case usage_wire r of
              WireOpenAi \<Rightarrow> input_tokens r
            | WireAnthropic \<Rightarrow> input_tokens r + cache_read_tokens r + cache_write_tokens r)
       \<and> write_1h t = cache_write_1h_tokens r \<and> write_5m t + write_1h t = cache_write_tokens r
       \<and> gateway_writes t = gateway_cache_write_tokens r \<and> gateway_writes t \<le> fresh t
       \<and> read_toks t = cache_read_tokens r \<and> out_toks t = output_tokens r)"
  using tokens_of_refused tokens_of_buckets by blast

section \<open>No overflow on a sane row\<close>

definition rates_sane :: "token_rates \<Rightarrow> bool" where
  "rates_sane tr \<longleftrightarrow>
     tr_input tr \<le> 10 ^ 10 \<and> tr_output tr \<le> 10 ^ 10 \<and> tr_cache_read tr \<le> 10 ^ 10
     \<and> tr_cache_write_5m tr \<le> 10 ^ 10 \<and> (\<forall>x. tr_cache_write_1h tr = Some x \<longrightarrow> x \<le> 10 ^ 10)"

definition card_sane :: "card \<Rightarrow> bool" where
  "card_sane c \<longleftrightarrow>
     (\<forall>cl long tr. variant c cl long = Some tr \<longrightarrow> rates_sane tr)
     \<and> (\<forall>g. c_geo_us c = Some g \<longrightarrow> g \<le> 10 ^ 5) \<and> (\<forall>(t, f) \<in> set (c_tools c). f \<le> 10 ^ 9)"

definition row_sane :: "usage_row \<Rightarrow> bool" where
  "row_sane r \<longleftrightarrow>
     input_tokens r \<le> 10 ^ 9 \<and> output_tokens r \<le> 10 ^ 9 \<and> cache_read_tokens r \<le> 10 ^ 9
     \<and> cache_write_tokens r \<le> 10 ^ 9 \<and> (\<forall>t. server_tools r t \<le> 10 ^ 6)
     \<and> (\<forall>x. upstream_cost_usd r = Some x \<longrightarrow> x \<noteq> Inl Overflow \<and> (\<forall>a. x = Inr a \<longrightarrow> a \<le> 10 ^ 28))"

definition tables_sane :: "tables \<Rightarrow> bool" where
  "tables_sane tb \<longleftrightarrow>
     OPENROUTER_CREDIT_FEE tb \<le> 10 ^ 5
     \<and> (\<forall>row \<in> set (ROW_RATES tb). card_sane (rr_list row)
          \<and> (\<forall>cc \<in> set (rr_cost row).
               (\<forall>c. cc_card cc = Own c \<longrightarrow> card_sane c)
               \<and> (\<forall>es. cc_card cc = OpenRouterCard es \<longrightarrow> (\<forall>e \<in> set es. card_sane (oe_card e)))))"

lemma bind_no_overflow:
  "x \<noteq> Inl Overflow \<Longrightarrow> (\<And>a. x = Inr a \<Longrightarrow> f a \<noteq> Inl Overflow) \<Longrightarrow> bind_res x f \<noteq> Inl Overflow"
  by (cases x) auto

lemma ok_or_no_overflow: "e \<noteq> Overflow \<Longrightarrow> ok_or e x \<noteq> Inl Overflow"
  by (cases x) auto

lemma mul_le: "(a :: nat) \<le> x \<Longrightarrow> b \<le> y \<Longrightarrow> a * b \<le> x * y"
  by (rule mult_le_mono)

lemma tokens_num_small:
  assumes "n \<le> 2 * 10 ^ 9" and "rate \<le> 10 ^ 10" and "f \<le> 10 ^ 10"
  shows "\<exists>x. tokens_num n rate f = Inr x \<and> x \<le> 2 * 10 ^ 35"
proof -
  have 1: "n * rate \<le> 2 * 10 ^ 19" using mul_le [OF assms(1,2)] by simp
  then have 2: "n * rate * 1000000 \<le> 2 * 10 ^ 25" by simp
  then have 3: "n * rate * 1000000 * f \<le> 2 * 10 ^ 35" using mul_le [OF 2 assms(3)] by simp
  have "n * rate \<le> U128_MAX" "n * rate * 1000000 \<le> U128_MAX" "n * rate * 1000000 * f \<le> U128_MAX"
    using 1 2 3 by simp_all
  with 3 show ?thesis by (simp add: tokens_num_def checked_mul_def)
qed

lemma fee_num_small:
  assumes "n \<le> 10 ^ 6" and "fee \<le> 10 ^ 9" and "f \<le> 10 ^ 9"
  shows "\<exists>x. fee_num n fee f = Inr x \<and> x \<le> 10 ^ 36"
proof -
  have 1: "n * fee \<le> 10 ^ 15" using mul_le [OF assms(1,2)] by simp
  then have 2: "n * fee * ATTO_PER_MICRO \<le> 10 ^ 27" by (simp add: ATTO_PER_MICRO_def ac_simps)
  then have 3: "n * fee * ATTO_PER_MICRO * f \<le> 10 ^ 36" using mul_le [OF 2 assms(3)] by simp
  have "n * fee \<le> U128_MAX" "n * fee * ATTO_PER_MICRO \<le> U128_MAX" "n * fee * ATTO_PER_MICRO * f \<le> U128_MAX"
    using 1 2 3 by simp_all
  with 3 show ?thesis by (simp add: fee_num_def checked_mul_def)
qed

lemma round_half_up_small: "x \<le> 2 * 10 ^ 38 \<Longrightarrow> round_half_up x \<noteq> Inl Overflow"
proof -
  assume x: "x \<le> 2 * 10 ^ 38"
  then have "(x + DEN div 2) div DEN \<le> (2 * 10 ^ 38 + DEN div 2) div DEN" by (intro div_le_mono) simp
  with x show ?thesis by (simp add: round_half_up_def DEN_num checked_add_def Let_def)
qed

lemma tools_num_small:
  assumes "\<forall>(t, n) \<in> set us. n \<le> 10 ^ 6 \<and> (\<forall>x. tool_fee c t = Some x \<longrightarrow> x \<le> 10 ^ 9)" and "f \<le> 10 ^ 9"
    and "acc \<le> k * 10 ^ 36" and "k + length us \<le> 30"
  shows "tools_num c f us acc \<noteq> Inl Overflow
       \<and> (\<forall>x. tools_num c f us acc = Inr x \<longrightarrow> x \<le> (k + length us) * 10 ^ 36)"
  using assms
proof (induction us arbitrary: acc k)
  case (Cons u us)
  obtain t n where u: "u = (t, n)" by (cases u)
  show ?case
  proof (cases "tool_fee c t")
    case (Some fee)
    with Cons.prems(1) u obtain y where y: "fee_num n fee f = Inr y" "y \<le> 10 ^ 36"
      using fee_num_small [OF _ _ Cons.prems(2), of n fee] by auto
    have "acc + y \<le> Suc k * 10 ^ 36" using y(2) Cons.prems(3) by simp
    moreover from this have "acc + y \<le> U128_MAX"
      using Cons.prems(4) mul_le [of "Suc k" 30 "10 ^ 36" "10 ^ 36"] by simp
    ultimately show ?thesis
      using Cons.IH [of "acc + y" "Suc k"] Cons.prems u Some y by (simp add: checked_add_def)
  qed (simp add: u)
qed simp

lemma counts_used_small: "length (counts_used c) \<le> 17"
proof -
  have "length (counts_used c) \<le> length (map (\<lambda>t. (t, c t)) TOOL_ALL)"
    unfolding counts_used_def by (rule length_filter_le)
  then show ?thesis by (simp add: TOOL_ALL_def)
qed

lemma tool_fee_sane: "card_sane c \<Longrightarrow> tool_fee c t = Some x \<Longrightarrow> x \<le> 10 ^ 9"
  by (auto simp: card_sane_def tool_fee_def find_Some_iff in_set_conv_nth) (metis nth_mem case_prodD)

lemma tools_side_small:
  assumes "card_sane c" and "fee \<le> 10 ^ 5" and "\<forall>k. server_tools r k \<le> 10 ^ 6"
  shows "tools_num c (mult_factor (ONE, fee)) (counts_used (server_tools r)) 0 \<noteq> Inl Overflow"
    and "tools_num c (mult_factor (ONE, fee)) (counts_used (server_tools r)) 0 = Inr x \<Longrightarrow> x \<le> 17 * 10 ^ 36"
proof -
  have f1: "mult_factor (ONE, fee) \<le> 10 ^ 9"
    using assms(2) by (simp add: mult_factor_def ONE_def)
  have used: "\<forall>(k, n) \<in> set (counts_used (server_tools r)). n \<le> 10 ^ 6 \<and> (\<forall>x. tool_fee c k = Some x \<longrightarrow> x \<le> 10 ^ 9)"
    using assms(3) tool_fee_sane [OF assms(1)] by (auto simp: counts_used_def)
  have *: "tools_num c (mult_factor (ONE, fee)) (counts_used (server_tools r)) 0 \<noteq> Inl Overflow
      \<and> (\<forall>x. tools_num c (mult_factor (ONE, fee)) (counts_used (server_tools r)) 0 = Inr x
            \<longrightarrow> x \<le> (0 + length (counts_used (server_tools r))) * 10 ^ 36)"
    using counts_used_small [of "server_tools r"] by (intro tools_num_small [OF used f1]) simp_all
  then show "tools_num c (mult_factor (ONE, fee)) (counts_used (server_tools r)) 0 \<noteq> Inl Overflow" ..
  assume "tools_num c (mult_factor (ONE, fee)) (counts_used (server_tools r)) 0 = Inr x"
  with * have "x \<le> length (counts_used (server_tools r)) * 10 ^ 36" by simp
  also have "\<dots> \<le> 17 * 10 ^ 36" using counts_used_small by (rule mult_le_mono1)
  finally show "x \<le> 17 * 10 ^ 36" .
qed

lemma tokens_side_small:
  assumes "n \<le> 2 * 10 ^ 9" and "rate \<le> 10 ^ 10" and "geo \<le> 10 ^ 5" and "fee \<le> 10 ^ 5"
  shows "tokens_num n rate (mult_factor (geo, fee)) \<noteq> Inl Overflow"
    and "tokens_num n rate (mult_factor (geo, fee)) = Inr x \<Longrightarrow> x \<le> 2 * 10 ^ 35"
  using tokens_num_small [OF assms(1,2), of "mult_factor (geo, fee)"] mul_le [OF assms(3,4)]
  by (auto simp: mult_factor_def)

lemma side_class_no_overflow: "side_class c long r cl \<noteq> Inl Overflow"
  by (auto simp: side_class_def split: option.splits bool.splits)

lemma side_nums_small:
  assumes card: "card_sane c" and fee: "fee \<le> 10 ^ 5" and geo: "geo \<le> 10 ^ 5" and rates: "rates_sane rates"
    and t: "fresh t \<le> 10 ^ 9" "gateway_writes t \<le> 10 ^ 9" "read_toks t \<le> 10 ^ 9" "write_5m t \<le> 10 ^ 9"
      "write_1h t \<le> 10 ^ 9" "out_toks t \<le> 10 ^ 9"
    and cnt: "\<forall>k. server_tools r k \<le> 10 ^ 6"
  shows "side_nums c t r rates geo fee \<noteq> Inl Overflow"
    and "side_nums c t r rates geo fee = Inr nums \<Longrightarrow> (\<forall>x \<in> set nums. x \<le> 17 * 10 ^ 36) \<and> length nums = 6"
proof -
  note tn = tokens_side_small [OF _ _ geo fee] and tl = tools_side_small [OF card fee cnt]
  have rs: "tr_input rates \<le> 10 ^ 10" "tr_output rates \<le> 10 ^ 10" "tr_cache_read rates \<le> 10 ^ 10"
    "tr_cache_write_5m rates \<le> 10 ^ 10" "\<And>x. tr_cache_write_1h rates = Some x \<Longrightarrow> x \<le> 10 ^ 10"
    using rates by (auto simp: rates_sane_def)
  have w1r: "w1r \<le> 10 ^ 10"
    if "(if 0 < write_1h t then ok_or NoRate (tr_cache_write_1h rates) else Inr 0) = Inr w1r" for w1r
    using that rs(5) by (auto split: if_splits)
  have ns: "fresh t - gateway_writes t \<le> 2 * 10 ^ 9" "read_toks t \<le> 2 * 10 ^ 9"
    "write_5m t + gateway_writes t \<le> 2 * 10 ^ 9" "write_1h t \<le> 2 * 10 ^ 9" "out_toks t \<le> 2 * 10 ^ 9"
    using t by simp_all
  have w5: "checked_add U64_MAX (write_5m t) (gateway_writes t) = Some (write_5m t + gateway_writes t)"
    using ns(3) by simp
  show "side_nums c t r rates geo fee \<noteq> Inl Overflow"
    unfolding side_nums_def Let_def w5
    by (intro bind_no_overflow tn(1) tl(1) ns rs(1-4); (rule w1r, assumption)?; use ns(3) in simp)
  assume "side_nums c t r rates geo fee = Inr nums"
  then show "(\<forall>x \<in> set nums. x \<le> 17 * 10 ^ 36) \<and> length nums = 6"
    unfolding side_nums_def Let_def w5 bind_res_Inr
    by (auto dest!: tn(2) [OF ns(1) rs(1)] tn(2) [OF ns(2) rs(3)] tn(2) [OF ns(3) rs(4)]
          tn(2) [OF ns(4) w1r] tn(2) [OF ns(5) rs(2)] tl(2))
qed

lemma sum_num_small:
  "\<forall>x \<in> set xs. x \<le> B \<Longrightarrow> acc + length xs * B \<le> U128_MAX \<Longrightarrow>
     \<exists>y. sum_num xs acc = Some y \<and> y \<le> acc + length xs * B"
proof (induction xs arbitrary: acc)
  case (Cons x xs)
  have "acc + x + length xs * B \<le> U128_MAX" "acc + x + length xs * B \<le> acc + length (x # xs) * B"
    using Cons.prems by simp_all
  moreover from this Cons.IH [of "acc + x"] Cons.prems(1) obtain y
    where "sum_num xs (acc + x) = Some y" "y \<le> acc + x + length xs * B" by auto
  ultimately show ?case by (simp add: checked_add_def)
qed simp

lemma round_all_small: "\<forall>x \<in> set xs. x \<le> 2 * 10 ^ 38 \<Longrightarrow> round_all xs \<noteq> Inl Overflow"
proof (induction xs)
  case (Cons x xs)
  then show ?case unfolding round_all.simps by (intro bind_no_overflow round_half_up_small) simp_all
qed simp

lemma price_side_no_overflow:
  assumes card: "card_sane c" and fee: "fee \<le> 10 ^ 5"
    and t: "fresh t \<le> 10 ^ 9" "gateway_writes t \<le> 10 ^ 9" "read_toks t \<le> 10 ^ 9" "write_5m t \<le> 10 ^ 9"
      "write_1h t \<le> 10 ^ 9" "out_toks t \<le> 10 ^ 9"
    and cnt: "\<forall>k. server_tools r k \<le> 10 ^ 6"
  shows "price_side c t r cl us fee \<noteq> Inl Overflow"
  unfolding price_side_def Let_def
proof (intro bind_no_overflow)
  fix cl' rates geo
  assume v: "ok_or NoRate (variant c cl' (is_long c t)) = Inr rates"
    and g: "(if us then ok_or UnknownGeo (c_geo_us c) else Inr ONE) = Inr geo"
  have rates: "rates_sane rates" using v card by (auto simp: card_sane_def)
  have geo: "geo \<le> 10 ^ 5" using g card by (auto simp: card_sane_def ONE_def split: if_splits)
  note sn = side_nums_small [OF card fee geo rates t cnt]
  show "side_nums c t r rates geo fee \<noteq> Inl Overflow" by (rule sn(1))
  fix nums
  assume "side_nums c t r rates geo fee = Inr nums"
  from sn(2) [OF this] have nums: "\<forall>x \<in> set nums. x \<le> 17 * 10 ^ 36" "length nums = 6" by simp_all
  then obtain y where y: "sum_num nums 0 = Some y" "y \<le> 2 * 10 ^ 38"
    using sum_num_small [OF nums(1), of 0] by auto
  then show "ok_or Overflow (sum_num nums 0) \<noteq> Inl Overflow" by simp
  show "round_all nums \<noteq> Inl Overflow" using nums(1) by (intro round_all_small) auto
  fix tot
  assume "ok_or Overflow (sum_num nums 0) = Inr tot"
  with y have "tot \<le> 2 * 10 ^ 38" by simp
  then show "round_half_up tot \<noteq> Inl Overflow" by (rule round_half_up_small)
qed (auto simp: side_class_no_overflow)

lemma dearest_no_overflow:
  assumes "\<forall>e \<in> set es. price_side (oe_card e) t r CStandard False fee \<noteq> Inl Overflow"
  shows "dearest fee es r t best \<noteq> Inl Overflow"
  using assms
proof (induction es arbitrary: best)
  case (Cons e es)
  then show ?case unfolding dearest.simps by (intro bind_no_overflow) simp_all
qed simp

lemma reported_no_overflow:
  assumes "fee \<le> 10 ^ 5" and "atto \<le> 10 ^ 28"
  shows "reported_side fee prov cl atto \<noteq> Inl Overflow"
proof -
  let ?f = "mult_factor (if prov = OpenRouter then fee else ONE, ONE)"
  have "?f \<le> 10 ^ 9" using assms(1) by (simp add: mult_factor_def ONE_def)
  from mul_le [OF assms(2) this] have le: "atto * ?f \<le> 10 ^ 37" by simp
  then have small: "atto * ?f \<le> U128_MAX" by simp
  have "round_half_up (atto * ?f) \<noteq> Inl Overflow"
    by (rule round_half_up_small) (use le in simp)
  with small show ?thesis
    unfolding reported_side_def Let_def by (intro bind_no_overflow) (auto simp del: mult_factor_def)
qed

lemma bs_base_range: "0 < n \<Longrightarrow> bs_base rows m base n < base + n"
proof (induction rows m base n rule: bs_base.induct)
  case (1 rows m base n)
  show ?case
  proof (cases "n \<le> 1")
    case False
    with 1 have "bs_base rows m (if m < rr_model (rows ! (base + n div 2)) then base else base + n div 2) (n - n div 2)
        < (if m < rr_model (rows ! (base + n div 2)) then base else base + n div 2) + (n - n div 2)"
      by simp
    also have "\<dots> \<le> base + n" by simp
    finally show ?thesis using False by (simp add: bs_base.simps [of rows m base n] Let_def)
  qed (use 1(2) in \<open>simp add: bs_base.simps [of rows m base n]\<close>)
qed

lemma for_row_mem:
  assumes "for_row tb m = Some row"
  shows "row \<in> set (ROW_RATES tb) \<and> rr_model row = m"
proof -
  from assms have "ROW_RATES tb \<noteq> []"
    and row: "row = ROW_RATES tb ! bs_base (ROW_RATES tb) m 0 (length (ROW_RATES tb))" "rr_model row = m"
    by (auto simp: for_row_def Let_def split: if_splits)
  with bs_base_range [of "length (ROW_RATES tb)" "ROW_RATES tb" m 0] show ?thesis by simp
qed

lemma bs_base_finds:
  "sorted_wrt (<) (map rr_model rows) \<Longrightarrow> base \<le> i \<Longrightarrow> i < base + n \<Longrightarrow> base + n \<le> length rows \<Longrightarrow> rr_model (rows ! i) = m \<Longrightarrow>
           bs_base rows m base n = i"
proof (induction rows m base n rule: bs_base.induct)
  case (1 rows m base n)
  show ?case
  proof (cases "n \<le> 1")
    case False
    let ?mid = "base + n div 2"
    have len: "?mid < length rows" "i < length rows" using 1(3-5) False by simp_all
    have "m < rr_model (rows ! ?mid) \<longleftrightarrow> i < ?mid"
      using sorted_wrt_nth_less [OF 1(2), of i ?mid] sorted_wrt_nth_less [OF 1(2), of ?mid i] len 1(6)
      by (cases i ?mid rule: linorder_cases) auto
    with 1(1) [OF False refl refl] 1(2-6) False show ?thesis
      by (cases "i < ?mid") (simp_all add: bs_base.simps [of rows m base n] Let_def)
  qed (use 1(2-) in \<open>simp add: bs_base.simps [of rows m base n]\<close>)
qed

lemma for_row_lookup:
  assumes sorted: "sorted_wrt (<) (map rr_model (ROW_RATES tb))"
  shows "for_row tb m = List.find (\<lambda>row. rr_model row = m) (ROW_RATES tb)"
proof (cases "\<exists>row \<in> set (ROW_RATES tb). rr_model row = m")
  case True
  then obtain i where i: "i < length (ROW_RATES tb)" "rr_model (ROW_RATES tb ! i) = m"
    by (auto simp: in_set_conv_nth)
  with bs_base_finds [OF sorted, of 0 i "length (ROW_RATES tb)" m]
  have "for_row tb m = Some (ROW_RATES tb ! i)" by (auto simp: for_row_def Let_def)
  moreover have "\<forall>j<i. rr_model (ROW_RATES tb ! j) \<noteq> m"
    using sorted_wrt_nth_less [OF sorted, of _ i] i by simp (metis less_irrefl)
  then have "List.find (\<lambda>row. rr_model row = m) (ROW_RATES tb) = Some (ROW_RATES tb ! i)"
    unfolding find_Some_iff using i by blast
  ultimately show ?thesis by simp
next
  case False
  then have "List.find (\<lambda>row. rr_model row = m) (ROW_RATES tb) = None" by (auto simp: find_None_iff)
  moreover from False for_row_mem have "for_row tb m = None" by (cases "for_row tb m") blast+
  ultimately show ?thesis by simp
qed

lemma tokens_of_small:
  assumes "row_sane r" and "tokens_of r = Inr t"
  shows "fresh t \<le> 10 ^ 9" "gateway_writes t \<le> 10 ^ 9" "read_toks t \<le> 10 ^ 9" "write_5m t \<le> 10 ^ 9"
    "write_1h t \<le> 10 ^ 9" "out_toks t \<le> 10 ^ 9"
proof -
  have "fresh t \<le> input_tokens r"
    using assms(2) by (cases "usage_wire r") (auto simp: tokens_of_def Option.bind_eq_Some_conv split: if_splits)
  with tokens_of_buckets [OF assms(2)] assms(1)
  show "fresh t \<le> 10 ^ 9" "gateway_writes t \<le> 10 ^ 9" "read_toks t \<le> 10 ^ 9" "write_5m t \<le> 10 ^ 9"
    "write_1h t \<le> 10 ^ 9" "out_toks t \<le> 10 ^ 9"
    unfolding row_sane_def by linarith+
qed

lemma cost_side_no_overflow:
  assumes tb: "tables_sane tb" and r: "row_sane r" and row: "row \<in> set (ROW_RATES tb)"
    and cand: "cand \<in> set (rr_cost row)" and t: "tokens_of r = Inr t"
  shows "cost_side tb row (cc_card cand) prov r t cl us st \<noteq> Inl Overflow"
proof -
  have fee: "OPENROUTER_CREDIT_FEE tb \<le> 10 ^ 5" and one: "ONE \<le> 10 ^ 5"
    and cnt: "\<forall>k. server_tools r k \<le> 10 ^ 6"
    using tb r by (auto simp: tables_sane_def row_sane_def ONE_def)
  note side = price_side_no_overflow [OF _ _ tokens_of_small [OF r t] cnt]
  have list: "card_sane (rr_list row)" and own: "\<And>c. cc_card cand = Own c \<Longrightarrow> card_sane c"
    and eps: "\<And>es e. cc_card cand = OpenRouterCard es \<Longrightarrow> e \<in> set es \<Longrightarrow> card_sane (oe_card e)"
    using tb row cand by (auto simp: tables_sane_def)
  have rep: "reported_side (OPENROUTER_CREDIT_FEE tb) prov cl atto \<noteq> Inl Overflow"
    if "upstream_cost_usd r = Some (Inr atto)" for atto
    using r that by (intro reported_no_overflow [OF fee]) (auto simp: row_sane_def)
  have bad: "upstream_cost_usd r \<noteq> Some (Inl Overflow)" using r by (auto simp: row_sane_def)
  have near: "dearest_endpoint (OPENROUTER_CREDIT_FEE tb) es r t cl us \<noteq> Inl Overflow"
    if "cc_card cand = OpenRouterCard es" for es
    unfolding dearest_endpoint_def
    using dearest_no_overflow [of "filter (could_serve r cl) es" t r "OPENROUTER_CREDIT_FEE tb" None]
      side [OF eps [OF that] fee]
    by (auto intro!: bind_no_overflow split: option.splits)
  show ?thesis
  proof (cases "upstream_cost_usd r")
    case (Some x)
    with rep bad show ?thesis
      by (cases x; cases "cc_card cand") (auto simp: cost_side_def intro!: bind_no_overflow)
  next
    case None
    with side [OF list one] side [OF own one] near show ?thesis
      by (cases "cc_card cand") (auto simp: cost_side_def intro!: bind_no_overflow)
  qed
qed

text \<open>
  A sane row never overflows. With at most a billion tokens of each kind and a million calls of
  each tool, a reported cost of at most ten billion dollars, and tables whose rates are at most ten
  thousand dollars per million tokens, fees at most a thousand dollars and multipliers at most ten,
  no intermediate leaves 128 bits and no amount leaves 64: the row is never refused as an overflow.
\<close>

theorem sane_row_never_overflows:
  assumes "tables_sane tb" and "row_sane r"
  shows "price tb r \<noteq> Inl Overflow"
proof (cases "cache_hit r")
  case True
  then show ?thesis by (simp add: price_def)
next
  case False
  have tok: "tokens_of r \<noteq> Inl Overflow" by (simp add: tokens_of_refused)
  have cls: "served_class r \<noteq> Inl Overflow"
    by (auto simp: served_class_def split: option.splits tier.splits speed.splits if_splits)
  have geo: "geo_us r \<noteq> Inl Overflow"
    by (auto simp: geo_us_def split: option.splits geo.splits)
  have cost: "cost_side tb row (cc_card cand) prov r t cl us st \<noteq> Inl Overflow"
    if "for_row tb m = Some row" "List.find P (rr_cost row) = Some cand" "tokens_of r = Inr t"
    for m row P cand prov t cl us st
  proof (rule cost_side_no_overflow [OF assms _ _ that(3)])
    show "row \<in> set (ROW_RATES tb)" using for_row_mem [OF that(1)] by simp
    show "cand \<in> set (rr_cost row)" using that(2) by (auto simp: find_Some_iff)
  qed
  from False tok cls geo show ?thesis
    unfolding price_def
    by (auto dest: cost split: if_splits prod.splits)
qed

section \<open>A reported cost\<close>

lemma char_of_48: "char_of (48 :: nat) = CHR ''0''"
proof -
  have "of_char (CHR ''0'') = (48 :: nat)" by simp
  then show ?thesis by (metis char_of_char)
qed

lemma atto_digits_value:
  assumes "list_all is_ascii_digit ds" and "n = 0 \<and> sig = 0 \<or> 0 < sig \<and> 10 ^ (sig - 1) \<le> n"
    and "digits_val ds n < 10 ^ 36"
  shows "atto_digits ds n sig = Some (digits_val ds n)"
  using assms
proof (induction ds arbitrary: n sig)
  case (Cons d ds)
  let ?n = "n * 10 + (byte d - 48)"
  have val: "digits_val (d # ds) n = digits_val ds ?n" by (simp add: digits_val_def)
  show ?case
  proof (cases "n = 0 \<and> d = CHR ''0''")
    case True
    then have "digits_val (d # ds) n = digits_val ds 0" by (simp add: digits_val_def)
    with True Cons show ?thesis by simp
  next
    case False
    have pos: "10 ^ sig \<le> ?n"
    proof (cases sig)
      case 0
      then have "n = 0" using Cons.prems(2) by simp
      with False have "byte d \<noteq> (48 :: nat)"
        by (metis char_of_char char_of_48)
      with Cons.prems(1) have "48 < byte d" by (simp add: is_ascii_digit_def)
      then show ?thesis using 0 by simp
    next
      case (Suc k)
      then have "10 ^ k \<le> n" using Cons.prems(2) by auto
      then show ?thesis using Suc by simp
    qed
    have "?n < 10 ^ 36" using digits_val_ge [of ?n ds] Cons.prems(3) val by simp
    with pos have "(10::nat) ^ sig < 10 ^ 36" by linarith
    then have "sig < 36" by (rule power_less_imp_less_exp [rotated]) simp
    with Cons.IH [of ?n "sig + 1"] Cons.prems False pos show ?thesis by (auto simp: val)
  qed
qed (simp add: digits_val_def)

lemma scale_atto_exact:
  assumes "n < 10 ^ 36"
  shows "scale_atto n shift =
    (if 38 < shift \<or> (0 \<le> shift \<and> U128_MAX < n * 10 ^ nat shift) then Inl Overflow
     else Inr (round_half (real n * 10 powi shift)))"
proof (cases "0 \<le> shift")
  case True
  then obtain k where k: "shift = int k" by (metis nonneg_int_cases)
  have "10 ^ k \<le> U128_MAX \<longleftrightarrow> k \<le> 38"
  proof
    assume "10 ^ k \<le> U128_MAX"
    also have "U128_MAX < 10 ^ 39" by simp
    finally have "(10 :: nat) ^ k < 10 ^ 39" .
    then have "k < 39" by (rule power_less_imp_less_exp [rotated]) simp
    then show "k \<le> 38" by simp
  next
    assume "k \<le> 38"
    then have "(10 :: nat) ^ k \<le> 10 ^ 38" by (intro power_increasing) simp_all
    then show "10 ^ k \<le> U128_MAX" by simp
  qed
  moreover have "real n * 10 powi shift = real (n * 10 ^ k)" by (simp add: k power_int_def)
  then have "round_half (real n * 10 powi shift) = n * 10 ^ k"
    by (simp only: round_half_def) linarith
  ultimately show ?thesis
    by (auto simp: scale_atto_def k checked_mul_def)
next
  case False
  define k where "k = nat (- shift)"
  have k: "0 < k" "shift = - int k" using False by (simp_all add: k_def)
  have real: "real n * 10 powi shift = real n / real (10 ^ k)"
    by (simp add: k power_int_minus field_simps)
  have "round_half (real n * 10 powi shift) = 0" if "36 < k"
  proof -
    have "(10 :: real) ^ 37 \<le> 10 ^ k" using that by (intro power_increasing) simp_all
    moreover have "real n < 10 ^ 36" using assms by (metis of_nat_less_iff of_nat_numeral of_nat_power)
    ultimately have "real n / real (10 ^ k) < 1 / 2" by (simp add: field_simps)
    then have "real n / real (10 ^ k) + 1 / 2 < 1" by linarith
    then show ?thesis unfolding real round_half_def by linarith
  qed
  moreover have "(n + 10 ^ k div 2) div 10 ^ k = round_half (real n * 10 powi shift)"
    unfolding real by (rule half_up_nat) (use k in simp_all)
  ultimately show ?thesis
    using False by (simp add: scale_atto_def k_def [symmetric] Let_def)
qed

text \<open>
  A number that is not negative as JSON writes it: digits, an optional fraction, and an optional exponent, with either
  letter, either sign or none, and any digits.
\<close>

record exponent =
  x_letter :: char
  x_sign :: string
  x_digits :: string

definition exponent_ok :: "exponent \<Rightarrow> bool" where
  "exponent_ok x \<longleftrightarrow> x_letter x \<in> {CHR ''e'', CHR ''E''} \<and> x_sign x \<in> {[], ''+'', ''-''} \<and>
     x_digits x \<noteq> [] \<and> list_all is_ascii_digit (x_digits x)"

definition exponent_val :: "exponent option \<Rightarrow> int" where
  "exponent_val ex =
     (case ex of
        None \<Rightarrow> 0
      | Some x \<Rightarrow> (if x_sign x = ''-'' then - int (digits_val (x_digits x) 0) else int (digits_val (x_digits x) 0)))"

definition decimal_text :: "string \<Rightarrow> string \<Rightarrow> exponent option \<Rightarrow> string" where
  "decimal_text w f ex =
     w @ (if f = [] then [] else CHR ''.'' # f)
       @ (case ex of None \<Rightarrow> [] | Some x \<Rightarrow> x_letter x # x_sign x @ x_digits x)"

lemma digit_not:
  assumes "is_ascii_digit c"
  shows "c \<noteq> CHR ''.''" "c \<noteq> CHR ''e''" "c \<noteq> CHR ''E''" "c \<noteq> CHR ''+''" "c \<noteq> CHR ''-''"
  using assms by (auto simp: is_ascii_digit_def)

lemma split_once_dot:
  "list_all is_ascii_digit w \<Longrightarrow> split_once ''.'' (w @ CHR ''.'' # f) = Some (w, f)"
  by (induction w) (auto simp: strip_prefix_def dest: digit_not)

lemma split_once_no_dot: "list_all is_ascii_digit w \<Longrightarrow> split_once ''.'' w = None"
  by (induction w) (auto simp: strip_prefix_def dest: digit_not)

lemma parse_exponent:
  assumes "exponent_ok x" and "-40 \<le> exponent_val (Some x)" and "exponent_val (Some x) \<le> 40"
  shows "parse_i32 (case strip_prefix ''+'' (x_sign x @ x_digits x) of Some e' \<Rightarrow> e' | None \<Rightarrow> x_sign x @ x_digits x) = Some (exponent_val (Some x))"
proof -
  let ?d = "x_digits x" and ?n = "digits_val (x_digits x) 0"
  obtain c s where cs: "?d = c # s" using assms(1) by (cases ?d) (auto simp: exponent_ok_def)
  have d: "list_all is_ascii_digit ?d" "?d \<noteq> []" using assms(1) by (simp_all add: exponent_ok_def)
  then have c: "is_ascii_digit c" by (simp add: cs)
  have n: "?n \<le> 40" using assms(2,3) by (simp add: exponent_val_def split: if_splits)
  have p: "parse_uint 2147483647 ?d = Some ?n" "parse_digits 2147483648 ?d 0 = Some ?n"
    using n parse_digits_value [OF d(1), of 0] by (simp_all add: parse_uint_digits [OF d(2,1)])
  have i: "parse_i32 ?d = Some (int ?n)" "parse_i32 (CHR ''-'' # ?d) = Some (- int ?n)"
    using p d(2) digit_not [OF c] by (simp_all add: parse_i32_def cs)
  have s: "strip_prefix ''+'' ?d = None" "strip_prefix ''+'' (CHR ''+'' # ?d) = Some ?d" "strip_prefix ''+'' (CHR ''-'' # ?d) = None"
    using digit_not [OF c] by (simp_all add: strip_prefix_def cs)
  consider "x_sign x = []" | "x_sign x = ''+''" | "x_sign x = ''-''" using assms(1) by (auto simp: exponent_ok_def)
  then show ?thesis by cases (simp_all add: exponent_val_def i s)
qed

lemma split_exponent_text:
  assumes "list_all is_ascii_digit w" and "list_all is_ascii_digit f"
    and ex: "\<forall>x. ex = Some x \<longrightarrow> exponent_ok x" "-40 \<le> exponent_val ex" "exponent_val ex \<le> 40"
  shows "split_exponent (decimal_text w f ex) = Some (w @ (if f = [] then [] else CHR ''.'' # f), exponent_val ex)"
proof -
  let ?m = "w @ (if f = [] then [] else CHR ''.'' # f)"
  let ?p = "\<lambda>c. c \<noteq> CHR ''e'' \<and> c \<noteq> CHR ''E''"
  have m: "\<forall>c \<in> set ?m. ?p c"
    using assms(1,2) by (auto simp: list_all_iff dest: digit_not)
  show ?thesis
  proof (cases ex)
    case None
    then show ?thesis using m by (auto simp: split_exponent_def decimal_text_def list_ex_iff exponent_val_def)
  next
    case (Some x)
    have l: "\<not> ?p (x_letter x)" using ex(1) Some by (auto simp: exponent_ok_def)
    let ?e = "x_sign x @ x_digits x"
    have t: "decimal_text w f ex = ?m @ x_letter x # ?e" using Some by (simp add: decimal_text_def)
    have tw: "takeWhile ?p (?m @ x_letter x # ?e) = ?m" using m l by (simp add: takeWhile_append)
    have dr: "drop (length ?m + 1) (?m @ x_letter x # ?e) = ?e" by simp
    have le: "list_ex (\<lambda>c. c = CHR ''e'' \<or> c = CHR ''E'') (?m @ x_letter x # ?e)" using l by auto
    show ?thesis
      unfolding split_exponent_def t tw dr Let_def if_P [OF le] using parse_exponent [of x] ex Some by simp
  qed
qed

text \<open>
  C34. A vendor's reported cost is read exactly. Take any number that is not negative as JSON writes it, with either exponent
  letter, a sign or none, and leading zeros or not, at most 36 significant digits and an exponent between -40 and 40. What is
  read is its value in attodollars, rounded half up below one attodollar; it is refused as an overflow exactly
  when the power of ten it is scaled by passes 38 (whatever the digits, zero included) or the product does not fit 128 bits.
\<close>

theorem reported_cost_read_exactly:
  assumes digits: "list_all is_ascii_digit w" "list_all is_ascii_digit f" and "w \<noteq> []"
    and ex: "\<forall>x. ex = Some x \<longrightarrow> exponent_ok x" "-40 \<le> exponent_val ex" "exponent_val ex \<le> 40"
    and sig: "digits_val (w @ f) 0 < 10 ^ 36" and len: "length f \<le> 2147483647"
    and shift: "shift = exponent_val ex - int (length f) + 18"
  shows "parse_usd_atto (decimal_text w f ex) =
    (if 38 < shift \<or> (0 \<le> shift \<and> U128_MAX < digits_val (w @ f) 0 * 10 ^ nat shift) then Inl Overflow
     else Inr (round_half (real (digits_val (w @ f) 0) * 10 powi shift)))"
proof -
  let ?m = "w @ (if f = [] then [] else CHR ''.'' # f)"
  have split: "(case split_once ''.'' ?m of Some p \<Rightarrow> p | None \<Rightarrow> (?m, [])) = (w, f)"
    using digits split_once_dot [of w f] split_once_no_dot [of w] by auto
  have "atto_digits (w @ f) 0 0 = Some (digits_val (w @ f) 0)"
    using digits sig by (intro atto_digits_value) auto
  then have "parse_usd_atto (decimal_text w f ex) = scale_atto (digits_val (w @ f) 0) shift"
    using split_exponent_text [OF digits ex] digits assms(3) len ex(2,3)
    unfolding parse_usd_atto_def by (simp add: split shift)
  then show ?thesis by (simp only: scale_atto_exact [OF sig])
qed

lemma reported_side_exact:
  assumes "reported_side fee prov cl atto = Inr s"
  shows "micros s = round_half (real atto / 10 ^ 12 * bps (if prov = OpenRouter then fee else ONE))"
    and "s_class s = cl" and "s_parts s = parts_default"
proof -
  let ?m = "if prov = OpenRouter then fee else ONE"
  from assms obtain q where q: "round_half_up (atto * mult_factor (?m, ONE)) = Inr q" "micros s = q"
    "s_class s = cl" "s_parts s = parts_default"
    unfolding reported_side_def Let_def bind_res_Inr ok_or_Inr checked_mul_Some by auto
  have "real (atto * mult_factor (?m, ONE)) / real DEN = real atto / 10 ^ 12 * bps ?m"
    by (simp add: DEN_num mult_factor_def ONE_def bps_def)
  with round_half_up_exact [OF q(1)] q(2)
  show "micros s = round_half (real atto / 10 ^ 12 * bps ?m)" by (simp only:)
  show "s_class s = cl" "s_parts s = parts_default" by (fact q)+
qed

text \<open>
  A reported cost passes through. A row costs nothing exactly when the response cache served it. Where
  the vendor reported its own figure, the row was served by a candidate whose rates were verified, the
  figure is the cost, with OpenRouter's credit fee on top when OpenRouter served and with nothing
  added otherwise, rounded half up once, and the customer is charged the same.
\<close>

theorem reported_cost_passes_through:
  assumes "price tb r = Inr p"
  shows "pr_price p = pr_cost p \<and> (pr_basis p = CacheHit \<longleftrightarrow> cache_hit r)
    \<and> (cache_hit r \<longrightarrow> micros (pr_price p) = 0)
    \<and> (\<not> cache_hit r \<and> upstream_cost_usd r \<noteq> None \<longrightarrow> pr_basis p = Reported
        \<and> (\<exists>row prov cost atto.
             serving tb r row prov cost \<and> (\<forall>why. cost \<noteq> UnverifiedCard why)
             \<and> upstream_cost_usd r = Some (Inr atto)
             \<and> micros (pr_cost p) = round_half (real atto / 10 ^ 12
                   * bps (if prov = OpenRouter then OPENROUTER_CREDIT_FEE tb else ONE))))"
  using assms
proof (cases rule: price_cases)
  case hit
  then show ?thesis by (simp add: zero_side_def)
next
  case (served row prov cost t cl us)
  have basis: "pr_basis p \<noteq> CacheHit" using cost_side_basis [OF served(7)] .
  show ?thesis
  proof (cases "upstream_cost_usd r")
    case None
    with served basis show ?thesis by simp
  next
    case (Some x)
    with served(7) have rep: "pr_basis p = Reported" and ver: "\<forall>why. cost \<noteq> UnverifiedCard why"
      by (auto simp: cost_side_def split: cost_card.splits)
    from cost_side_reported [OF served(7) [unfolded rep]] obtain atto
      where atto: "upstream_cost_usd r = Some (Inr atto)"
        "reported_side (OPENROUTER_CREDIT_FEE tb) prov cl atto = Inr (pr_cost p)" by auto
    show ?thesis
      using served(1,2,8) basis rep ver atto(1) reported_side_exact(1) [OF atto(2)] by auto
  qed
qed

section \<open>What the row's tool cost does\<close>

text \<open>
  Nothing: the pricer never reads \<^verbatim>\<open>upstream_tool_cost_usd\<close>, while the documentation of \<open>NoToolFee\<close> and
  \<open>BadReportedCost\<close> says that a metered tool cost is refused and a malformed one too.
\<close>

lemma tool_cost_fields:
  "price_model (r\<lparr>upstream_tool_cost_usd := x\<rparr>) = price_model r"
  "provider (r\<lparr>upstream_tool_cost_usd := x\<rparr>) = provider r"
  "price_variant (r\<lparr>upstream_tool_cost_usd := x\<rparr>) = price_variant r"
  "usage_wire (r\<lparr>upstream_tool_cost_usd := x\<rparr>) = usage_wire r"
  "input_tokens (r\<lparr>upstream_tool_cost_usd := x\<rparr>) = input_tokens r"
  "output_tokens (r\<lparr>upstream_tool_cost_usd := x\<rparr>) = output_tokens r"
  "cache_read_tokens (r\<lparr>upstream_tool_cost_usd := x\<rparr>) = cache_read_tokens r"
  "cache_write_tokens (r\<lparr>upstream_tool_cost_usd := x\<rparr>) = cache_write_tokens r"
  "cache_write_1h_tokens (r\<lparr>upstream_tool_cost_usd := x\<rparr>) = cache_write_1h_tokens r"
  "gateway_cache_write_tokens (r\<lparr>upstream_tool_cost_usd := x\<rparr>) = gateway_cache_write_tokens r"
  "server_tools (r\<lparr>upstream_tool_cost_usd := x\<rparr>) = server_tools r"
  "service_tier (r\<lparr>upstream_tool_cost_usd := x\<rparr>) = service_tier r"
  "speed (r\<lparr>upstream_tool_cost_usd := x\<rparr>) = speed r"
  "inference_geo (r\<lparr>upstream_tool_cost_usd := x\<rparr>) = inference_geo r"
  "upstream_cost_usd (r\<lparr>upstream_tool_cost_usd := x\<rparr>) = upstream_cost_usd r"
  "served_by (r\<lparr>upstream_tool_cost_usd := x\<rparr>) = served_by r"
  "usage_estimated (r\<lparr>upstream_tool_cost_usd := x\<rparr>) = usage_estimated r"
  "upstream_may_continue (r\<lparr>upstream_tool_cost_usd := x\<rparr>) = upstream_may_continue r"
  "cache_hit (r\<lparr>upstream_tool_cost_usd := x\<rparr>) = cache_hit r"
  "unix_secs (r\<lparr>upstream_tool_cost_usd := x\<rparr>) = unix_secs r"
  by simp_all

lemma side_class_tool_cost: "side_class c long (r\<lparr>upstream_tool_cost_usd := x\<rparr>) cl = side_class c long r cl"
  by (unfold side_class_def tool_cost_fields) (rule refl)

lemma side_nums_tool_cost: "side_nums c t (r\<lparr>upstream_tool_cost_usd := x\<rparr>) rates geo fee = side_nums c t r rates geo fee"
  by (unfold side_nums_def tool_cost_fields) (rule refl)

lemma tokens_of_tool_cost: "tokens_of (r\<lparr>upstream_tool_cost_usd := x\<rparr>) = tokens_of r"
  by (unfold tokens_of_def tool_cost_fields) (rule refl)

lemma served_class_tool_cost: "served_class (r\<lparr>upstream_tool_cost_usd := x\<rparr>) = served_class r"
  by (unfold served_class_def tool_cost_fields) (rule refl)

lemma geo_us_tool_cost: "geo_us (r\<lparr>upstream_tool_cost_usd := x\<rparr>) = geo_us r"
  by (unfold geo_us_def tool_cost_fields) (rule refl)

lemma could_serve_tool_cost: "could_serve (r\<lparr>upstream_tool_cost_usd := x\<rparr>) cl e = could_serve r cl e"
  by (unfold could_serve_def tool_cost_fields) (rule refl)

lemma price_side_tool_cost: "price_side c t (r\<lparr>upstream_tool_cost_usd := x\<rparr>) cl us fee = price_side c t r cl us fee"
  by (unfold price_side_def side_class_tool_cost side_nums_tool_cost) (rule refl)

lemma dearest_tool_cost: "dearest fee es (r\<lparr>upstream_tool_cost_usd := x\<rparr>) t best = dearest fee es r t best"
  by (induction es arbitrary: best) (simp_all add: price_side_tool_cost)

lemma cost_side_tool_cost: "cost_side tb row cost p (r\<lparr>upstream_tool_cost_usd := x\<rparr>) t cl us st = cost_side tb row cost p r t cl us st"
proof -
  have eta: "could_serve (r\<lparr>upstream_tool_cost_usd := x\<rparr>) cl = could_serve r cl" by (simp add: fun_eq_iff could_serve_tool_cost)
  show ?thesis
    by (unfold cost_side_def dearest_endpoint_def price_side_tool_cost dearest_tool_cost eta tool_cost_fields) (rule refl)
qed

lemmas tool_cost_unread =
  tokens_of_tool_cost served_class_tool_cost geo_us_tool_cost cost_side_tool_cost

lemma tool_cost_is_never_read: "price tb (r\<lparr>upstream_tool_cost_usd := x\<rparr>) = price tb r"
  by (unfold price_def tool_cost_unread tool_cost_fields) (rule refl)

text \<open>
  The exponent's plus sign is taken off twice, by the reader and by \<^verbatim>\<open>str::parse\<close>: a text that is no
  JSON number is read as one.
\<close>

lemma double_plus_is_read: "parse_usd_atto ''1e++2'' = parse_usd_atto ''1e2''"
proof -
  have "split_exponent ''1e++2'' = split_exponent ''1e2''"
    by (simp add: split_exponent_def strip_prefix_def parse_i32_def parse_uint_def)
  then show ?thesis by (simp only: parse_usd_atto_def)
qed

section \<open>A row, priced\<close>

definition demo_rates :: token_rates where
  "demo_rates = \<lparr>tr_input = 3000000, tr_output = 15000000, tr_cache_read = 300000,
                 tr_cache_write_5m = 3750000, tr_cache_write_1h = Some 6000000\<rparr>"

definition demo_card :: card where
  "demo_card = (card_new demo_rates)\<lparr>c_geo_us := Some 11000, c_tools := [(WebSearch, 10000)]\<rparr>"

definition demo_tables :: tables where
  "demo_tables =
     \<lparr>ROW_RATES =
        [\<lparr>rr_model = ''claude'', rr_list = demo_card,
          rr_cost = [\<lparr>cc_provider = Anthropic, cc_card = ListCard\<rparr>,
                     \<lparr>cc_provider = OpenRouter, cc_card = OpenRouterCard
                        [\<lparr>oe_host = ''Anthropic'', oe_tag = ''anthropic'', oe_class = CStandard,
                          oe_card = demo_card\<rparr>]\<rparr>]\<rparr>],
      OPENROUTER_CREDIT_FEE = 10550\<rparr>"

definition demo_row :: "string \<Rightarrow> usage_row" where
  "demo_row prov = usage_row_default\<lparr>price_model := Some ''claude'', provider := Some prov,
     input_tokens := 1001, output_tokens := 50, cache_read_tokens := 7,
     server_tools := counts_new(WebSearch := 2)\<rparr>"

abbreviation demo_tokens :: tokens where
  "demo_tokens \<equiv> \<lparr>fresh = 1001, gateway_writes = 0, read_toks = 7, write_5m = 0, write_1h = 0,
                  out_toks = 50\<rparr>"

abbreviation demo_side :: "nat \<Rightarrow> nat \<Rightarrow> nat list \<Rightarrow> side" where
  "demo_side m mult ps \<equiv> \<lparr>micros = m, s_class = CStandard, s_long = False, multiplier = mult,
                            s_parts = parts_of ps\<rparr>"

lemma demo_tokens_of: "tokens_of (demo_row prov) = Inr demo_tokens"
  by (simp add: tokens_of_def demo_row_def usage_row_default_def checked_sub_def)

lemma demo_class: "served_class (demo_row prov) = Inr CStandard" "geo_us (demo_row prov) = Inr False"
  by (simp_all add: served_class_def geo_us_def demo_row_def usage_row_default_def)

lemma demo_used: "counts_used (server_tools (demo_row prov)) = [(WebSearch, 2)]"
  by (simp add: counts_used_def TOOL_ALL_def demo_row_def counts_new_def)

lemma demo_card_facts:
  "is_long demo_card t = False" "side_class demo_card l r cl = Inr cl"
  "c_standard demo_card = demo_rates" "tool_fee demo_card WebSearch = Some 10000"
  by (simp_all add: is_long_def side_class_def demo_card_def card_new_def tool_fee_def)

lemma demo_price_side:
  "price_side demo_card demo_tokens (demo_row prov) CStandard False 10000
     = Inr (demo_side 23755 10000 [3003, 2, 0, 0, 750, 20000], 2375510000000000000000000)"
  "price_side demo_card demo_tokens (demo_row prov) CStandard False 10550
     = Inr (demo_side 25062 10550 [3168, 2, 0, 0, 791, 21100], 2506163050000000000000000)"
  by (simp_all add: price_side_def demo_card_facts side_nums_def demo_used tokens_num_def fee_num_def
      checked_mul_def checked_add_def demo_rates_def mult_factor_def ONE_def ATTO_PER_MICRO_def
      round_half_up_def DEN_num Let_def mult_bps_def SLOTS_def)

lemma demo_lookup:
  "for_row demo_tables ''claude'' = Some (hd (ROW_RATES demo_tables))"
  "rr_list (hd (ROW_RATES demo_tables)) = demo_card" "OPENROUTER_CREDIT_FEE demo_tables = 10550"
  "rr_cost (hd (ROW_RATES demo_tables)) =
     [\<lparr>cc_provider = Anthropic, cc_card = ListCard\<rparr>,
      \<lparr>cc_provider = OpenRouter, cc_card = OpenRouterCard
         [\<lparr>oe_host = ''Anthropic'', oe_tag = ''anthropic'', oe_class = CStandard,
           oe_card = demo_card\<rparr>]\<rparr>]"
  "by_name ''anthropic'' = Some Anthropic" "by_name ''openrouter'' = Some OpenRouter"
  by (simp_all add: for_row_def demo_tables_def bs_base.simps by_name_def PROVIDER_ALL_def
      eq_ignore_ascii_case_def to_ascii_lowercase_def to_ascii_lower_def is_ascii_upper_def)

lemma demo_price:
  "price demo_tables (demo_row ''anthropic'')
     = Inr (let s = demo_side 23755 10000 [3003, 2, 0, 0, 750, 20000]
            in \<lparr>pr_status = PricedStatus, pr_basis = TokensBasis, pr_cost = s, pr_price = s\<rparr>)"
  "price demo_tables (demo_row ''openrouter'')
     = Inr (let s = demo_side 25062 10550 [3168, 2, 0, 0, 791, 21100]
            in \<lparr>pr_status = Estimated, pr_basis = DearestEndpoint, pr_cost = s, pr_price = s\<rparr>)"
proof -
  have row: "price_model (demo_row prov) = Some ''claude''" "provider (demo_row prov) = Some prov"
    "cache_hit (demo_row prov) = False" "price_variant (demo_row prov) = None"
    "service_tier (demo_row prov) = None" "upstream_cost_usd (demo_row prov) = None"
    "usage_estimated (demo_row prov) = False" "upstream_may_continue (demo_row prov) = False"
    "served_by (demo_row prov) = None" "server_tools (demo_row prov) ToolCalls = 0"
    "server_tools (demo_row prov) WebSearch = 2" for prov
    by (simp_all add: demo_row_def usage_row_default_def counts_new_def)
  note facts = price_def row demo_lookup demo_tokens_of demo_class variant_known_def cost_side_def
    ONE_def demo_price_side dearest_endpoint_def could_serve_def
  show "price demo_tables (demo_row ''anthropic'')
     = Inr (let s = demo_side 23755 10000 [3003, 2, 0, 0, 750, 20000]
            in \<lparr>pr_status = PricedStatus, pr_basis = TokensBasis, pr_cost = s, pr_price = s\<rparr>)"
    by (simp add: facts Let_def del: parts_of.simps)
  show "price demo_tables (demo_row ''openrouter'')
     = Inr (let s = demo_side 25062 10550 [3168, 2, 0, 0, 791, 21100]
            in \<lparr>pr_status = Estimated, pr_basis = DearestEndpoint, pr_cost = s, pr_price = s\<rparr>)"
    by (simp add: facts Let_def del: parts_of.simps)
qed

theorem price_is_exact_witness:
  "\<exists>p. price demo_tables (demo_row ''anthropic'') = Inr p \<and> pr_price p = pr_cost p
      \<and> micros (pr_price p) = 23755
      \<and> \<bar>int (sum_list (parts_list (s_parts (pr_cost p)))) - int (micros (pr_cost p))\<bar> \<le> 3"
  using price_is_exact [OF demo_price(1)] demo_price(1) by (auto simp: Let_def)

theorem dearest_endpoint_bounds_witness:
  "\<exists>p. price demo_tables (demo_row ''openrouter'') = Inr p \<and> pr_status p = Estimated
      \<and> micros (pr_price p) = 25062 \<and> pr_price p = pr_cost p"
  using dearest_endpoint_bounds [OF demo_price(2)] demo_price(2) by (auto simp: Let_def)

theorem tokens_billed_once_witness:
  "tokens_of (demo_row ''anthropic'') = Inr demo_tokens
   \<and> fresh demo_tokens + read_toks demo_tokens + write_5m demo_tokens + write_1h demo_tokens = 1001 + 7"
  using tokens_billed_once [of "demo_row ''anthropic''"] demo_tokens_of [of "''anthropic''"] by auto

lemma demo_card_sane: "card_sane demo_card"
proof -
  have "variant demo_card cl long = Some tr \<Longrightarrow> tr = demo_rates" for cl long tr
    by (cases cl; cases long) (auto simp: demo_card_def card_new_def)
  moreover have "rates_sane demo_rates" by (simp add: rates_sane_def demo_rates_def)
  ultimately have "\<forall>cl long tr. variant demo_card cl long = Some tr \<longrightarrow> rates_sane tr" by blast
  moreover have "c_geo_us demo_card = Some 11000" "c_tools demo_card = [(WebSearch, 10000)]"
    by (simp_all add: demo_card_def)
  ultimately show ?thesis by (simp add: card_sane_def)
qed

theorem sane_row_never_overflows_witness:
  "tables_sane demo_tables \<and> row_sane (demo_row ''anthropic'')
   \<and> price demo_tables (demo_row ''anthropic'') \<noteq> Inl Overflow"
proof -
  have tb: "tables_sane demo_tables"
    using demo_card_sane by (auto simp: tables_sane_def demo_tables_def)
  have r: "row_sane (demo_row ''anthropic'')"
    by (auto simp: row_sane_def demo_row_def usage_row_default_def counts_new_def)
  from sane_row_never_overflows [OF tb r] tb r show ?thesis by simp
qed

theorem reported_cost_read_exactly_witness:
  "parse_usd_atto ''12.5E-01'' = Inr 1250000000000000000"
proof -
  let ?x = "\<lparr>x_letter = CHR ''E'', x_sign = ''-'', x_digits = ''01''\<rparr>"
  have shown: "decimal_text ''12'' ''5'' (Some ?x) = ''12.5E-01''" by (simp add: decimal_text_def)
  have x: "exponent_ok ?x" "exponent_val (Some ?x) = - 1"
    by (simp_all add: exponent_ok_def is_ascii_digit_def exponent_val_def digits_val_def)
  have "digits_val (''12'' @ ''5'') 0 = 125" by (simp add: digits_val_def)
  moreover have "round_half (125 * 10 powi 16) = 1250000000000000000"
    by (simp add: round_half_def power_int_def)
  ultimately show ?thesis
    using reported_cost_read_exactly [of "''12''" "''5''" "Some ?x" 16] shown x
    by (simp add: is_ascii_digit_def)
qed

theorem reported_cost_passes_through_witness:
  "\<exists>p. price demo_tables (demo_row ''anthropic'') = Inr p \<and> pr_price p = pr_cost p
      \<and> pr_basis p \<noteq> CacheHit"
  using reported_cost_passes_through [OF demo_price(1)] demo_price(1) by (auto simp: Let_def)

end
