(* ===== verification/Web_Egress.thy ===== *)
theory Web_Egress
  imports Rust_Std "HOL-Library.Word"
begin

unbundle bit_operations_syntax

text \<open>
  The boundary between a model-chosen URL and the internal network,
  \<^verbatim>\<open>agent/src/tools/web/ssrf.rs\<close>: the classifier of addresses, the operator's egress policy, the check of
  a URL, and the resolver that checks every resolved address. A resolved URL's parts (scheme, host
  text, literal address) and the answers of DNS are arguments.

  Proved: the octet and segment tests of the classifier block exactly the prefixes of a table of
  special-purpose address blocks, with the four embeddings of an IPv4 address in an IPv6 one judged by
  the embedded address; and nothing a request connects to, on any hop, lies in that table unless
  the operator opened the policy.
\<close>

section \<open>Addresses\<close>

datatype ipv4 = V4 "8 word" "8 word" "8 word" "8 word"

datatype ipv6 =
  V6 "16 word" "16 word" "16 word" "16 word" "16 word" "16 word" "16 word" "16 word"

datatype ip_addr = IpV4 ipv4 | IpV6 ipv6

fun segments :: "ipv6 \<Rightarrow> 16 word list" where
  "segments (V6 a b c d e f g h) = [a, b, c, d, e, f, g, h]"

text \<open>The methods of \<^verbatim>\<open>std::net\<close> that the classifier calls.\<close>

fun v4_is_unspecified :: "ipv4 \<Rightarrow> bool" where
  "v4_is_unspecified (V4 a b c d) \<longleftrightarrow> a = 0 \<and> b = 0 \<and> c = 0 \<and> d = 0"

fun v4_is_loopback :: "ipv4 \<Rightarrow> bool" where
  "v4_is_loopback (V4 a b c d) \<longleftrightarrow> a = 127"

fun v4_is_link_local :: "ipv4 \<Rightarrow> bool" where
  "v4_is_link_local (V4 a b c d) \<longleftrightarrow> a = 169 \<and> b = 254"

fun v4_is_private :: "ipv4 \<Rightarrow> bool" where
  "v4_is_private (V4 a b c d) \<longleftrightarrow>
     a = 10 \<or> (a = 172 \<and> 16 \<le> b \<and> b \<le> 31) \<or> (a = 192 \<and> b = 168)"

fun v4_is_broadcast :: "ipv4 \<Rightarrow> bool" where
  "v4_is_broadcast (V4 a b c d) \<longleftrightarrow> a = 255 \<and> b = 255 \<and> c = 255 \<and> d = 255"

definition v6_is_unspecified :: "ipv6 \<Rightarrow> bool" where
  "v6_is_unspecified ip \<longleftrightarrow> segments ip = [0, 0, 0, 0, 0, 0, 0, 0]"

definition v6_is_loopback :: "ipv6 \<Rightarrow> bool" where
  "v6_is_loopback ip \<longleftrightarrow> segments ip = [0, 0, 0, 0, 0, 0, 0, 1]"

text \<open>A segment's two bytes, high first.\<close>

definition hi_byte :: "16 word \<Rightarrow> 8 word" where "hi_byte x = ucast (drop_bit 8 x)"
definition lo_byte :: "16 word \<Rightarrow> 8 word" where "lo_byte x = ucast x"

definition embedded_v4 :: "16 word \<Rightarrow> 16 word \<Rightarrow> ipv4" where
  "embedded_v4 hi lo = V4 (hi_byte hi) (lo_byte hi) (hi_byte lo) (lo_byte lo)"

fun to_ipv4_mapped :: "ipv6 \<Rightarrow> ipv4 option" where
  "to_ipv4_mapped (V6 a b c d e f g h) =
     (if a = 0 \<and> b = 0 \<and> c = 0 \<and> d = 0 \<and> e = 0 \<and> f = 0xFFFF then Some (embedded_v4 g h) else None)"

fun to_ipv4 :: "ipv6 \<Rightarrow> ipv4 option" where
  "to_ipv4 (V6 a b c d e f g h) =
     (if a = 0 \<and> b = 0 \<and> c = 0 \<and> d = 0 \<and> e = 0 \<and> (f = 0 \<or> f = 0xFFFF)
      then Some (embedded_v4 g h) else None)"

section \<open>The classifier\<close>

definition blocked_v4 :: "ipv4 \<Rightarrow> string option" where
  "blocked_v4 ip =
     (case ip of V4 a b c d \<Rightarrow>
        if v4_is_unspecified ip then Some ''unspecified (0.0.0.0)''
        else if a = 0 then Some ''this-network (0.0.0.0/8)''
        else if v4_is_loopback ip then Some ''loopback''
        else if v4_is_link_local ip then Some ''link-local / cloud-metadata''
        else if v4_is_private ip then Some ''private (RFC 1918)''
        else if v4_is_broadcast ip then Some ''broadcast''
        else if a = 100 \<and> 64 \<le> b \<and> b \<le> 127 then Some ''carrier-grade NAT (RFC 6598)''
        else if (a, b, c) = (192, 0, 0) then Some ''IETF protocol assignment (192.0.0.0/24)''
        else if (a, b, c) = (192, 0, 2) \<or> (a, b, c) = (198, 51, 100) \<or> (a, b, c) = (203, 0, 113)
        then Some ''documentation (RFC 5737)''
        else if (a, b, c) = (192, 88, 99) then Some ''6to4 relay anycast (192.88.99.0/24)''
        else if a = 198 \<and> (b = 18 \<or> b = 19) then Some ''benchmarking (198.18.0.0/15)''
        else if 224 \<le> a \<and> a \<le> 239 then Some ''multicast (224.0.0.0/4)''
        else if 240 \<le> a then Some ''reserved (240.0.0.0/4)''
        else None)"

definition blocked_v6 :: "ipv6 \<Rightarrow> string option" where
  "blocked_v6 ip =
     (let seg = segments ip; seg0 = seg ! 0 in
      if v6_is_unspecified ip then Some ''unspecified (::)''
      else if v6_is_loopback ip then Some ''loopback (::1)''
      else if seg0 AND 0xFE00 = 0xFC00 then Some ''unique-local (fc00::/7)''
      else if seg0 AND 0xFFC0 = 0xFE80 then Some ''link-local (fe80::/10)''
      else if seg0 AND 0xFFC0 = 0xFEC0 then Some ''site-local (fec0::/10)''
      else if seg0 AND 0xFF00 = 0xFF00 then Some ''multicast (ff00::/8)''
      else if take 3 seg = [0x64, 0xFF9B, 0x1] then Some ''local-use NAT64 (64:ff9b:1::/48)''
      else if take 4 seg = [0x100, 0, 0, 0] then Some ''discard-only (100::/64)''
      else if seg0 = 0x2001 \<and> seg ! 1 < 0x200
      then Some ''IETF protocol assignment / Teredo (2001::/23)''
      else if (seg0 = 0x2001 \<and> seg ! 1 = 0xDB8) \<or> (seg0 = 0x3FFF \<and> seg ! 1 < 0x1000)
      then Some ''documentation (2001:db8::/32, 3fff::/20)''
      else if seg0 = 0x5F00 then Some ''SRv6 SID (5f00::/16)''
      else None)"

fun blocked_class :: "ip_addr \<Rightarrow> string option" where
  "blocked_class (IpV4 v4) = blocked_v4 v4"
| "blocked_class (IpV6 v6) =
     (case to_ipv4_mapped v6 of
        Some v4 \<Rightarrow> blocked_v4 v4
      | None \<Rightarrow>
          (let seg = segments v6 in
           if take 6 seg = [0x64, 0xFF9B, 0, 0, 0, 0] then blocked_v4 (embedded_v4 (seg ! 6) (seg ! 7))
           else if seg ! 0 = 0x2002 then blocked_v4 (embedded_v4 (seg ! 1) (seg ! 2))
           else case blocked_v6 v6 of
             Some class \<Rightarrow> Some class
           | None \<Rightarrow> (case to_ipv4 v6 of Some v4 \<Rightarrow> blocked_v4 v4 | None \<Rightarrow> None)))"

section \<open>The policy\<close>

datatype blocked =
    BlockedScheme string
  | NoHost
  | BlockedAddress string ip_addr string

record egress_policy =
  allow_private :: bool
  allow_hosts :: "string list"

definition policy_new :: "bool \<Rightarrow> string list \<Rightarrow> egress_policy" where
  "policy_new priv hosts = \<lparr>allow_private = priv, allow_hosts = map to_ascii_lowercase hosts\<rparr>"

definition host_allowed :: "egress_policy \<Rightarrow> string \<Rightarrow> bool" where
  "host_allowed p host \<longleftrightarrow> list_ex (\<lambda>h. eq_ignore_ascii_case h host) (allow_hosts p)"

definition addr_permitted :: "egress_policy \<Rightarrow> string \<Rightarrow> ip_addr \<Rightarrow> blocked + unit" where
  "addr_permitted p host addr =
     (if allow_private p \<or> host_allowed p host then Inr ()
      else case blocked_class addr of
        Some class \<Rightarrow> Inl (BlockedAddress host addr class)
      | None \<Rightarrow> Inr ())"

text \<open>What a parsed URL offers: its scheme, its host as text, and the host's literal address if it is one.\<close>

record url_parts =
  url_scheme :: string
  url_host_str :: "string option"
  url_literal :: "ip_addr option"

definition validate_url :: "egress_policy \<Rightarrow> url_parts \<Rightarrow> blocked + unit" where
  "validate_url p u =
     (if url_scheme u \<noteq> ''http'' \<and> url_scheme u \<noteq> ''https'' then Inl (BlockedScheme (url_scheme u))
      else case url_host_str u of
        None \<Rightarrow> Inl NoHost
      | Some host \<Rightarrow>
          (case url_literal u of
             Some addr \<Rightarrow> addr_permitted p host addr
           | None \<Rightarrow> Inr ()))"

text \<open>
  The resolver: \<open>None\<close> is a failed lookup; one blocked address refuses the request, otherwise
  every address is handed on in the order it came.
\<close>

datatype resolve_error = LookupFailed | Refused blocked

fun check_addrs :: "egress_policy \<Rightarrow> string \<Rightarrow> ip_addr list \<Rightarrow> blocked + unit" where
  "check_addrs p host [] = Inr ()"
| "check_addrs p host (a # as) =
     (case addr_permitted p host a of Inl b \<Rightarrow> Inl b | Inr _ \<Rightarrow> check_addrs p host as)"

definition ssrf_resolve :: "egress_policy \<Rightarrow> string \<Rightarrow> ip_addr list option \<Rightarrow> resolve_error + ip_addr list" where
  "ssrf_resolve p host looked_up =
     (case looked_up of
        None \<Rightarrow> Inl LookupFailed
      | Some addrs \<Rightarrow>
          (case check_addrs p host addrs of Inl b \<Rightarrow> Inl (Refused b) | Inr _ \<Rightarrow> Inr addrs))"

section \<open>The table of special-purpose blocks\<close>

text \<open>
  An address as a number, and a prefix of it: the leading \<open>len\<close> bits of a \<open>width\<close>-bit number.
\<close>

fun v4_num :: "ipv4 \<Rightarrow> nat" where
  "v4_num (V4 a b c d) = ((unat a * 256 + unat b) * 256 + unat c) * 256 + unat d"

definition v6_num :: "ipv6 \<Rightarrow> nat" where
  "v6_num ip = foldl (\<lambda>n s. n * 65536 + unat s) 0 (segments ip)"

definition in_cidr :: "nat \<Rightarrow> nat \<Rightarrow> nat \<Rightarrow> nat \<Rightarrow> bool" where
  "in_cidr width net len x \<longleftrightarrow> x div 2 ^ (width - len) = net div 2 ^ (width - len)"

definition special_v4_blocks :: "(ipv4 \<times> nat) list" where
  "special_v4_blocks =
     [(V4 0 0 0 0, 8), (V4 10 0 0 0, 8), (V4 100 64 0 0, 10), (V4 127 0 0 0, 8), (V4 169 254 0 0, 16),
      (V4 172 16 0 0, 12), (V4 192 0 0 0, 24), (V4 192 0 2 0, 24), (V4 192 88 99 0, 24),
      (V4 192 168 0 0, 16), (V4 198 18 0 0, 15), (V4 198 51 100 0, 24), (V4 203 0 113 0, 24),
      (V4 224 0 0 0, 4), (V4 240 0 0 0, 4)]"

definition special_v6_blocks :: "(ipv6 \<times> nat) list" where
  "special_v6_blocks =
     [(V6 0 0 0 0 0 0 0 0, 128), (V6 0 0 0 0 0 0 0 1, 128), (V6 0x64 0xFF9B 1 0 0 0 0 0, 48),
      (V6 0x100 0 0 0 0 0 0 0, 64), (V6 0x2001 0 0 0 0 0 0 0, 23), (V6 0x2001 0xDB8 0 0 0 0 0 0, 32),
      (V6 0x3FFF 0 0 0 0 0 0 0, 20), (V6 0x5F00 0 0 0 0 0 0 0, 16), (V6 0xFC00 0 0 0 0 0 0 0, 7),
      (V6 0xFE80 0 0 0 0 0 0 0, 10), (V6 0xFEC0 0 0 0 0 0 0 0, 10), (V6 0xFF00 0 0 0 0 0 0 0, 8)]"

definition special_v4 :: "nat \<Rightarrow> bool" where
  "special_v4 x \<longleftrightarrow> (\<exists>(net, len) \<in> set special_v4_blocks. in_cidr 32 (v4_num net) len x)"

definition special_v6 :: "nat \<Rightarrow> bool" where
  "special_v6 x \<longleftrightarrow> (\<exists>(net, len) \<in> set special_v6_blocks. in_cidr 128 (v6_num net) len x)"

text \<open>
  The IPv4 address inside an IPv6 one: IPv4-mapped, NAT64 and 6to4 always, IPv4-compatible when the
  address is in no special block of its own.
\<close>

definition embedded :: "nat \<Rightarrow> nat option" where
  "embedded x =
     (if in_cidr 128 (v6_num (V6 0 0 0 0 0 0xFFFF 0 0)) 96 x then Some (x mod 2 ^ 32)
      else if in_cidr 128 (v6_num (V6 0x64 0xFF9B 0 0 0 0 0 0)) 96 x then Some (x mod 2 ^ 32)
      else if in_cidr 128 (v6_num (V6 0x2002 0 0 0 0 0 0 0)) 16 x then Some (x div 2 ^ 80 mod 2 ^ 32)
      else if special_v6 x then None
      else if in_cidr 128 0 96 x then Some (x mod 2 ^ 32)
      else None)"

fun special :: "ip_addr \<Rightarrow> bool" where
  "special (IpV4 v4) = special_v4 (v4_num v4)"
| "special (IpV6 v6) =
     (case embedded (v6_num v6) of
        Some x \<Rightarrow> special_v4 x
      | None \<Rightarrow> special_v6 (v6_num v6))"

text \<open>
  The two sides in a form they can be compared in: the octet tests on numbers, the segments of an IPv6
  address as the digits of its number, and the case distinctions both make on an IPv6 address.
\<close>

definition v4_blocked_nat :: "nat \<Rightarrow> nat \<Rightarrow> nat \<Rightarrow> bool" where
  "v4_blocked_nat a b c \<longleftrightarrow>
     a = 0 \<or> a = 127 \<or> (a = 169 \<and> b = 254) \<or> a = 10 \<or> (a = 172 \<and> 16 \<le> b \<and> b \<le> 31)
     \<or> (a = 192 \<and> b = 168) \<or> (a = 100 \<and> 64 \<le> b \<and> b \<le> 127) \<or> (a = 192 \<and> b = 0 \<and> (c = 0 \<or> c = 2))
     \<or> (a = 198 \<and> b = 51 \<and> c = 100) \<or> (a = 203 \<and> b = 0 \<and> c = 113) \<or> (a = 192 \<and> b = 88 \<and> c = 99)
     \<or> (a = 198 \<and> (b = 18 \<or> b = 19)) \<or> 224 \<le> a"

definition horner :: "nat list \<Rightarrow> nat" where
  "horner ss = foldl (\<lambda>n s. n * 65536 + s) 0 ss"

definition by_embedding ::
  "(16 word \<Rightarrow> 16 word \<Rightarrow> 'a) \<Rightarrow> 'a \<Rightarrow> 'a \<Rightarrow> ipv6 \<Rightarrow> 'a" where
  "by_embedding inner own none ip =
     (case ip of V6 a b c d e f g h \<Rightarrow>
        if a = 0 \<and> b = 0 \<and> c = 0 \<and> d = 0 \<and> e = 0 \<and> f = 0xFFFF then inner g h
        else if a = 0x64 \<and> b = 0xFF9B \<and> c = 0 \<and> d = 0 \<and> e = 0 \<and> f = 0 then inner g h
        else if a = 0x2002 then inner b c
        else if special_v6 (v6_num ip) then own
        else if a = 0 \<and> b = 0 \<and> c = 0 \<and> d = 0 \<and> e = 0 \<and> f = 0 then inner g h
        else none)"

section \<open>IPv4: octet tests against prefixes\<close>

lemma digit_eq:
  fixes a q m :: nat
  assumes "q < m" and "Q < m"
  shows "a * m + q = A * m + Q \<longleftrightarrow> a = A \<and> q = Q"
proof
  assume eq: "a * m + q = A * m + Q"
  from arg_cong [OF eq, of "\<lambda>x. x div m"] arg_cong [OF eq, of "\<lambda>x. x mod m"] assms
  show "a = A \<and> q = Q" by simp
qed simp

lemma if_Some_None: "(if P then Some x else e) \<noteq> None \<longleftrightarrow> P \<or> e \<noteq> None"
  by simp

lemma v4_div:
  fixes a b c d :: nat
  assumes "b < 256" "c < 256" "d < 256"
  defines "x \<equiv> ((a * 256 + b) * 256 + c) * 256 + d"
  shows "x div 2 ^ 8 = (a * 256 + b) * 256 + c" "x div 2 ^ 16 = a * 256 + b" "x div 2 ^ 24 = a"
    "x div 2 ^ 28 = a div 16" "x div 2 ^ 22 = a * 4 + b div 64" "x div 2 ^ 20 = a * 16 + b div 16"
    "x div 2 ^ 17 = a * 128 + b div 2"
proof -
  show 8: "x div 2 ^ 8 = (a * 256 + b) * 256 + c" using assms by simp
  have "x div 2 ^ 16 = x div 2 ^ 8 div 2 ^ 8" by (simp add: div_mult2_eq [symmetric])
  then show 16: "x div 2 ^ 16 = a * 256 + b" using 8 assms(2) by simp
  have "x div 2 ^ 24 = x div 2 ^ 16 div 2 ^ 8" by (simp add: div_mult2_eq [symmetric])
  then show 24: "x div 2 ^ 24 = a" using 16 assms(1) by simp
  have "x div 2 ^ 28 = x div 2 ^ 24 div 2 ^ 4" by (simp add: div_mult2_eq [symmetric])
  then show "x div 2 ^ 28 = a div 16" using 24 by simp
  have "x div 2 ^ 22 = x div 2 ^ 16 div 2 ^ 6" by (simp add: div_mult2_eq [symmetric])
  then show "x div 2 ^ 22 = a * 4 + b div 64" using 16 by simp
  have "x div 2 ^ 20 = x div 2 ^ 16 div 2 ^ 4" by (simp add: div_mult2_eq [symmetric])
  then show "x div 2 ^ 20 = a * 16 + b div 16" using 16 by simp
  have "x div 2 ^ 17 = x div 2 ^ 16 div 2 ^ 1" by (simp add: div_mult2_eq [symmetric])
  then show "x div 2 ^ 17 = a * 128 + b div 2" using 16 by simp
qed

lemma unat8 [simp]: "unat (x :: 8 word) < 256"
  using unsigned_less [of x, where ?'a = nat] by simp

lemma blocked_v4_nat:
  "blocked_v4 (V4 a b c d) \<noteq> None \<longleftrightarrow> v4_blocked_nat (unat a) (unat b) (unat c)"
proof -
  have eq: "x = y \<longleftrightarrow> unat x = unat y" "x \<le> y \<longleftrightarrow> unat x \<le> unat y" for x y :: "8 word"
    by (simp_all add: word_unat_eq_iff word_le_nat_alt)
  show ?thesis
    unfolding blocked_v4_def v4_blocked_nat_def ipv4.case if_Some_None prod.inject
      v4_is_unspecified.simps v4_is_loopback.simps v4_is_link_local.simps v4_is_private.simps
      v4_is_broadcast.simps eq
    by (rule iffI; (elim disjE conjE)?; simp; linarith?)
qed

lemma special_v4_nat:
  assumes "a < 256" "b < 256" "c < 256" "d < 256"
  shows "special_v4 (((a * 256 + b) * 256 + c) * 256 + d) \<longleftrightarrow> v4_blocked_nat a b c"
proof -
  define x where "x = ((a * 256 + b) * 256 + c) * 256 + d"
  note dv = v4_div [OF assms(2-4), of a, folded x_def]
  have 8: "in_cidr 32 (v4_num (V4 A 0 0 0)) 8 x \<longleftrightarrow> a = unat A" for A
    by (simp add: in_cidr_def dv(3) [simplified])
  have 16: "in_cidr 32 (v4_num (V4 A B 0 0)) 16 x \<longleftrightarrow> a = unat A \<and> b = unat B" for A B
    using digit_eq [of b 256 "unat B" a "unat A"] assms(2) by (simp add: in_cidr_def dv(2) [simplified] ac_simps)
  have 24: "in_cidr 32 (v4_num (V4 A B C 0)) 24 x \<longleftrightarrow> a = unat A \<and> b = unat B \<and> c = unat C" for A B C
    using digit_eq [of b 256 "unat B" a "unat A"] assms(2,3)
      digit_eq [of c 256 "unat C" "a * 256 + b" "unat A * 256 + unat B"]
    by (simp add: in_cidr_def dv(1) [simplified] ac_simps)
  have 4: "in_cidr 32 (v4_num (V4 224 0 0 0)) 4 x \<longleftrightarrow> 224 \<le> a \<and> a < 240"
    "in_cidr 32 (v4_num (V4 240 0 0 0)) 4 x \<longleftrightarrow> 240 \<le> a"
    using assms(1) by (auto simp: in_cidr_def dv(4) [simplified])
  have 10: "in_cidr 32 (v4_num (V4 100 64 0 0)) 10 x \<longleftrightarrow> a = 100 \<and> 64 \<le> b \<and> b \<le> 127"
    using digit_eq [of "b div 64" 4 1 a 100] assms(2) by (auto simp: in_cidr_def dv(5) [simplified])
  have 12: "in_cidr 32 (v4_num (V4 172 16 0 0)) 12 x \<longleftrightarrow> a = 172 \<and> 16 \<le> b \<and> b \<le> 31"
    using digit_eq [of "b div 16" 16 1 a 172] assms(2) by (auto simp: in_cidr_def dv(6) [simplified])
  have 15: "in_cidr 32 (v4_num (V4 198 18 0 0)) 15 x \<longleftrightarrow> a = 198 \<and> (b = 18 \<or> b = 19)"
    using digit_eq [of "b div 2" 128 9 a 198] assms(2) by (auto simp: in_cidr_def dv(7) [simplified])
  show ?thesis
    unfolding special_v4_def special_v4_blocks_def v4_blocked_nat_def x_def [symmetric]
    by (simp only: list.set Set.bex_simps prod.case 8 16 24 4 10 12 15) (rule iffI; (elim disjE conjE)?; simp; linarith?)
qed
section \<open>IPv6: segments against prefixes\<close>

lemma and_high:
  fixes w :: "16 word"
  assumes "n \<le> 16"
  shows "unat (w AND push_bit n (mask (16 - n))) = unat w div 2 ^ n * 2 ^ n"
proof -
  have "w AND push_bit n (mask (16 - n)) = push_bit n (drop_bit n w)"
    by (rule bit_word_eqI) (use assms in \<open>auto simp: bit_simps\<close>)
  moreover have "unat (push_bit n (drop_bit n w)) = push_bit n (drop_bit n (unat w))"
  proof -
    have tb: "take_bit 16 (unat w) = unat w"
      using unsigned_less [of w, where ?'a = nat] by (simp add: take_bit_nat_eq_self)
    show ?thesis
      using drop_bit_take_bit [of n 16 "unat w"] tb
      by (simp add: unsigned_push_bit_eq unsigned_drop_bit_eq take_bit_push_bit)
  qed
  ultimately show ?thesis by (simp add: push_bit_eq_mult drop_bit_eq_div)
qed

lemma seg_mask:
  fixes w :: "16 word"
  shows "w AND 0xFE00 = 0xFC00 \<longleftrightarrow> unat w div 512 = 126"
    "w AND 0xFFC0 = 0xFE80 \<longleftrightarrow> unat w div 64 = 1018"
    "w AND 0xFFC0 = 0xFEC0 \<longleftrightarrow> unat w div 64 = 1019"
    "w AND 0xFF00 = 0xFF00 \<longleftrightarrow> unat w div 256 = 255"
proof -
  have m: "(0xFE00 :: 16 word) = push_bit 9 (mask 7)" "(0xFFC0 :: 16 word) = push_bit 6 (mask 10)"
    "(0xFF00 :: 16 word) = push_bit 8 (mask 8)"
    by (simp_all add: mask_eq_exp_minus_1 push_bit_eq_mult)
  have h: "unat (w AND 0xFE00) = unat w div 512 * 512" "unat (w AND 0xFFC0) = unat w div 64 * 64"
    "unat (w AND 0xFF00) = unat w div 256 * 256"
    using and_high [of 9 w] and_high [of 6 w] and_high [of 8 w] by (simp_all add: m)
  show "w AND 0xFE00 = 0xFC00 \<longleftrightarrow> unat w div 512 = 126"
    "w AND 0xFFC0 = 0xFE80 \<longleftrightarrow> unat w div 64 = 1018"
    "w AND 0xFFC0 = 0xFEC0 \<longleftrightarrow> unat w div 64 = 1019"
    "w AND 0xFF00 = 0xFF00 \<longleftrightarrow> unat w div 256 = 255"
    by (simp_all add: word_unat_eq_iff h)
qed

lemma unat16 [simp]: "unat (x :: 16 word) < 65536"
  using unsigned_less [of x, where ?'a = nat] by simp

lemma horner_snoc: "horner (ss @ [s]) = horner ss * 65536 + s"
  by (simp add: horner_def)

lemma horner_div: "\<forall>s \<in> set ys. s < 65536 \<Longrightarrow> horner (xs @ ys) div 65536 ^ length ys = horner xs"
proof (induction ys rule: rev_induct)
  case (snoc y ys)
  have "horner (xs @ ys @ [y]) div 65536 = horner (xs @ ys)"
    using snoc.prems horner_snoc [of "xs @ ys" y] by simp
  with snoc show ?case by (simp add: div_mult2_eq)
qed simp

lemma horner_mod: "\<forall>s \<in> set ys. s < 65536 \<Longrightarrow> horner (xs @ ys) mod 65536 ^ length ys = horner ys"
proof (induction ys rule: rev_induct)
  case (snoc y ys)
  have y: "y < 65536" and ys: "\<forall>s \<in> set ys. s < 65536" using snoc.prems by auto
  have "horner (xs @ ys @ [y]) mod (65536 ^ length ys * 65536)
      = 65536 * (horner (xs @ ys @ [y]) div 65536 mod 65536 ^ length ys) + horner (xs @ ys @ [y]) mod 65536"
    by (simp add: mod_mult2_eq mult.commute)
  also have "horner (xs @ ys @ [y]) div 65536 = horner (xs @ ys)"
    using y horner_snoc [of "xs @ ys" y] by simp
  also have "horner (xs @ ys @ [y]) mod 65536 = y"
    using y horner_snoc [of "xs @ ys" y] by simp
  finally show ?case using snoc.IH [OF ys] by (simp add: horner_snoc mult.commute)
qed (simp add: horner_def)

lemma v6_num_horner: "v6_num ip = horner (map unat (segments ip))"
  by (simp add: v6_num_def horner_def foldl_map)

lemma v6_shift:
  "v6_num (V6 a b c d e f g h) div 2 ^ 112 = unat a"
  "v6_num (V6 a b c d e f g h) div 2 ^ 96 = horner [unat a, unat b]"
  "v6_num (V6 a b c d e f g h) div 2 ^ 80 = horner [unat a, unat b, unat c]"
  "v6_num (V6 a b c d e f g h) div 2 ^ 64 = horner [unat a, unat b, unat c, unat d]"
  "v6_num (V6 a b c d e f g h) div 2 ^ 32 = horner [unat a, unat b, unat c, unat d, unat e, unat f]"
  "v6_num (V6 a b c d e f g h) mod 2 ^ 32 = horner [unat g, unat h]"
  using horner_div [of "map unat [b, c, d, e, f, g, h]" "[unat a]"]
    horner_div [of "map unat [c, d, e, f, g, h]" "map unat [a, b]"]
    horner_div [of "map unat [d, e, f, g, h]" "map unat [a, b, c]"]
    horner_div [of "map unat [e, f, g, h]" "map unat [a, b, c, d]"]
    horner_div [of "map unat [g, h]" "map unat [a, b, c, d, e, f]"]
    horner_mod [of "map unat [g, h]" "map unat [a, b, c, d, e, f]"]
  by (simp_all add: v6_num_horner horner_def [of "[unat a]"])

lemma horner_inj:
  assumes "length xs = length ys" "\<forall>s \<in> set xs. s < 65536" "\<forall>s \<in> set ys. s < 65536"
  shows "horner xs = horner ys \<longleftrightarrow> xs = ys"
  using assms
proof (induction xs arbitrary: ys rule: rev_induct)
  case (snoc x xs)
  then obtain y ys' where ys: "ys = ys' @ [y]" by (metis append_butlast_last_id length_0_conv length_append_singleton nat.distinct(1))
  with snoc show ?case
    using digit_eq [of x 65536 y "horner xs" "horner ys'"] by (simp add: horner_snoc)
qed simp

lemma seg_eq: "unat (x :: 16 word) = unat y \<longleftrightarrow> x = y"
  by (simp add: word_unat_eq_iff)

lemma v6_cidr:
  fixes a b c d e f g h :: "16 word"
  defines "x \<equiv> v6_num (V6 a b c d e f g h)"
  shows "in_cidr 128 (v6_num (V6 A 0 0 0 0 0 0 0)) 16 x \<longleftrightarrow> a = A"
    "in_cidr 128 (v6_num (V6 A B 0 0 0 0 0 0)) 32 x \<longleftrightarrow> a = A \<and> b = B"
    "in_cidr 128 (v6_num (V6 A B C 0 0 0 0 0)) 48 x \<longleftrightarrow> a = A \<and> b = B \<and> c = C"
    "in_cidr 128 (v6_num (V6 A B C D 0 0 0 0)) 64 x \<longleftrightarrow> a = A \<and> b = B \<and> c = C \<and> d = D"
    "in_cidr 128 (v6_num (V6 A B C D E F 0 0)) 96 x \<longleftrightarrow> a = A \<and> b = B \<and> c = C \<and> d = D \<and> e = E \<and> f = F"
    "in_cidr 128 (v6_num (V6 A B C D E F G H)) 128 x \<longleftrightarrow>
       a = A \<and> b = B \<and> c = C \<and> d = D \<and> e = E \<and> f = F \<and> g = G \<and> h = H"
proof -
  show "in_cidr 128 (v6_num (V6 A 0 0 0 0 0 0 0)) 16 x \<longleftrightarrow> a = A"
    "in_cidr 128 (v6_num (V6 A B 0 0 0 0 0 0)) 32 x \<longleftrightarrow> a = A \<and> b = B"
    "in_cidr 128 (v6_num (V6 A B C 0 0 0 0 0)) 48 x \<longleftrightarrow> a = A \<and> b = B \<and> c = C"
    "in_cidr 128 (v6_num (V6 A B C D 0 0 0 0)) 64 x \<longleftrightarrow> a = A \<and> b = B \<and> c = C \<and> d = D"
    "in_cidr 128 (v6_num (V6 A B C D E F 0 0)) 96 x \<longleftrightarrow> a = A \<and> b = B \<and> c = C \<and> d = D \<and> e = E \<and> f = F"
    unfolding in_cidr_def x_def by (simp_all add: v6_shift [simplified] horner_inj seg_eq)
  show "in_cidr 128 (v6_num (V6 A B C D E F G H)) 128 x \<longleftrightarrow>
       a = A \<and> b = B \<and> c = C \<and> d = D \<and> e = E \<and> f = F \<and> g = G \<and> h = H"
    unfolding in_cidr_def x_def by (simp add: v6_num_horner horner_inj seg_eq)
qed

lemma v6_cidr_odd:
  fixes a b c d e f g h :: "16 word"
  defines "x \<equiv> v6_num (V6 a b c d e f g h)"
  shows "in_cidr 128 (v6_num (V6 0xFC00 0 0 0 0 0 0 0)) 7 x \<longleftrightarrow> a AND 0xFE00 = 0xFC00"
    "in_cidr 128 (v6_num (V6 0xFE80 0 0 0 0 0 0 0)) 10 x \<longleftrightarrow> a AND 0xFFC0 = 0xFE80"
    "in_cidr 128 (v6_num (V6 0xFEC0 0 0 0 0 0 0 0)) 10 x \<longleftrightarrow> a AND 0xFFC0 = 0xFEC0"
    "in_cidr 128 (v6_num (V6 0xFF00 0 0 0 0 0 0 0)) 8 x \<longleftrightarrow> a AND 0xFF00 = 0xFF00"
    "in_cidr 128 (v6_num (V6 0x2001 0 0 0 0 0 0 0)) 23 x \<longleftrightarrow> a = 0x2001 \<and> b < 0x200"
    "in_cidr 128 (v6_num (V6 0x3FFF 0 0 0 0 0 0 0)) 20 x \<longleftrightarrow> a = 0x3FFF \<and> b < 0x1000"
proof -
  have dd: "y div 2 ^ (m + k) = y div 2 ^ m div 2 ^ k" for y m k :: nat
    by (simp add: power_add div_mult2_eq)
  have s: "y div 2 ^ 121 = y div 2 ^ 112 div 2 ^ 9" "y div 2 ^ 118 = y div 2 ^ 112 div 2 ^ 6"
    "y div 2 ^ 120 = y div 2 ^ 112 div 2 ^ 8" "y div 2 ^ 105 = y div 2 ^ 96 div 2 ^ 9"
    "y div 2 ^ 108 = y div 2 ^ 96 div 2 ^ 12" for y :: nat
    using dd [of y 112 9] dd [of y 112 6] dd [of y 112 8] dd [of y 96 9] dd [of y 96 12] by simp_all
  show "in_cidr 128 (v6_num (V6 0xFC00 0 0 0 0 0 0 0)) 7 x \<longleftrightarrow> a AND 0xFE00 = 0xFC00"
    "in_cidr 128 (v6_num (V6 0xFE80 0 0 0 0 0 0 0)) 10 x \<longleftrightarrow> a AND 0xFFC0 = 0xFE80"
    "in_cidr 128 (v6_num (V6 0xFEC0 0 0 0 0 0 0 0)) 10 x \<longleftrightarrow> a AND 0xFFC0 = 0xFEC0"
    "in_cidr 128 (v6_num (V6 0xFF00 0 0 0 0 0 0 0)) 8 x \<longleftrightarrow> a AND 0xFF00 = 0xFF00"
    unfolding in_cidr_def x_def by (simp_all add: s [simplified] v6_shift [simplified] seg_mask)
  have h2: "horner [p, q] = p * 65536 + q" for p q by (simp add: horner_def)
  have "unat b div 512 < 128" "unat b div 4096 < 16"
    by (rule less_mult_imp_div_less, simp)+
  then have k: "unat a * 128 + unat b div 512 = 0x2001 * 128 + 0 \<longleftrightarrow> unat a = 0x2001 \<and> unat b div 512 = 0"
    "unat a * 16 + unat b div 4096 = 0x3FFF * 16 + 0 \<longleftrightarrow> unat a = 0x3FFF \<and> unat b div 4096 = 0"
    by (intro digit_eq; simp)+
  have "(unat a * 65536 + unat b) div 512 = unat a * 128 + unat b div 512"
    "(unat a * 65536 + unat b) div 4096 = unat a * 16 + unat b div 4096" by simp_all
  with k show "in_cidr 128 (v6_num (V6 0x2001 0 0 0 0 0 0 0)) 23 x \<longleftrightarrow> a = 0x2001 \<and> b < 0x200"
    "in_cidr 128 (v6_num (V6 0x3FFF 0 0 0 0 0 0 0)) 20 x \<longleftrightarrow> a = 0x3FFF \<and> b < 0x1000"
    unfolding in_cidr_def x_def
    by (simp_all add: s [simplified] v6_shift [simplified] h2 word_unat_eq_iff word_less_nat_alt div_eq_0_iff)
qed

lemma blocked_v6_special: "blocked_v6 ip \<noteq> None \<longleftrightarrow> special_v6 (v6_num ip)"
proof (cases ip)
  case (V6 a b c d e f g h)
  show ?thesis
    unfolding V6 special_v6_def special_v6_blocks_def blocked_v6_def Let_def if_Some_None
      v6_is_unspecified_def v6_is_loopback_def
    by (simp only: list.set Set.bex_simps prod.case v6_cidr v6_cidr_odd segments.simps) auto
qed

lemma bytes_of_seg:
  "unat (hi_byte x) * 256 + unat (lo_byte x) = unat x"
proof -
  have "unat (drop_bit 8 x) = unat x div 256"
    using unat_drop_bit_eq [of 8 x] by (simp only: drop_bit_eq_div) simp
  moreover have "unat x div 256 < 256" by (rule less_mult_imp_div_less) simp
  ultimately have "unat (hi_byte x) = unat x div 256"
    by (simp add: hi_byte_def unsigned_ucast_eq take_bit_nat_eq_self)
  moreover have "unat (lo_byte x) = unat x mod 256"
    by (simp add: lo_byte_def unsigned_ucast_eq take_bit_nat_def)
  ultimately show ?thesis by simp
qed

lemma blocked_embedded: "blocked_v4 (embedded_v4 x y) \<noteq> None \<longleftrightarrow> special_v4 (horner [unat x, unat y])"
proof -
  have "horner [unat x, unat y]
      = ((unat (hi_byte x) * 256 + unat (lo_byte x)) * 256 + unat (hi_byte y)) * 256 + unat (lo_byte y)"
    using bytes_of_seg [of x] bytes_of_seg [of y] by (simp add: horner_def)
  then show ?thesis
    by (simp only: embedded_v4_def blocked_v4_nat special_v4_nat [OF unat8 unat8 unat8 unat8])
qed

lemma blocked_class_v6:
  "blocked_class (IpV6 ip) = by_embedding (\<lambda>x y. blocked_v4 (embedded_v4 x y)) (blocked_v6 ip) None ip"
proof (cases ip)
  case (V6 a b c d e f g h)
  have "blocked_v6 (V6 a b c d e f g h) = None \<longleftrightarrow> \<not> special_v6 (v6_num (V6 a b c d e f g h))"
    using blocked_v6_special [of "V6 a b c d e f g h"] by blast
  then show ?thesis by (auto simp: V6 by_embedding_def Let_def split: option.split)
qed

lemma special_v6_embedding:
  "special (IpV6 ip) = by_embedding (\<lambda>x y. special_v4 (horner [unat x, unat y])) True False ip"
proof (cases ip)
  case (V6 a b c d e f g h)
  let ?x = "v6_num (V6 a b c d e f g h)"
  have low: "?x mod 2 ^ 32 = horner [unat g, unat h]" by (rule v6_shift)
  have mid: "?x div 2 ^ 80 mod 2 ^ 32 = horner [unat b, unat c]"
    unfolding v6_shift(3) using horner_mod [of "map unat [b, c]" "[unat a]"] by simp
  have zero: "in_cidr 128 0 96 ?x \<longleftrightarrow> a = 0 \<and> b = 0 \<and> c = 0 \<and> d = 0 \<and> e = 0 \<and> f = 0"
    using v6_cidr(5) [of 0 0 0 0 0 0 a b c d e f g h] by (simp add: v6_num_def)
  have mapped: "in_cidr 128 (v6_num (V6 0 0 0 0 0 0xFFFF 0 0)) 96 ?x \<longleftrightarrow>
      a = 0 \<and> b = 0 \<and> c = 0 \<and> d = 0 \<and> e = 0 \<and> f = 0xFFFF"
    and nat64: "in_cidr 128 (v6_num (V6 0x64 0xFF9B 0 0 0 0 0 0)) 96 ?x \<longleftrightarrow>
      a = 0x64 \<and> b = 0xFF9B \<and> c = 0 \<and> d = 0 \<and> e = 0 \<and> f = 0"
    and to4: "in_cidr 128 (v6_num (V6 0x2002 0 0 0 0 0 0 0)) 16 ?x \<longleftrightarrow> a = 0x2002"
    by (rule v6_cidr)+
  show ?thesis
    unfolding V6 special.simps embedded_def mapped nat64 to4 zero low mid by_embedding_def ipv6.case
    unfolding if_distrib [of "case_option (special_v6 ?x) special_v4"] option.case
    by simp
qed

lemma blocked_class_special: "blocked_class addr \<noteq> None \<longleftrightarrow> special addr"
proof (cases addr)
  case (IpV4 v4)
  then show ?thesis
    by (cases v4) (simp only: blocked_class.simps special.simps v4_num.simps blocked_v4_nat
        special_v4_nat [OF unat8 unat8 unat8 unat8])
next
  case (IpV6 ip)
  obtain a b c d e f g h where ip: "ip = V6 a b c d e f g h" by (cases ip)
  show ?thesis
    unfolding IpV6 blocked_class_v6 special_v6_embedding unfolding ip by_embedding_def ipv6.case
    unfolding if_distrib [of "\<lambda>r. r \<noteq> None"] blocked_embedded blocked_v6_special by simp
qed

text \<open>
  C24. The classifier refuses an address exactly when it lies in one of the special-purpose blocks of the
  registries the doc comment names, written as prefixes of the address as a number: the octet ranges,
  the masked segments and the order of the tests leave no gap and refuse no public neighbour. An IPv6
  address that embeds an IPv4 one (mapped, NAT64, 6to4, or IPv4-compatible and in no block of its
  own) is judged by the embedded address.
\<close>

theorem blocked_iff_special: "blocked_class addr \<noteq> None \<longleftrightarrow> special addr"
  by (rule blocked_class_special)

section \<open>What the policy and the resolver let through\<close>

lemma addr_permitted_iff:
  "addr_permitted p host a = Inr () \<longleftrightarrow> allow_private p \<or> host_allowed p host \<or> \<not> special a"
  using blocked_class_special [of a] by (auto simp: addr_permitted_def split: option.split)

lemma check_addrs_iff:
  "check_addrs p host as = Inr () \<longleftrightarrow> (\<forall>a \<in> set as. addr_permitted p host a = Inr ())"
  by (induction as) (auto split: sum.split)

lemma validate_urlD:
  assumes "validate_url p u = Inr ()"
  obtains host where "url_scheme u = ''http'' \<or> url_scheme u = ''https''" "url_host_str u = Some host"
    "\<And>a. url_literal u = Some a \<Longrightarrow> addr_permitted p host a = Inr ()"
  using assms by (auto simp: validate_url_def split: if_splits option.splits)

lemma to_ascii_lower_idem: "to_ascii_lower (to_ascii_lower c) = to_ascii_lower c"
  by (auto simp: to_ascii_lower_def is_ascii_upper_def)

lemma to_ascii_lowercase_idem: "to_ascii_lowercase (to_ascii_lowercase s) = to_ascii_lowercase s"
  by (simp add: to_ascii_lowercase_def to_ascii_lower_idem)

lemma host_allowed_new:
  "host_allowed (policy_new priv hosts) host \<longleftrightarrow>
     to_ascii_lowercase host \<in> to_ascii_lowercase ` set hosts"
  by (auto simp: host_allowed_def policy_new_def eq_ignore_ascii_case_def list_ex_iff image_iff
      to_ascii_lowercase_idem dest: sym)

lemma check_addrs_closed:
  assumes "\<not> allow_private p" and "\<not> host_allowed p host"
  shows "check_addrs p host as =
    (case find special as of
       None \<Rightarrow> Inr ()
     | Some a \<Rightarrow> Inl (BlockedAddress host a (the (blocked_class a))))"
proof (induction as)
  case (Cons a as)
  with assms show ?case
    using blocked_class_special [of a] by (cases "blocked_class a") (simp_all add: addr_permitted_def)
qed simp

lemma check_addrs_open:
  assumes "allow_private p \<or> host_allowed p host"
  shows "check_addrs p host as = Inr ()"
  using assms by (induction as) (auto simp: addr_permitted_def)

text \<open>
  The resolver hands on all the addresses of a name or none. A policy that is open, or that lists the
  host in any letter case, lets every answer through; otherwise the answer is handed on as it came if
  no address of it lies in a special-purpose block, and refused for the first that does.
\<close>

theorem resolver_all_or_nothing:
  "ssrf_resolve (policy_new priv hosts) host looked_up =
     (case looked_up of
        None \<Rightarrow> Inl LookupFailed
      | Some as \<Rightarrow>
          if priv \<or> to_ascii_lowercase host \<in> to_ascii_lowercase ` set hosts then Inr as
          else case find special as of
            None \<Rightarrow> Inr as
          | Some a \<Rightarrow> Inl (Refused (BlockedAddress host a (the (blocked_class a)))))"
proof (cases "priv \<or> to_ascii_lowercase host \<in> to_ascii_lowercase ` set hosts")
  case True
  then have "allow_private (policy_new priv hosts) \<or> host_allowed (policy_new priv hosts) host"
    by (auto simp: host_allowed_new) (simp add: policy_new_def)
  with True show ?thesis by (auto simp: ssrf_resolve_def check_addrs_open split: option.split)
next
  case False
  then have "\<not> allow_private (policy_new priv hosts)" "\<not> host_allowed (policy_new priv hosts) host"
    by (auto simp: host_allowed_new) (simp add: policy_new_def)
  with False show ?thesis by (auto simp: ssrf_resolve_def check_addrs_closed split: option.split)
qed

end
