(* ===== verification/Web_Fetch.thy ===== *)
theory Web_Fetch
  imports Web_Egress
begin

text \<open>
  The fetch of the web tool, \<^verbatim>\<open>agent/src/tools/web/mod.rs\<close>: the request loop that follows redirects itself,
  the rewriting of the request at each hop, and the capped read of the body. URLs (parsing, joining,
  origins), DNS and the remote servers are arguments; each exchange on the wire is recorded with the
  addresses the client may have dialled for it.

  Proved: whatever the servers and DNS answer, hop by hop, no exchange dials an internal address the
  policy does not open; no request body and no header beyond a short list leaves the origin the caller
  named; the loop ends within a fixed number of requests; the body kept is the head of what was
  received.
\<close>

section \<open>Requests, responses, errors\<close>

definition MAX_BODY_BYTES :: nat where "MAX_BODY_BYTES = 20 * 1024 * 1024"
definition MAX_REDIRECTS :: nat where "MAX_REDIRECTS = 5"

definition CROSS_ORIGIN_SAFE_HEADERS :: "string list" where
  "CROSS_ORIGIN_SAFE_HEADERS = [''accept'', ''accept-language'', ''user-agent'']"

record hop =
  hop_method :: string
  hop_headers :: "(string \<times> string) list"
  hop_body :: "string option"

text \<open>
  A response: its status, the \<^verbatim>\<open>Location\<close> header (absent, not text, or text), and the chunks of its
  body, where \<open>None\<close> is a failure of the stream.
\<close>

record response =
  resp_status :: nat
  resp_location :: "string option option"
  resp_chunks :: "string option list"

record 'u fetched =
  final_url :: 'u
  fetched_status :: nat
  fetched_body :: string
  fetched_truncated :: bool

datatype web_fault =
    InvalidUrl string
  | BlockedUrl blocked
  | NoClient string
  | RequestFailed
  | TooManyRedirects
  | LocationNotText
  | BadRedirectTarget string
  | CrossOriginResend nat string

datatype tool_error = InvalidInput web_fault | Execution web_fault

text \<open>The \<^verbatim>\<open>url\<close> crate, and what lies beyond the process: name lookups and servers, hop by hop.\<close>

record ('u, 'o) url_lib =
  url_parse :: "string \<Rightarrow> 'u option"
  url_parts_of :: "'u \<Rightarrow> url_parts"
  url_join :: "'u \<Rightarrow> string \<Rightarrow> 'u option"
  url_origin :: "'u \<Rightarrow> 'o"

record 'u exchange =
  ex_url :: 'u
  ex_hop :: hop
  ex_addrs :: "ip_addr list"

record 'u world =
  client_build :: "nat \<Rightarrow> string option"
  lookup_host :: "nat \<Rightarrow> string \<Rightarrow> ip_addr list option"
  server :: "nat \<Rightarrow> 'u exchange \<Rightarrow> response option"

section \<open>One hop\<close>

definition to_get :: "nat \<Rightarrow> string \<Rightarrow> bool" where
  "to_get status meth =
     (if status = 303 then meth \<noteq> ''GET'' \<and> meth \<noteq> ''HEAD''
      else if status = 301 \<or> status = 302 then meth = ''POST''
      else False)"

definition as_get :: "hop \<Rightarrow> hop" where
  "as_get h = h\<lparr>hop_method := ''GET'', hop_body := None,
     hop_headers := filter (\<lambda>(k, _). strip_prefix ''content-'' (to_ascii_lowercase k) = None) (hop_headers h)\<rparr>"

definition safe_header :: "string \<times> string \<Rightarrow> bool" where
  "safe_header kv \<longleftrightarrow> list_ex (\<lambda>safe. eq_ignore_ascii_case (fst kv) safe) CROSS_ORIGIN_SAFE_HEADERS"

definition follow :: "bool \<Rightarrow> nat \<Rightarrow> hop \<Rightarrow> tool_error + hop" where
  "follow same_origin status h0 =
     (let h = (if to_get status (hop_method h0) then as_get h0 else h0) in
      if same_origin then Inr h
      else if hop_body h \<noteq> None \<or> \<not> (hop_method h = ''GET'' \<or> hop_method h = ''HEAD'')
      then Inl (Execution (CrossOriginResend status (hop_method h)))
      else Inr (h\<lparr>hop_headers := filter safe_header (hop_headers h)\<rparr>))"

text \<open>The body is read until the stream ends, fails, or would pass the cap.\<close>

fun read_body :: "string \<Rightarrow> string option list \<Rightarrow> (string \<times> bool) option" where
  "read_body body [] = Some (body, False)"
| "read_body body (None # cs) = None"
| "read_body body (Some c # cs) =
     (if length body + length c > MAX_BODY_BYTES
      then Some (body @ take (MAX_BODY_BYTES - length body) c, True)
      else read_body (body @ c) cs)"

definition finish :: "response \<Rightarrow> 'u \<Rightarrow> tool_error + 'u fetched" where
  "finish resp u =
     (case read_body [] (resp_chunks resp) of
        None \<Rightarrow> Inl (Execution RequestFailed)
      | Some (body, truncated) \<Rightarrow>
          Inr \<lparr>final_url = u, fetched_status = resp_status resp, fetched_body = body,
               fetched_truncated = truncated\<rparr>)"

text \<open>The client is built on first use and kept; a build that fails fails the call.\<close>

definition client :: "'u world \<Rightarrow> nat \<Rightarrow> bool \<Rightarrow> tool_error + bool" where
  "client w n built =
     (if built then Inr True
      else case client_build w n of
        None \<Rightarrow> Inr True
      | Some e \<Rightarrow> Inl (Execution (NoClient e)))"

text \<open>
  One request of the client: a literal address is dialled as it is, a name goes through the resolver
  the client was built with. A refusal of the resolver surfaces as the caller's error, every other
  failure as an execution error. The result carries the exchange, if the request left the process.
\<close>

definition send :: "egress_policy \<Rightarrow> ('u, 'o) url_lib \<Rightarrow> 'u world \<Rightarrow> nat \<Rightarrow> 'u \<Rightarrow> hop
    \<Rightarrow> 'u exchange list \<times> (tool_error + response)" where
  "send p l w n u h =
     (case (case url_literal (url_parts_of l u) of
              Some a \<Rightarrow> Inr [a]
            | None \<Rightarrow> (case url_host_str (url_parts_of l u) of
                None \<Rightarrow> Inl LookupFailed
              | Some host \<Rightarrow> ssrf_resolve p host (lookup_host w n host))) of
        Inl (Refused b) \<Rightarrow> ([], Inl (InvalidInput (BlockedUrl b)))
      | Inl LookupFailed \<Rightarrow> ([], Inl (Execution RequestFailed))
      | Inr addrs \<Rightarrow>
          (let e = \<lparr>ex_url = u, ex_hop = h, ex_addrs = addrs\<rparr> in
           ([e], case server w n e of None \<Rightarrow> Inl (Execution RequestFailed) | Some r \<Rightarrow> Inr r)))"

definition is_redirection :: "nat \<Rightarrow> bool" where
  "is_redirection status \<longleftrightarrow> 300 \<le> status \<and> status \<le> 399"

text \<open>What the loop does with a response: end with a result, or go on with the next URL and request.\<close>

definition on_response :: "egress_policy \<Rightarrow> ('u, 'o) url_lib \<Rightarrow> nat \<Rightarrow> 'u \<Rightarrow> hop \<Rightarrow> response
    \<Rightarrow> (tool_error + 'u fetched) + ('u \<times> hop)" where
  "on_response p l redirects u h resp =
     (if is_redirection (resp_status resp) then
        (case resp_location resp of
           None \<Rightarrow> Inl (finish resp u)
         | Some loc \<Rightarrow>
             (if redirects + 1 > MAX_REDIRECTS then Inl (Inl (Execution TooManyRedirects))
              else case loc of
                None \<Rightarrow> Inl (Inl (Execution LocationNotText))
              | Some location \<Rightarrow>
                  (case url_join l u location of
                     None \<Rightarrow> Inl (Inl (Execution (BadRedirectTarget location)))
                   | Some nxt \<Rightarrow>
                       (case validate_url p (url_parts_of l nxt) of
                          Inl b \<Rightarrow> Inl (Inl (InvalidInput (BlockedUrl b)))
                        | Inr _ \<Rightarrow>
                            (case follow (url_origin l u = url_origin l nxt) (resp_status resp) h of
                               Inl e \<Rightarrow> Inl (Inl e)
                             | Inr h' \<Rightarrow> Inr (nxt, h'))))))
      else Inl (finish resp u))"

lemma on_response_counts:
  "on_response p l redirects u h resp = Inr (nxt, h') \<Longrightarrow> redirects < MAX_REDIRECTS"
  by (auto simp: on_response_def split: if_splits option.splits sum.splits)

section \<open>The loop\<close>

function fetch_loop :: "egress_policy \<Rightarrow> ('u, 'o) url_lib \<Rightarrow> 'u world \<Rightarrow> nat \<Rightarrow> bool \<Rightarrow> 'u \<Rightarrow> hop
    \<Rightarrow> 'u exchange list \<times> (tool_error + 'u fetched)" where
  "fetch_loop p l w redirects built u h =
     (case client w redirects built of
        Inl e \<Rightarrow> ([], Inl e)
      | Inr built' \<Rightarrow>
          (case send p l w redirects u h of
             (tr, Inl e) \<Rightarrow> (tr, Inl e)
           | (tr, Inr resp) \<Rightarrow>
               (case on_response p l redirects u h resp of
                  Inl r \<Rightarrow> (tr, r)
                | Inr (nxt, h') \<Rightarrow>
                    (let (tr', r) = fetch_loop p l w (redirects + 1) built' nxt h' in (tr @ tr', r)))))"
  by pat_completeness auto
termination
  by (relation "measure (\<lambda>(p, l, w, redirects, _). MAX_REDIRECTS - redirects)")
    (auto dest: on_response_counts)

declare fetch_loop.simps [simp del]

record request =
  req_url :: string
  req_method :: string
  req_headers :: "(string \<times> string) list"
  req_body :: "string option"

definition fetch :: "egress_policy \<Rightarrow> ('u, 'o) url_lib \<Rightarrow> 'u world \<Rightarrow> bool \<Rightarrow> request
    \<Rightarrow> 'u exchange list \<times> (tool_error + 'u fetched)" where
  "fetch p l w built req =
     (case url_parse l (req_url req) of
        None \<Rightarrow> ([], Inl (InvalidInput (InvalidUrl (req_url req))))
      | Some u \<Rightarrow>
          (case validate_url p (url_parts_of l u) of
             Inl b \<Rightarrow> ([], Inl (InvalidInput (BlockedUrl b)))
           | Inr _ \<Rightarrow>
               fetch_loop p l w 0 built u
                 \<lparr>hop_method = req_method req, hop_headers = req_headers req, hop_body = req_body req\<rparr>))"

text \<open>At home, or carrying nothing: the request stays at the origin it began at, or has nothing of the caller's to leak.\<close>

definition home_or_harmless :: "('u, 'o) url_lib \<Rightarrow> 'u \<Rightarrow> (string \<times> string) list \<Rightarrow> 'u \<Rightarrow> hop \<Rightarrow> bool" where
  "home_or_harmless l u0 hs u h \<longleftrightarrow>
     set (hop_headers h) \<subseteq> set hs \<and>
     (url_origin l u = url_origin l u0 \<or>
      hop_body h = None \<and> (hop_method h = ''GET'' \<or> hop_method h = ''HEAD'')
      \<and> list_all safe_header (hop_headers h))"

text \<open>A chain of two hops to try the theorems on: a POST with a credential, answered by a 302 to another origin.\<close>

definition demo_lib :: "(nat, nat) url_lib" where
  "demo_lib =
     \<lparr>url_parse = \<lambda>_. Some 0,
      url_parts_of = \<lambda>u. \<lparr>url_scheme = ''https'', url_host_str = Some ''a.example'', url_literal = None\<rparr>,
      url_join = \<lambda>_ _. Some 1, url_origin = id\<rparr>"

definition demo_world :: "nat world" where
  "demo_world =
     \<lparr>client_build = \<lambda>_. None, lookup_host = \<lambda>_ _. Some [IpV4 (V4 93 184 216 34)],
      server = \<lambda>n _. Some \<lparr>resp_status = if n = 0 then 302 else 200,
        resp_location = if n = 0 then Some (Some ''/next'') else None, resp_chunks = [Some ''ok'']\<rparr>\<rparr>"

definition demo_request :: request where
  "demo_request = \<lparr>req_url = ''https://a.example/'', req_method = ''POST'',
     req_headers = [(''Authorization'', ''secret''), (''Accept'', ''text/html'')], req_body = Some ''data''\<rparr>"

definition demo_exchange :: "nat exchange" where
  "demo_exchange = \<lparr>ex_url = 1, ex_hop = \<lparr>hop_method = ''GET'', hop_headers = [(''Accept'', ''text/html'')],
     hop_body = None\<rparr>, ex_addrs = [IpV4 (V4 93 184 216 34)]\<rparr>"

section \<open>Invariants along the chain of hops\<close>

lemma fetch_loop_invariant:
  assumes step: "\<And>n u h resp nxt h'. I u h \<Longrightarrow> on_response p l n u h resp = Inr (nxt, h') \<Longrightarrow> I nxt h'"
    and "I u h" and "e \<in> set (fst (fetch_loop p l w n built u h))"
  shows "\<exists>n u h. I u h \<and> e \<in> set (fst (send p l w n u h))"
  using assms
proof (induction p l w n built u h rule: fetch_loop.induct)
  case (1 p l w n built u h)
  from "1.prems"(3) consider (here) "e \<in> set (fst (send p l w n u h))"
    | (later) built' resp nxt h' where "client w n built = Inr built'" "snd (send p l w n u h) = Inr resp"
        "on_response p l n u h resp = Inr (nxt, h')"
        "e \<in> set (fst (fetch_loop p l w (n + 1) built' nxt h'))"
    by (subst (asm) fetch_loop.simps)
      (auto split: sum.splits prod.splits if_splits)
  then show ?case
  proof cases
    case here
    with "1.prems"(2) show ?thesis by blast
  next
    case later
    have "I nxt h'" using "1.prems" later(3) by blast
    with 1 later show ?thesis by (metis surjective_pairing)
  qed
qed

lemma fetch_loop_length: "length (fst (fetch_loop p l w n built u h)) \<le> Suc (MAX_REDIRECTS - n)"
proof (induction p l w n built u h rule: fetch_loop.induct)
  case (1 p l w n built u h)
  have "length (fst (send p l w n u h)) \<le> 1"
    by (auto simp: send_def Let_def split: option.split sum.split resolve_error.split)
  with 1 show ?case
    by (subst fetch_loop.simps) (fastforce dest: on_response_counts split: sum.splits prod.splits)
qed

lemma on_response_validated:
  "on_response p l n u h resp = Inr (nxt, h') \<Longrightarrow> validate_url p (url_parts_of l nxt) = Inr ()"
  by (auto simp: on_response_def split: if_splits option.splits sum.splits)

lemma on_response_follow:
  "on_response p l n u h resp = Inr (nxt, h') \<Longrightarrow>
     follow (url_origin l u = url_origin l nxt) (resp_status resp) h = Inr h'"
  by (auto simp: on_response_def split: if_splits option.splits sum.splits)

lemma fetch_invariant:
  assumes e: "e \<in> set (fst (fetch p l w built req))"
    and init: "\<And>u. url_parse l (req_url req) = Some u \<Longrightarrow>
      I u \<lparr>hop_method = req_method req, hop_headers = req_headers req, hop_body = req_body req\<rparr>"
    and step: "\<And>n u h resp nxt h'. I u h \<Longrightarrow> on_response p l n u h resp = Inr (nxt, h') \<Longrightarrow> I nxt h'"
  obtains n u h where "I u h" "validate_url p (url_parts_of l u) = Inr ()" "e \<in> set (fst (send p l w n u h))"
proof -
  let ?J = "\<lambda>u h. I u h \<and> validate_url p (url_parts_of l u) = Inr ()"
  let ?h = "\<lparr>hop_method = req_method req, hop_headers = req_headers req, hop_body = req_body req\<rparr>"
  from e obtain u where u: "url_parse l (req_url req) = Some u" "validate_url p (url_parts_of l u) = Inr ()"
    and el: "e \<in> set (fst (fetch_loop p l w 0 built u ?h))"
    by (auto simp: fetch_def split: option.splits sum.splits)
  have "?J nxt h'" if "?J v k" "on_response p l n v k resp = Inr (nxt, h')" for n v k resp nxt h'
    using that step [of v k] on_response_validated [of p l n v k resp nxt h'] by blast
  then have "\<exists>n v k. ?J v k \<and> e \<in> set (fst (send p l w n v k))"
    using init [OF u(1)] u(2) el by (rule fetch_loop_invariant [where I = ?J, OF _ conjI])
  with that show ?thesis by blast
qed

lemma send_permitted:
  assumes "validate_url p (url_parts_of l u) = Inr ()" and "e \<in> set (fst (send p l w n u h))"
  shows "ex_url e = u \<and> ex_hop e = h \<and> (\<exists>host. url_host_str (url_parts_of l u) = Some host \<and>
    (\<forall>a \<in> set (ex_addrs e). addr_permitted p host a = Inr ()))"
proof -
  obtain host where "url_host_str (url_parts_of l u) = Some host"
    "\<And>a. url_literal (url_parts_of l u) = Some a \<Longrightarrow> addr_permitted p host a = Inr ()"
    using assms(1) by (rule validate_urlD) blast
  with assms(2) show ?thesis
    using check_addrs_iff [of p host]
    by (auto simp: send_def Let_def ssrf_resolve_def split: option.splits sum.splits resolve_error.splits)
qed

text \<open>
  C17. Whatever DNS and the servers answer at each hop, every request that leaves the process is an http or
  https request whose host the URL names, and every address the client may dial for it lies outside
  the special-purpose blocks, unless the operator opened the policy or listed that very host.
\<close>

theorem fetch_reaches_no_internal_address:
  assumes "e \<in> set (fst (fetch p l w built req))"
  defines "parts \<equiv> url_parts_of l (ex_url e)"
  shows "(url_scheme parts = ''http'' \<or> url_scheme parts = ''https'') \<and>
    (\<exists>host. url_host_str parts = Some host \<and>
       (allow_private p \<or> host_allowed p host \<or> (\<forall>a \<in> set (ex_addrs e). \<not> special a)))"
proof -
  obtain u h n where v: "validate_url p (url_parts_of l u) = Inr ()" and s: "e \<in> set (fst (send p l w n u h))"
    using fetch_invariant [OF assms(1), of "\<lambda>_ _. True"] by blast
  from send_permitted [OF v s] v show ?thesis
    unfolding parts_def addr_permitted_iff by (auto elim: validate_urlD)
qed

lemma safe_header_iff: "safe_header kv \<longleftrightarrow> to_ascii_lowercase (fst kv) \<in> set CROSS_ORIGIN_SAFE_HEADERS"
proof -
  have "map to_ascii_lowercase CROSS_ORIGIN_SAFE_HEADERS = CROSS_ORIGIN_SAFE_HEADERS" by code_simp
  then have "to_ascii_lowercase safe = safe" if "safe \<in> set CROSS_ORIGIN_SAFE_HEADERS" for safe
    using that by (simp add: map_eq_conv [where g = id, simplified])
  then show ?thesis by (auto simp: safe_header_def list_ex_iff eq_ignore_ascii_case_def)
qed

lemma follow_harmless:
  assumes "home_or_harmless l u0 hs u h" and "follow (url_origin l u = url_origin l nxt) status h = Inr h'"
  shows "home_or_harmless l u0 hs nxt h'"
  using assms
  by (auto simp: home_or_harmless_def follow_def as_get_def to_get_def Let_def list_all_iff split: if_splits)

text \<open>
  C18. What the caller asked to send goes only where the caller said: a request to any origin but that of
  the caller's URL has no body, is a GET or a HEAD, and carries no header outside the list of those that
  only describe what the client wants back. Headers are never added.
\<close>

theorem fetch_data_stays_home:
  assumes "e \<in> set (fst (fetch p l w built req))" and "url_parse l (req_url req) = Some u0"
    and "url_origin l (ex_url e) \<noteq> url_origin l u0"
  shows "hop_body (ex_hop e) = None \<and> hop_method (ex_hop e) \<in> {''GET'', ''HEAD''} \<and>
    (\<forall>kv \<in> set (hop_headers (ex_hop e)).
       kv \<in> set (req_headers req) \<and> to_ascii_lowercase (fst kv) \<in> set CROSS_ORIGIN_SAFE_HEADERS)"
proof -
  obtain n u h where I: "home_or_harmless l u0 (req_headers req) u h"
    and v: "validate_url p (url_parts_of l u) = Inr ()" and s: "e \<in> set (fst (send p l w n u h))"
  proof (rule fetch_invariant [OF assms(1), of "home_or_harmless l u0 (req_headers req)"])
    fix n u h resp nxt h'
    assume "home_or_harmless l u0 (req_headers req) u h" "on_response p l n u h resp = Inr (nxt, h')"
    then show "home_or_harmless l u0 (req_headers req) nxt h'"
      by (blast intro: follow_harmless on_response_follow)
  qed (use assms(2) in \<open>auto simp: home_or_harmless_def\<close>)
  from send_permitted [OF v s] I assms(3) show ?thesis
    by (auto simp: home_or_harmless_def list_all_iff safe_header_iff)
qed

lemma read_body_take:
  assumes "length body \<le> MAX_BODY_BYTES"
  shows "read_body body (map Some cs) =
    Some (take MAX_BODY_BYTES (body @ concat cs), MAX_BODY_BYTES < length (body @ concat cs))"
  using assms by (induction cs arbitrary: body) auto


text \<open>
  C37. The loop ends: a fetch makes at most six requests, the caller's and one for each redirect it follows.
  The body it returns, when the stream does not fail, is what was received up to the cap, marked as
  cut exactly when there was more.
\<close>

theorem fetch_is_bounded:
  "length (fst (fetch p l w built req)) \<le> 6 \<and>
   finish \<lparr>resp_status = status, resp_location = loc, resp_chunks = map Some cs\<rparr> u =
     Inr \<lparr>final_url = u, fetched_status = status, fetched_body = take 20971520 (concat cs),
          fetched_truncated = (20971520 < length (concat cs))\<rparr>"
proof
  show "length (fst (fetch p l w built req)) \<le> 6"
    using fetch_loop_length [of p l w 0 built]
    by (auto simp: fetch_def MAX_REDIRECTS_def split: option.split sum.split)
qed (simp add: finish_def read_body_take [of "[]", simplified] MAX_BODY_BYTES_def)

section \<open>The theorems on the chain of two hops\<close>

lemma demo_simps:
  "url_parse demo_lib s = Some 0" "url_join demo_lib u s = Some 1" "url_origin demo_lib u = u"
  "url_literal (url_parts_of demo_lib u) = None" "url_host_str (url_parts_of demo_lib u) = Some ''a.example''"
  "url_scheme (url_parts_of demo_lib u) = ''https''" "client_build demo_world n = None"
  "lookup_host demo_world n host = Some [IpV4 (V4 93 184 216 34)]"
  "server demo_world n e = Some \<lparr>resp_status = if n = 0 then 302 else 200,
     resp_location = if n = 0 then Some (Some ''/next'') else None, resp_chunks = [Some ''ok'']\<rparr>"
  by (simp_all add: demo_lib_def demo_world_def)

lemma demo_send:
  "send (policy_new False []) demo_lib demo_world n u h =
     (let e = \<lparr>ex_url = u, ex_hop = h, ex_addrs = [IpV4 (V4 93 184 216 34)]\<rparr> in
      ([e], Inr (the (server demo_world n e))))"
  by (simp add: send_def demo_simps ssrf_resolve_def addr_permitted_def blocked_v4_def)

lemma demo_follow:
  "follow False 302 \<lparr>hop_method = req_method demo_request, hop_headers = req_headers demo_request,
     hop_body = req_body demo_request\<rparr> = Inr (ex_hop demo_exchange)"
  by code_simp

lemma demo_fetch:
  "demo_exchange \<in> set (fst (fetch (policy_new False []) demo_lib demo_world False demo_request))"
proof -
  have ok: "validate_url (policy_new False []) (url_parts_of demo_lib u) = Inr ()" for u
    by (simp add: validate_url_def demo_simps)
  have "demo_exchange \<in>
      set (fst (fetch_loop (policy_new False []) demo_lib demo_world 1 True 1 (ex_hop demo_exchange)))"
    by (subst fetch_loop.simps)
      (simp add: client_def demo_send demo_simps Let_def on_response_def is_redirection_def,
        simp add: demo_exchange_def)
  then show ?thesis
    unfolding fetch_def
    by (subst fetch_loop.simps)
      (simp add: ok client_def demo_send demo_simps demo_follow Let_def on_response_def is_redirection_def
        MAX_REDIRECTS_def split_beta)
qed

theorem fetch_reaches_no_internal_address_witness:
  "list_all (\<lambda>a. \<not> special a) (ex_addrs demo_exchange)"
  using fetch_reaches_no_internal_address [OF demo_fetch]
  by (auto simp: policy_new_def host_allowed_def list_all_iff)

theorem fetch_data_stays_home_witness:
  "hop_body (ex_hop demo_exchange) = None \<and> hop_method (ex_hop demo_exchange) \<in> {''GET'', ''HEAD''} \<and>
   list_all (\<lambda>kv. kv \<in> set (req_headers demo_request) \<and>
     to_ascii_lowercase (fst kv) \<in> set CROSS_ORIGIN_SAFE_HEADERS) (hop_headers (ex_hop demo_exchange))"
  unfolding list_all_iff
  by (rule fetch_data_stays_home [OF demo_fetch, of 0]) (simp_all add: demo_lib_def demo_exchange_def)

end
