(* ===== verification/Write_Lock.thy ===== *)
theory Write_Lock
  imports Prelude "HOL-Library.List_Lexorder" "HOL-Library.Char_ord"
begin

text \<open>
  The registry of per-path write locks, \<^verbatim>\<open>agent-core/src/write_lock.rs\<close>. Any number of tasks call
  \<^verbatim>\<open>lock\<close> and \<^verbatim>\<open>lock_all\<close> on one registry; a step of the relation below is one critical section of one
  task, so every interleaving of tasks and every cancelled call is a run. A mutex is named by the
  identity of its \<^verbatim>\<open>Arc\<close>, and the reference counts are kept as the code's clones and drops change them.

  Proved: two tasks never hold one path; an entry is removed only when nothing refers to it, and none
  is left once the calls are over, cancelled ones included; and tasks that take several paths never
  deadlock, so a run without new calls comes to its end.
\<close>

section \<open>State\<close>

text \<open>
  Where a call of \<^verbatim>\<open>lock_all\<close> stands: about to enter the map for its next key, waiting on that key's
  mutex, holding all keys, dropping its guards, between a release and the eviction check, or over.
\<close>

datatype phase = Taking | Waiting nat | Holding | Dropping | Evicting string | Done

record task =
  todo :: "string list"
  held :: "(string \<times> nat) list"
  phase :: phase

record registry =
  locks :: "string \<rightharpoonup> nat"
  strong :: "nat \<Rightarrow> nat"
  locked :: "nat \<Rightarrow> bool"
  fresh :: nat
  tasks :: "task list"

definition registry_new :: registry where
  "registry_new = \<lparr>locks = Map.empty, strong = \<lambda>_. 0, locked = \<lambda>_. False, fresh = 0, tasks = []\<rparr>"

definition add_refs :: "nat \<Rightarrow> nat \<Rightarrow> registry \<Rightarrow> registry" where
  "add_refs m n s = s\<lparr>strong := (strong s)(m := strong s m + n)\<rparr>"

definition drop_refs :: "nat \<Rightarrow> nat \<Rightarrow> registry \<Rightarrow> registry" where
  "drop_refs m n s = s\<lparr>strong := (strong s)(m := strong s m - n)\<rparr>"

definition set_task :: "nat \<Rightarrow> task \<Rightarrow> registry \<Rightarrow> registry" where
  "set_task i t s = s\<lparr>tasks := (tasks s)[i := t]\<rparr>"

section \<open>Operations\<close>

text \<open>The keys of a call are taken sorted and without repetition; a call without keys takes no lock.\<close>

definition lock_order :: "string list \<Rightarrow> string list" where
  "lock_order keys = remdups_adj (sort keys)"

definition lock_all_start :: "string list \<Rightarrow> registry \<Rightarrow> registry option" where
  "lock_all_start keys s =
     (case lock_order keys of
        [] \<Rightarrow> None
      | ks \<Rightarrow> Some (s\<lparr>tasks := tasks s @ [\<lparr>todo = ks, held = [], phase = Taking\<rparr>]\<rparr>))"

text \<open>
  Under the map's lock: the key's mutex, made if it is the first; then the clone for the reservation
  beside the one the acquiring future owns.
\<close>

definition entry_mutex :: "string \<Rightarrow> registry \<Rightarrow> nat \<times> registry" where
  "entry_mutex k s =
     (case locks s k of
        Some m \<Rightarrow> (m, add_refs m 1 s)
      | None \<Rightarrow>
          (let m = fresh s;
               s = s\<lparr>fresh := m + 1, locks := (locks s)(k \<mapsto> m), strong := (strong s)(m := 1)\<rparr>
           in (m, add_refs m 1 s)))"

definition lock_enter :: "nat \<Rightarrow> registry \<Rightarrow> registry option" where
  "lock_enter i s =
     (let t = tasks s ! i in
      case (phase t, todo t) of
        (Taking, k # ks) \<Rightarrow>
          (let (m, s) = entry_mutex k s in Some (set_task i (t\<lparr>phase := Waiting m\<rparr>) (add_refs m 1 s)))
      | _ \<Rightarrow> None)"

text \<open>
  The mutex is acquired: the reservation is turned into a guard, which keeps the future's reference,
  and the call goes on to its next key.
\<close>

definition lock_acquire :: "nat \<Rightarrow> registry \<Rightarrow> registry option" where
  "lock_acquire i s =
     (let t = tasks s ! i in
      case (phase t, todo t) of
        (Waiting m, k # ks) \<Rightarrow>
          (if locked s m then None
           else
             let t = t\<lparr>todo := ks, held := held t @ [(k, m)], phase := if ks = [] then Holding else Taking\<rparr>;
                 s = drop_refs m 1 (s\<lparr>locked := (locked s)(m := True)\<rparr>)
             in Some (set_task i t s))
      | _ \<Rightarrow> None)"

text \<open>
  A call dropped while it waits: the future's reference goes, then the reservation's, then the eviction
  check runs, and then the keys already held are released.
\<close>

definition lock_cancel :: "nat \<Rightarrow> registry \<Rightarrow> registry option" where
  "lock_cancel i s =
     (let t = tasks s ! i in
      case (phase t, todo t) of
        (Waiting m, k # ks) \<Rightarrow>
          Some (set_task i (t\<lparr>todo := [], phase := Evicting k\<rparr>) (drop_refs m 1 (drop_refs m 1 s)))
      | _ \<Rightarrow> None)"

definition guard_drop :: "nat \<Rightarrow> registry \<Rightarrow> registry option" where
  "guard_drop i s =
     (let t = tasks s ! i in
      case phase t of
        Holding \<Rightarrow> Some (set_task i (t\<lparr>phase := Dropping\<rparr>) s)
      | _ \<Rightarrow> None)"

text \<open>A guard's own key first, then those taken after it, each released and then checked for eviction.\<close>

definition guard_release :: "nat \<Rightarrow> registry \<Rightarrow> registry option" where
  "guard_release i s =
     (let t = tasks s ! i in
      case (phase t, held t) of
        (Dropping, (k, m) # hs) \<Rightarrow>
          (let s = drop_refs m 1 (s\<lparr>locked := (locked s)(m := False)\<rparr>)
           in Some (set_task i (t\<lparr>held := hs, phase := Evicting k\<rparr>) s))
      | (Dropping, []) \<Rightarrow> Some (set_task i (t\<lparr>phase := Done\<rparr>) s)
      | _ \<Rightarrow> None)"

definition evict_if_unreferenced :: "string \<Rightarrow> registry \<Rightarrow> registry" where
  "evict_if_unreferenced k s =
     (case locks s k of
        Some m \<Rightarrow> if strong s m = 1 then drop_refs m 1 (s\<lparr>locks := (locks s)(k := None)\<rparr>) else s
      | None \<Rightarrow> s)"

definition lock_evict :: "nat \<Rightarrow> registry \<Rightarrow> registry option" where
  "lock_evict i s =
     (let t = tasks s ! i in
      case phase t of
        Evicting k \<Rightarrow> Some (set_task i (t\<lparr>phase := Dropping\<rparr>) (evict_if_unreferenced k s))
      | _ \<Rightarrow> None)"

section \<open>Runs\<close>

definition lock_ops :: "(nat \<Rightarrow> registry \<Rightarrow> registry option) list" where
  "lock_ops = [lock_enter, lock_acquire, guard_drop, guard_release, lock_evict]"

inductive lock_step :: "registry \<Rightarrow> registry \<Rightarrow> bool" where
  own_step: "i < length (tasks s) \<Longrightarrow> f \<in> set lock_ops \<Longrightarrow> f i s = Some s' \<Longrightarrow> lock_step s s'"
| cancel_step: "i < length (tasks s) \<Longrightarrow> lock_cancel i s = Some s' \<Longrightarrow> lock_step s s'"

inductive reachable :: "registry \<Rightarrow> bool" where
  reach_new: "reachable registry_new"
| reach_start: "reachable s \<Longrightarrow> lock_all_start keys s = Some s' \<Longrightarrow> reachable s'"
| reach_step: "reachable s \<Longrightarrow> lock_step s s' \<Longrightarrow> reachable s'"

section \<open>The invariant\<close>

definition waiting_on :: "task \<Rightarrow> (string \<times> nat) list" where
  "waiting_on t = (case phase t of Waiting m \<Rightarrow> [(hd (todo t), m)] | _ \<Rightarrow> [])"

definition task_refs :: "task \<Rightarrow> (string \<times> nat) list" where
  "task_refs t = held t @ waiting_on t @ waiting_on t"

definition refs :: "nat \<Rightarrow> registry \<Rightarrow> nat" where
  "refs m s = sum_list (map (\<lambda>t. count_list (map snd (task_refs t)) m) (tasks s))"

definition holders :: "nat \<Rightarrow> registry \<Rightarrow> nat" where
  "holders m s = sum_list (map (\<lambda>t. count_list (map snd (held t)) m) (tasks s))"

definition task_ok :: "task \<Rightarrow> bool" where
  "task_ok t \<longleftrightarrow>
     sorted_wrt (<) (map fst (held t) @ todo t) \<and>
     (case phase t of
        Taking \<Rightarrow> todo t \<noteq> []
      | Waiting _ \<Rightarrow> todo t \<noteq> []
      | Done \<Rightarrow> todo t = [] \<and> held t = []
      | _ \<Rightarrow> todo t = [])"

definition kept_alive :: "string \<Rightarrow> task \<Rightarrow> bool" where
  "kept_alive k t \<longleftrightarrow> k \<in> fst ` set (task_refs t) \<or> phase t = Evicting k"

definition lock_inv :: "registry \<Rightarrow> bool" where
  "lock_inv s \<longleftrightarrow>
     (\<forall>m. strong s m = of_bool (m \<in> ran (locks s)) + refs m s) \<and>
     (\<forall>k m. locks s k = Some m \<longrightarrow> m < fresh s) \<and>
     inj_on (locks s) (dom (locks s)) \<and>
     (\<forall>t \<in> set (tasks s). \<forall>(k, m) \<in> set (task_refs t). locks s k = Some m) \<and>
     (\<forall>m. holders m s = of_bool (locked s m)) \<and>
     (\<forall>k \<in> dom (locks s). \<exists>t \<in> set (tasks s). kept_alive k t) \<and>
     (\<forall>t \<in> set (tasks s). task_ok t)"

text \<open>What is left to do for a call, and whether some call can go on by itself.\<close>

definition task_work :: "task \<Rightarrow> nat" where
  "task_work t =
     (case phase t of
        Done \<Rightarrow> 0
      | Dropping \<Rightarrow> 1 + 2 * length (held t)
      | Evicting _ \<Rightarrow> 2 + 2 * length (held t)
      | Holding \<Rightarrow> 2 + 2 * length (held t)
      | Taking \<Rightarrow> 2 + 2 * length (held t) + 4 * length (todo t)
      | Waiting _ \<Rightarrow> 1 + 2 * length (held t) + 4 * length (todo t))"

definition total_work :: "registry \<Rightarrow> nat" where
  "total_work s = sum_list (map task_work (tasks s))"

definition can_step :: "registry \<Rightarrow> bool" where
  "can_step s \<longleftrightarrow> list_ex (\<lambda>i. list_ex (\<lambda>f. f i s \<noteq> None) lock_ops) [0..<length (tasks s)]"

abbreviation cnt :: "task \<Rightarrow> nat \<Rightarrow> nat" where "cnt t m \<equiv> count_list (map snd (task_refs t)) m"
abbreviation hold_cnt :: "task \<Rightarrow> nat \<Rightarrow> nat" where "hold_cnt t m \<equiv> count_list (map snd (held t)) m"
abbreviation in_map :: "registry \<Rightarrow> nat \<Rightarrow> nat" where "in_map s m \<equiv> of_bool (m \<in> ran (locks s))"

text \<open>A step taken when it can be, for concrete runs.\<close>

definition attempt :: "nat \<Rightarrow> (nat \<Rightarrow> registry \<Rightarrow> registry option) \<Rightarrow> registry \<Rightarrow> registry" where
  "attempt i f s = (if i < length (tasks s) then case f i s of Some s' \<Rightarrow> s' | None \<Rightarrow> s else s)"

definition two_writers :: registry where
  "two_writers =
     attempt 1 lock_enter (attempt 0 lock_acquire (attempt 0 lock_enter
       (the (lock_all_start [''a''] (the (lock_all_start [''b'', ''a'', ''b''] registry_new))))))"

section \<open>Every step keeps the invariant\<close>

lemma sum_list_map_update:
  fixes f :: "'a \<Rightarrow> nat"
  assumes "i < length ts"
  shows "sum_list (map f (ts[i := t])) + f (ts ! i) = sum_list (map f ts) + f t"
  using assms
proof (induction ts arbitrary: i)
  case (Cons a ts)
  then show ?case by (cases i) (auto simp: algebra_simps)
qed simp

lemma bex_update:
  assumes "i < length ts" "\<exists>t \<in> set ts. P t" "P (ts ! i) \<Longrightarrow> P t'"
  shows "\<exists>t \<in> set (ts[i := t']). P t"
  using assms by (metis in_set_conv_nth length_list_update nth_list_update_eq nth_list_update_neq)

lemma lock_invD:
  assumes "lock_inv s"
  shows "strong s m = of_bool (m \<in> ran (locks s)) + refs m s"
    and "locks s k = Some m \<Longrightarrow> m < fresh s"
    and "inj_on (locks s) (dom (locks s))"
    and "t \<in> set (tasks s) \<Longrightarrow> (k, m) \<in> set (task_refs t) \<Longrightarrow> locks s k = Some m"
    and "holders m s = of_bool (locked s m)"
    and "locks s k = Some m \<Longrightarrow> \<exists>t \<in> set (tasks s). kept_alive k t"
    and "t \<in> set (tasks s) \<Longrightarrow> task_ok t"
  using assms unfolding lock_inv_def by blast+

lemma inv_update:
  assumes inv: "lock_inv s" and i: "i < length (tasks s)" and tasks': "tasks s' = (tasks s)[i := t']"
    and fresh: "\<And>k m. locks s' k = Some m \<Longrightarrow> m < fresh s'" and inj: "inj_on (locks s') (dom (locks s'))"
    and old: "\<And>t k m. t \<in> set (tasks s) \<Longrightarrow> (k, m) \<in> set (task_refs t) \<Longrightarrow> locks s' k = Some m"
    and new: "\<And>k m. (k, m) \<in> set (task_refs t') \<Longrightarrow> locks s' k = Some m"
    and strong: "\<And>m. strong s' m + cnt (tasks s ! i) m + in_map s m = strong s m + cnt t' m + in_map s' m"
    and locked: "\<And>m. of_bool (locked s' m) + hold_cnt (tasks s ! i) m = of_bool (locked s m) + hold_cnt t' m"
    and alive: "\<And>k. k \<in> dom (locks s') \<Longrightarrow>
      k \<in> dom (locks s) \<and> (kept_alive k (tasks s ! i) \<longrightarrow> kept_alive k t') \<or> kept_alive k t'
      \<or> (\<exists>u \<in> set (tasks s). k \<in> fst ` set (task_refs u)) \<and> task_refs t' = task_refs (tasks s ! i)"
    and ok: "task_ok t'"
  shows "lock_inv s'"
proof -
  have rf: "refs m s' + cnt (tasks s ! i) m = refs m s + cnt t' m" for m
    using sum_list_map_update [OF i] by (simp add: refs_def tasks')
  have "strong s' m = in_map s' m + refs m s'" for m
    using strong [of m] lock_invD(1) [OF inv, of m] rf [of m] by linarith
  moreover have hd: "holders m s' + hold_cnt (tasks s ! i) m = holders m s + hold_cnt t' m" for m
    using sum_list_map_update [OF i] by (simp add: holders_def tasks')
  moreover have "holders m s' = of_bool (locked s' m)" for m
    using locked [of m] lock_invD(5) [OF inv, of m] hd [of m] by linarith
  moreover have "\<exists>t \<in> set (tasks s'). kept_alive k t" if k: "k \<in> dom (locks s')" for k
  proof (cases "kept_alive k t'")
    case True
    then show ?thesis using i by (auto simp: tasks' set_update_memI)
  next
    case False
    with alive [OF k] have "\<exists>u \<in> set (tasks s). kept_alive k u \<and> u \<noteq> tasks s ! i"
    proof (elim disjE conjE)
      assume "k \<in> dom (locks s)" "kept_alive k (tasks s ! i) \<longrightarrow> kept_alive k t'"
      with False show ?thesis using lock_invD(6) [OF inv] by blast
    qed (use False in \<open>auto simp: kept_alive_def\<close>)
    then show ?thesis unfolding tasks' by (metis in_set_conv_nth length_list_update nth_list_update_neq)
  qed
  moreover have "locks s' k = Some m" if "t \<in> set (tasks s')" "(k, m) \<in> set (task_refs t)" for t k m
    using that old new set_update_subset_insert [of "tasks s" i t'] unfolding tasks' by blast
  moreover have "task_ok t" if "t \<in> set (tasks s')" for t
    using that ok inv set_update_subset_insert [of "tasks s" i t'] unfolding tasks' lock_inv_def by blast
  ultimately show ?thesis using fresh inj unfolding lock_inv_def by blast
qed

lemma cnt_le_refs: "t \<in> set (tasks s) \<Longrightarrow> cnt t m \<le> refs m s"
  unfolding refs_def by (rule member_le_sum_list) auto

lemma refs_zero:
  assumes "lock_inv s" and "m \<notin> ran (locks s)"
  shows "refs m s = 0"
proof -
  have "count_list (map snd (task_refs t)) m = 0" if "t \<in> set (tasks s)" for t
    using lock_invD(4) [OF assms(1) that] assms(2) by (fastforce simp: count_list_0_iff ran_def)
  then show ?thesis by (simp add: refs_def)
qed

lemma fresh_unused: 
  assumes "lock_inv s"
  shows "fresh s \<notin> ran (locks s)" "strong s (fresh s) = 0" "locks s k \<noteq> Some (fresh s)"
proof -
  show "fresh s \<notin> ran (locks s)" "locks s k \<noteq> Some (fresh s)" using lock_invD(2) [OF assms] by (fastforce simp: ran_def)+
  then show "strong s (fresh s) = 0" using lock_invD(1) [OF assms] refs_zero [OF assms] by simp
qed

lemmas lock_eqs = add_refs_def drop_refs_def set_task_def Let_def
lemmas ref_eqs = task_refs_def waiting_on_def

lemma enter_inv:
  assumes inv: "lock_inv s" and i: "i < length (tasks s)" and s': "lock_enter i s = Some s'"
  shows "lock_inv s'"
proof -
  let ?t = "tasks s ! i"
  have t: "?t \<in> set (tasks s)" using i by simp
  obtain k ks where ph: "phase ?t = Taking" "todo ?t = k # ks"
    using s' by (auto simp: lock_enter_def Let_def split: phase.splits list.splits)
  have ok: "task_ok (?t\<lparr>phase := Waiting m\<rparr>)" for m using lock_invD(7) [OF inv t] ph by (simp add: task_ok_def)
  note pts = lock_invD(4) [OF inv]
  show ?thesis
  proof (cases "locks s k")
    case (Some m)
    then have eq: "s' = s\<lparr>strong := (strong s)(m := strong s m + 2), tasks := (tasks s)[i := ?t\<lparr>phase := Waiting m\<rparr>]\<rparr>"
      using s' ph by (auto simp: lock_enter_def entry_mutex_def lock_eqs)
    show ?thesis
      by (rule inv_update [OF inv i, where t' = "?t\<lparr>phase := Waiting m\<rparr>"])
        (use pts [OF t] pts Some ph ok lock_invD(2,3) [OF inv] in \<open>auto simp: eq ref_eqs kept_alive_def\<close>)
  next
    case None
    define m where "m = fresh s"
    have eq: "s' = s\<lparr>strong := (strong s)(m := 3), locks := (locks s)(k \<mapsto> m), fresh := m + 1,
        tasks := (tasks s)[i := ?t\<lparr>phase := Waiting m\<rparr>]\<rparr>"
      using s' ph None by (auto simp: lock_enter_def entry_mutex_def lock_eqs m_def numeral_3_eq_3)
    note fr = fresh_unused [OF inv, folded m_def]
    have old: "((locks s)(k \<mapsto> m)) k' = Some n" if "u \<in> set (tasks s)" "(k', n) \<in> set (task_refs u)" for u k' n
      using pts [OF that] None by auto
    have lt: "locks s k' = Some n \<Longrightarrow> n < m" for k' n using lock_invD(2) [OF inv] by (simp add: m_def)
    have inj: "inj_on ((locks s)(k \<mapsto> m)) (dom ((locks s)(k \<mapsto> m)))"
      using lock_invD(3) [OF inv] fr(3) None by (auto simp: inj_on_def)
    have ran: "ran ((locks s)(k \<mapsto> m)) = insert m (ran (locks s))" using None by (rule ran_map_upd)
    show ?thesis
      by (rule inv_update [OF inv i, where t' = "?t\<lparr>phase := Waiting m\<rparr>"])
        (use pts [OF t] old None ph ok lt fr inj in
          \<open>auto simp: eq ref_eqs kept_alive_def ran less_Suc_eq split: if_splits\<close>)
  qed
qed


lemma waiting_strong:
  assumes inv: "lock_inv s" and i: "i < length (tasks s)" and w: "phase (tasks s ! i) = Waiting m"
  shows "2 \<le> strong s m"
  using lock_invD(1) [OF inv, of m] cnt_le_refs [of "tasks s ! i" s m] i w by (simp add: ref_eqs)

lemma acquire_inv:
  assumes inv: "lock_inv s" and i: "i < length (tasks s)" and s': "lock_acquire i s = Some s'"
  shows "lock_inv s'"
proof -
  let ?t = "tasks s ! i"
  have t: "?t \<in> set (tasks s)" using i by simp
  obtain m k ks where ph: "phase ?t = Waiting m" "todo ?t = k # ks" and free: "\<not> locked s m"
    using s' by (auto simp: lock_acquire_def Let_def split: phase.splits list.splits if_splits)
  define t' where "t' = ?t\<lparr>todo := ks, held := held ?t @ [(k, m)], phase := if ks = [] then Holding else Taking\<rparr>"
  have eq: "s' = s\<lparr>strong := (strong s)(m := strong s m - 1), locked := (locked s)(m := True), tasks := (tasks s)[i := t']\<rparr>"
    using s' ph free by (auto simp: lock_acquire_def lock_eqs t'_def)
  have "task_ok t'" using lock_invD(7) [OF inv t] ph by (auto simp: task_ok_def t'_def)
  with lock_invD(4) [OF inv] lock_invD(4) [OF inv t] ph free lock_invD(2,3) [OF inv] waiting_strong [OF inv i ph(1)]
  show ?thesis
    by (intro inv_update [OF inv i, where t' = t'])
      (auto simp: eq ref_eqs kept_alive_def t'_def split: if_splits)
qed

lemma cancel_inv:
  assumes inv: "lock_inv s" and i: "i < length (tasks s)" and s': "lock_cancel i s = Some s'"
  shows "lock_inv s'"
proof -
  let ?t = "tasks s ! i"
  have t: "?t \<in> set (tasks s)" using i by simp
  obtain m k ks where ph: "phase ?t = Waiting m" "todo ?t = k # ks"
    using s' by (auto simp: lock_cancel_def Let_def split: phase.splits list.splits if_splits)
  define t' where "t' = ?t\<lparr>todo := [], phase := Evicting k\<rparr>"
  have eq: "s' = s\<lparr>strong := (strong s)(m := strong s m - 2), tasks := (tasks s)[i := t']\<rparr>"
    using s' ph by (auto simp: lock_cancel_def lock_eqs t'_def numeral_2_eq_2)
  have "task_ok t'" using lock_invD(7) [OF inv t] ph by (auto simp: task_ok_def t'_def sorted_wrt_append)
  with lock_invD(4) [OF inv] lock_invD(4) [OF inv t] ph lock_invD(2,3) [OF inv] waiting_strong [OF inv i ph(1)]
  show ?thesis
    by (intro inv_update [OF inv i, where t' = t']) (auto simp: eq ref_eqs kept_alive_def t'_def)
qed

lemma drop_inv:
  assumes inv: "lock_inv s" and i: "i < length (tasks s)" and s': "guard_drop i s = Some s'"
  shows "lock_inv s'"
proof -
  let ?t = "tasks s ! i"
  have t: "?t \<in> set (tasks s)" using i by simp
  define t' where "t' = ?t\<lparr>phase := Dropping\<rparr>"
  have ph: "phase ?t = Holding" and eq: "s' = s\<lparr>tasks := (tasks s)[i := t']\<rparr>"
    using s' by (auto simp: guard_drop_def lock_eqs t'_def split: phase.splits)
  have "task_ok t'" using lock_invD(7) [OF inv t] ph by (auto simp: task_ok_def t'_def)
  with lock_invD(4) [OF inv] lock_invD(4) [OF inv t] ph lock_invD(2,3) [OF inv]
  show ?thesis
    by (intro inv_update [OF inv i, where t' = t']) (auto simp: eq ref_eqs kept_alive_def t'_def)
qed

lemma holder_locked:
  assumes inv: "lock_inv s" and t: "t \<in> set (tasks s)" and h: "(k, m) \<in> set (held t)"
  shows "locked s m"
proof -
  have "0 < hold_cnt t m" using h by (force simp: zero_less_iff_neq_zero count_list_0_iff)
  also have "hold_cnt t m \<le> holders m s"
    unfolding holders_def by (rule member_le_sum_list) (use t in auto)
  finally show ?thesis using lock_invD(5) [OF inv, of m] by (auto split: if_splits)
qed

lemma release_inv:
  assumes inv: "lock_inv s" and i: "i < length (tasks s)" and s': "guard_release i s = Some s'"
  shows "lock_inv s'"
proof -
  let ?t = "tasks s ! i"
  have t: "?t \<in> set (tasks s)" using i by simp
  have ph: "phase ?t = Dropping"
    using s' by (auto simp: guard_release_def Let_def split: phase.splits)
  show ?thesis
  proof (cases "held ?t")
    case Nil
    define t' where "t' = ?t\<lparr>phase := Done\<rparr>"
    have eq: "s' = s\<lparr>tasks := (tasks s)[i := t']\<rparr>" using s' ph Nil by (auto simp: guard_release_def lock_eqs t'_def)
    have "task_ok t'" using lock_invD(7) [OF inv t] ph Nil by (auto simp: task_ok_def t'_def)
    with lock_invD(4) [OF inv] lock_invD(4) [OF inv t] ph lock_invD(2,3) [OF inv]
    show ?thesis
      by (intro inv_update [OF inv i, where t' = t']) (auto simp: eq ref_eqs kept_alive_def t'_def)
  next
    case (Cons km hs)
    obtain k m where km: "km = (k, m)" by (cases km)
    define t' where "t' = ?t\<lparr>held := hs, phase := Evicting k\<rparr>"
    have eq: "s' = s\<lparr>strong := (strong s)(m := strong s m - 1), locked := (locked s)(m := False), tasks := (tasks s)[i := t']\<rparr>"
      using s' ph Cons km by (auto simp: guard_release_def lock_eqs t'_def)
    have "locked s m" using holder_locked [OF inv t, of k m] Cons km by simp
    moreover have "1 \<le> strong s m"
      using lock_invD(1) [OF inv, of m] cnt_le_refs [OF t, of m] Cons km by (simp add: ref_eqs)
    moreover have "task_ok t'" using lock_invD(7) [OF inv t] ph Cons km by (auto simp: task_ok_def t'_def)
    ultimately show ?thesis
      using lock_invD(4) [OF inv] lock_invD(4) [OF inv t] ph Cons km lock_invD(2,3) [OF inv]
      by (intro inv_update [OF inv i, where t' = t']) (auto simp: eq ref_eqs kept_alive_def t'_def)
  qed
qed

lemma evict_inv:
  assumes inv: "lock_inv s" and i: "i < length (tasks s)" and s': "lock_evict i s = Some s'"
  shows "lock_inv s'"
proof -
  let ?t = "tasks s ! i"
  have t: "?t \<in> set (tasks s)" using i by simp
  define t' where "t' = ?t\<lparr>phase := Dropping\<rparr>"
  obtain k where ph: "phase ?t = Evicting k" and eq: "s' = set_task i t' (evict_if_unreferenced k s)"
    using s' by (auto simp: lock_evict_def Let_def t'_def split: phase.splits)
  have ok: "task_ok t'" using lock_invD(7) [OF inv t] ph by (auto simp: task_ok_def t'_def)
  note pts = lock_invD(4) [OF inv]
  show ?thesis
  proof (cases "\<exists>m. locks s k = Some m \<and> strong s m = 1")
    case True
    then obtain m where m: "locks s k = Some m" "strong s m = 1" by blast
    have eq: "s' = s\<lparr>strong := (strong s)(m := 0), locks := (locks s)(k := None), tasks := (tasks s)[i := t']\<rparr>"
      using m by (auto simp: eq evict_if_unreferenced_def lock_eqs)
    have mr: "m \<in> ran (locks s)" using m by (auto simp: ran_def)
    with m have "refs m s = 0" using lock_invD(1) [OF inv, of m] by simp
    then have unref: "m \<notin> snd ` set (task_refs u)" if "u \<in> set (tasks s)" for u
      using cnt_le_refs [OF that, of m] by (auto simp: count_list_0_iff)
    have ran: "ran ((locks s)(k := None)) = ran (locks s) - {m}"
      using m lock_invD(3) [OF inv] by (auto simp: ran_def inj_on_def dom_def) (metis option.inject)+
    have inj: "inj_on ((locks s)(k := None)) (dom ((locks s)(k := None)))"
      using lock_invD(3) [OF inv] by (auto simp: inj_on_def)
    have keep: "locks s k' = Some n \<and> k' \<noteq> k" if "u \<in> set (tasks s)" "(k', n) \<in> set (task_refs u)" for u k' n
      using pts [OF that] unref [OF that(1)] that(2) m(1) by force
    show ?thesis
      using ph ok inj m mr keep keep [OF t] lock_invD(2) [OF inv]
      by (intro inv_update [OF inv i, where t' = t'])
        (auto simp: eq ref_eqs kept_alive_def t'_def ran split: if_splits)
  next
    case False
    then have eq: "s' = s\<lparr>tasks := (tasks s)[i := t']\<rparr>"
      by (auto simp: eq evict_if_unreferenced_def lock_eqs split: option.splits)
    have "\<exists>u \<in> set (tasks s). k \<in> fst ` set (task_refs u)" if m: "locks s k = Some m" for m
    proof -
      have "m \<in> ran (locks s)" using m by (rule ranI)
      then have "refs m s \<noteq> 0" using False lock_invD(1) [OF inv, of m] m by auto
      then obtain u where u: "u \<in> set (tasks s)" "cnt u m \<noteq> 0" unfolding refs_def by auto
      then obtain k' where k': "(k', m) \<in> set (task_refs u)" by (auto simp: count_list_0_iff)
      from pts [OF u(1) k'] m lock_invD(3) [OF inv] have "k' = k" by (metis domI inj_onD)
      with u(1) k' show ?thesis by force
    qed
    with ph ok pts pts [OF t] lock_invD(2,3) [OF inv] show ?thesis
      by (intro inv_update [OF inv i, where t' = t']) (auto simp: eq ref_eqs kept_alive_def t'_def)
  qed
qed

section \<open>Exclusion, eviction, progress\<close>

lemma distinct_remdups_adj_sorted: "sorted xs \<Longrightarrow> distinct (remdups_adj (xs :: 'a :: linorder list))"
  by (induction xs rule: remdups_adj.induct) (auto simp: order.antisym)

lemma sorted_lock_order: "sorted_wrt (<) (lock_order keys)"
  unfolding lock_order_def strict_sorted_iff by (simp add: distinct_remdups_adj_sorted)

lemma two_le_sum_list:
  fixes xs :: "nat list"
  assumes "i < length xs" "j < length xs" "i \<noteq> j"
  shows "xs ! i + xs ! j \<le> sum_list xs"
proof -
  have "sum ((!) xs) {i, j} \<le> sum ((!) xs) {0..<length xs}" by (rule sum_mono2) (use assms in auto)
  with assms(3) show ?thesis by (simp add: sum_list_sum_nth)
qed

lemma start_inv:
  assumes inv: "lock_inv s" and s': "lock_all_start keys s = Some s'"
  shows "lock_inv s'"
proof -
  have "lock_order keys \<noteq> []" and "s' = s\<lparr>tasks := tasks s @ [\<lparr>todo = lock_order keys, held = [], phase = Taking\<rparr>]\<rparr>"
    using s' by (auto simp: lock_all_start_def split: list.splits)
  then show ?thesis
    using inv sorted_lock_order [of keys]
    by (auto simp: lock_inv_def refs_def holders_def ref_eqs task_ok_def)
qed

lemma step_inv: "lock_step s s' \<Longrightarrow> lock_inv s \<Longrightarrow> lock_inv s'"
  by (induction rule: lock_step.induct)
    (auto simp: lock_ops_def intro: enter_inv acquire_inv cancel_inv drop_inv release_inv evict_inv)

lemma new_inv: "lock_inv registry_new"
  by (simp add: registry_new_def lock_inv_def refs_def holders_def)

lemma reachable_inv: "reachable s \<Longrightarrow> lock_inv s"
  by (induction rule: reachable.induct) (auto intro: new_inv start_inv step_inv)

text \<open>
  C25. Mutual exclusion, whatever is interleaved and cancelled: a path is held by at most one task, and
  once.
\<close>

theorem writers_exclude_each_other:
  assumes "reachable s" and "i < length (tasks s)" and "j < length (tasks s)"
    and "(k, m) \<in> set (held (tasks s ! i))" and "(k, n) \<in> set (held (tasks s ! j))"
  shows "i = j \<and> m = n \<and> distinct (map fst (held (tasks s ! i)))"
proof -
  note inv = reachable_inv [OF assms(1)]
  have ref: "locks s k = Some m" "locks s k = Some n"
    using assms lock_invD(4) [OF inv nth_mem] by (force simp: task_refs_def)+
  then have mn: "m = n" by simp
  have one: "holders m s \<le> 1" using lock_invD(5) [OF inv, of m] by simp
  have pos: "1 \<le> hold_cnt (tasks s ! l) m" if "(k, m) \<in> set (held (tasks s ! l))" for l
    using that by (force simp: Suc_le_eq zero_less_iff_neq_zero count_list_0_iff)
  have "i = j"
  proof (rule ccontr)
    assume "i \<noteq> j"
    have "hold_cnt (tasks s ! i) m + hold_cnt (tasks s ! j) m \<le> holders m s"
      using two_le_sum_list [of i "map (\<lambda>t. hold_cnt t m) (tasks s)" j] \<open>i \<noteq> j\<close> assms(2,3)
      by (simp add: holders_def)
    with one pos [of i] pos [of j] assms(4,5) mn show False by simp
  qed
  moreover have "task_ok (tasks s ! i)" using lock_invD(7) [OF inv] assms(2) by simp
  then have "distinct (map fst (held (tasks s ! i)))"
    by (auto simp: task_ok_def sorted_wrt_append strict_sorted_iff)
  ultimately show ?thesis using mn by simp
qed

lemma done_is_empty:
  assumes inv: "lock_inv s" and "\<forall>t \<in> set (tasks s). phase t = Done"
  shows "locks s = Map.empty" "strong s m = 0" "\<not> locked s m"
proof -
  have refless: "task_refs t = []" if "t \<in> set (tasks s)" for t
    using lock_invD(7) [OF inv that] assms(2) that by (auto simp: task_ok_def ref_eqs)
  then have "\<not> kept_alive k t" if "t \<in> set (tasks s)" for t k
    using that assms(2) by (auto simp: kept_alive_def)
  then show empty: "locks s = Map.empty" using lock_invD(6) [OF inv] by (metis option.exhaust)
  have "held t = []" if "t \<in> set (tasks s)" for t using refless [OF that] by (simp add: task_refs_def)
  then have "holders m s = 0" by (simp add: holders_def)
  moreover have "refs m s = 0" using refless by (simp add: refs_def)
  ultimately show "strong s m = 0" "\<not> locked s m" using lock_invD(1,5) [OF inv, of m] empty by auto
qed

text \<open>
  C27. Nothing is leaked and nothing is torn down under a caller: every reference a call holds is to the mutex
  the map names for that path; every entry in the map has a call that refers to its mutex or is about to
  check it for eviction (such a check may find the entry already gone); and when all calls are over, whether they released
  their guards or were cancelled while they waited, the registry is empty.
\<close>

theorem entries_live_as_long_as_their_calls:
  assumes "reachable s"
  shows "(\<forall>t \<in> set (tasks s). \<forall>(k, m) \<in> set (task_refs t). locks s k = Some m) \<and>
    (\<forall>k. locks s k \<noteq> None \<longrightarrow> (\<exists>t \<in> set (tasks s). k \<in> fst ` set (task_refs t) \<or> phase t = Evicting k)) \<and>
    ((\<forall>t \<in> set (tasks s). phase t = Done) \<longrightarrow> locks s = Map.empty)"
proof -
  note inv = reachable_inv [OF assms]
  show ?thesis
    using lock_invD(4) [OF inv] lock_invD(6) [OF inv] done_is_empty(1) [OF inv]
    by (auto simp: kept_alive_def)
qed

lemma work_update:
  assumes "i < length (tasks s)" "tasks s' = (tasks s)[i := t']" "task_work t' < task_work (tasks s ! i)"
  shows "total_work s' < total_work s"
  using sum_list_map_update [OF assms(1), of task_work t'] assms(2,3) by (simp add: total_work_def)

lemma step_works:
  assumes "lock_step s s'"
  shows "total_work s' < total_work s"
  using assms
proof cases
  case (own_step i f)
  have "tasks s' = (tasks s)[i := tasks s' ! i] \<and> task_work (tasks s' ! i) < task_work (tasks s ! i)"
    using own_step
    by (auto simp: lock_ops_def lock_enter_def lock_acquire_def guard_drop_def guard_release_def lock_evict_def
        entry_mutex_def evict_if_unreferenced_def lock_eqs task_work_def
        split: phase.splits list.splits option.splits if_splits prod.splits)
  with own_step(1) work_update show ?thesis by blast
next
  case (cancel_step i)
  then have "tasks s' = (tasks s)[i := tasks s' ! i] \<and> task_work (tasks s' ! i) < task_work (tasks s ! i)"
    by (auto simp: lock_cancel_def lock_eqs task_work_def split: phase.splits list.splits)
  with cancel_step(1) work_update show ?thesis by blast
qed


lemma holder_of_locked:
  assumes inv: "lock_inv s" and "locks s k = Some m" and "locked s m"
  obtains j where "j < length (tasks s)" "(k, m) \<in> set (held (tasks s ! j))"
proof -
  have "holders m s \<noteq> 0" using lock_invD(5) [OF inv, of m] assms(3) by simp
  then obtain t where t: "t \<in> set (tasks s)" "hold_cnt t m \<noteq> 0" unfolding holders_def by auto
  then obtain k' where k': "(k', m) \<in> set (held t)" by (auto simp: count_list_0_iff)
  have "locks s k' = Some m" using lock_invD(4) [OF inv t(1)] k' by (simp add: task_refs_def)
  then have "k' = k" using assms(2) lock_invD(3) [OF inv] by (metis domI inj_onD)
  with t(1) k' that show thesis by (metis in_set_conv_nth)
qed

lemma can_stepI: "i < length (tasks s) \<Longrightarrow> f \<in> set lock_ops \<Longrightarrow> f i s \<noteq> None \<Longrightarrow> can_step s"
  by (force simp: can_step_def list_ex_iff)

lemma stuck_phases:
  assumes inv: "lock_inv s" and stuck: "\<not> can_step s" and i: "i < length (tasks s)"
  shows "phase (tasks s ! i) = Done \<or>
    (\<exists>m k ks. phase (tasks s ! i) = Waiting m \<and> todo (tasks s ! i) = k # ks \<and> locks s k = Some m \<and> locked s m)"
proof -
  let ?t = "tasks s ! i"
  have t: "?t \<in> set (tasks s)" using i by simp
  have none: "f i s = None" if "f \<in> set lock_ops" for f using can_stepI [OF i that] stuck by blast
  have ops: "lock_enter i s = None" "lock_acquire i s = None" "guard_drop i s = None" "guard_release i s = None"
    "lock_evict i s = None" by (rule none, simp add: lock_ops_def)+
  have "task_ok ?t" using lock_invD(7) [OF inv t] .
  moreover have "locks s (hd (todo ?t)) = Some m" if "phase ?t = Waiting m" for m
    using lock_invD(4) [OF inv t] that by (simp add: ref_eqs)
  ultimately show ?thesis using ops
    by (cases "phase ?t"; cases "todo ?t"; cases "held ?t")
      (auto simp: task_ok_def lock_enter_def lock_acquire_def guard_drop_def guard_release_def lock_evict_def Let_def
        split: prod.splits if_splits)
qed

lemma no_deadlock:
  assumes inv: "lock_inv s" and stuck: "\<not> can_step s"
  shows "\<forall>t \<in> set (tasks s). phase t = Done"
proof (rule ccontr)
  let ?W = "{hd (todo (tasks s ! i)) | i m. i < length (tasks s) \<and> phase (tasks s ! i) = Waiting m}"
  assume "\<not> ?thesis"
  then obtain i where "i < length (tasks s)" "phase (tasks s ! i) \<noteq> Done" by (metis in_set_conv_nth)
  with stuck_phases [OF inv stuck] have "?W \<noteq> {}" by blast
  moreover have "finite ?W" by simp
  ultimately have "Max ?W \<in> ?W" by (rule Max_in [rotated])
  then obtain i m k ks where i: "i < length (tasks s)" "phase (tasks s ! i) = Waiting m" and k: "k = Max ?W"
    and td: "todo (tasks s ! i) = k # ks" and l: "locks s k = Some m" "locked s m"
    using stuck_phases [OF inv stuck] by fastforce
  obtain j where j: "j < length (tasks s)" "(k, m) \<in> set (held (tasks s ! j))"
    using l by (rule holder_of_locked [OF inv])
  have ok: "task_ok (tasks s ! j)" using lock_invD(7) [OF inv] j(1) by simp
  with j(2) have "phase (tasks s ! j) \<noteq> Done" by (auto simp: task_ok_def)
  with stuck_phases [OF inv stuck j(1)] obtain m' k' ks' where w: "phase (tasks s ! j) = Waiting m'"
    "todo (tasks s ! j) = k' # ks'" by blast
  have "k < k'" using ok j(2) w(2) by (force simp: task_ok_def sorted_wrt_append)
  moreover have "k' \<in> ?W" using j(1) w by force
  then have "k' \<le> Max ?W" by (rule Max_ge [OF \<open>finite ?W\<close>])
  ultimately show False using k by simp
qed


lemma reachable_steps: "lock_step\<^sup>*\<^sup>* s s' \<Longrightarrow> reachable s \<Longrightarrow> reachable s'"
  by (induction rule: rtranclp_induct) (auto intro: reach_step)

lemma can_step_iff: "can_step s \<Longrightarrow> \<exists>s'. lock_step s s'"
  unfolding can_step_def list_ex_iff using own_step by force

text \<open>
  C26. No deadlock: as long as a call is not over, some task can take its next step without any call being
  cancelled, however many paths the calls take and in whatever order they name them. Every step brings
  its call closer to the end, so once no new calls arrive the registry drains.
\<close>

theorem write_locks_drain:
  assumes "reachable s"
  shows "(can_step s \<or> (\<forall>t \<in> set (tasks s). phase t = Done) \<and> locks s = Map.empty) \<and>
    \<not> (\<exists>run. run 0 = s \<and> (\<forall>n. lock_step (run n) (run (Suc n))))"
proof
  note inv = reachable_inv [OF assms]
  show "can_step s \<or> (\<forall>t \<in> set (tasks s). phase t = Done) \<and> locks s = Map.empty"
    using no_deadlock [OF inv] done_is_empty [OF inv] by blast
  have "\<not> (\<forall>n. total_work (run (Suc n)) < total_work (run n))" for run :: "nat \<Rightarrow> registry"
    using wf_no_infinite_down_chainE [OF wf_measure [of total_work]] by (metis in_measure)
  then show "\<not> (\<exists>run. run 0 = s \<and> (\<forall>n. lock_step (run n) (run (Suc n))))"
    using step_works by blast
qed

section \<open>A concrete run\<close>

text \<open>Two calls on the path a: the first has it and goes on to b, the second waits.\<close>

lemma attempt_reachable: "reachable s \<Longrightarrow> f \<in> set lock_ops \<Longrightarrow> reachable (attempt i f s)"
  by (auto simp: attempt_def intro: reach_step own_step split: option.split)

lemma two_writers_reachable: "reachable two_writers"
proof -
  obtain s where s: "lock_all_start [''b'', ''a'', ''b''] registry_new = Some s"
    by (simp add: lock_all_start_def lock_order_def split: list.split)
  obtain s' where s': "lock_all_start [''a''] s = Some s'"
    by (simp add: lock_all_start_def lock_order_def split: list.split)
  have "reachable s'" using s s' by (blast intro: reach_new reach_start)
  then show ?thesis
    unfolding two_writers_def s s' option.sel by (intro attempt_reachable) (simp_all add: lock_ops_def)
qed

lemma two_writers_state:
  "map held (tasks two_writers) = [[(''a'', 0)], []] \<and> map phase (tasks two_writers) = [Taking, Waiting 0]"
  by code_simp

lemma two_writers_tasks:
  "length (tasks two_writers) = 2" "held (tasks two_writers ! 0) = [(''a'', 0)]"
  "phase (tasks two_writers ! 0) = Taking"
  using two_writers_state by (auto simp: map_eq_Cons_conv)

theorem writers_exclude_each_other_witness:
  "(''a'', 0) \<in> set (held (tasks two_writers ! 0)) \<and> distinct (map fst (held (tasks two_writers ! 0)))"
  using writers_exclude_each_other [OF two_writers_reachable, of 0 0 "''a''" 0 0]
  by (simp add: two_writers_tasks)

theorem entries_live_as_long_as_their_calls_witness:
  "locks two_writers ''a'' = Some 0 \<and>
   (\<exists>t \<in> set (tasks two_writers). ''a'' \<in> fst ` set (task_refs t) \<or> phase t = Evicting ''a'')"
proof -
  note th = entries_live_as_long_as_their_calls [OF two_writers_reachable]
  have "tasks two_writers ! 0 \<in> set (tasks two_writers)" by (simp add: two_writers_tasks)
  moreover have "(''a'', 0) \<in> set (task_refs (tasks two_writers ! 0))" by (simp add: task_refs_def two_writers_tasks)
  ultimately have "locks two_writers ''a'' = Some 0" using th by blast
  with th show ?thesis by blast
qed

theorem write_locks_drain_witness:
  "can_step two_writers \<and> \<not> (\<exists>run. run 0 = two_writers \<and> (\<forall>n. lock_step (run n) (run (Suc n))))"
proof -
  have "tasks two_writers ! 0 \<in> set (tasks two_writers)" "phase (tasks two_writers ! 0) \<noteq> Done"
    by (simp_all add: two_writers_tasks)
  then show ?thesis using write_locks_drain [OF two_writers_reachable] by blast
qed

end
