(* ===== verification/Session_Lines.thy ===== *)
theory Session_Lines
  imports Rust_Std
begin

text \<open>
  Reading a session log line by line, \<^verbatim>\<open>agent/src/session_store/lines.rs\<close>: the loop over what the buffered
  reader hands out, in whatever chunks, within a byte budget and with a cap on what is kept of a
  line. Proved: whatever the chunks, the loop reads exactly the next line of the bytes.
\<close>

definition newline :: char where "newline = CHR 0x0A"

definition MAX_LINE_BYTES :: nat where "MAX_LINE_BYTES = 64 * 1024 * 1024"

record line_read =
  oversized :: bool
  terminated :: bool
  consumed :: nat

text \<open>
  A buffered reader: the chunks it will hand out, where \<open>None\<close> is a failing read and an empty
  chunk, or no chunk, is the end. Consuming takes bytes off the first chunk.
\<close>

type_synonym reader = "string option list"

definition consume_bytes :: "nat \<Rightarrow> string \<Rightarrow> reader \<Rightarrow> reader" where
  "consume_bytes n chunk rest = (if n < length chunk then Some (drop n chunk) # rest else rest)"

definition in_budget :: "nat option \<Rightarrow> string \<Rightarrow> string" where
  "in_budget limit s = (case limit of None \<Rightarrow> s | Some rem \<Rightarrow> take rem s)"

definition spend :: "nat \<Rightarrow> nat option \<Rightarrow> nat option" where
  "spend n limit = map_option (\<lambda>rem. rem - n) limit"

text \<open>
  The loop: \<open>None\<close> is an I/O error; otherwise what is left of the reader, the bytes kept of the line,
  what is left of the budget, and what was read, if anything was.
\<close>

function read_loop :: "reader \<Rightarrow> nat option \<Rightarrow> string \<Rightarrow> nat \<Rightarrow> nat \<Rightarrow> bool
    \<Rightarrow> (reader \<times> string \<times> nat option \<times> line_read option) option" where
  "read_loop cs limit buf tot consumed_total saw_any_byte =
     (let stop = Some (cs, buf, limit,
            if saw_any_byte then Some \<lparr>oversized = MAX_LINE_BYTES < tot, terminated = False, consumed = consumed_total\<rparr>
            else None)
      in if limit = Some 0 then stop
      else case cs of
        [] \<Rightarrow> stop
      | None # _ \<Rightarrow> None
      | Some [] # _ \<Rightarrow> stop
      | Some (c # chunk) # rest \<Rightarrow>
          (let available = in_budget limit (c # chunk);
               line = takeWhile (\<lambda>b. b \<noteq> newline) available;
               buf' = buf @ take (MAX_LINE_BYTES - length buf) line;
               tot' = tot + length line
           in if length line < length available then
                (let n = length line + 1 in
                 Some (consume_bytes n (c # chunk) rest, buf', spend n limit,
                   Some \<lparr>oversized = MAX_LINE_BYTES < tot', terminated = True, consumed = consumed_total + n\<rparr>))
              else
                (let n = length line in
                 read_loop (consume_bytes n (c # chunk) rest) (spend n limit) buf' tot' (consumed_total + n) True)))"
  by pat_completeness auto
termination
proof (relation "measure (\<lambda>(cs, limit, _). length cs + (if limit = Some 0 then 0 else 1))", goal_cases)
  case (2 cs limit buf tot consumed_total saw st a rest chunk0 c chunk available line buf' tot' n)
  have n: "n = length (in_budget limit (c # chunk))" using 2 by (metis length_takeWhile_le order_antisym_conv linorder_not_less)
  show ?case
  proof (cases "n < length (c # chunk)")
    case True
    with n obtain rem where "limit = Some rem" "n = rem" by (cases limit) (auto simp: in_budget_def split: if_splits)
    with 2 True show ?thesis by (simp add: consume_bytes_def spend_def)
  next
    case False
    with 2 show ?thesis by (simp add: consume_bytes_def)
  qed
qed simp

declare read_loop.simps [simp del]

definition read_capped_line_limited ::
  "reader \<Rightarrow> nat option \<Rightarrow> (reader \<times> string \<times> nat option \<times> line_read option) option" where
  "read_capped_line_limited cs limit = read_loop cs limit [] 0 0 False"

definition read_capped_line :: "reader \<Rightarrow> (reader \<times> string \<times> bool option) option" where
  "read_capped_line cs =
     map_option (\<lambda>(cs, buf, _, read). (cs, buf, map_option oversized read)) (read_capped_line_limited cs None)"

section \<open>The next line of the bytes\<close>

definition line_of :: "string \<Rightarrow> string" where "line_of s = takeWhile (\<lambda>b. b \<noteq> newline) s"

definition line_end :: "string \<Rightarrow> nat" where
  "line_end s = (if length (line_of s) < length s then length (line_of s) + 1 else length s)"

definition next_read :: "string \<Rightarrow> line_read" where
  "next_read s = \<lparr>oversized = MAX_LINE_BYTES < length (line_of s), terminated = length (line_of s) < length s,
     consumed = line_end s\<rparr>"

text \<open>What the loop is to return, when it has read \<open>pre\<close> of a line and \<open>s\<close> is still before it.\<close>

definition loop_result :: "string \<Rightarrow> bool \<Rightarrow> string \<Rightarrow> nat option \<Rightarrow> string list
    \<Rightarrow> (reader \<times> string \<times> nat option \<times> line_read option) option" where
  "loop_result pre saw s limit rest =
     Some (map Some rest, take MAX_LINE_BYTES (pre @ line_of s), spend (line_end s) limit,
       if saw \<or> s \<noteq> [] then
         Some \<lparr>oversized = MAX_LINE_BYTES < length (pre @ line_of s), terminated = newline \<in> set s,
               consumed = length pre + line_end s\<rparr>
       else None)"

text \<open>All lines of a range that end in it, and what is left after the last of them.\<close>

fun raw_lines :: "string \<Rightarrow> string \<Rightarrow> string list" where
  "raw_lines cur [] = []"
| "raw_lines cur (c # s) = (if c = newline then cur # raw_lines [] s else raw_lines (cur @ [c]) s)"

fun line_tail :: "string \<Rightarrow> string \<Rightarrow> string" where
  "line_tail cur [] = cur"
| "line_tail cur (c # s) = line_tail (if c = newline then [] else cur @ [c]) s"

definition unlines :: "string list \<Rightarrow> string" where
  "unlines ls = concat (map (\<lambda>l. l @ [newline]) ls)"

section \<open>The loop reads the next line\<close>

lemma line_of_append:
  "line_of (s @ t) = (if newline \<in> set s then line_of s else s @ line_of t)"
  by (auto simp: line_of_def takeWhile_append)

lemma line_of_less: "length (line_of s) < length s \<longleftrightarrow> newline \<in> set s"
  unfolding line_of_def by (metis (full_types) length_takeWhile_le linorder_not_less order_le_less set_takeWhileD takeWhile_eq_all_conv
      takeWhile_eq_take take_all_iff nth_length_takeWhile)

lemma line_of_noteq: "newline \<notin> set s \<Longrightarrow> line_of s = s"
  by (auto simp: line_of_def takeWhile_eq_all_conv)

lemma in_budget_append: "in_budget limit (s @ t) = in_budget limit s @ in_budget (spend (length s) limit) t"
  by (auto simp: in_budget_def spend_def split: option.split)

lemma in_budget_empty: "in_budget (Some 0) s = []" by (simp add: in_budget_def)

lemma line_end_append:
  "line_end (s @ t) = (if newline \<in> set s then line_end s else length s + line_end t)"
  using line_of_less [of s] line_of_less [of t] line_of_less [of "s @ t"]
  by (auto simp: line_end_def line_of_append)

lemma line_end_le: "line_end s \<le> length s"
  using line_of_less [of s] by (auto simp: line_end_def)

lemma spend_spend: "spend n (spend m limit) = spend (m + n) limit"
  by (cases limit) (auto simp: spend_def)

lemma loop_result_Nil: "loop_result pre saw [] limit rest =
    Some (map Some rest, take MAX_LINE_BYTES pre, limit,
      if saw then Some \<lparr>oversized = MAX_LINE_BYTES < length pre, terminated = False, consumed = length pre\<rparr> else None)"
  by (auto simp: loop_result_def line_of_def line_end_def spend_def option.map_ident)

lemma in_budget_Nil [simp]: "in_budget limit [] = []"
  by (simp add: in_budget_def split: option.split)

lemma in_budget_prefix: "length (in_budget limit s) \<le> length s"
  by (simp add: in_budget_def split: option.split)

lemma in_budget_short: "length (in_budget limit s) < length s \<Longrightarrow> limit = Some (length (in_budget limit s))"
  by (auto simp: in_budget_def split: option.splits if_splits)

lemma in_budget_full: "\<not> length (in_budget limit s) < length s \<Longrightarrow> in_budget limit s = s"
  by (auto simp: in_budget_def split: option.splits)

lemma take_append_cap: "take m p @ take (m - length (take m p)) q = take m (p @ q)"
  by (simp add: min_def)

lemma read_loop_chunk:
  assumes "chunk \<noteq> []" and "limit \<noteq> Some 0"
  shows "read_loop (Some chunk # cs) limit buf tot n saw =
    (let av = in_budget limit chunk; line = line_of av; buf' = buf @ take (MAX_LINE_BYTES - length buf) line in
     if newline \<in> set av then
       Some (consume_bytes (length line + 1) chunk cs, buf', spend (length line + 1) limit,
         Some \<lparr>oversized = MAX_LINE_BYTES < tot + length line, terminated = True, consumed = n + (length line + 1)\<rparr>)
     else
       read_loop (consume_bytes (length line) chunk cs) (spend (length line) limit) buf' (tot + length line)
         (n + length line) True)"
proof -
  obtain c ck where ck: "chunk = c # ck" using assms(1) by (cases chunk) auto
  show ?thesis
    using assms(2) line_of_less [of "in_budget limit (c # ck)"]
    unfolding ck by (subst read_loop.simps) (simp add: Let_def line_of_def)
qed

lemma read_loop_chunks:
  assumes "[] \<notin> set chunks" and "newline \<notin> set pre"
  shows "\<exists>rest. [] \<notin> set rest \<and> concat rest = drop (line_end (in_budget limit (concat chunks))) (concat chunks) \<and>
    read_loop (map Some chunks) limit (take MAX_LINE_BYTES pre) (length pre) (length pre) saw =
      loop_result pre saw (in_budget limit (concat chunks)) limit rest"
  using assms
proof (induction chunks arbitrary: limit pre saw)
  case Nil
  then show ?case by (subst read_loop.simps) (auto simp: loop_result_Nil Let_def)
next
  case (Cons chunk chunks)
  show ?case
  proof (cases "limit = Some 0")
    case True
    then show ?thesis
      using Cons.prems
      by (subst read_loop.simps) (auto simp: in_budget_empty loop_result_Nil Let_def line_end_def intro!: exI [of _ "chunk # chunks"])
  next
    case False
    have cne: "chunk \<noteq> []" using Cons.prems by auto
    let ?av = "in_budget limit chunk" and ?rest = "spend (length chunk) limit"
    have ne: "?av \<noteq> []" using False cne by (auto simp: in_budget_def split: option.split)
    have whole: "in_budget limit (concat (chunk # chunks)) = ?av @ in_budget ?rest (concat chunks)"
      by (simp add: in_budget_append)
    show ?thesis
    proof (cases "newline \<in> set ?av")
      case True
      let ?n = "length (line_of ?av) + 1"
      have n: "line_end (?av @ t) = ?n" for t using True line_of_less [of ?av] line_end_append [of ?av t] by (simp add: line_end_def [of ?av])
      have le: "?n \<le> length chunk" using True line_of_less [of ?av] in_budget_prefix [of limit chunk] by simp
      let ?r = "if ?n < length chunk then drop ?n chunk # chunks else chunks"
      show ?thesis
      proof (intro exI [of _ ?r] conjI)
        show "[] \<notin> set ?r" using Cons.prems by auto
        show "concat ?r = drop (line_end (in_budget limit (concat (chunk # chunks)))) (concat (chunk # chunks))"
          unfolding whole n using le by auto
        show "read_loop (map Some (chunk # chunks)) limit (take MAX_LINE_BYTES pre) (length pre) (length pre) saw =
            loop_result pre saw (in_budget limit (concat (chunk # chunks))) limit ?r"
          unfolding whole loop_result_def n list.map read_loop_chunk [OF cne False] Let_def
          using True ne take_append_cap [of MAX_LINE_BYTES pre "line_of ?av"]
          by (simp add: line_of_append consume_bytes_def del: length_take)
      qed
    next
      case nonl: False
      then have lo: "line_of ?av = ?av" by (rule line_of_noteq)
      let ?n = "length ?av" and ?pre = "pre @ ?av"
      have pre: "newline \<notin> set ?pre" using Cons.prems nonl by simp
      have step: "read_loop (map Some (chunk # chunks)) limit (take MAX_LINE_BYTES pre) (length pre) (length pre) saw =
          read_loop (consume_bytes ?n chunk (map Some chunks)) (spend ?n limit) (take MAX_LINE_BYTES ?pre)
            (length ?pre) (length ?pre) True"
        unfolding list.map read_loop_chunk [OF cne False] Let_def
        using nonl lo take_append_cap [of MAX_LINE_BYTES pre ?av] by (simp del: length_take)
      show ?thesis
      proof (cases "?n < length chunk")
        case True
        then have lim: "limit = Some ?n" by (rule in_budget_short)
        have z: "spend ?n limit = Some 0" "spend (length chunk) limit = Some 0"
          using True by (subst lim, simp add: spend_def)+
        have "read_loop (consume_bytes ?n chunk (map Some chunks)) (spend ?n limit) (take MAX_LINE_BYTES ?pre)
            (length ?pre) (length ?pre) True = loop_result ?pre True [] (Some 0) (drop ?n chunk # chunks)"
          unfolding z by (subst read_loop.simps) (simp add: loop_result_Nil consume_bytes_def True)
        also have "\<dots> = loop_result pre saw ?av limit (drop ?n chunk # chunks)"
          unfolding loop_result_Nil using ne nonl z(1) lo by (simp add: loop_result_def line_end_def)
        finally show ?thesis
          using Cons.prems True lo unfolding step whole
          by (intro exI [of _ "drop ?n chunk # chunks"]) (auto simp: z in_budget_empty line_end_def)
      next
        case full: False
        then have av: "?av = chunk" by (rule in_budget_full)
        let ?s = "in_budget ?rest (concat chunks)"
        from Cons.IH [OF _ pre, of ?rest True] Cons.prems obtain rest where
          r: "[] \<notin> set rest" "concat rest = drop (line_end ?s) (concat chunks)"
          "read_loop (map Some chunks) ?rest (take MAX_LINE_BYTES ?pre) (length ?pre) (length ?pre) True =
            loop_result ?pre True ?s ?rest rest" by auto
        have "loop_result ?pre True ?s ?rest rest = loop_result pre saw (?av @ ?s) limit rest"
          using nonl ne by (simp add: loop_result_def line_of_append line_end_append spend_spend av ac_simps)
        with r nonl show ?thesis
          unfolding step whole
          by (intro exI [of _ rest]) (simp add: consume_bytes_def av line_end_append)
      qed
    qed
  qed
qed

text \<open>
  C39. The reader's chunks do not matter: the loop reads the next line of the bytes within the budget, keeps
  its first 64 MiB, says whether it was longer and whether its newline was there, and leaves the
  reader and the budget right after it.
\<close>

theorem chunks_do_not_matter:
  assumes "[] \<notin> set chunks" and "s = in_budget limit (concat chunks)"
  shows "\<exists>rest. read_capped_line_limited (map Some chunks) limit =
      Some (map Some rest, take MAX_LINE_BYTES (line_of s), spend (line_end s) limit,
        if s = [] then None else Some (next_read s)) \<and>
    concat rest = drop (line_end s) (concat chunks)"
  using read_loop_chunks [OF assms(1), of "[]" limit False] assms(2) line_of_less [of s]
  by (auto simp: read_capped_line_limited_def loop_result_def next_read_def)


section \<open>Lines of concatenated ranges\<close>

lemma raw_lines_append: "raw_lines cur (s @ t) = raw_lines cur s @ raw_lines (line_tail cur s) t"
  by (induction cur s rule: raw_lines.induct) auto

lemma line_tail_append: "line_tail cur (s @ t) = line_tail (line_tail cur s) t"
  by (induction cur s rule: raw_lines.induct) auto

lemma raw_lines_clean: "newline \<notin> set l \<Longrightarrow> raw_lines cur l = [] \<and> line_tail cur l = cur @ l"
  by (induction l arbitrary: cur) auto

lemma raw_lines_line:
  assumes "newline \<notin> set l"
  shows "raw_lines cur (l @ newline # s) = (cur @ l) # raw_lines [] s"
    and "line_tail cur (l @ newline # s) = line_tail [] s"
  using raw_lines_clean [OF assms, of cur]
  by (simp_all add: raw_lines_append line_tail_append)

lemma raw_lines_unlines:
  assumes "\<forall>l \<in> set ls. newline \<notin> set l"
  shows "raw_lines [] (unlines ls @ s) = ls @ raw_lines [] s" and "line_tail [] (unlines ls @ s) = line_tail [] s"
  using assms by (induction ls) (auto simp: unlines_def raw_lines_line)

lemma raw_lines_decomp:
  "newline \<in> set s \<Longrightarrow> raw_lines [] s = line_of s # raw_lines [] (drop (line_end s) s)"
  "newline \<notin> set s \<Longrightarrow> raw_lines [] s = []"
proof -
  assume nl: "newline \<in> set s"
  then obtain l t where s: "s = l @ newline # t" and l: "newline \<notin> set l" by (meson split_list_first)
  then have lo: "line_of s = l" by (simp add: line_of_append) (simp add: line_of_def)
  moreover have "line_end s = Suc (length l)" by (simp add: line_end_def lo) (simp add: s)
  ultimately show "raw_lines [] s = line_of s # raw_lines [] (drop (line_end s) s)" using l by (simp add: s raw_lines_line)
next
  assume "newline \<notin> set s"
  then show "raw_lines [] s = []" by (simp add: raw_lines_clean)
qed

lemma raw_lines_clean_set: "l \<in> set (raw_lines cur s) \<Longrightarrow> newline \<notin> set cur \<Longrightarrow> newline \<notin> set l"
  by (induction cur s rule: raw_lines.induct) (auto split: if_splits)

section \<open>A concrete read\<close>

theorem chunks_do_not_matter_witness:
  "\<exists>rest. read_capped_line_limited (map Some [''ab'', [CHR ''c'', newline, CHR ''d'']]) (Some 9) =
      Some (map Some rest, ''abc'', Some 5, Some \<lparr>oversized = False, terminated = True, consumed = length ''abc'' + 1\<rparr>) \<and>
    concat rest = ''d''"
proof -
  have "\<exists>rest. read_capped_line_limited (map Some [''ab'', [CHR ''c'', newline, CHR ''d'']]) (Some 9) =
      Some (map Some rest, take MAX_LINE_BYTES (line_of (''abc'' @ [newline, CHR ''d''])),
        spend (line_end (''abc'' @ [newline, CHR ''d''])) (Some 9),
        if ''abc'' @ [newline, CHR ''d''] = [] then None else Some (next_read (''abc'' @ [newline, CHR ''d'']))) \<and>
      concat rest = drop (line_end (''abc'' @ [newline, CHR ''d''])) (concat [''ab'', [CHR ''c'', newline, CHR ''d'']])"
    by (rule chunks_do_not_matter) (simp_all add: in_budget_def)
  moreover have "line_of (''abc'' @ [newline, CHR ''d'']) = ''abc''" by (simp add: line_of_def newline_def)
  ultimately show ?thesis by (simp add: line_end_def next_read_def spend_def MAX_LINE_BYTES_def)
qed

end
