(* ===== verification/Segment_Log.thy ===== *)
theory Segment_Log
  imports Session_Lines BTree_Map "HOL-Library.Sublist"
begin

text \<open>
  The segmented session log, \<^verbatim>\<open>agent/src/session_store/segment.rs\<close>, \<^verbatim>\<open>log.rs\<close> and \<^verbatim>\<open>log_read.rs\<close>: a session is
  a directory of epoch segments on storage shared by several processes, and whoever creates the next
  epoch owns the session. A segment is its bytes; a store is what one process remembers of the log.
  Every write takes, as an argument, how it fails and after how many bytes, so a run covers torn
  headers, torn bases, torn and unsynced appends, crashes and takeovers at every point between two
  operations. One operation is one step.

  The JSON of a segment's header is a parameter with the law that it reads back. Lines are not sealed
  under a tenant codec here.
\<close>

section \<open>Segment names\<close>

definition segment_name :: "nat \<Rightarrow> string" where
  "segment_name epoch = (let digits = show_nat epoch in replicate (6 - length digits) (CHR ''0'') @ digits @ ''.jsonl'')"

definition segment_epoch :: "string \<Rightarrow> nat option" where
  "segment_epoch name =
     (case strip_suffix ''.jsonl'' name of
        None \<Rightarrow> None
      | Some digits \<Rightarrow>
          (if 6 \<le> length digits \<and> list_all is_ascii_digit digits
           then parse_uint U64_MAX digits else None))"

section \<open>Headers\<close>

definition CONSOLIDATION_K :: nat where "CONSOLIDATION_K = 8"

definition BASE_TRAILER :: string where
  "BASE_TRAILER = ''{'' @ [CHR 0x22] @ ''type'' @ [CHR 0x22] @ '':'' @ [CHR 0x22] @ ''base_complete'' @ [CHR 0x22] @ ''}''"

record seg_header =
  h_epoch :: nat
  h_sealed :: "(string, nat) btree"
  h_base :: bool

record header_codec =
  to_vec :: "seg_header \<Rightarrow> string"
  from_slice :: "string \<Rightarrow> seg_header option"

definition header_seals :: "seg_header \<Rightarrow> (nat, nat) btree" where
  "header_seals h =
     fold (\<lambda>(k, v) m. case parse_uint U64_MAX k of Some n \<Rightarrow> bt_insert n v m | None \<Rightarrow> m) (h_sealed h) []"

definition mk_header :: "nat \<Rightarrow> (nat, nat) btree \<Rightarrow> bool \<Rightarrow> seg_header" where
  "mk_header epoch seals is_base =
     \<lparr>h_epoch = epoch, h_sealed = fold (\<lambda>(k, v) m. bt_insert (show_nat k) v m) seals [], h_base = is_base\<rparr>"

definition header_line :: "header_codec \<Rightarrow> nat \<Rightarrow> (nat, nat) btree \<Rightarrow> bool \<Rightarrow> string" where
  "header_line cd epoch seals is_base = to_vec cd (mk_header epoch seals is_base) @ [newline]"

section \<open>Reading\<close>

type_synonym dir = "(nat, string) btree"

definition read_segment_header :: "header_codec \<Rightarrow> string \<Rightarrow> (seg_header \<times> nat) option" where
  "read_segment_header cd content =
     (if content = [] then None
      else
        let rd = next_read content in
        if oversized rd \<or> \<not> terminated rd then None
        else map_option (\<lambda>h. (h, consumed rd)) (from_slice cd (line_of content)))"

definition byte_range :: "nat \<Rightarrow> nat \<Rightarrow> string \<Rightarrow> string" where
  "byte_range a b content = take (b - a) (drop a content)"

definition segment_has_trailer :: "string \<Rightarrow> nat \<Rightarrow> nat \<Rightarrow> bool" where
  "segment_has_trailer content a b \<longleftrightarrow> BASE_TRAILER \<in> set (raw_lines [] (byte_range a b content))"

record opened =
  o_epoch :: nat
  o_content :: string
  o_header :: "seg_header option"
  o_header_len :: nat

definition open_segment :: "header_codec \<Rightarrow> nat \<times> string \<Rightarrow> opened" where
  "open_segment cd s =
     (case read_segment_header cd (snd s) of
        Some (h, n) \<Rightarrow> \<lparr>o_epoch = fst s, o_content = snd s, o_header = Some h, o_header_len = n\<rparr>
      | None \<Rightarrow> \<lparr>o_epoch = fst s, o_content = snd s, o_header = None, o_header_len = length (snd s)\<rparr>)"

definition extend_seals :: "(nat, nat) btree \<Rightarrow> (nat, nat) btree \<Rightarrow> (nat, nat) btree" where
  "extend_seals new m = fold (\<lambda>(k, v) m. bt_insert k v m) new m"

definition fold_seals :: "opened list \<Rightarrow> (nat, nat) btree" where
  "fold_seals os =
     fold (\<lambda>o1 m. case o_header o1 of Some h \<Rightarrow> extend_seals (header_seals h) m | None \<Rightarrow> m) os []"

definition seg_end :: "(nat \<Rightarrow> nat option) \<Rightarrow> opened \<Rightarrow> nat" where
  "seg_end seals o1 =
     min (case seals (o_epoch o1) of Some v \<Rightarrow> v | None \<Rightarrow> length (o_content o1)) (length (o_content o1))"

definition complete_base :: "(nat \<Rightarrow> nat option) \<Rightarrow> opened \<Rightarrow> bool" where
  "complete_base seals o1 \<longleftrightarrow>
     (case o_header o1 of
        None \<Rightarrow> False
      | Some h \<Rightarrow> h_base h \<and> segment_has_trailer (o_content o1) (o_header_len o1) (seg_end seals o1))"

definition find_base :: "(nat \<Rightarrow> nat option) \<Rightarrow> opened list \<Rightarrow> nat option" where
  "find_base seals os = map_option o_epoch (find (complete_base seals) (rev os))"

definition view_start :: "(nat \<Rightarrow> nat option) \<Rightarrow> opened list \<Rightarrow> nat" where
  "view_start seals os =
     (case find_base seals os of
        Some e \<Rightarrow> e
      | None \<Rightarrow> (case os of [] \<Rightarrow> 1 | o1 # _ \<Rightarrow> o_epoch o1))"

definition in_view :: "nat \<Rightarrow> opened \<Rightarrow> bool" where
  "in_view start o1 \<longleftrightarrow>
     start \<le> o_epoch o1 \<and>
     (case o_header o1 of None \<Rightarrow> False | Some h \<Rightarrow> \<not> (h_base h \<and> o_epoch o1 \<noteq> start))"

text \<open>The byte ranges the effective view reads, oldest segment first.\<close>

definition seg_range :: "(nat \<Rightarrow> nat option) \<Rightarrow> opened \<Rightarrow> string" where
  "seg_range seals o1 = byte_range (o_header_len o1) (seg_end seals o1) (o_content o1)"

definition view_ranges :: "(nat \<Rightarrow> nat option) \<Rightarrow> opened list \<Rightarrow> string list" where
  "view_ranges seals os =
     map (seg_range seals)
       (filter (\<lambda>o1. in_view (view_start seals os) o1 \<and> o_header_len o1 < seg_end seals o1) os)"

record seg_reader =
  rd_segs :: "string list"
  rd_newest :: nat
  rd_consumed :: nat
  rd_seals :: "(nat, nat) btree"
  rd_base :: "nat option"
  rd_since_base :: nat

definition try_open_reader :: "header_codec \<Rightarrow> dir \<Rightarrow> seg_reader option" where
  "try_open_reader cd d =
     (if d = [] then None
      else
        let os = map (open_segment cd) d;
            seals = bt_get (fold_seals os);
            start = view_start seals os
        in Some \<lparr>rd_segs = view_ranges seals os, rd_newest = fst (last d), rd_consumed = length (snd (last d)),
                 rd_seals = fold_seals (filter (\<lambda>o1. start < o_epoch o1) os), rd_base = find_base seals os,
                 rd_since_base = length (filter (\<lambda>o1. start < o_epoch o1) os)\<rparr>)"

text \<open>
  The next line of the view: an empty or torn range moves on to the next segment, the framing line of a
  base is skipped. The flag says that the line was too long and is not there.
\<close>

function seg_next_line :: "string list \<Rightarrow> (string list \<times> bool \<times> string) option" where
  "seg_next_line [] = None"
| "seg_next_line (r # rs) =
     (if r = [] then seg_next_line rs
      else
        let rd = next_read r; rest = drop (consumed rd) r in
        if \<not> terminated rd then seg_next_line rs
        else if oversized rd then Some (rest # rs, True, [])
        else if line_of r = BASE_TRAILER then seg_next_line (rest # rs)
        else Some (rest # rs, False, line_of r))"
  by pat_completeness auto
termination
  by (relation "measure (\<lambda>rs. length rs + sum_list (map length rs))") (auto simp: next_read_def line_end_def)

declare seg_next_line.simps(2) [simp del]

lemma seg_next_line_less:
  "seg_next_line rs = Some (rs', x) \<Longrightarrow>
     length rs' + sum_list (map length rs') < length rs + sum_list (map length rs)"
proof (induction rs rule: seg_next_line.induct)
  case (2 r rs)
  have "length (drop (consumed (next_read r)) r) < length r" if "r \<noteq> []" "terminated (next_read r)"
    using that by (simp add: next_read_def line_end_def)
  with 2(1-3) 2(4) [unfolded seg_next_line.simps(2) [of r rs]] show ?case
    by (force simp: Let_def split: if_splits)
qed simp

function seg_read_all :: "string list \<Rightarrow> (bool \<times> string) list" where
  "seg_read_all rs =
     (case seg_next_line rs of None \<Rightarrow> [] | Some (rs', line) \<Rightarrow> line # seg_read_all rs')"
  by pat_completeness auto
termination
  by (relation "measure (\<lambda>rs. length rs + sum_list (map length rs))") (auto dest: seg_next_line_less)

declare seg_read_all.simps [simp del]

section \<open>Writing\<close>

record seg_log =
  read_only :: bool
  newest :: nat
  consumed_len :: nat
  seals :: "(nat, nat) btree"
  base :: "nat option"
  since_base :: nat
  target :: "nat option"
  target_len :: nat
  force_roll :: bool
  superseded :: bool

datatype log_error = PermissionDenied | Superseded | AlreadyExists | NotFound | IoError

text \<open>How a step of a write ends: it fails before anything is there, after some bytes, or not at all.\<close>

datatype roll_io = RollOpenFails | RollTorn nat | RollDone
datatype write_io = WriteTorn nat | WriteDone
datatype base_io = BaseOpenFails | BaseTorn nat | BaseUnsynced | BaseDone "nat list"

record append_io =
  io_base :: base_io
  io_roll :: roll_io
  io_write :: write_io

definition append_sealed :: "string \<Rightarrow> string" where
  "append_sealed bytes = (if bytes \<noteq> [] \<and> last bytes \<noteq> newline then bytes @ [newline] else bytes)"

definition seg_create :: "header_codec \<Rightarrow> dir \<Rightarrow> string \<Rightarrow> (log_error + seg_log) \<times> dir" where
  "seg_create cd d first_line =
     (if d \<noteq> [] then (Inl AlreadyExists, d)
      else
        let buf = header_line cd 1 [] True @ append_sealed first_line @ BASE_TRAILER @ [newline] in
        (Inr \<lparr>read_only = False, newest = 1, consumed_len = length buf, seals = [], base = Some 1,
              since_base = 0, target = Some 1, target_len = length buf, force_roll = False, superseded = False\<rparr>,
         [(1, buf)]))"

text \<open>Opening reads the view first and remembers how far it got.\<close>

definition seg_open :: "header_codec \<Rightarrow> dir \<Rightarrow> bool \<Rightarrow> log_error + seg_log" where
  "seg_open cd d ro =
     (case try_open_reader cd d of
        None \<Rightarrow> Inl NotFound
      | Some r \<Rightarrow> Inr \<lparr>read_only = ro, newest = rd_newest r, consumed_len = rd_consumed r, seals = rd_seals r,
          base = rd_base r, since_base = rd_since_base r, target = None, target_len = 0, force_roll = False,
          superseded = False\<rparr>)"

definition poison :: "seg_log \<Rightarrow> seg_log" where "poison s = s\<lparr>superseded := True\<rparr>"

definition stat_len :: "dir \<Rightarrow> nat \<Rightarrow> nat" where
  "stat_len d epoch = (case bt_get d epoch of Some c \<Rightarrow> length c | None \<Rightarrow> 0)"

text \<open>Whether the predecessor is still as this process read it.\<close>

definition fenced_out :: "seg_log \<Rightarrow> dir \<Rightarrow> bool" where
  "fenced_out s d \<longleftrightarrow> \<not> force_roll s \<and> stat_len d (newest s) \<noteq> consumed_len s"

definition ensure_target :: "header_codec \<Rightarrow> roll_io \<Rightarrow> seg_log \<Rightarrow> dir \<Rightarrow> (log_error + nat) \<times> seg_log \<times> dir" where
  "ensure_target cd io s d =
     (case target s of
        Some epoch \<Rightarrow> (Inr epoch, s, d)
      | None \<Rightarrow>
          if fenced_out s d then (Inl Superseded, poison s, d)
          else
            let s = s\<lparr>seals := bt_insert (newest s) (consumed_len s) (seals s)\<rparr>;
                epoch = newest s + 1
            in if bt_get d epoch \<noteq> None then (Inl Superseded, poison s, d)
            else
              let header = header_line cd epoch (seals s) False in
              case io of
                RollOpenFails \<Rightarrow> (Inl IoError, s, d)
              | RollTorn n \<Rightarrow>
                  (Inl IoError,
                   s\<lparr>newest := epoch, consumed_len := 0, force_roll := True, since_base := since_base s + 1\<rparr>,
                   bt_insert epoch (take n header) d)
              | RollDone \<Rightarrow>
                  (Inr epoch,
                   s\<lparr>target := Some epoch, target_len := length header, since_base := since_base s + 1,
                     force_roll := False\<rparr>,
                   bt_insert epoch header d))"

definition guard_not_superseded :: "seg_log \<Rightarrow> dir \<Rightarrow> (log_error + unit) \<times> seg_log" where
  "guard_not_superseded s d =
     (case target s of
        None \<Rightarrow> (Inr (), s)
      | Some epoch \<Rightarrow>
          if bt_get d (epoch + 1) \<noteq> None then (Inl Superseded, poison s) else (Inr (), s))"

text \<open>Segments older than the base a new base supersedes go, the first one never; a removal may fail.\<close>

definition prune :: "nat list \<Rightarrow> nat option \<Rightarrow> dir \<Rightarrow> dir" where
  "prune kept fl d =
     (case fl of
        None \<Rightarrow> d
      | Some f \<Rightarrow> filter (\<lambda>(e, _). \<not> (1 < e \<and> e < f) \<or> e \<in> set kept) d)"

definition write_base :: "header_codec \<Rightarrow> base_io \<Rightarrow> string \<Rightarrow> seg_log \<Rightarrow> dir \<Rightarrow> (log_error + unit) \<times> seg_log \<times> dir" where
  "write_base cd io content s d =
     (case (case target s of
              Some epoch \<Rightarrow> Some (epoch, target_len s)
            | None \<Rightarrow> if fenced_out s d then None else Some (newest s, consumed_len s)) of
        None \<Rightarrow> (Inl Superseded, poison s, d)
      | Some (pred, pred_len) \<Rightarrow>
          (let sl = bt_insert pred pred_len (seals s); epoch = pred + 1 in
           if bt_get d epoch \<noteq> None then (Inl Superseded, poison (s\<lparr>seals := sl\<rparr>), d)
           else
             let bytes = header_line cd epoch sl True @ content @ BASE_TRAILER @ [newline] in
             case io of
               BaseOpenFails \<Rightarrow> (Inl IoError, s\<lparr>seals := sl\<rparr>, d)
             | BaseTorn n \<Rightarrow>
                 (Inl IoError,
                  s\<lparr>seals := sl, target := None, newest := epoch, consumed_len := 0,
                    since_base := since_base s + 1, force_roll := True\<rparr>,
                  bt_insert epoch (take n bytes) d)
             | BaseUnsynced \<Rightarrow> (Inl IoError, s\<lparr>seals := []\<rparr>, bt_insert epoch bytes d)
             | BaseDone kept \<Rightarrow>
                 (Inr (),
                  s\<lparr>base := Some epoch, seals := [], target := Some epoch, target_len := length bytes,
                    newest := epoch, consumed_len := length bytes, since_base := 0, force_roll := False\<rparr>,
                  prune kept (base s) (bt_insert epoch bytes d))))"

text \<open>A byte copy of the view: the lines it has, without those too long to read.\<close>

definition view_bytes :: "(bool \<times> string) list \<Rightarrow> string" where
  "view_bytes ls = concat (map (\<lambda>(too_long, l). if too_long then [] else append_sealed l) ls)"

definition consolidate :: "header_codec \<Rightarrow> base_io \<Rightarrow> seg_log \<Rightarrow> dir \<Rightarrow> (log_error + unit) \<times> seg_log \<times> dir" where
  "consolidate cd io s d =
     (case try_open_reader cd d of
        None \<Rightarrow> (Inl NotFound, s, d)
      | Some r \<Rightarrow> write_base cd io (view_bytes (seg_read_all (rd_segs r))) s d)"

definition consolidation_due :: "seg_log \<Rightarrow> bool" where
  "consolidation_due s \<longleftrightarrow> CONSOLIDATION_K < since_base s"

text \<open>The append itself, to the segment the store has as its target.\<close>

definition append_to :: "write_io \<Rightarrow> string \<Rightarrow> nat \<Rightarrow> seg_log \<Rightarrow> dir \<Rightarrow> (log_error + unit) \<times> seg_log \<times> dir" where
  "append_to io buf epoch s d =
     (let good_len = target_len s;
          failed = s\<lparr>seals := bt_insert epoch good_len (seals s), newest := epoch, consumed_len := good_len,
                     force_roll := True, target := None\<rparr>
      in case bt_get d epoch of
        None \<Rightarrow> (Inl IoError, failed, d)
      | Some c \<Rightarrow>
          (case io of
             WriteTorn n \<Rightarrow> (Inl IoError, failed, bt_insert epoch (c @ take n buf) d)
           | WriteDone \<Rightarrow>
               (let s = s\<lparr>target_len := target_len s + length buf\<rparr>;
                    d = bt_insert epoch (c @ buf) d;
                    (res, s) = guard_not_superseded s d
                in (res, s, d))))"

definition seg_append :: "header_codec \<Rightarrow> append_io \<Rightarrow> string \<Rightarrow> seg_log \<Rightarrow> dir \<Rightarrow> (log_error + unit) \<times> seg_log \<times> dir" where
  "seg_append cd io bytes s d =
     (case (if consolidation_due s then consolidate cd (io_base io) s d else (Inr (), s, d)) of
        (Inl e, s, d) \<Rightarrow> (Inl e, s, d)
      | (Inr _, s, d) \<Rightarrow>
          (case ensure_target cd (io_roll io) s d of
             (Inl e, s, d) \<Rightarrow> (Inl e, s, d)
           | (Inr epoch, s, d) \<Rightarrow> append_to (io_write io) (append_sealed bytes) epoch s d))"

definition guard_writable :: "seg_log \<Rightarrow> log_error option" where
  "guard_writable s =
     (if read_only s then Some PermissionDenied
      else if superseded s then Some Superseded
      else None)"

definition log_append :: "header_codec \<Rightarrow> append_io \<Rightarrow> string \<Rightarrow> seg_log \<Rightarrow> dir \<Rightarrow> (log_error + unit) \<times> seg_log \<times> dir" where
  "log_append cd io bytes s d =
     (case guard_writable s of
        Some e \<Rightarrow> (Inl e, s, d)
      | None \<Rightarrow> seg_append cd io bytes s d)"

definition log_replace_all :: "header_codec \<Rightarrow> base_io \<Rightarrow> string \<Rightarrow> seg_log \<Rightarrow> dir \<Rightarrow> (log_error + unit) \<times> seg_log \<times> dir" where
  "log_replace_all cd io bytes s d =
     (case guard_writable s of
        Some e \<Rightarrow> (Inl e, s, d)
      | None \<Rightarrow> write_base cd io (append_sealed bytes) s d)"

section \<open>Names read back\<close>

lemma strip_suffix_append: "strip_suffix p (s @ p) = Some s"
  by (simp add: strip_suffix_def strip_prefix_append)

lemma parse_digits_zeros: "parse_digits mx (replicate n (CHR ''0'') @ s) 0 = parse_digits mx s 0"
  by (induction n) (auto simp: digit_val_def is_ascii_digit_def)

lemma segment_name_roundtrip:
  assumes "epoch \<le> U64_MAX"
  shows "segment_epoch (segment_name epoch) = Some epoch"
proof -
  let ?z = "replicate (6 - length (show_nat epoch)) (CHR ''0'')"
  have d: "list_all is_ascii_digit (?z @ show_nat epoch)" "?z @ show_nat epoch \<noteq> []"
    using canonical_show [of epoch] by (auto simp: canonical_decimal_def list_all_iff is_ascii_digit_def)
  have "segment_name epoch = (?z @ show_nat epoch) @ ''.jsonl''" by (simp add: segment_name_def Let_def)
  then have "strip_suffix ''.jsonl'' (segment_name epoch) = Some (?z @ show_nat epoch)" by (simp only: strip_suffix_append)
  moreover have "parse_uint U64_MAX (?z @ show_nat epoch) = Some epoch"
    using parse_uint_digits [OF d(2,1)] parse_digits_zeros parse_digits_show [OF assms] by simp
  ultimately show ?thesis using d(1) by (simp add: segment_epoch_def)
qed

end
