(* ===== verification/Segment_View.thy ===== *)
theory Segment_View
  imports Segment_Log
begin

text \<open>
  What a reader of a segmented log reads, as one function of the directory's bytes: the lines of the segments
  from the newest complete base on, each cut where the headers after it seal it. Proved here: the line-by-line
  reader reads exactly this view, and how the view changes when a segment is added or grows.
\<close>

definition range_lines :: "string \<Rightarrow> (bool \<times> string) list" where
  "range_lines r =
     map (\<lambda>l. if MAX_LINE_BYTES < length l then (True, []) else (False, l))
       (filter (\<lambda>l. l \<noteq> BASE_TRAILER) (raw_lines [] r))"

lemma trailer_short: "length BASE_TRAILER \<le> MAX_LINE_BYTES"
  by (simp add: BASE_TRAILER_def MAX_LINE_BYTES_def)

lemma range_lines_simps:
  "newline \<notin> set r \<Longrightarrow> range_lines r = []"
  "newline \<in> set r \<Longrightarrow> range_lines r =
     (if MAX_LINE_BYTES < length (line_of r) then [(True, [])]
      else if line_of r = BASE_TRAILER then [] else [(False, line_of r)]) @ range_lines (drop (line_end r) r)"
  using trailer_short by (auto simp: range_lines_def raw_lines_decomp)

lemma seg_next_line_ranges:
  "(seg_next_line rs = None \<longrightarrow> concat (map range_lines rs) = []) \<and>
   (\<forall>rs' line. seg_next_line rs = Some (rs', line) \<longrightarrow>
      concat (map range_lines rs) = line # concat (map range_lines rs'))"
proof (induction rs rule: seg_next_line.induct)
  case (2 r rs)
  show ?case
  proof (cases "newline \<in> set r")
    case False
    then have "seg_next_line (r # rs) = seg_next_line rs"
      using line_of_less [of r] by (auto simp: seg_next_line.simps(2) next_read_def Let_def)
    moreover have "range_lines r = []" using False by (simp add: range_lines_simps)
    ultimately show ?thesis using 2(1,2) False line_of_less [of r]
      by (cases "r = []") (simp_all add: next_read_def)
  next
    case True
    then have r: "r \<noteq> []" "terminated (next_read r)" "consumed (next_read r) = line_end r"
      "oversized (next_read r) \<longleftrightarrow> MAX_LINE_BYTES < length (line_of r)"
      using line_of_less [of r] by (auto simp: next_read_def)
    show ?thesis
    proof (cases "\<not> MAX_LINE_BYTES < length (line_of r) \<and> line_of r = BASE_TRAILER")
      case trailer: True
      then have "seg_next_line (r # rs) = seg_next_line (drop (line_end r) r # rs)"
        using r trailer_short by (simp add: seg_next_line.simps(2) [of r] Let_def)
      moreover have "range_lines r = range_lines (drop (line_end r) r)" using trailer True trailer_short by (simp add: range_lines_simps(2))
      ultimately show ?thesis using 2(3) [OF r(1) refl refl] r trailer trailer_short by simp
    next
      case other: False
      then show ?thesis
        using r True by (auto simp: seg_next_line.simps(2) [of r] Let_def range_lines_simps(2))
    qed
  qed
qed simp

lemma seg_read_all_ranges: "seg_read_all rs = concat (map range_lines rs)"
proof (induction rs rule: seg_read_all.induct)
  case (1 rs)
  then show ?case
    using seg_next_line_ranges [of rs] by (subst seg_read_all.simps) (auto split: option.splits prod.splits)
qed


section \<open>Seals\<close>

lemma bt_get_fold_insert: "bt_get (fold (\<lambda>(k, v) m. bt_insert k v m) kvs m) = bt_get m ++ map_of (rev kvs)"
  by (induction kvs arbitrary: m) (auto simp: fun_eq_iff map_add_def split: option.split)

lemma map_of_rev_distinct: "distinct (map fst kvs) \<Longrightarrow> map_of (rev kvs) = map_of kvs"
  by (rule map_of_inject_set [THEN iffD2]) (auto simp: rev_map [symmetric])

lemma bt_wf_fold_insert: "bt_wf m \<Longrightarrow> bt_wf (fold (\<lambda>(k, v) m. bt_insert k v m) kvs m)"
  by (induction kvs arbitrary: m) auto

lemma bt_get_extend: "bt_wf new \<Longrightarrow> bt_get (extend_seals new m) = bt_get m ++ bt_get new"
  by (simp add: extend_seals_def bt_get_fold_insert map_of_rev_distinct bt_wf_distinct)

lemma bt_wf_header_seals: "bt_wf (header_seals h)"
proof -
  have "bt_wf (fold (\<lambda>(k, v) m. case parse_uint U64_MAX k of Some n \<Rightarrow> bt_insert n v m | None \<Rightarrow> m) kvs m)"
    if "bt_wf m" for kvs m
    using that by (induction kvs arbitrary: m) (auto split: option.split)
  from this [of "[]" "h_sealed h"] show ?thesis by (simp add: header_seals_def)
qed

definition opened_seals :: "opened \<Rightarrow> nat \<Rightarrow> nat option" where
  "opened_seals o1 = (case o_header o1 of Some h \<Rightarrow> bt_get (header_seals h) | None \<Rightarrow> Map.empty)"

lemma fold_seals_snoc: "bt_get (fold_seals (os @ [o1])) = bt_get (fold_seals os) ++ opened_seals o1"
  by (auto simp: fold_seals_def opened_seals_def bt_get_extend bt_wf_header_seals split: option.split)

lemma fold_seals_Nil: "bt_get (fold_seals []) = Map.empty"
  by (simp add: fold_seals_def)

lemma fold_seals_keys:
  "bt_get (fold_seals os) k \<noteq> None \<Longrightarrow> \<exists>o1 \<in> set os. opened_seals o1 k \<noteq> None"
  by (induction os rule: rev_induct) (auto simp: fold_seals_snoc fold_seals_Nil map_add_def split: option.splits)

lemma fold_seals_filter:
  assumes "sorted_wrt (<) (map o_epoch os)" and "bt_get (fold_seals (filter (\<lambda>o1. a < o_epoch o1) os)) k = Some v"
  shows "bt_get (fold_seals os) k = Some v"
  using assms
proof (induction os rule: rev_induct)
  case (snoc o1 os)
  show ?case
  proof (cases "a < o_epoch o1")
    case True
    with snoc show ?thesis
      by (auto simp: fold_seals_snoc map_add_def sorted_wrt_append split: option.splits)
  next
    case False
    then have "\<not> a < o_epoch p" if "p \<in> set os" for p
      using snoc.prems(1) that by (auto simp: sorted_wrt_append dest: order.strict_trans)
    then have "filter (\<lambda>o1. a < o_epoch o1) os = []" by (auto simp: filter_empty_conv)
    with snoc.prems False show ?thesis by (simp add: fold_seals_Nil)
  qed
qed (simp add: fold_seals_Nil)

lemma show_nat_inj: "show_nat a = show_nat b \<longleftrightarrow> a = b"
proof
  assume "show_nat a = show_nat b"
  then show "a = b" by (metis max.cobounded1 max.cobounded2 option.inject parse_uint_show)
qed simp

definition u64_seals :: "(nat, nat) btree \<Rightarrow> bool" where
  "u64_seals s \<longleftrightarrow> list_all (\<lambda>(k, v). k \<le> U64_MAX \<and> v \<le> U64_MAX) s"

lemma header_seals_mk:
  assumes "bt_wf s" and "u64_seals s"
  shows "bt_get (header_seals (mk_header e s b)) = bt_get s"
proof -
  let ?sh = "map (\<lambda>(k, v). (show_nat k, v)) s"
  let ?ss = "fold (\<lambda>(k, v) m. bt_insert k v m) ?sh []"
  have h: "h_sealed (mk_header e s b) = ?ss"
    by (simp add: mk_header_def fold_map comp_def split_def)
  have dsh: "distinct (map fst ?sh)"
  proof -
    have "map fst ?sh = map show_nat (map fst s)" by (simp add: comp_def case_prod_beta)
    then show ?thesis using bt_wf_distinct [OF assms(1)] by (simp add: distinct_map inj_on_def show_nat_inj)
  qed
  have wf: "bt_wf ?ss" by (rule bt_wf_fold_insert) simp
  have "bt_get ?ss = map_of ?sh" using dsh map_of_rev_distinct [OF dsh] by (simp add: bt_get_fold_insert)
  then have set_ss: "set ?ss = set ?sh"
    using map_of_inject_set [OF bt_wf_distinct [OF wf] dsh] by simp
  let ?un = "map (\<lambda>(k, v). (the (parse_uint U64_MAX k), v))"
  have parse: "parse_uint U64_MAX (show_nat k) = Some k" if "(k, v) \<in> set s" for k v
    using assms(2) that by (auto simp: u64_seals_def list_all_iff intro: parse_uint_show)
  have "fold (\<lambda>(k, v) m. case parse_uint U64_MAX k of Some n \<Rightarrow> bt_insert n v m | None \<Rightarrow> m) ss m
      = fold (\<lambda>(k, v) m. bt_insert k v m) (?un ss) m" if "set ss \<subseteq> set ?sh" for ss m
    using that parse by (induction ss arbitrary: m) auto
  then have "header_seals (mk_header e s b) = fold (\<lambda>(k, v) m. bt_insert k v m) (?un ?ss) []"
    unfolding header_seals_def h using set_ss by blast
  moreover have set_un: "set (?un ?ss) = set s"
  proof -
    have "set (?un ?ss) = (\<lambda>(k, v). (the (parse_uint U64_MAX k), v)) ` (\<lambda>(k, v). (show_nat k, v)) ` set s"
      by (simp only: set_map set_ss)
    also have "\<dots> = (\<lambda>x. x) ` set s" unfolding image_image by (rule image_cong) (auto simp: parse)
    finally show ?thesis by simp
  qed
  moreover have dun: "distinct (map fst (?un ?ss))"
  proof -
    have inj: "inj_on (\<lambda>k. the (parse_uint U64_MAX k)) (fst ` set ?sh)"
      by (rule inj_on_inverseI [where g = show_nat]) (auto simp: parse)
    have "map fst (?un ?ss) = map (\<lambda>k. the (parse_uint U64_MAX k)) (map fst ?ss)"
      by (simp add: comp_def case_prod_beta)
    moreover have "set (map fst ?ss) = fst ` set ?sh" using set_ss by (metis list.set_map)
    ultimately show ?thesis using bt_wf_distinct [OF wf] inj by (metis distinct_map)
  qed
  ultimately show ?thesis
    using map_of_inject_set [OF dun bt_wf_distinct [OF assms(1)]] map_of_rev_distinct [OF dun]
    by (simp add: bt_get_fold_insert)
qed

definition lines_under :: "(nat \<Rightarrow> nat option) \<Rightarrow> opened list \<Rightarrow> (bool \<times> string) list" where
  "lines_under Z os =
     concat (map (\<lambda>o1. if in_view (view_start Z os) o1 then range_lines (seg_range Z o1) else []) os)"

definition view :: "header_codec \<Rightarrow> (nat \<Rightarrow> nat option) \<Rightarrow> dir \<Rightarrow> (bool \<times> string) list" where
  "view cd F d =
     (let os = map (open_segment cd) d in lines_under (bt_get (fold_seals os) ++ F) os)"

lemma range_lines_Nil [simp]: "range_lines [] = []"
  by (simp add: range_lines_def)

lemma seg_range_empty: "\<not> o_header_len o1 < seg_end Z o1 \<Longrightarrow> seg_range Z o1 = []"
  by (simp add: seg_range_def byte_range_def)

lemma view_ranges_lines: "concat (map range_lines (view_ranges Z os)) = lines_under Z os"
proof -
  have "concat (map range_lines (map (seg_range Z) (filter (\<lambda>o1. in_view s o1 \<and> o_header_len o1 < seg_end Z o1) xs)))
      = concat (map (\<lambda>o1. if in_view s o1 then range_lines (seg_range Z o1) else []) xs)" for s xs
    by (induction xs) (auto simp: seg_range_empty)
  then show ?thesis unfolding view_ranges_def lines_under_def .
qed

lemma reader_view:
  "try_open_reader cd d = Some r \<Longrightarrow> seg_read_all (rd_segs r) = view cd Map.empty d"
  by (auto simp: try_open_reader_def Let_def seg_read_all_ranges view_ranges_lines view_def split: if_splits)

section \<open>How the view changes\<close>

lemma raw_lines_prefix: "prefix s t \<Longrightarrow> prefix (raw_lines [] s) (raw_lines [] t)"
  by (auto simp: prefix_def raw_lines_append)

lemma range_lines_prefix: "prefix s t \<Longrightarrow> prefix (range_lines s) (range_lines t)"
  by (auto simp: range_lines_def prefix_def raw_lines_append)

lemma range_lines_append:
  "line_tail [] s = [] \<Longrightarrow> range_lines (s @ t) = range_lines s @ range_lines t"
  by (simp add: range_lines_def raw_lines_append)

lemma seg_end_cong: "Z (o_epoch o1) = Z' (o_epoch o1) \<Longrightarrow> seg_end Z o1 = seg_end Z' o1"
  by (simp add: seg_end_def)

lemma complete_base_cong: "Z (o_epoch o1) = Z' (o_epoch o1) \<Longrightarrow> complete_base Z o1 = complete_base Z' o1"
  by (simp add: complete_base_def seg_end_cong [of Z o1 Z'] split: option.split)

lemma find_base_rel:
  assumes "list_all2 (\<lambda>o1 o2. o_epoch o1 = o_epoch o2 \<and> (complete_base Z o1 \<longleftrightarrow> complete_base Z' o2)) os os'"
  shows "find_base Z os = find_base Z' os'"
proof -
  have "list_all2 (\<lambda>o1 o2. o_epoch o1 = o_epoch o2 \<and> (complete_base Z o1 \<longleftrightarrow> complete_base Z' o2)) (rev os) (rev os')"
    using assms by (simp add: list_all2_rev1)
  then have "map_option o_epoch (find (complete_base Z) (rev os)) = map_option o_epoch (find (complete_base Z') (rev os'))"
    by (induction rule: list_all2_induct) auto
  then show ?thesis by (simp add: find_base_def)
qed

definition seg_grows :: "(nat \<Rightarrow> nat option) \<Rightarrow> (nat \<Rightarrow> nat option) \<Rightarrow> opened \<Rightarrow> opened \<Rightarrow> bool" where
  "seg_grows Z Z' o1 o2 \<longleftrightarrow>
     o_epoch o1 = o_epoch o2 \<and> o_header o1 = o_header o2 \<and> (complete_base Z o1 \<longleftrightarrow> complete_base Z' o2) \<and>
     subseq (range_lines (seg_range Z o1)) (range_lines (seg_range Z' o2))"

lemma view_start_grows:
  assumes "list_all2 (seg_grows Z Z') os os'"
  shows "view_start Z os = view_start Z' os'"
proof -
  have "find_base Z os = find_base Z' os'"
    by (rule find_base_rel, rule list_all2_mono [OF assms]) (simp add: seg_grows_def)
  then show ?thesis using assms by (cases os; cases os') (auto simp: view_start_def seg_grows_def split: option.split)
qed

lemma lines_under_grows:
  assumes "list_all2 (seg_grows Z Z') os os'"
  shows "subseq (lines_under Z os) (lines_under Z' os')"
proof -
  have "subseq (concat (map (\<lambda>o1. if in_view s o1 then range_lines (seg_range Z o1) else []) os))
      (concat (map (\<lambda>o1. if in_view s o1 then range_lines (seg_range Z' o1) else []) os'))" for s
    using assms
  proof (induction rule: list_all2_induct)
    case (Cons o1 os o2 os')
    have "in_view s o1 = in_view s o2" using Cons(1) by (auto simp: seg_grows_def in_view_def split: option.split)
    with Cons show ?case by (auto simp: seg_grows_def intro: list_emb_append_mono)
  qed simp
  then show ?thesis unfolding lines_under_def view_start_grows [OF assms] .
qed

lemma seg_grows_refl: "Z (o_epoch o1) = Z' (o_epoch o1) \<Longrightarrow> seg_grows Z Z' o1 o1"
  using complete_base_cong [of Z o1 Z'] seg_end_cong [of Z o1 Z'] by (simp add: seg_grows_def seg_range_def)

lemma lines_under_cong:
  assumes "\<And>o1. o1 \<in> set os \<Longrightarrow> Z (o_epoch o1) = Z' (o_epoch o1)"
  shows "lines_under Z os = lines_under Z' os"
proof -
  have "list_all2 (seg_grows Z Z') os os" using assms by (simp add: list.rel_refl_strong seg_grows_refl)
  then have "view_start Z os = view_start Z' os" by (rule view_start_grows)
  then show ?thesis
    unfolding lines_under_def using assms by (auto simp: seg_range_def seg_end_cong [of Z _ Z'] intro!: arg_cong [of _ _ concat])
qed

lemma snoc_plain:
  assumes "os \<noteq> []" and "\<not> complete_base Z o1"
  shows "lines_under Z (os @ [o1]) =
    lines_under Z os @ (if in_view (view_start Z os) o1 then range_lines (seg_range Z o1) else [])"
proof -
  have "view_start Z (os @ [o1]) = view_start Z os"
    using assms by (cases os) (auto simp: view_start_def find_base_def split: option.split)
  then show ?thesis by (simp add: lines_under_def)
qed

lemma snoc_base:
  assumes "complete_base Z o1" and "\<And>o2. o2 \<in> set os \<Longrightarrow> o_epoch o2 < o_epoch o1"
  shows "lines_under Z (os @ [o1]) = range_lines (seg_range Z o1)"
proof -
  have st: "view_start Z (os @ [o1]) = o_epoch o1" using assms by (simp add: view_start_def find_base_def)
  have "concat (map (\<lambda>o2. if in_view (o_epoch o1) o2 then range_lines (seg_range Z o2) else []) os) = []"
    using assms(2) by (fastforce simp: in_view_def)
  moreover have "in_view (o_epoch o1) o1" using assms(1) by (auto simp: in_view_def complete_base_def split: option.splits)
  ultimately show ?thesis unfolding lines_under_def st by simp
qed

lemma view_start_le:
  assumes "os \<noteq> []" and "sorted_wrt (<) (map o_epoch os)"
  shows "view_start Z os \<le> o_epoch (last os)"
proof -
  have "o_epoch o1 \<le> o_epoch (last os)" if "o1 \<in> set os" for o1
    using assms that by (cases os rule: rev_cases) (auto simp: sorted_wrt_append less_imp_le)
  moreover have "\<exists>o1 \<in> set os. view_start Z os = o_epoch o1"
  proof (cases "find (complete_base Z) (rev os)")
    case None
    then show ?thesis using assms(1) by (cases os) (auto simp: view_start_def find_base_def)
  next
    case (Some o1)
    then have "o1 \<in> set (rev os)" by (metis find_Some_iff nth_mem)
    then show ?thesis using Some by (auto simp: view_start_def find_base_def)
  qed
  ultimately show ?thesis by auto
qed

section \<open>Headers on disk\<close>

definition codec_ok :: "header_codec \<Rightarrow> bool" where
  "codec_ok cd \<longleftrightarrow>
     (\<forall>e s b. bt_wf s \<longrightarrow> e \<le> U64_MAX \<longrightarrow> u64_seals s \<longrightarrow>
        newline \<notin> set (to_vec cd (mk_header e s b)) \<and>
        from_slice cd (to_vec cd (mk_header e s b)) = Some (mk_header e s b))"

definition header_fits :: "header_codec \<Rightarrow> nat \<Rightarrow> (nat, nat) btree \<Rightarrow> bool \<Rightarrow> bool" where
  "header_fits cd e s b \<longleftrightarrow>
     e \<le> U64_MAX \<and> u64_seals s \<and> length (to_vec cd (mk_header e s b)) \<le> MAX_LINE_BYTES"

lemma open_segment_simps [simp]:
  "o_epoch (open_segment cd (e, c)) = e" "o_content (open_segment cd (e, c)) = c"
  by (auto simp: open_segment_def split: option.split)

lemma open_segment_header:
  "read_segment_header cd c = Some (h, n) \<Longrightarrow>
     o_header (open_segment cd (e, c)) = Some h \<and> o_header_len (open_segment cd (e, c)) = n"
  "read_segment_header cd c = None \<Longrightarrow>
     o_header (open_segment cd (e, c)) = None \<and> o_header_len (open_segment cd (e, c)) = length c"
  by (simp_all add: open_segment_def)

lemma read_header_append:
  assumes "read_segment_header cd c = Some (h, n)"
  shows "read_segment_header cd (c @ b) = Some (h, n)" and "n \<le> length c" and "c \<noteq> []"
proof -
  have c: "c \<noteq> []" "newline \<in> set c" and f: "from_slice cd (line_of c) = Some h" "n = line_end c"
    "\<not> MAX_LINE_BYTES < length (line_of c)"
    using assms line_of_less [of c] by (auto simp: read_segment_header_def next_read_def Let_def split: if_splits)
  then have "line_of (c @ b) = line_of c" "line_end (c @ b) = line_end c"
    by (simp_all add: line_of_append line_end_append)
  with c f show "read_segment_header cd (c @ b) = Some (h, n)" "n \<le> length c" "c \<noteq> []"
    using line_of_less [of "c @ b"] line_end_le [of c] by (auto simp: read_segment_header_def next_read_def Let_def)
qed

lemma read_header_torn: "newline \<notin> set c \<Longrightarrow> read_segment_header cd c = None"
  using line_of_less [of c] by (simp add: read_segment_header_def next_read_def Let_def)

lemma read_header_line:
  assumes "codec_ok cd" "bt_wf s" "header_fits cd e s b"
  shows "read_segment_header cd (header_line cd e s b @ rest) = Some (mk_header e s b, length (header_line cd e s b))"
proof -
  let ?t = "to_vec cd (mk_header e s b)"
  have t: "newline \<notin> set ?t" "from_slice cd ?t = Some (mk_header e s b)" "\<not> MAX_LINE_BYTES < length ?t"
    using assms by (auto simp: codec_ok_def header_fits_def)
  let ?c = "header_line cd e s b"
  have lo: "line_of ?c = ?t" using t(1) by (simp add: header_line_def line_of_append) (simp add: line_of_def)
  have "read_segment_header cd ?c = Some (mk_header e s b, length ?c)"
    using t by (simp add: read_segment_header_def next_read_def Let_def lo line_end_def) (simp add: header_line_def)
  then show ?thesis by (rule read_header_append)
qed

lemma read_header_take:
  assumes "codec_ok cd" "bt_wf s" "header_fits cd e s b"
  shows "read_segment_header cd (take n (header_line cd e s b @ rest)) =
    (if length (header_line cd e s b) \<le> n then Some (mk_header e s b, length (header_line cd e s b)) else None)"
proof (cases "length (header_line cd e s b) \<le> n")
  case True
  then show ?thesis using read_header_line [OF assms] by simp
next
  case False
  have "newline \<notin> set (to_vec cd (mk_header e s b))" using assms by (auto simp: codec_ok_def header_fits_def)
  moreover have "take n (header_line cd e s b @ rest) = take n (to_vec cd (mk_header e s b))"
    using False by (simp add: header_line_def)
  ultimately have "newline \<notin> set (take n (header_line cd e s b @ rest))" by (metis in_set_takeD)
  then show ?thesis using False by (simp add: read_header_torn)
qed

section \<open>Adding a segment\<close>

lemma o_epoch_open: "o_epoch \<circ> open_segment cd = fst"
  by (auto simp: fun_eq_iff)

lemma dir_epochs: "bt_wf d \<Longrightarrow> sorted_wrt (<) (map o_epoch (map (open_segment cd) d))"
  by (simp add: bt_wf_def o_epoch_open)

abbreviation disk_seals :: "header_codec \<Rightarrow> dir \<Rightarrow> nat \<Rightarrow> nat option" where
  "disk_seals cd d \<equiv> bt_get (fold_seals (map (open_segment cd) d))"

lemma disk_seals_snoc: "disk_seals cd (d @ [x]) = disk_seals cd d ++ opened_seals (open_segment cd x)"
  by (simp add: fold_seals_snoc)

lemma view_cong:
  assumes "\<And>e. e \<in> fst ` set d \<Longrightarrow> (disk_seals cd d ++ F) e = (disk_seals cd d ++ F') e"
  shows "view cd F d = view cd F' d"
  unfolding view_def Let_def by (rule lines_under_cong) (use assms in force)

lemma bt_wf_snocD: "bt_wf (d @ [(n, c)]) \<Longrightarrow> bt_wf d \<and> (\<forall>e \<in> fst ` set d. e < n)"
  by (auto simp: bt_wf_def sorted_wrt_append)

definition idle :: "(nat \<Rightarrow> nat option) \<Rightarrow> opened \<Rightarrow> bool" where
  "idle Z o1 \<longleftrightarrow> \<not> complete_base Z o1 \<and>
     (case o_header o1 of None \<Rightarrow> True | Some h \<Rightarrow> h_base h \<or> range_lines (seg_range Z o1) = [])"

lemma view_snoc_idle:
  assumes "bt_wf (d @ [(n, c)])" and "d \<noteq> []" and "o1 = open_segment cd (n, c)"
    and "idle (disk_seals cd d ++ opened_seals o1 ++ F) o1"
  shows "view cd F (d @ [(n, c)]) = view cd (opened_seals o1 ++ F) d"
proof -
  let ?Z = "disk_seals cd d ++ opened_seals o1 ++ F" and ?os = "map (open_segment cd) d"
  have d: "bt_wf d" "\<And>e. e \<in> fst ` set d \<Longrightarrow> e < n" using bt_wf_snocD [OF assms(1)] by auto
  have ne: "?os \<noteq> []" using assms(2) by simp
  have "view_start ?Z ?os \<le> o_epoch (last ?os)" using ne dir_epochs [OF d(1)] by (rule view_start_le)
  also have "o_epoch (last ?os) < n"
  proof -
    have "o_epoch (last ?os) = fst (last d)" using assms(2) by (cases "last d") (simp add: last_map)
    then show ?thesis using d(2) assms(2) by simp
  qed
  finally have "in_view (view_start ?Z ?os) o1 \<Longrightarrow> range_lines (seg_range ?Z o1) = []"
    using assms(3,4) by (auto simp: in_view_def idle_def split: option.splits)
  moreover have "\<not> complete_base ?Z o1" using assms(4) by (simp add: idle_def)
  ultimately have "lines_under ?Z (?os @ [o1]) = lines_under ?Z ?os" using snoc_plain [OF ne] by simp
  then show ?thesis by (simp add: view_def Let_def fold_seals_snoc assms(3))
qed

lemma view_snoc_base:
  assumes "bt_wf (d @ [(n, c)])" and "o1 = open_segment cd (n, c)"
    and "complete_base (disk_seals cd d ++ opened_seals o1 ++ F) o1"
  shows "view cd F (d @ [(n, c)]) = range_lines (seg_range (disk_seals cd d ++ opened_seals o1 ++ F) o1)"
proof -
  have "o_epoch o2 < o_epoch o1" if "o2 \<in> set (map (open_segment cd) d)" for o2
    using that bt_wf_snocD [OF assms(1)] assms(2) o_epoch_open [of cd] by (force simp: fun_eq_iff)
  from snoc_base [OF assms(3), of "map (open_segment cd) d", OF this]
  show ?thesis by (simp add: view_def fold_seals_snoc assms(2))
qed

section \<open>Growing a segment\<close>

definition solid :: "header_codec \<Rightarrow> string \<Rightarrow> seg_header \<Rightarrow> nat \<Rightarrow> bool" where
  "solid cd c h hl \<longleftrightarrow> read_segment_header cd c = Some (h, hl) \<and> line_tail [] (drop hl c) = [] \<and>
     (h_base h \<longrightarrow> BASE_TRAILER \<in> set (raw_lines [] (drop hl c)))"

lemma seg_range_open:
  assumes "read_segment_header cd c = Some (h, hl)"
  shows "seg_range Z (open_segment cd (e, c)) =
    take ((case Z e of Some v \<Rightarrow> min v (length c) | None \<Rightarrow> length c) - hl) (drop hl c)"
  using open_segment_header(1) [OF assms, of e]
  by (auto simp: seg_range_def byte_range_def seg_end_def split: option.split)

lemma complete_base_open:
  assumes "read_segment_header cd c = Some (h, hl)"
  shows "complete_base Z (open_segment cd (e, c)) \<longleftrightarrow>
    h_base h \<and> BASE_TRAILER \<in> set (raw_lines [] (seg_range Z (open_segment cd (e, c))))"
  using open_segment_header(1) [OF assms, of e]
  by (simp add: complete_base_def segment_has_trailer_def seg_range_def)

lemma seg_range_grow:
  assumes "solid cd c h hl"
  shows "\<exists>k. seg_range Z (open_segment cd (e, c @ b)) = seg_range Z (open_segment cd (e, c)) @ take k b \<and>
    (take k b \<noteq> [] \<longrightarrow> line_tail [] (seg_range Z (open_segment cd (e, c))) = [])"
proof -
  have rd: "read_segment_header cd c = Some (h, hl)" and tl: "line_tail [] (drop hl c) = []"
    using assms by (auto simp: solid_def)
  note rd' = read_header_append [OF rd]
  show ?thesis
  proof (cases "Z e")
    case None
    then show ?thesis
      using tl rd'(2) by (intro exI [of _ "length b"]) (simp add: seg_range_open [OF rd] seg_range_open [OF rd'(1)])
  next
    case (Some v)
    then show ?thesis
      using tl rd'(2)
      by (intro exI [of _ "min v (length c + length b) - length c"])
        (auto simp: seg_range_open [OF rd] seg_range_open [OF rd'(1)] min_def)
  qed
qed

lemma seg_grows_append:
  assumes "solid cd c h hl" and "BASE_TRAILER \<notin> set (raw_lines [] b)"
  shows "seg_grows Z Z (open_segment cd (e, c)) (open_segment cd (e, c @ b))"
proof -
  have rd: "read_segment_header cd c = Some (h, hl)" using assms(1) by (simp add: solid_def)
  note rd' = read_header_append(1) [OF rd, of b]
  obtain k where k: "seg_range Z (open_segment cd (e, c @ b)) = seg_range Z (open_segment cd (e, c)) @ take k b"
    "take k b \<noteq> [] \<longrightarrow> line_tail [] (seg_range Z (open_segment cd (e, c))) = []"
    using seg_range_grow [OF assms(1)] by blast
  have "set (raw_lines [] (take k b)) \<subseteq> set (raw_lines [] b)"
    using raw_lines_prefix [of "take k b" b] by (auto simp: take_is_prefix dest: set_mono_prefix)
  then have "BASE_TRAILER \<notin> set (raw_lines [] (take k b))" using assms(2) by blast
  then have "complete_base Z (open_segment cd (e, c)) \<longleftrightarrow> complete_base Z (open_segment cd (e, c @ b))"
    using k(2) by (cases "take k b = []") (auto simp: complete_base_open [OF rd] complete_base_open [OF rd'] k(1) raw_lines_append)
  moreover have "subseq (range_lines (seg_range Z (open_segment cd (e, c)))) (range_lines (seg_range Z (open_segment cd (e, c @ b))))"
    unfolding k(1) by (rule prefix_imp_subseq, rule range_lines_prefix) simp
  ultimately show ?thesis
    using open_segment_header(1) [OF rd, of e] open_segment_header(1) [OF rd', of e] by (simp add: seg_grows_def)
qed

lemma opened_seals_append:
  assumes "read_segment_header cd c = Some (h, hl)"
  shows "opened_seals (open_segment cd (e, c @ b)) = opened_seals (open_segment cd (e, c))"
  using open_segment_header(1) [OF assms, of e] open_segment_header(1) [OF read_header_append(1) [OF assms, of b], of e]
  by (simp add: opened_seals_def)

lemma fold_seals_cong:
  "list_all2 (\<lambda>o1 o2. o_header o1 = o_header o2) os os' \<Longrightarrow> fold_seals os = fold_seals os'"
proof -
  assume "list_all2 (\<lambda>o1 o2. o_header o1 = o_header o2) os os'"
  then have "fold (\<lambda>o1 m. case o_header o1 of Some h \<Rightarrow> extend_seals (header_seals h) m | None \<Rightarrow> m) os m =
      fold (\<lambda>o1 m. case o_header o1 of Some h \<Rightarrow> extend_seals (header_seals h) m | None \<Rightarrow> m) os' m" for m
    by (induction arbitrary: m rule: list_all2_induct) auto
  then show ?thesis by (simp add: fold_seals_def)
qed

lemma view_grow:
  assumes "solid cd c h hl" and "BASE_TRAILER \<notin> set (raw_lines [] b)"
  shows "subseq (view cd F (xs @ (e, c) # ys)) (view cd F (xs @ (e, c @ b) # ys))"
    and "disk_seals cd (xs @ (e, c @ b) # ys) = disk_seals cd (xs @ (e, c) # ys)"
proof -
  let ?os = "map (open_segment cd) (xs @ (e, c) # ys)" and ?os' = "map (open_segment cd) (xs @ (e, c @ b) # ys)"
  have g: "seg_grows Z Z (open_segment cd (e, c)) (open_segment cd (e, c @ b))" for Z
    using assms by (rule seg_grows_append)
  have rel: "list_all2 (seg_grows Z Z) ?os ?os'" for Z
    using g by (auto intro!: list_all2_appendI list.rel_refl seg_grows_refl)
  have eq: "fold_seals ?os' = fold_seals ?os"
    by (rule fold_seals_cong [symmetric], rule list_all2_mono [OF rel [of Map.empty]]) (simp add: seg_grows_def)
  then show "disk_seals cd (xs @ (e, c @ b) # ys) = disk_seals cd (xs @ (e, c) # ys)" by simp
  show "subseq (view cd F (xs @ (e, c) # ys)) (view cd F (xs @ (e, c @ b) # ys))"
    unfolding view_def Let_def eq by (rule lines_under_grows [OF rel])
qed

lemma view_append_last:
  assumes wf: "bt_wf (xs @ [(n, c)])" and so: "solid cd c h hl" and nt: "BASE_TRAILER \<notin> set (raw_lines [] b)"
    and Zn: "disk_seals cd (xs @ [(n, c)]) n = None" and FF: "\<And>e. e \<noteq> n \<Longrightarrow> F e = F' e"
    and Fn: "F n = None \<or> F n = Some (length c)" and Fn': "F' n = None \<or> F' n = Some (length (c @ b))"
  shows "view cd F' (xs @ [(n, c @ b)]) = view cd F (xs @ [(n, c)]) @ range_lines b"
proof -
  let ?o = "open_segment cd (n, c)" and ?o' = "open_segment cd (n, c @ b)" and ?os = "map (open_segment cd) xs"
  define Z where "Z = disk_seals cd (xs @ [(n, c)]) ++ F"
  define Z' where "Z' = disk_seals cd (xs @ [(n, c @ b)]) ++ F'"
  have rd: "read_segment_header cd c = Some (h, hl)" and tl: "line_tail [] (drop hl c) = []"
    and tr: "h_base h \<Longrightarrow> BASE_TRAILER \<in> set (raw_lines [] (drop hl c))" using so by (auto simp: solid_def)
  note rd' = read_header_append(1) [OF rd, of b] and hl = read_header_append(2) [OF rd]
  have ds: "disk_seals cd (xs @ [(n, c @ b)]) = disk_seals cd (xs @ [(n, c)])"
    using view_grow(2) [OF so nt, of xs n "[]"] by simp
  have ZZ: "Z e = Z' e" if "e \<noteq> n" for e using FF [OF that] unfolding Z_def Z'_def ds by (simp add: map_add_def)
  have "Z n = None \<or> Z n = Some (length c)" "Z' n = None \<or> Z' n = Some (length (c @ b))"
    using Zn Fn Fn' unfolding Z_def Z'_def ds by (auto simp: map_add_def split: option.split)
  then have R: "seg_range Z ?o = drop hl c" "seg_range Z' ?o' = drop hl c @ b"
    using hl by (auto simp: seg_range_open [OF rd] seg_range_open [OF rd'])
  have base: "complete_base Z ?o \<longleftrightarrow> h_base h" "complete_base Z' ?o' \<longleftrightarrow> h_base h"
    using tr tl by (auto simp: complete_base_open [OF rd] complete_base_open [OF rd'] R raw_lines_append)
  have grows: "list_all2 (seg_grows Z Z') (?os @ [?o]) (?os @ [?o'])"
  proof (rule list_all2_appendI)
    have "Z (o_epoch o1) = Z' (o_epoch o1)" if "o1 \<in> set ?os" for o1
      using that bt_wf_snocD [OF wf] by (intro ZZ) force
    then show "list_all2 (seg_grows Z Z') ?os ?os" by (intro list.rel_refl_strong seg_grows_refl)
    show "list_all2 (seg_grows Z Z') [?o] [?o']"
      using base R open_segment_header(1) [OF rd, of n] open_segment_header(1) [OF rd', of n]
      by (simp add: seg_grows_def prefix_imp_subseq range_lines_prefix)
  qed
  note start = view_start_grows [OF grows]
  have "sorted_wrt (<) (map o_epoch (?os @ [?o]))" using dir_epochs [OF wf, of cd] by simp
  then have "view_start Z (?os @ [?o]) \<le> n" using view_start_le [of "?os @ [?o]" Z] by simp
  moreover have "h_base h \<Longrightarrow> view_start Z (?os @ [?o]) = n" using base(1) by (simp add: view_start_def find_base_def)
  ultimately have iv: "in_view (view_start Z (?os @ [?o])) ?o" "in_view (view_start Z (?os @ [?o])) ?o'"
    using open_segment_header(1) [OF rd, of n] open_segment_header(1) [OF rd', of n] by (auto simp: in_view_def)
  have same: "map (\<lambda>o1. if in_view s o1 then range_lines (seg_range Z' o1) else []) ?os =
      map (\<lambda>o1. if in_view s o1 then range_lines (seg_range Z o1) else []) ?os" for s
  proof (rule map_cong [OF refl])
    fix o1 assume "o1 \<in> set ?os"
    then have "Z (o_epoch o1) = Z' (o_epoch o1)" using bt_wf_snocD [OF wf] by (intro ZZ) force
    then show "(if in_view s o1 then range_lines (seg_range Z' o1) else []) = (if in_view s o1 then range_lines (seg_range Z o1) else [])"
      by (simp add: seg_range_def seg_end_cong [of Z o1 Z'])
  qed
  have "lines_under Z' (?os @ [?o']) = lines_under Z (?os @ [?o]) @ range_lines b"
    unfolding lines_under_def start [symmetric] map_append concat_append same
    using iv tl by (simp add: R range_lines_append)
  then show ?thesis by (simp add: view_def Let_def Z_def Z'_def)
qed

end
