(* ===== verification/Segment_Steps.thy ===== *)
theory Segment_Steps
  imports Segment_View
begin

text \<open>
  The invariant of a session directory and of every store that has it open, and that every operation of a store
  keeps it: for the directory, for the store itself, and for every other store. A store is in power while the
  epoch it holds, or has read to its end, is the newest; what it knows of its own failed writes fences the view
  until the next header puts it on disk.
\<close>

section \<open>The invariant\<close>

definition cur :: "seg_log \<Rightarrow> nat" where
  "cur s = (case target s of Some e \<Rightarrow> e | None \<Rightarrow> newest s)"

definition cur_len :: "seg_log \<Rightarrow> nat" where
  "cur_len s = (case target s of Some e \<Rightarrow> target_len s | None \<Rightarrow> consumed_len s)"

definition fence :: "seg_log \<Rightarrow> nat \<Rightarrow> nat option" where
  "fence s = (bt_get (seals s))(cur s \<mapsto> cur_len s)"

definition tip :: "dir \<Rightarrow> nat" where "tip d = fst (last d)"

definition in_power :: "dir \<Rightarrow> seg_log \<Rightarrow> bool" where
  "in_power d s \<longleftrightarrow> cur s = tip d \<and> (target s \<noteq> None \<or> \<not> fenced_out s d)"

definition owns :: "seg_log \<Rightarrow> nat \<Rightarrow> bool" where
  "owns s e \<longleftrightarrow> (target s \<noteq> None \<or> force_roll s) \<and> cur s = e"

definition dir_inv :: "header_codec \<Rightarrow> dir \<Rightarrow> (bool \<times> string) list \<Rightarrow> bool" where
  "dir_inv cd d A \<longleftrightarrow>
     bt_wf d \<and> d \<noteq> [] \<and>
     (\<forall>x \<in> set d. \<forall>k. opened_seals (open_segment cd x) k \<noteq> None \<longrightarrow> k < fst x) \<and>
     subseq A (view cd Map.empty d)"

definition store_inv :: "header_codec \<Rightarrow> dir \<Rightarrow> (bool \<times> string) list \<Rightarrow> seg_log \<Rightarrow> bool" where
  "store_inv cd d A s \<longleftrightarrow>
     bt_wf (seals s) \<and> (\<forall>k. bt_get (seals s) k \<noteq> None \<longrightarrow> k \<le> cur s) \<and>
     (\<forall>b. base s = Some b \<longrightarrow> b \<le> cur s) \<and>
     cur s \<le> tip d \<and> (cur s < tip d \<longrightarrow> bt_get d (cur s + 1) \<noteq> None) \<and>
     (\<forall>c. bt_get d (cur s) = Some c \<longrightarrow>
        (if target s = None then consumed_len s \<le> length c
         else target_len s = length c \<and> (\<exists>h hl. solid cd c h hl))) \<and>
     (in_power d s \<longrightarrow> subseq A (view cd (fence s) d))"

definition apart :: "seg_log \<Rightarrow> seg_log \<Rightarrow> bool" where
  "apart s t \<longleftrightarrow> (\<nexists>e. owns s e \<and> owns t e)"

definition prune_spares :: "seg_log \<Rightarrow> seg_log \<Rightarrow> bool" where
  "prune_spares s t \<longleftrightarrow> (\<forall>b. base s = Some b \<longrightarrow> b \<le> cur t + 1)"

text \<open>One store's step keeps the invariant of the directory, of itself and of every other live store.\<close>

definition step_ok ::
  "header_codec \<Rightarrow> (seg_log \<Rightarrow> bool) \<Rightarrow> (bool \<times> string) list \<Rightarrow> seg_log \<Rightarrow> dir
    \<Rightarrow> (bool \<times> string) list \<Rightarrow> seg_log \<Rightarrow> dir \<Rightarrow> bool" where
  "step_ok cd P A s d A' s' d' \<longleftrightarrow>
     dir_inv cd d' A' \<and> (\<not> superseded s' \<longrightarrow> store_inv cd d' A' s') \<and>
     (\<forall>t. store_inv cd d A t \<longrightarrow> apart s t \<longrightarrow> P t \<longrightarrow>
        store_inv cd d' A' t \<and> (\<not> superseded s' \<longrightarrow> apart s' t))"

lemma dir_invD:
  assumes "dir_inv cd d A"
  shows "bt_wf d" "d \<noteq> []" "x \<in> set d \<Longrightarrow> opened_seals (open_segment cd x) k \<noteq> None \<Longrightarrow> k < fst x"
    "subseq A (view cd Map.empty d)"
  using assms by (auto simp: dir_inv_def)

lemma tip_in: "d \<noteq> [] \<Longrightarrow> bt_wf d \<Longrightarrow> bt_get d (tip d) = Some (snd (last d))"
  unfolding tip_def by (subst bt_get_in_set) (auto simp: last_in_set)

lemma tip_max: "bt_wf d \<Longrightarrow> bt_get d e \<noteq> None \<Longrightarrow> e \<le> tip d"
proof -
  assume wf: "bt_wf d" and "bt_get d e \<noteq> None"
  then obtain c where c: "(e, c) \<in> set d" by (auto simp: bt_get_in_set)
  then obtain xs y where d: "d = xs @ [y]" by (metis list.set(1) empty_iff rev_exhaust)
  with wf c show ?thesis by (auto simp: tip_def bt_wf_def sorted_wrt_append less_imp_le)
qed

lemma tip_unsealed:
  assumes "dir_inv cd d A"
  shows "disk_seals cd d (tip d) = None"
proof (rule ccontr)
  assume "disk_seals cd d (tip d) \<noteq> None"
  then obtain x where x: "x \<in> set d" "opened_seals (open_segment cd x) (tip d) \<noteq> None"
    using fold_seals_keys by fastforce
  then have "tip d < fst x" using dir_invD(3) [OF assms] by blast
  moreover have "fst x \<le> tip d"
    using tip_max [OF dir_invD(1) [OF assms], of "fst x"] x(1) bt_get_in_set [OF dir_invD(1) [OF assms]]
    by (metis option.distinct(1) prod.collapse)
  ultimately show False by simp
qed

lemma bt_insert_new: "bt_wf d \<Longrightarrow> d \<noteq> [] \<Longrightarrow> tip d < e \<Longrightarrow> bt_insert e c d = d @ [(e, c)]"
proof (induction e c d rule: bt_insert.induct)
  case (2 e c k v d)
  show ?case
  proof (cases "d = []")
    case True
    with 2 show ?thesis by (auto simp: tip_def)
  next
    case False
    have "k < fst (last d)" using "2.prems"(1) False by (auto simp: bt_wf_def)
    moreover have "fst (last d) < e" using "2.prems"(3) False by (simp add: tip_def)
    ultimately have "k < e" by (rule less_trans)
    with 2 False show ?thesis by (auto simp: bt_wf_def tip_def)
  qed
qed simp

lemma bt_wf_snoc: "bt_wf d \<Longrightarrow> d \<noteq> [] \<Longrightarrow> tip d < e \<Longrightarrow> bt_wf (d @ [(e, c)])"
  using bt_wf_insert [of d e c] by (simp add: bt_insert_new)

lemma bt_insert_old:
  assumes "bt_wf d" and "bt_get d e = Some c"
  obtains xs ys where "d = xs @ (e, c) # ys" "\<And>c'. bt_insert e c' d = xs @ (e, c') # ys"
proof -
  have "\<exists>xs ys. d = xs @ (e, c) # ys \<and> (\<forall>c'. bt_insert e c' d = xs @ (e, c') # ys)"
    using assms
  proof (induction d)
    case (Cons x d)
    obtain k v where x: "x = (k, v)" by (cases x)
    show ?case
    proof (cases "k = e")
      case True
      with Cons x show ?thesis by (intro exI [of _ "[]"] exI [of _ d]) auto
    next
      case False
      then have m: "map_of d e = Some c" using Cons.prems x by simp
      then have "k < e" using Cons.prems(1) x by (auto simp: bt_wf_def dest!: map_of_SomeD)
      from Cons.IH [OF _ m] Cons.prems(1) obtain xs ys where "d = xs @ (e, c) # ys" "\<forall>c'. bt_insert e c' d = xs @ (e, c') # ys"
        by (auto simp: bt_wf_def)
      with \<open>k < e\<close> x show ?thesis by (intro exI [of _ "x # xs"] exI [of _ ys]) auto
    qed
  qed simp
  with that show ?thesis by blast
qed

lemma store_invD:
  assumes "store_inv cd d A s"
  shows "bt_wf (seals s)" "bt_get (seals s) k \<noteq> None \<Longrightarrow> k \<le> cur s" "base s = Some b \<Longrightarrow> b \<le> cur s"
    "cur s \<le> tip d" "cur s < tip d \<Longrightarrow> bt_get d (cur s + 1) \<noteq> None"
    "bt_get d (cur s) = Some c \<Longrightarrow> target s = None \<Longrightarrow> consumed_len s \<le> length c"
    "bt_get d (cur s) = Some c \<Longrightarrow> target s \<noteq> None \<Longrightarrow> target_len s = length c \<and> (\<exists>h hl. solid cd c h hl)"
    "in_power d s \<Longrightarrow> subseq A (view cd (fence s) d)"
  using assms unfolding store_inv_def by auto

lemma fence_keys: "store_inv cd d A s \<Longrightarrow> fence s k \<noteq> None \<Longrightarrow> k \<le> cur s"
  using store_invD(2) [of cd d A s k] by (auto simp: fence_def split: if_splits)

lemma tip_snoc [simp]: "tip (d @ [(n, c)]) = n" by (simp add: tip_def)

lemma bt_get_snoc:
  assumes "dir_inv cd d A"
  shows "bt_get (d @ [(Suc (tip d), c)]) e = (if e = Suc (tip d) then Some c else bt_get d e)"
  using bt_insert_new [OF dir_invD(1,2) [OF assms], of "Suc (tip d)" c] bt_get_insert [of "Suc (tip d)" c d] by simp

text \<open>The other stores when a new epoch is claimed: none of them is in power any more.\<close>

lemma others_after_claim:
  assumes D: "dir_inv cd d A" and t: "store_inv cd d A t"
    and s': "cur s' = Suc (tip d)"
  shows "store_inv cd (d @ [(Suc (tip d), c)]) A' t \<and> apart s' t"
proof -
  note get = bt_get_snoc [OF D, of c]
  have lt: "cur t < Suc (tip d)" using store_invD(4) [OF t] by simp
  have "bt_get (d @ [(Suc (tip d), c)]) (cur t + 1) \<noteq> None"
    using store_invD(4,5) [OF t] by (cases "cur t = tip d") (auto simp: get simp del: map_of_append)
  moreover have "\<not> in_power (d @ [(Suc (tip d), c)]) t" using lt by (simp add: in_power_def)
  ultimately have "store_inv cd (d @ [(Suc (tip d), c)]) A' t"
    using t lt by (auto simp: store_inv_def get simp del: map_of_append split: if_splits)
  moreover have "apart s' t" using lt s' by (auto simp: apart_def owns_def)
  ultimately show ?thesis by simp
qed

lemma dir_inv_snoc:
  assumes D: "dir_inv cd d A" and keys: "\<And>k. opened_seals (open_segment cd (Suc (tip d), c)) k \<noteq> None \<Longrightarrow> k \<le> tip d"
    and v: "subseq A' (view cd Map.empty (d @ [(Suc (tip d), c)]))"
  shows "dir_inv cd (d @ [(Suc (tip d), c)]) A'"
  using dir_invD(3) [OF D] bt_wf_snoc [OF dir_invD(1,2) [OF D], of "Suc (tip d)" c] keys v
  by (auto simp: dir_inv_def less_Suc_eq_le)

lemma claim_quiet:
  assumes D: "dir_inv cd d A" and S: "store_inv cd d A s" and pw: "in_power d s"
    and o1: "o1 = open_segment cd (Suc (tip d), c)"
    and os: "opened_seals o1 = Map.empty \<or> opened_seals o1 = fence s" and idle: "\<And>Z. idle Z o1"
    and s': "cur s' = Suc (tip d)" "bt_get (seals s') = fence s" "bt_wf (seals s')" "base s' = base s"
      "if target s' = None then consumed_len s' = 0 else target_len s' = length c \<and> (\<exists>h hl. solid cd c h hl)"
  shows "step_ok cd P A s d A s' (d @ [(Suc (tip d), c)])"
proof -
  let ?n = "Suc (tip d)" let ?d = "d @ [(?n, c)]"
  have cs: "cur s = tip d" using pw by (simp add: in_power_def)
  have wf: "bt_wf ?d" by (rule bt_wf_snoc [OF dir_invD(1,2) [OF D]]) simp
  have view: "view cd F ?d = view cd (opened_seals o1 ++ F) d" for F
    by (rule view_snoc_idle [OF wf dir_invD(2) [OF D] o1 idle])
  have fs: "subseq A (view cd (fence s) d)" by (rule store_invD(8) [OF S pw])
  have "subseq A (view cd Map.empty ?d)" unfolding view using os fs dir_invD(4) [OF D] by auto
  moreover have "opened_seals o1 k \<noteq> None \<Longrightarrow> k \<le> tip d" for k using os fence_keys [OF S, of k] cs by auto
  ultimately have "dir_inv cd ?d A" unfolding o1 by (intro dir_inv_snoc [OF D])
  moreover have "store_inv cd ?d A s'"
  proof -
    have "view cd (opened_seals o1 ++ fence s') d = view cd (fence s) d"
    proof (rule view_cong)
      fix e assume e: "e \<in> fst ` set d"
      then have "bt_get d e \<noteq> None" by (simp add: map_of_eq_None_iff)
      then have "e \<noteq> ?n" using tip_max [OF dir_invD(1) [OF D]] by fastforce
      then have "fence s' e = fence s e" by (simp add: fence_def [of s'] s'(1,2))
      then show "(disk_seals cd d ++ (opened_seals o1 ++ fence s')) e = (disk_seals cd d ++ fence s) e"
        using os by (auto simp: map_add_def split: option.split)
    qed
    then have "subseq A (view cd (fence s') ?d)" unfolding view using fs by simp
    moreover have "k \<le> ?n" if "bt_get (seals s') k \<noteq> None" for k
      using that fence_keys [OF S, of k] cs s'(2) by simp
    moreover have "b \<le> ?n" if "base s' = Some b" for b using that store_invD(3) [OF S, of b] s'(4) cs by simp
    ultimately show ?thesis
      using s' bt_get_snoc [OF D, of c ?n] by (auto simp: store_inv_def simp del: map_of_append split: if_splits)
  qed
  ultimately show ?thesis using others_after_claim [OF D _ s'(1), of _ c A] by (simp add: step_ok_def)
qed

definition content_ok :: "string \<Rightarrow> bool" where
  "content_ok content \<longleftrightarrow> line_tail [] content = [] \<and> BASE_TRAILER \<notin> set (raw_lines [] content)"

lemma trailer_clean: "newline \<notin> set BASE_TRAILER"
  by (simp add: BASE_TRAILER_def newline_def)

lemma range_lines_base:
  assumes "content_ok content"
  shows "raw_lines [] (content @ BASE_TRAILER @ [newline]) = raw_lines [] content @ [BASE_TRAILER]"
    and "range_lines (content @ BASE_TRAILER @ [newline]) = range_lines content"
    and "line_tail [] (content @ BASE_TRAILER @ [newline]) = []"
  using assms raw_lines_line [OF trailer_clean, of "[]" "[]"]
  by (simp_all add: content_ok_def range_lines_def raw_lines_append line_tail_append)

lemma torn_base_no_trailer:
  assumes "content_ok content" and "k < length (content @ BASE_TRAILER @ [newline])"
  shows "BASE_TRAILER \<notin> set (raw_lines [] (take k (content @ BASE_TRAILER @ [newline])))"
proof (cases "k \<le> length content")
  case True
  then have "prefix (take k (content @ BASE_TRAILER @ [newline])) content" by (simp add: take_is_prefix)
  then have "set (raw_lines [] (take k (content @ BASE_TRAILER @ [newline]))) \<subseteq> set (raw_lines [] content)"
    by (rule set_mono_prefix [OF raw_lines_prefix])
  then show ?thesis using assms(1) by (auto simp: content_ok_def)
next
  case False
  then have eq: "take k (content @ BASE_TRAILER @ [newline]) = content @ take (k - length content) BASE_TRAILER"
    using assms(2) by simp
  have "newline \<notin> set (take (k - length content) BASE_TRAILER)" using trailer_clean by (meson in_set_takeD)
  then have "raw_lines [] (take (k - length content) BASE_TRAILER) = []" using raw_lines_clean by blast
  then show ?thesis using assms(1) unfolding eq by (simp add: raw_lines_append content_ok_def)
qed


section \<open>A complete base\<close>

lemma base_content:
  assumes "codec_ok cd" "bt_wf sl" "header_fits cd e sl True" "content_ok content"
  defines "bytes \<equiv> header_line cd e sl True @ content @ BASE_TRAILER @ [newline]"
  shows "solid cd bytes (mk_header e sl True) (length (header_line cd e sl True))"
    and "Z e = None \<or> Z e = Some (length bytes) \<Longrightarrow> complete_base Z (open_segment cd (e, bytes)) \<and>
      range_lines (seg_range Z (open_segment cd (e, bytes))) = range_lines content"
    and "opened_seals (open_segment cd (e, bytes)) = bt_get sl"
proof -
  have rd: "read_segment_header cd bytes = Some (mk_header e sl True, length (header_line cd e sl True))"
    unfolding bytes_def by (rule read_header_line [OF assms(1-3)])
  have hb: "h_base (mk_header e sl True)" by (simp add: mk_header_def)
  have dr: "drop (length (header_line cd e sl True)) bytes = content @ BASE_TRAILER @ [newline]" by (simp add: bytes_def)
  note rl = range_lines_base [OF assms(4)]
  show "solid cd bytes (mk_header e sl True) (length (header_line cd e sl True))"
    using rd by (simp add: solid_def dr rl)
  show "opened_seals (open_segment cd (e, bytes)) = bt_get sl"
    using open_segment_header(1) [OF rd, of e] header_seals_mk [OF assms(2)] assms(3)
    by (simp add: opened_seals_def header_fits_def)
  assume "Z e = None \<or> Z e = Some (length bytes)"
  then have "seg_range Z (open_segment cd (e, bytes)) = content @ BASE_TRAILER @ [newline]"
    by (auto simp: seg_range_open [OF rd] dr) (simp_all add: bytes_def)
  then show "complete_base Z (open_segment cd (e, bytes)) \<and>
      range_lines (seg_range Z (open_segment cd (e, bytes))) = range_lines content"
    by (simp add: complete_base_open [OF rd] hb rl)
qed

lemma view_base:
  assumes "codec_ok cd" "bt_wf sl" "header_fits cd e sl True" "content_ok content" "bt_wf (d @ [(e, bytes)])"
    and bytes: "bytes = header_line cd e sl True @ content @ BASE_TRAILER @ [newline]"
    and sealed: "\<And>k. bt_get sl k \<noteq> None \<Longrightarrow> k < e" "disk_seals cd d e = None"
    and F: "F e = None \<or> F e = Some (length bytes)"
  shows "view cd F (d @ [(e, bytes)]) = range_lines content"
proof -
  note bc = base_content [OF assms(1-4), folded bytes]
  have "bt_get sl e = None" using sealed(1) [of e] by (cases "bt_get sl e") auto
  then have "(disk_seals cd d ++ opened_seals (open_segment cd (e, bytes)) ++ F) e = None \<or>
      (disk_seals cd d ++ opened_seals (open_segment cd (e, bytes)) ++ F) e = Some (length bytes)"
    using F sealed(2) by (auto simp: bc(3) map_add_def split: option.split)
  then show ?thesis
    using bc(2) [of "disk_seals cd d ++ opened_seals (open_segment cd (e, bytes)) ++ F"]
      view_snoc_base [OF assms(5) refl, of cd F] by simp
qed


lemma prune_snoc: "f \<le> e \<Longrightarrow> prune kept (Some f) (d @ [(e, c)]) = prune kept (Some f) d @ [(e, c)]"
  by (simp add: prune_def)

lemma prune_wf: "bt_wf d \<Longrightarrow> bt_wf (prune kept fl d)"
  unfolding bt_wf_def prune_def by (induction d) (auto split: option.splits)

lemma set_prune: "set (prune kept fl d) \<subseteq> set d"
  by (auto simp: prune_def split: option.splits)

lemma bt_get_prune:
  assumes "bt_wf d"
  shows "bt_get (prune kept fl d) e = Some c \<Longrightarrow> bt_get d e = Some c"
    and "bt_get d e = Some c \<Longrightarrow> (\<And>f. fl = Some f \<Longrightarrow> f \<le> e) \<Longrightarrow> bt_get (prune kept fl d) e = Some c"
  unfolding bt_get_in_set [OF assms] bt_get_in_set [OF prune_wf [OF assms]]
  by (auto simp: prune_def split: option.splits)

lemma unsealed_above:
  assumes "dir_inv cd d A" and "set d1 \<subseteq> set d"
  shows "disk_seals cd d1 (Suc (tip d)) = None"
proof (rule ccontr)
  assume "disk_seals cd d1 (Suc (tip d)) \<noteq> None"
  then obtain x where x: "x \<in> set d1" "opened_seals (open_segment cd x) (Suc (tip d)) \<noteq> None"
    using fold_seals_keys by fastforce
  have xd: "x \<in> set d" using x(1) assms(2) by blast
  then have "Suc (tip d) < fst x" using dir_invD(3) [OF assms(1)] x(2) by blast
  moreover have "bt_get d (fst x) \<noteq> None" using xd by (simp add: map_of_eq_None_iff)
  then have "fst x \<le> tip d" by (rule tip_max [OF dir_invD(1) [OF assms(1)]])
  ultimately show False by simp
qed

lemma claim_base:
  assumes D: "dir_inv cd d A" and S: "store_inv cd d A s" and cs: "cur s = tip d"
    and cd: "codec_ok cd" "content_ok content"
    and sl: "bt_get sl = fence s" "bt_wf sl" "header_fits cd (Suc (tip d)) sl True"
    and bytes: "bytes = header_line cd (Suc (tip d)) sl True @ content @ BASE_TRAILER @ [newline]"
    and A': "subseq A' (range_lines content)"
    and s': "target s' = Some (Suc (tip d))" "target_len s' = length bytes" "seals s' = []" "base s' = Some (Suc (tip d))"
  shows "step_ok cd (prune_spares s) A s d A' s' (prune kept (base s) (d @ [(Suc (tip d), bytes)]))"
proof -
  let ?n = "Suc (tip d)" let ?d1 = "prune kept (base s) d" let ?d = "?d1 @ [(?n, bytes)]"
  have d': "prune kept (base s) (d @ [(?n, bytes)]) = ?d"
    using store_invD(3) [OF S] cs by (cases "base s") (auto simp: prune_snoc prune_def)
  have wf0: "bt_wf (d @ [(?n, bytes)])" by (rule bt_wf_snoc [OF dir_invD(1,2) [OF D]]) simp
  then have wf: "bt_wf ?d" using prune_wf d' by metis
  have keys: "bt_get sl k \<noteq> None \<Longrightarrow> k < ?n" for k using fence_keys [OF S, of k] sl(1) cs by simp
  have v: "view cd F ?d = range_lines content" if "F ?n = None \<or> F ?n = Some (length bytes)" for F
    using that unsealed_above [OF D set_prune, of kept "base s"] keys
    by (intro view_base [OF cd(1) sl(2,3) cd(2) wf bytes]) auto
  note bc = base_content [OF cd(1) sl(2,3) cd(2), folded bytes]
  have get: "bt_get ?d ?n = Some bytes" unfolding bt_get_in_set [OF wf] by simp
  have "dir_inv cd ?d A'"
    using wf v [of Map.empty] A' dir_invD(3) [OF D] set_prune keys
    by (auto simp: dir_inv_def bc(3)) (meson subsetD fst_conv)+
  moreover have "store_inv cd ?d A' s'"
  proof -
    have "cur s' = ?n" "fence s' = [?n \<mapsto> length bytes]" using s' by (simp_all add: cur_def cur_len_def fence_def)
    then show ?thesis using s' get bc(1) A' v [of "[?n \<mapsto> length bytes]"]
      by (auto simp: store_inv_def simp del: map_of_append)
  qed
  moreover have "store_inv cd ?d A' t \<and> apart s' t" if t: "store_inv cd d A t" "prune_spares s t" for t
  proof -
    have "cur s' = ?n" using s' by (simp add: cur_def)
    from others_after_claim [OF D t(1) this, of bytes A']
    have i: "store_inv cd (d @ [(?n, bytes)]) A' t" and ap: "apart s' t" by auto
    have lt: "cur t < ?n" using store_invD(4) [OF t(1)] by simp
    then have "bt_get (d @ [(?n, bytes)]) (cur t + 1) \<noteq> None" using store_invD(5) [OF i] by simp
    then obtain c where "bt_get (d @ [(?n, bytes)]) (cur t + 1) = Some c" by blast
    then have "bt_get ?d (cur t + 1) \<noteq> None"
      using bt_get_prune(2) [OF wf0, of "cur t + 1" c "base s" kept] t(2) d' by (auto simp: prune_spares_def)
    moreover have "bt_get ?d e = Some c \<Longrightarrow> bt_get (d @ [(?n, bytes)]) e = Some c" for e c
      using bt_get_prune(1) [OF wf0, of kept "base s"] d' by metis
    moreover have "\<not> in_power ?d t" using lt by (simp add: in_power_def)
    ultimately show ?thesis using i ap lt by (auto simp: store_inv_def simp del: map_of_append)
  qed
  ultimately show ?thesis unfolding d' step_ok_def by blast
qed

lemma step_ok_same:
  assumes D: "dir_inv cd d A" and S: "superseded s' \<or> store_inv cd d A s'" and own: "\<And>e. owns s' e \<Longrightarrow> owns s e"
  shows "step_ok cd P A s d A s' d"
  using assms by (auto simp: step_ok_def apart_def)

lemma step_ok_trans:
  assumes "step_ok cd P A s d A1 s1 d1" and "\<not> superseded s1" and "step_ok cd (\<lambda>_. True) A1 s1 d1 A2 s2 d2"
  shows "step_ok cd P A s d A2 s2 d2"
  using assms unfolding step_ok_def by blast

lemma grow_dir:
  assumes wf: "bt_wf d" and e: "bt_get d e = Some c" and so: "solid cd c h hl" and nt: "BASE_TRAILER \<notin> set (raw_lines [] b)"
  shows "subseq (view cd F d) (view cd F (bt_insert e (c @ b) d))" and "tip (bt_insert e (c @ b) d) = tip d"
    and "\<And>x k. x \<in> set (bt_insert e (c @ b) d) \<Longrightarrow> opened_seals (open_segment cd x) k \<noteq> None \<Longrightarrow>
      \<exists>y \<in> set d. fst y = fst x \<and> opened_seals (open_segment cd y) k \<noteq> None"
proof -
  obtain xs ys where d: "d = xs @ (e, c) # ys" and d': "bt_insert e (c @ b) d = xs @ (e, c @ b) # ys"
    using wf e by (rule bt_insert_old) blast
  show "subseq (view cd F d) (view cd F (bt_insert e (c @ b) d))" unfolding d' unfolding d by (rule view_grow [OF so nt])
  show "tip (bt_insert e (c @ b) d) = tip d" unfolding d' unfolding d by (cases ys rule: rev_cases) (auto simp: tip_def)
  have "read_segment_header cd c = Some (h, hl)" using so by (simp add: solid_def)
  from opened_seals_append [OF this, of e b]
  show "\<And>x k. x \<in> set (bt_insert e (c @ b) d) \<Longrightarrow> opened_seals (open_segment cd x) k \<noteq> None \<Longrightarrow>
      \<exists>y \<in> set d. fst y = fst x \<and> opened_seals (open_segment cd y) k \<noteq> None"
    unfolding d' unfolding d by fastforce
qed

lemma grow_dir_inv:
  assumes D: "dir_inv cd d A" and e: "bt_get d e = Some c" and so: "solid cd c h hl"
    and nt: "BASE_TRAILER \<notin> set (raw_lines [] b)" and v: "subseq A' (view cd Map.empty (bt_insert e (c @ b) d))"
  shows "dir_inv cd (bt_insert e (c @ b) d) A'"
proof -
  have "bt_wf (bt_insert e (c @ b) d)" using dir_invD(1) [OF D] by simp
  moreover have "bt_insert e (c @ b) d \<noteq> []" by (metis bt_get_insert fun_upd_same map_of.simps(1) option.distinct(1))
  moreover have "k < fst x" if "x \<in> set (bt_insert e (c @ b) d)" "opened_seals (open_segment cd x) k \<noteq> None" for x k
    using grow_dir(3) [OF dir_invD(1) [OF D] e so nt that] dir_invD(3) [OF D] by metis
  ultimately show ?thesis using v by (simp add: dir_inv_def)
qed

lemma grow_others:
  assumes D: "dir_inv cd d A" and e: "bt_get d e = Some c" and so: "solid cd c h hl"
    and nt: "BASE_TRAILER \<notin> set (raw_lines [] b)" and own: "owns s e"
    and A': "A' = A \<or> e = tip d \<and> b \<noteq> []" and t: "store_inv cd d A t" "apart s t"
  shows "store_inv cd (bt_insert e (c @ b) d) A' t"
proof -
  let ?d = "bt_insert e (c @ b) d"
  note g = grow_dir [OF dir_invD(1) [OF D] e so nt]
  have nown: "\<not> owns t e" using t(2) own by (auto simp: apart_def)
  have files: "if target t = None then consumed_len t \<le> length c1 else target_len t = length c1 \<and> (\<exists>h hl. solid cd c1 h hl)"
    if "bt_get ?d (cur t) = Some c1" for c1
  proof (cases "cur t = e")
    case True
    with nown have "target t = None" by (simp add: owns_def)
    moreover have "c1 = c @ b" using that True by simp
    ultimately show ?thesis using store_invD(6) [OF t(1)] True e by fastforce
  next
    case False
    then show ?thesis using that store_invD(6,7) [OF t(1)] by simp
  qed
  have pw: "subseq A' (view cd (fence t) ?d)" if p: "in_power ?d t"
  proof (cases "cur t = e")
    case True
    with nown have tn: "target t = None" "\<not> force_roll t" by (auto simp: owns_def)
    then have nw: "newest t = e" using True by (simp add: cur_def)
    have "consumed_len t = length (c @ b)" using p tn nw by (simp add: in_power_def fenced_out_def stat_len_def)
    moreover have "consumed_len t \<le> length c" using store_invD(6) [OF t(1) _ tn(1)] True e by simp
    ultimately have "b = []" by simp
    then have same: "?d = d" using bt_insert_old [OF dir_invD(1) [OF D] e] by (metis append_Nil2)
    with p show ?thesis using store_invD(8) [OF t(1)] A' \<open>b = []\<close> by simp
  next
    case False
    then have "in_power d t" using p by (auto simp: in_power_def g(2) fenced_out_def stat_len_def cur_def split: option.splits)
    moreover have "A' = A" using A' False p by (auto simp: in_power_def g(2))
    ultimately show ?thesis using store_invD(8) [OF t(1)] g(1) by (metis subseq_order.trans)
  qed
  show ?thesis
    using t(1) files pw by (auto simp: store_inv_def g(2))
qed


section \<open>Operations\<close>

definition next_seals :: "seg_log \<Rightarrow> (nat, nat) btree" where
  "next_seals s = bt_insert (cur s) (cur_len s) (seals s)"

lemma next_seals_fence: "bt_get (next_seals s) = fence s"
  by (simp add: next_seals_def fence_def)

lemma next_seals_wf: "store_inv cd d A s \<Longrightarrow> bt_wf (next_seals s)"
  by (simp add: next_seals_def store_invD(1))

lemma claimable:
  assumes "store_inv cd d A s" and "bt_get d (cur s + 1) = None"
  shows "cur s = tip d"
  using store_invD(4,5) [OF assms(1)] assms(2) by fastforce

lemma roll_header:
  assumes cd: "codec_ok cd" and sl: "bt_wf sl" "header_fits cd e sl False"
  defines "c \<equiv> header_line cd e sl False"
  shows "solid cd c (mk_header e sl False) (length c)" and "idle Z (open_segment cd (e, c))"
    and "opened_seals (open_segment cd (e, c)) = bt_get sl"
proof -
  have rd: "read_segment_header cd c = Some (mk_header e sl False, length c)"
    using read_header_line [OF cd sl, of "[]"] by (simp add: c_def)
  have hb: "\<not> h_base (mk_header e sl False)" by (simp add: mk_header_def)
  note oh = open_segment_header(1) [OF rd, of e]
  show "solid cd c (mk_header e sl False) (length c)" using rd hb by (simp add: solid_def)
  show "idle Z (open_segment cd (e, c))"
    using oh hb by (simp add: idle_def complete_base_open [OF rd] seg_range_open [OF rd])
  show "opened_seals (open_segment cd (e, c)) = bt_get sl"
    using oh header_seals_mk [OF sl(1)] sl(2) by (simp add: opened_seals_def header_fits_def)
qed

lemma torn_header:
  assumes "read_segment_header cd c = None"
  shows "idle Z (open_segment cd (e, c))" and "opened_seals (open_segment cd (e, c)) = Map.empty"
  using open_segment_header(2) [OF assms, of e] by (simp_all add: idle_def complete_base_def opened_seals_def)

lemma ensure_target_ok:
  assumes D: "dir_inv cd d A" and S: "store_inv cd d A s" and live: "\<not> superseded s" and cd: "codec_ok cd"
    and fits: "header_fits cd (cur s + 1) (next_seals s) False"
    and r: "ensure_target cd io s d = (r, s', d')"
  shows "step_ok cd P A s d A s' d' \<and> (\<forall>e. r = Inr e \<longrightarrow> target s' = Some e \<and> \<not> superseded s')"
proof (cases "target s")
  case (Some e)
  then have "r = Inr e" "s' = s" "d' = d" using r by (auto simp: ensure_target_def)
  then show ?thesis using step_ok_same [OF D, of s s] S Some live by simp
next
  case None
  then have cu: "cur s = newest s" "cur_len s = consumed_len s" by (simp_all add: cur_def cur_len_def)
  define s1 where "s1 = s\<lparr>seals := next_seals s\<rparr>"
  have s1: "cur s1 = cur s" "fence s1 = fence s" "target s1 = None"
    using None by (simp_all add: s1_def cur_def cur_len_def fence_def next_seals_def)
  have S1: "store_inv cd d A s1"
    using S next_seals_wf [OF S] fence_keys [OF S] s1 None
    by (auto simp: store_inv_def in_power_def fenced_out_def s1_def next_seals_fence)
  have own1: "owns s1 e \<Longrightarrow> owns s e" for e using None by (simp add: owns_def s1_def cur_def)
  show ?thesis
  proof (cases "fenced_out s d \<or> bt_get d (newest s + 1) \<noteq> None")
    case True
    then have "superseded s'" "d' = d" "r = Inl Superseded"
      using r None by (auto simp: ensure_target_def poison_def Let_def split: if_splits)
    then show ?thesis using D by (auto simp: step_ok_def)
  next
    case False
    then have tip: "cur s = tip d" using claimable [OF S] cu by simp
    have pw: "in_power d s" using tip False by (simp add: in_power_def)
    let ?h = "header_line cd (Suc (tip d)) (next_seals s) False"
    have ht: "header_fits cd (Suc (tip d)) (next_seals s) False" using fits tip by simp
    note rh = roll_header [OF cd next_seals_wf [OF S] ht]
    have ins: "bt_insert (Suc (tip d)) c d = d @ [(Suc (tip d), c)]" for c
      by (rule bt_insert_new [OF dir_invD(1,2) [OF D]]) simp
    have eq: "ensure_target cd io s d = (case io of
        RollOpenFails \<Rightarrow> (Inl IoError, s1, d)
      | RollTorn n \<Rightarrow> (Inl IoError,
          s1\<lparr>newest := Suc (tip d), consumed_len := 0, force_roll := True, since_base := since_base s + 1\<rparr>,
          d @ [(Suc (tip d), take n ?h)])
      | RollDone \<Rightarrow> (Inr (Suc (tip d)),
          s1\<lparr>target := Some (Suc (tip d)), target_len := length ?h, since_base := since_base s + 1, force_roll := False\<rparr>,
          d @ [(Suc (tip d), ?h)]))"
      using None False cu tip ins
      by (auto simp: ensure_target_def Let_def s1_def next_seals_def split: roll_io.split)
    show ?thesis
    proof (cases io)
      case RollOpenFails
      then show ?thesis using r eq step_ok_same [OF D _ own1] S1 by auto
    next
      case (RollTorn n)
      let ?s = "s1\<lparr>newest := Suc (tip d), consumed_len := 0, force_roll := True, since_base := since_base s + 1\<rparr>"
      have os: "(opened_seals (open_segment cd (Suc (tip d), take n ?h)) = Map.empty \<or>
          opened_seals (open_segment cd (Suc (tip d), take n ?h)) = fence s) \<and>
          (\<forall>Z. idle Z (open_segment cd (Suc (tip d), take n ?h)))"
        using rh(2,3) torn_header read_header_take [OF cd next_seals_wf [OF S] ht, of n "[]"]
        by (cases "length ?h \<le> n") (simp_all add: next_seals_fence)
      have "step_ok cd P A s d A ?s (d @ [(Suc (tip d), take n ?h)])"
        by (rule claim_quiet [OF D S pw refl])
          (use os next_seals_wf [OF S] None in \<open>auto simp: s1_def cur_def next_seals_fence\<close>)
      then show ?thesis using r eq RollTorn by auto
    next
      case RollDone
      let ?s = "s1\<lparr>target := Some (Suc (tip d)), target_len := length ?h, since_base := since_base s + 1, force_roll := False\<rparr>"
      have "step_ok cd P A s d A ?s (d @ [(Suc (tip d), ?h)])"
        by (rule claim_quiet [OF D S pw refl])
          (use rh next_seals_wf [OF S] in \<open>auto simp: s1_def cur_def next_seals_fence\<close>)
      then show ?thesis using r eq RollDone live by (auto simp: s1_def)
    qed
  qed
qed


lemma write_base_ok:
  assumes D: "dir_inv cd d A" and S: "store_inv cd d A s" and live: "\<not> superseded s" and cd: "codec_ok cd"
    and fits: "header_fits cd (cur s + 1) (next_seals s) True" and ct: "content_ok content"
    and A': "subseq A' (range_lines content)" and un: "io = BaseUnsynced \<Longrightarrow> subseq A (range_lines content)"
    and torn: "\<And>n. io = BaseTorn n \<Longrightarrow>
      n < length (header_line cd (cur s + 1) (next_seals s) True @ content @ BASE_TRAILER @ [newline])"
    and r: "write_base cd io content s d = (r, s', d')"
  shows "step_ok cd (prune_spares s) A s d (if r = Inr () then A' else A) s' d' \<and> (r = Inr () \<longrightarrow> \<not> superseded s' \<and> target s' \<noteq> None)"
proof (cases "target s = None \<and> fenced_out s d \<or> bt_get d (cur s + 1) \<noteq> None")
  case True
  then have "superseded s'" "d' = d" "r = Inl Superseded"
    using r by (auto simp: write_base_def poison_def cur_def Let_def split: option.splits if_splits)
  then show ?thesis using D by (auto simp: step_ok_def)
next
  case False
  then have tip: "cur s = tip d" using claimable [OF S] by simp
  have pw: "in_power d s" using tip False by (auto simp: in_power_def)
  let ?b = "header_line cd (Suc (tip d)) (next_seals s) True @ content @ BASE_TRAILER @ [newline]"
  define s1 where "s1 = s\<lparr>seals := next_seals s\<rparr>"
  have fits: "header_fits cd (Suc (tip d)) (next_seals s) True" using fits tip by simp
  have ins: "bt_insert (Suc (tip d)) c d = d @ [(Suc (tip d), c)]" for c
    by (rule bt_insert_new [OF dir_invD(1,2) [OF D]]) simp
  have eq: "write_base cd io content s d = (case io of
      BaseOpenFails \<Rightarrow> (Inl IoError, s1, d)
    | BaseTorn n \<Rightarrow> (Inl IoError,
        s1\<lparr>target := None, newest := Suc (tip d), consumed_len := 0, since_base := since_base s + 1, force_roll := True\<rparr>,
        d @ [(Suc (tip d), take n ?b)])
    | BaseUnsynced \<Rightarrow> (Inl IoError, s\<lparr>seals := []\<rparr>, d @ [(Suc (tip d), ?b)])
    | BaseDone kept \<Rightarrow> (Inr (),
        s\<lparr>base := Some (Suc (tip d)), seals := [], target := Some (Suc (tip d)), target_len := length ?b,
          newest := Suc (tip d), consumed_len := length ?b, since_base := 0, force_roll := False\<rparr>,
        prune kept (base s) (d @ [(Suc (tip d), ?b)])))"
    using False tip ins
    by (auto simp: write_base_def Let_def s1_def next_seals_def cur_def cur_len_def split: base_io.split option.splits)
  show ?thesis
  proof (cases io)
    case BaseOpenFails
    have "cur s1 = cur s" "fence s1 = fence s" by (simp_all add: s1_def cur_def cur_len_def fence_def next_seals_def split: option.split)
    then have "store_inv cd d A s1" "\<And>e. owns s1 e \<Longrightarrow> owns s e"
      using S next_seals_wf [OF S] fence_keys [OF S]
      by (auto simp: store_inv_def in_power_def fenced_out_def owns_def s1_def next_seals_fence)
    then show ?thesis using r eq BaseOpenFails step_ok_same [OF D] by auto
  next
    case (BaseTorn n)
    let ?s = "s1\<lparr>target := None, newest := Suc (tip d), consumed_len := 0, since_base := since_base s + 1, force_roll := True\<rparr>"
    define c where "c = take n ?b"
    let ?h = "header_line cd (Suc (tip d)) (next_seals s) True"
    have os: "(opened_seals (open_segment cd (Suc (tip d), c)) = Map.empty \<or>
        opened_seals (open_segment cd (Suc (tip d), c)) = fence s) \<and> (\<forall>Z. idle Z (open_segment cd (Suc (tip d), c)))"
    proof (cases "length ?h \<le> n")
      case True
      then have rd: "read_segment_header cd c = Some (mk_header (Suc (tip d)) (next_seals s) True, length ?h)"
        unfolding c_def read_header_take [OF cd next_seals_wf [OF S] fits] by simp
      have hb: "h_base (mk_header (Suc (tip d)) (next_seals s) True)" by (simp add: mk_header_def)
      note oh = open_segment_header(1) [OF rd, of "Suc (tip d)"]
      have "BASE_TRAILER \<notin> set (raw_lines [] (seg_range Z (open_segment cd (Suc (tip d), c))))" for Z
      proof -
        have "drop (length ?h) c = take (n - length ?h) (content @ BASE_TRAILER @ [newline])"
          unfolding c_def drop_take by simp
        then have "prefix (seg_range Z (open_segment cd (Suc (tip d), c))) (take (n - length ?h) (content @ BASE_TRAILER @ [newline]))"
          by (simp only: seg_range_open [OF rd] take_is_prefix)
        then have "set (raw_lines [] (seg_range Z (open_segment cd (Suc (tip d), c))))
            \<subseteq> set (raw_lines [] (take (n - length ?h) (content @ BASE_TRAILER @ [newline])))"
          by (rule set_mono_prefix [OF raw_lines_prefix])
        moreover have "n - length ?h < length (content @ BASE_TRAILER @ [newline])" using torn [OF BaseTorn] tip True by simp
        ultimately show ?thesis using torn_base_no_trailer [OF ct] by blast
      qed
      then have "idle Z (open_segment cd (Suc (tip d), c))" for Z
        using oh hb by (simp add: idle_def complete_base_open [OF rd])
      moreover have "opened_seals (open_segment cd (Suc (tip d), c)) = fence s"
        using oh header_seals_mk [OF next_seals_wf [OF S]] fits by (simp add: opened_seals_def header_fits_def next_seals_fence)
      ultimately show ?thesis by blast
    next
      case False
      then have "read_segment_header cd c = None"
        unfolding c_def read_header_take [OF cd next_seals_wf [OF S] fits] by simp
      then show ?thesis using torn_header by blast
    qed
    have "step_ok cd (prune_spares s) A s d A ?s (d @ [(Suc (tip d), c)])"
      by (rule claim_quiet [OF D S pw refl])
        (use os next_seals_wf [OF S] in \<open>auto simp: s1_def cur_def next_seals_fence\<close>)
    then show ?thesis using r eq BaseTorn by (auto simp: c_def)
  next
    case BaseUnsynced
    let ?d = "d @ [(Suc (tip d), ?b)]" and ?s = "s\<lparr>seals := []\<rparr>"
    have wf: "bt_wf ?d" by (rule bt_wf_snoc [OF dir_invD(1,2) [OF D]]) simp
    have keys: "k \<le> tip d" if "bt_get (next_seals s) k \<noteq> None" for k
      using that fence_keys [OF S, of k] tip by (simp add: next_seals_fence)
    have "view cd Map.empty ?d = range_lines content"
      using keys unsealed_above [OF D order_refl]
      by (intro view_base [OF cd next_seals_wf [OF S] fits ct wf refl]) (auto simp: less_Suc_eq_le)
    then have "dir_inv cd ?d A"
      using un [OF BaseUnsynced] keys base_content(3) [OF cd next_seals_wf [OF S] fits ct]
      by (intro dir_inv_snoc [OF D]) auto
    moreover have "store_inv cd ?d A ?s"
      using S tip bt_get_snoc [OF D, of ?b] by (auto simp: store_inv_def in_power_def cur_def simp del: map_of_append split: option.splits)
    moreover have "store_inv cd ?d A t" if "store_inv cd d A t" for t
      using others_after_claim [OF D that, of "?s\<lparr>target := Some (Suc (tip d))\<rparr>"] by (simp add: cur_def)
    moreover have "owns ?s e \<Longrightarrow> owns s e" for e by (simp add: owns_def cur_def split: option.splits)
    ultimately have "step_ok cd (prune_spares s) A s d A ?s ?d" unfolding step_ok_def apart_def by blast
    then show ?thesis using r eq BaseUnsynced by auto
  next
    case (BaseDone kept)
    let ?s = "s\<lparr>base := Some (Suc (tip d)), seals := [], target := Some (Suc (tip d)), target_len := length ?b,
          newest := Suc (tip d), consumed_len := length ?b, since_base := 0, force_roll := False\<rparr>"
    have "step_ok cd (prune_spares s) A s d A' ?s (prune kept (base s) (d @ [(Suc (tip d), ?b)]))"
      by (rule claim_base [OF D S tip cd ct next_seals_fence next_seals_wf [OF S] fits refl A']) simp_all
    then show ?thesis using r eq BaseDone live by auto
  qed
qed

definition good_line :: "string \<Rightarrow> bool" where
  "good_line l \<longleftrightarrow> l \<noteq> [] \<and> newline \<notin> set l \<and> length l \<le> MAX_LINE_BYTES \<and> l \<noteq> BASE_TRAILER"

lemma unlines_good:
  assumes "list_all good_line ls"
  shows "raw_lines [] (unlines ls) = ls" "line_tail [] (unlines ls) = []"
    "range_lines (unlines ls) = map (Pair False) ls" "content_ok (unlines ls)"
proof -
  have nl: "\<forall>l \<in> set ls. newline \<notin> set l" using assms by (auto simp: list_all_iff good_line_def)
  show rl: "raw_lines [] (unlines ls) = ls" "line_tail [] (unlines ls) = []"
    using raw_lines_unlines [OF nl, of "[]"] by simp_all
  have "filter (\<lambda>l. l \<noteq> BASE_TRAILER) ls = ls" using assms by (auto simp: filter_id_conv list_all_iff good_line_def)
  then show "range_lines (unlines ls) = map (Pair False) ls"
    using assms by (auto simp: range_lines_def rl list_all_iff good_line_def)
  show "content_ok (unlines ls)" using assms by (auto simp: content_ok_def rl list_all_iff good_line_def)
qed

lemma unlines_simps [simp]: "unlines [] = []" "unlines (l # ls) = l @ newline # unlines ls"
  by (simp_all add: unlines_def)

lemma last_unlines: "ls \<noteq> [] \<Longrightarrow> unlines ls \<noteq> [] \<and> last (unlines ls) = newline"
  by (induction ls rule: rev_induct) (auto simp: unlines_def)

lemma append_sealed_unlines: "append_sealed (unlines ls) = unlines ls"
  using last_unlines [of ls] by (cases "ls = []") (auto simp: append_sealed_def)

lemma solid_append:
  assumes "solid cd c h hl" and "content_ok b"
  shows "solid cd (c @ b) h hl"
proof -
  have rd: "read_segment_header cd c = Some (h, hl)" using assms(1) by (simp add: solid_def)
  from read_header_append [OF rd] assms show ?thesis
    by (auto simp: solid_def content_ok_def line_tail_append raw_lines_append)
qed

lemma tip_split:
  assumes "bt_wf d" and "bt_get d (tip d) = Some c"
  obtains xs where "d = xs @ [(tip d, c)]" "\<And>c'. bt_insert (tip d) c' d = xs @ [(tip d, c')]"
proof -
  obtain xs ys where x: "d = xs @ (tip d, c) # ys" "\<And>c'. bt_insert (tip d) c' d = xs @ (tip d, c') # ys"
    using assms by (rule bt_insert_old) (rule that)
  have "ys = []"
  proof (rule ccontr)
    assume "ys \<noteq> []"
    then have "last d \<in> set ys" by (subst x(1)) simp
    moreover have "sorted_wrt (<) (map fst (xs @ (tip d, c) # ys))" using assms(1) x(1) by (metis bt_wf_def)
    ultimately have "tip d < fst (last d)" by (simp add: sorted_wrt_append)
    then show False by (simp add: tip_def)
  qed
  with x that show ?thesis by simp
qed

lemma append_to_ok:
  assumes D: "dir_inv cd d A" and S: "store_inv cd d A s" and tg: "target s = Some e" and live: "\<not> superseded s"
    and ls: "list_all good_line ls" "ls \<noteq> []" and r: "append_to io (unlines ls) e s d = (r, s', d')"
  shows "step_ok cd P A s d (if r = Inr () then A @ map (Pair False) ls else A) s' d'"
proof -
  define buf where "buf = unlines ls"
  have ce: "cur s = e" "cur_len s = target_len s" using tg by (simp_all add: cur_def cur_len_def)
  have own: "owns s e" using tg by (simp add: owns_def ce)
  define failed where "failed = s\<lparr>seals := bt_insert e (target_len s) (seals s), newest := e, consumed_len := target_len s,
    force_roll := True, target := None\<rparr>"
  have f: "cur failed = e" "fence failed = fence s" "target failed = None" "consumed_len failed = target_len s"
      "bt_get (seals failed) = fence s" "bt_wf (seals failed)" "base failed = base s"
    using S ce by (simp_all add: failed_def cur_def cur_len_def fence_def store_invD(1))
  have of: "owns failed x \<Longrightarrow> owns s x" for x using own f(1) by (simp add: owns_def ce)
  show ?thesis
  proof (cases "bt_get d e")
    case None
    then have res: "r = Inl IoError" "s' = failed" "d' = d" using r by (auto simp: append_to_def failed_def Let_def)
    have "tip d \<noteq> e" using tip_in [OF dir_invD(2,1) [OF D]] None by auto
    then have "store_inv cd d A failed"
      using S f ce None fence_keys [OF S] by (auto simp: store_inv_def in_power_def)
    then show ?thesis using step_ok_same [OF D _ of] res by simp
  next
    case (Some c)
    obtain h hl where so: "solid cd c h hl" and tl: "target_len s = length c"
      using store_invD(7) [OF S, of c] Some tg ce by auto
    note ug = unlines_good [OF ls(1), folded buf_def]
    have nt: "BASE_TRAILER \<notin> set (raw_lines [] buf)" using ug(4) by (simp add: content_ok_def)
    show ?thesis
    proof (cases io)
      case (WriteTorn k)
      let ?b = "take k buf" let ?d = "bt_insert e (c @ ?b) d"
      have res: "r = Inl IoError" "s' = failed" "d' = ?d"
        using r Some WriteTorn by (auto simp: append_to_def failed_def Let_def buf_def)
      have "set (raw_lines [] ?b) \<subseteq> set (raw_lines [] buf)"
        by (rule set_mono_prefix [OF raw_lines_prefix [OF take_is_prefix]])
      then have nb: "BASE_TRAILER \<notin> set (raw_lines [] ?b)" using nt by blast
      note g = grow_dir [OF dir_invD(1) [OF D] Some so nb]
      have "dir_inv cd ?d A"
        using g(1) [of Map.empty] dir_invD(4) [OF D] by (intro grow_dir_inv [OF D Some so nb]) (metis subseq_order.trans)
      moreover have "store_inv cd ?d A failed"
      proof -
        have "subseq A (view cd (fence failed) ?d)" if "in_power ?d failed"
          using that g(1) [of "fence s"] store_invD(8) [OF S] tg unfolding f(2)
          by (auto simp: in_power_def g(2) f(1) ce intro: subseq_order.trans)
        then show ?thesis using S f ce Some tl fence_keys [OF S] by (auto simp: store_inv_def g(2))
      qed
      moreover have "store_inv cd ?d A t" if "store_inv cd d A t" "apart s t" for t
        by (rule grow_others [OF D Some so nb own _ that]) simp
      ultimately show ?thesis using of res by (auto simp: step_ok_def apart_def)
    next
      case WriteDone
      let ?d = "bt_insert e (c @ buf) d" let ?s = "s\<lparr>target_len := target_len s + length buf\<rparr>"
      note g = grow_dir [OF dir_invD(1) [OF D] Some so nt]
      have bn: "buf \<noteq> []" using last_unlines [OF ls(2)] by (simp add: buf_def)
      show ?thesis
      proof (cases "bt_get d (e + 1)")
        case s1: (Some c1)
        then have res: "r = Inl Superseded" "superseded s'" "d' = ?d"
          using r Some WriteDone tg by (auto simp: append_to_def Let_def buf_def guard_not_superseded_def poison_def)
        have "dir_inv cd ?d A"
          using g(1) [of Map.empty] dir_invD(4) [OF D] by (intro grow_dir_inv [OF D Some so nt]) (metis subseq_order.trans)
        moreover have "store_inv cd ?d A t" if "store_inv cd d A t" "apart s t" for t
          by (rule grow_others [OF D Some so nt own _ that]) simp
        ultimately show ?thesis using res by (auto simp: step_ok_def)
      next
        case None
        then have res: "r = Inr ()" "s' = ?s" "d' = ?d"
          using r Some WriteDone tg by (auto simp: append_to_def Let_def buf_def guard_not_superseded_def)
        have tip: "e = tip d" using claimable [OF S] None ce by simp
        obtain xs where xs: "d = xs @ [(e, c)]" "?d = xs @ [(e, c @ buf)]"
          using tip_split [OF dir_invD(1) [OF D]] Some tip by metis
        have wf: "bt_wf (xs @ [(e, c)])" and un: "disk_seals cd (xs @ [(e, c)]) e = None"
          using dir_invD(1) [OF D] tip_unsealed [OF D] tip xs(1) by metis+
        have v: "view cd F' ?d = view cd F d @ map (Pair False) ls"
          if "\<And>x. x \<noteq> e \<Longrightarrow> F x = F' x" "F e = None \<or> F e = Some (length c)"
            "F' e = None \<or> F' e = Some (length (c @ buf))" for F F'
          unfolding xs(2) unfolding xs(1) ug(3) [symmetric]
          using that by (intro view_append_last [OF wf so nt un]) auto
        have "dir_inv cd ?d (A @ map (Pair False) ls)"
          using v [of Map.empty Map.empty] dir_invD(4) [OF D]
          by (intro grow_dir_inv [OF D Some so nt]) (simp add: list_emb_append_mono)
        moreover have "store_inv cd ?d (A @ map (Pair False) ls) ?s"
        proof -
 have nlt: "\<not> e < tip d" using tip by simp
          have cu: "cur ?s = e" "fence ?s = (fence s)(e \<mapsto> length (c @ buf))"
            using tg ce tl by (simp_all add: cur_def cur_len_def fence_def)
          have "in_power d s" using tg tip ce by (simp add: in_power_def)
          then have sa: "subseq A (view cd (fence s) d)" by (rule store_invD(8) [OF S])
          have fe: "fence s e = Some (length c)" using ce tl tg by (simp add: fence_def cur_def cur_len_def)
          have "view cd (fence ?s) ?d = view cd (fence s) d @ map (Pair False) ls"
            unfolding cu(2) by (rule v) (simp_all add: fe)
          with sa have "subseq (A @ map (Pair False) ls) (view cd (fence ?s) ?d)" by (simp add: list_emb_append_mono)
          then show ?thesis
            using S tg tl ce cu(1) solid_append [OF so ug(4)] eq_refl [OF tip] nlt
            unfolding store_inv_def g(2) by auto
        qed
        moreover have "store_inv cd ?d (A @ map (Pair False) ls) t" if "store_inv cd d A t" "apart s t" for t
          by (rule grow_others [OF D Some so nt own _ that]) (use tip bn in simp)
        moreover have "owns ?s x \<Longrightarrow> owns s x" for x using tg by (simp add: owns_def cur_def)
        ultimately show ?thesis using res by (auto simp: step_ok_def apart_def)
      qed
    qed
  qed
qed

text \<open>What every line of a view is, and what survives its byte copy.\<close>

definition clean_entry :: "bool \<times> string \<Rightarrow> bool" where
  "clean_entry x \<longleftrightarrow> (if fst x then snd x = [] else newline \<notin> set (snd x) \<and> length (snd x) \<le> MAX_LINE_BYTES \<and> snd x \<noteq> BASE_TRAILER)"

definition acked_entry :: "bool \<times> string \<Rightarrow> bool" where
  "acked_entry x \<longleftrightarrow> \<not> fst x \<and> good_line (snd x)"

lemma range_lines_clean: "x \<in> set (range_lines r) \<Longrightarrow> clean_entry x"
  by (auto simp: range_lines_def clean_entry_def dest: raw_lines_clean_set)

lemma view_clean: "x \<in> set (view cd F d) \<Longrightarrow> clean_entry x"
  by (auto simp: view_def lines_under_def Let_def range_lines_clean split: if_splits)

lemma view_bytes_unlines:
  assumes "list_all clean_entry v"
  shows "view_bytes v = unlines (map snd (filter acked_entry v))"
  using assms
proof (induction v)
  case (Cons x v)
  obtain b l where x: "x = (b, l)" by (cases x)
  have "append_sealed l = (if l = [] then [] else l @ [newline])" if "newline \<notin> set l"
    using that by (metis append_sealed_def last_in_set)
  with Cons x show ?case
    by (auto simp: view_bytes_def clean_entry_def acked_entry_def good_line_def)
qed (simp add: view_bytes_def)

lemma view_copy:
  assumes "list_all clean_entry v"
  shows "content_ok (view_bytes v)" and "range_lines (view_bytes v) = filter acked_entry v"
proof -
  have good: "list_all good_line (map snd (filter acked_entry v))" by (auto simp: list_all_iff acked_entry_def)
  have "map (Pair False) (map snd (filter acked_entry v)) = filter acked_entry v"
    by (auto simp: acked_entry_def intro!: map_idI)
  then show "content_ok (view_bytes v)" and "range_lines (view_bytes v) = filter acked_entry v"
    using unlines_good [OF good] view_bytes_unlines [OF assms] by simp_all
qed

lemma consolidate_ok:
  assumes D: "dir_inv cd d A" and S: "store_inv cd d A s" and live: "\<not> superseded s" and cd: "codec_ok cd"
    and fits: "header_fits cd (cur s + 1) (next_seals s) True" and A: "list_all acked_entry A"
    and torn: "\<And>n. io = BaseTorn n \<Longrightarrow>
      n < length (header_line cd (cur s + 1) (next_seals s) True @ view_bytes (view cd Map.empty d) @ BASE_TRAILER @ [newline])"
    and r: "consolidate cd io s d = (r, s', d')"
  shows "step_ok cd (prune_spares s) A s d A s' d' \<and> (r = Inr () \<longrightarrow> \<not> superseded s' \<and> target s' \<noteq> None)"
proof -
  obtain rd where rd: "try_open_reader cd d = Some rd" using dir_invD(2) [OF D] by (auto simp: try_open_reader_def Let_def)
  have v: "list_all clean_entry (view cd Map.empty d)" using view_clean by (auto simp: list_all_iff)
  have "subseq (filter acked_entry A) (filter acked_entry (view cd Map.empty d))" by (rule subseq_filter [OF dir_invD(4) [OF D]])
  moreover have "filter acked_entry A = A" using A by (simp add: filter_id_conv list_all_iff)
  ultimately have sub: "subseq A (range_lines (view_bytes (view cd Map.empty d)))" by (simp add: view_copy(2) [OF v])
  have "write_base cd io (view_bytes (view cd Map.empty d)) s d = (r, s', d')"
    using r rd by (simp add: consolidate_def reader_view)
  from write_base_ok [OF D S live cd fits view_copy(1) [OF v] sub sub torn this] show ?thesis by simp
qed

text \<open>What a write may run into: the headers it writes fit a line, and a base that fails is cut short.\<close>

definition torn_short :: "header_codec \<Rightarrow> seg_log \<Rightarrow> string \<Rightarrow> base_io \<Rightarrow> bool" where
  "torn_short cd s content io \<longleftrightarrow>
     (case io of
        BaseTorn n \<Rightarrow> n < length (header_line cd (cur s + 1) (next_seals s) True @ content @ BASE_TRAILER @ [newline])
      | _ \<Rightarrow> True)"

definition headers_fit :: "header_codec \<Rightarrow> seg_log \<Rightarrow> bool" where
  "headers_fit cd s \<longleftrightarrow> list_all (header_fits cd (cur s + 1) (next_seals s)) [True, False]"

lemma ensure_append_ok:
  assumes D: "dir_inv cd d A" and S: "store_inv cd d A s" and live: "\<not> superseded s" and cd: "codec_ok cd"
    and fits: "target s = None \<Longrightarrow> header_fits cd (cur s + 1) (next_seals s) False"
    and ls: "list_all good_line ls" "ls \<noteq> []"
    and r: "(case ensure_target cd io s d of (Inl e, s, d) \<Rightarrow> (Inl e, s, d)
       | (Inr epoch, s, d) \<Rightarrow> append_to w (unlines ls) epoch s d) = (r, s', d')"
  shows "step_ok cd P A s d (if r = Inr () then A @ map (Pair False) ls else A) s' d'"
proof -
  obtain q s1 d1 where q: "ensure_target cd io s d = (q, s1, d1)" by (metis prod_cases3)
  have t: "step_ok cd Q A s d A s1 d1 \<and> (\<forall>e. q = Inr e \<longrightarrow> target s1 = Some e \<and> \<not> superseded s1)" for Q
  proof (cases "target s")
    case None
    then show ?thesis by (intro ensure_target_ok [OF D S live cd _ q] fits)
  next
    case (Some e)
    then have "q = Inr e" "s1 = s" "d1 = d" using q by (simp_all add: ensure_target_def)
    then show ?thesis using Some live S by (simp add: step_ok_same [OF D])
  qed
  show ?thesis
  proof (cases q)
    case (Inl e)
    with r q t [of P] show ?thesis by auto
  next
    case (Inr e)
    with t have live1: "\<not> superseded s1" and tg: "target s1 = Some e" and st: "step_ok cd P A s d A s1 d1" by auto
    from st live1 have inv: "dir_inv cd d1 A" "store_inv cd d1 A s1" by (auto simp: step_ok_def)
    have "append_to w (unlines ls) e s1 d1 = (r, s', d')" using r q Inr by simp
    from step_ok_trans [OF st live1 append_to_ok [OF inv tg live1 ls this]] show ?thesis .
  qed
qed

lemma seg_append_ok:
  assumes D: "dir_inv cd d A" and S: "store_inv cd d A s" and live: "\<not> superseded s" and cd: "codec_ok cd"
    and fits: "headers_fit cd s" and A: "list_all acked_entry A" and ls: "list_all good_line ls" "ls \<noteq> []"
    and torn: "torn_short cd s (view_bytes (view cd Map.empty d)) (io_base io)"
    and r: "seg_append cd io (unlines ls) s d = (r, s', d')"
  shows "step_ok cd (\<lambda>t. consolidation_due s \<longrightarrow> prune_spares s t) A s d (if r = Inr () then A @ map (Pair False) ls else A) s' d'"
proof (cases "consolidation_due s")
  case False
  with r have "(case ensure_target cd (io_roll io) s d of (Inl e, s, d) \<Rightarrow> (Inl e, s, d)
       | (Inr epoch, s, d) \<Rightarrow> append_to (io_write io) (unlines ls) epoch s d) = (r, s', d')"
    unfolding seg_append_def append_sealed_unlines by simp
  from ensure_append_ok [OF D S live cd _ ls this] fits show ?thesis by (simp add: headers_fit_def)
next
  case True
  obtain q s1 d1 where q: "consolidate cd (io_base io) s d = (q, s1, d1)" by (metis prod_cases3)
  have "step_ok cd (prune_spares s) A s d A s1 d1 \<and> (q = Inr () \<longrightarrow> \<not> superseded s1 \<and> target s1 \<noteq> None)"
    using fits torn by (intro consolidate_ok [OF D S live cd _ A _ q]) (auto simp: headers_fit_def torn_short_def)
  then have t: "step_ok cd (\<lambda>t. consolidation_due s \<longrightarrow> prune_spares s t) A s d A s1 d1"
      "q = Inr () \<Longrightarrow> \<not> superseded s1 \<and> target s1 \<noteq> None" using True by (auto simp: step_ok_def)
  show ?thesis
  proof (cases q)
    case (Inl e)
    with r q t(1) True show ?thesis by (auto simp: seg_append_def)
  next
    case (Inr u)
    then have live1: "\<not> superseded s1" and tg: "target s1 \<noteq> None" using t(2) by auto
    from t(1) live1 have inv: "dir_inv cd d1 A" "store_inv cd d1 A s1" by (auto simp: step_ok_def)
    have "(case ensure_target cd (io_roll io) s1 d1 of (Inl e, s, d) \<Rightarrow> (Inl e, s, d)
       | (Inr epoch, s, d) \<Rightarrow> append_to (io_write io) (unlines ls) epoch s d) = (r, s', d')"
      using r q Inr True unfolding seg_append_def append_sealed_unlines by simp
    from ensure_append_ok [OF inv live1 cd _ ls this] tg show ?thesis by (intro step_ok_trans [OF t(1) live1]) simp
  qed
qed

lemma log_replace_ok:
  assumes D: "dir_inv cd d A" and S: "store_inv cd d A s" and live: "\<not> superseded s" and cd: "codec_ok cd"
    and fits: "headers_fit cd s" and ls: "list_all good_line ls"
    and io: "io \<noteq> BaseUnsynced" "torn_short cd s (unlines ls) io"
    and r: "write_base cd io (append_sealed (unlines ls)) s d = (r, s', d')"
  shows "step_ok cd (prune_spares s) A s d (if r = Inr () then map (Pair False) ls else A) s' d'"
proof -
  note ug = unlines_good [OF ls]
  have r': "write_base cd io (unlines ls) s d = (r, s', d')" using r unfolding append_sealed_unlines .
  have "step_ok cd (prune_spares s) A s d (if r = Inr () then map (Pair False) ls else A) s' d' \<and>
      (r = Inr () \<longrightarrow> \<not> superseded s' \<and> target s' \<noteq> None)"
    using fits io by (intro write_base_ok [OF D S live cd _ ug(4) _ _ _ r']) (auto simp: headers_fit_def torn_short_def ug(3))
  then show ?thesis by blast
qed

lemma create_ok:
  assumes cd: "codec_ok cd" and fits: "header_fits cd 1 [] True" and l: "good_line l"
    and r: "seg_create cd [] l = (Inr s, d)"
  shows "dir_inv cd d [(False, l)]" and "store_inv cd d [(False, l)] s"
proof -
  define bytes where "bytes = header_line cd 1 [] True @ unlines [l] @ BASE_TRAILER @ [newline]"
  have g: "list_all good_line [l]" using l by simp
  note ug = unlines_good [OF g]
  have ap: "append_sealed l = unlines [l]"
    using l by (auto simp: append_sealed_def good_line_def) (metis last_in_set)
  then have d: "d = [(1, bytes)]" and s: "target s = Some 1" "target_len s = length bytes" "seals s = []" "base s = Some 1"
    using r by (auto simp: seg_create_def Let_def bytes_def)
  have wf: "bt_wf ([] :: (nat, nat) btree)" "bt_wf ([] @ [(1, bytes)])" by (simp_all add: bt_wf_def)
  note bc = base_content [OF cd wf(1) fits ug(4), folded bytes_def]
  have v: "view cd F d = [(False, l)]" if "F 1 = None \<or> F 1 = Some (length bytes)" for F
    using view_base [OF cd wf(1) fits ug(4) wf(2) bytes_def, of F] that ug(3) by (simp add: d fold_seals_Nil)
  have "opened_seals (open_segment cd (1, bytes)) k = None" for k using bc(3) by simp
  then show "dir_inv cd d [(False, l)]" using v [of Map.empty] by (auto simp: dir_inv_def d bt_wf_def)
  have c: "cur s = 1" "cur_len s = length bytes" by (simp_all add: cur_def cur_len_def s)
  have "view cd (fence s) d = [(False, l)]" by (rule v) (simp add: fence_def c)
  then show "store_inv cd d [(False, l)] s"
    using bc(1) by (auto simp: store_inv_def s c d tip_def bt_wf_def)
qed

lemma lines_under_ends:
  assumes "\<And>o1. o1 \<in> set os \<Longrightarrow> seg_end Z o1 = seg_end Z' o1"
  shows "lines_under Z os = lines_under Z' os"
proof -
  have cb: "complete_base Z o1 = complete_base Z' o1" if "o1 \<in> set os" for o1
    using assms [OF that] by (simp add: complete_base_def split: option.split)
  have "find (complete_base Z) (rev os) = find (complete_base Z') (rev os)" by (rule find_cong) (use cb in auto)
  then have vs: "view_start Z os = view_start Z' os" by (simp add: view_start_def find_base_def)
  show ?thesis unfolding lines_under_def vs
    by (intro arg_cong [of _ _ concat] map_cong refl) (simp add: seg_range_def assms)
qed

lemma fold_seals_wf: "bt_wf (fold_seals os)"
proof (induction os rule: rev_induct)
  case Nil
  show ?case by (simp add: fold_seals_def bt_wf_def)
next
  case (snoc o1 os)
  have "fold_seals (os @ [o1]) =
      (case o_header o1 of Some h \<Rightarrow> extend_seals (header_seals h) (fold_seals os) | None \<Rightarrow> fold_seals os)"
    by (simp add: fold_seals_def split: option.split)
  with snoc show ?case by (simp add: extend_seals_def bt_wf_fold_insert split: option.split)
qed

lemma find_in_set: "find P xs = Some x \<Longrightarrow> x \<in> set xs"
  by (induction xs) (auto split: if_splits)

lemma open_ok:
  assumes D: "dir_inv cd d A" and r: "seg_open cd d ro = Inr s"
  shows "store_inv cd d A s \<and> apart s t \<and> apart t s \<and> \<not> superseded s"
proof -
  let ?os = "map (open_segment cd) d"
  define st where "st = view_start (bt_get (fold_seals ?os)) ?os"
  have ne: "d \<noteq> []" and wf: "bt_wf d" using dir_invD [OF D] by auto
  have s: "newest s = tip d" "consumed_len s = length (snd (last d))" "target s = None" "force_roll s = False" "superseded s = False"
      "seals s = fold_seals (filter (\<lambda>o1. st < o_epoch o1) ?os)" "base s = find_base (bt_get (fold_seals ?os)) ?os"
    using r ne by (auto simp: seg_open_def try_open_reader_def Let_def tip_def st_def)
  have c: "cur s = tip d" "cur_len s = length (snd (last d))" by (simp_all add: cur_def cur_len_def s)
  have sub: "bt_get (fold_seals ?os) k = Some v" if "bt_get (seals s) k = Some v" for k v
    using fold_seals_filter [OF dir_epochs [OF wf, of cd]] that unfolding s by blast
  have Z: "seg_end (bt_get (fold_seals ?os) ++ Map.empty) o1 = seg_end (bt_get (fold_seals ?os) ++ fence s) o1"
    if "o1 \<in> set ?os" for o1
  proof (cases "o_epoch o1 = tip d")
    case True
    from that obtain e c1 where x: "(e, c1) \<in> set d" "o1 = open_segment cd (e, c1)" by auto
    then have e: "e = tip d" using True by simp
    moreover have "bt_get d e = Some c1" using x(1) bt_get_in_set [OF wf] by blast
    ultimately have "c1 = snd (last d)" using tip_in [OF ne wf] by simp
    then show ?thesis using x e tip_unsealed [OF D]
      by (auto simp: seg_end_def fence_def c map_add_def)
  next
    case False
    then show ?thesis using sub [of "o_epoch o1"]
      by (auto simp: seg_end_def fence_def c map_add_def split: option.split)
  qed
  have "view cd Map.empty d = view cd (fence s) d"
    unfolding view_def Let_def by (rule lines_under_ends [OF Z])
  moreover have "bt_wf (seals s)" unfolding s by (rule fold_seals_wf)
  moreover have "k \<le> tip d" if "bt_get (seals s) k \<noteq> None" for k
  proof -
    from that sub have "bt_get (fold_seals ?os) k \<noteq> None" by auto
    from fold_seals_keys [OF this] obtain x where x: "x \<in> set d" "opened_seals (open_segment cd x) k \<noteq> None" by auto
    then have "k < fst x" using dir_invD(3) [OF D] by blast
    moreover have "fst x \<le> tip d" using tip_max [OF wf, of "fst x"] x(1) bt_get_in_set [OF wf] by (metis option.distinct(1) prod.collapse)
    ultimately show ?thesis by simp
  qed
  moreover have "b \<le> tip d" if "base s = Some b" for b
  proof -
    from that obtain e c1 where "(e, c1) \<in> set d" "b = e" unfolding s find_base_def
      by (auto dest!: find_in_set)
    then show ?thesis using tip_max [OF wf, of b] bt_get_in_set [OF wf, of b c1] by simp
  qed
  ultimately have "store_inv cd d A s"
    using dir_invD(4) [OF D] tip_in [OF ne wf] by (simp add: store_inv_def s c)
  then show ?thesis by (auto simp: apart_def owns_def s)
qed

end
