(* ===== verification/Segment_Session.thy ===== *)
theory Segment_Session
  imports Segment_Steps
begin

text \<open>
  Sessions: any number of processes that create, open, append to, rewrite and leave a session directory, with
  writes that fail at any byte. Proved: no acknowledged line is lost while pruning spares what live stores
  still check, nothing is read that was not written, and, by a concrete run, that pruning does not always spare it.
\<close>

section \<open>Nothing is read that was not written\<close>

definition file_from :: "header_codec \<Rightarrow> string set \<Rightarrow> string \<Rightarrow> bool" where
  "file_from cd L c \<longleftrightarrow>
     (case read_segment_header cd c of
        None \<Rightarrow> True
      | Some (_, hl) \<Rightarrow> set (raw_lines [] (drop hl c)) \<subseteq> insert BASE_TRAILER L)"

definition files_from :: "header_codec \<Rightarrow> string set \<Rightarrow> dir \<Rightarrow> bool" where
  "files_from cd L d \<longleftrightarrow> list_all (\<lambda>x. file_from cd L (snd x)) d"

definition target_solid :: "header_codec \<Rightarrow> seg_log \<Rightarrow> dir \<Rightarrow> bool" where
  "target_solid cd s d \<longleftrightarrow> (\<forall>e c. target s = Some e \<longrightarrow> bt_get d e = Some c \<longrightarrow> (\<exists>h hl. solid cd c h hl))"

lemma files_from_mono: "files_from cd L d \<Longrightarrow> L \<subseteq> L' \<Longrightarrow> files_from cd L' d"
  by (fastforce simp: files_from_def file_from_def list_all_iff split: option.splits)

lemma files_from_insert: "files_from cd L d \<Longrightarrow> file_from cd L c \<Longrightarrow> files_from cd L (bt_insert e c d)"
  using set_bt_insert_subset [of e c d] by (fastforce simp: files_from_def list_all_iff)

lemma files_from_get: "files_from cd L d \<Longrightarrow> bt_get d e = Some c \<Longrightarrow> file_from cd L c"
  by (auto simp: files_from_def list_all_iff dest!: map_of_SomeD)

lemma files_from_prune: "files_from cd L d \<Longrightarrow> files_from cd L (prune kept fl d)"
  using set_prune [of kept fl d] by (auto simp: files_from_def list_all_iff)

lemma lines_of_take: "set (raw_lines [] (take n s)) \<subseteq> set (raw_lines [] s)"
  using raw_lines_prefix [OF take_is_prefix, of n s] by (metis set_mono_prefix)

lemma file_from_take:
  assumes "codec_ok cd" "bt_wf sl" "header_fits cd e sl b" and "set (raw_lines [] body) \<subseteq> insert BASE_TRAILER L"
  shows "file_from cd L (take n (header_line cd e sl b @ body))"
  using read_header_take [OF assms(1-3), of n body] assms(4) lines_of_take [of _ body]
  by (force simp: file_from_def)

lemma file_from_append:
  assumes "solid cd c h hl" and "file_from cd L c" and "set (raw_lines [] b) \<subseteq> L"
  shows "file_from cd L (c @ take n b)"
proof -
  have rd: "read_segment_header cd c = Some (h, hl)" and tl: "line_tail [] (drop hl c) = []"
    using assms(1) by (auto simp: solid_def)
  from read_header_append [OF rd] rd tl assms(2,3) lines_of_take [of n b] show ?thesis
    by (auto simp: file_from_def raw_lines_append)
qed

lemma view_from:
  assumes "files_from cd L d" and "\<And>l. l \<in> L \<Longrightarrow> good_line l"
  shows "set (view cd F d) \<subseteq> Pair False ` L"
proof -
  have "set (range_lines (seg_range Z (open_segment cd (e, c)))) \<subseteq> Pair False ` L"
    if h: "(e, c) \<in> set d" "o_header (open_segment cd (e, c)) = Some h" for e c h Z
  proof -
    obtain hl where rd: "read_segment_header cd c = Some (h, hl)"
      using h(2) by (auto simp: open_segment_def split: option.splits)
    have "file_from cd L c" using assms(1) h(1) by (auto simp: files_from_def list_all_iff)
    then have "set (raw_lines [] (seg_range Z (open_segment cd (e, c)))) \<subseteq> insert BASE_TRAILER L"
      using lines_of_take rd unfolding seg_range_open [OF rd] by (fastforce simp: file_from_def)
    then show ?thesis using assms(2) by (fastforce simp: range_lines_def good_line_def)
  qed
  then show ?thesis by (fastforce simp: view_def lines_under_def Let_def in_view_def split: if_splits option.splits)
qed

lemma ensure_target_from:
  assumes "files_from cd L d" "target_solid cd s d" and cdk: "codec_ok cd"
    and fits: "target s = None \<Longrightarrow> bt_wf (next_seals s) \<and> header_fits cd (cur s + 1) (next_seals s) False"
    and r: "ensure_target cd io s d = (r, s', d')"
  shows "files_from cd L d' \<and> target_solid cd s' d'"
proof (cases "target s")
  case (Some e)
  with r assms(1,2) show ?thesis by (simp add: ensure_target_def)
next
  case None
  then have ns: "next_seals s = bt_insert (newest s) (consumed_len s) (seals s)" "cur s = newest s"
    by (simp_all add: next_seals_def cur_def cur_len_def)
  let ?h = "header_line cd (newest s + 1) (next_seals s) False"
  have fit: "header_fits cd (newest s + 1) (next_seals s) False" and cd: "codec_ok cd" "bt_wf (next_seals s)"
    using fits [OF None] ns(2) cdk by simp_all
  have "file_from cd L (take n ?h)" for n
    using file_from_take [OF cd fit, of "[]" L n] by simp
  from files_from_insert [OF assms(1) this] have ins: "files_from cd L (bt_insert e (take n ?h) d)" for n e .
  have "files_from cd L (bt_insert e ?h d)" for e using ins [of e "length ?h"] by simp
  moreover have "\<exists>h hl. solid cd ?h h hl" using roll_header(1) [OF cd fit] by blast
  ultimately show ?thesis using ins r None assms(1)
    unfolding ensure_target_def by (auto simp: Let_def ns(1) target_solid_def poison_def split: if_splits roll_io.splits; blast)
qed

lemma write_base_from:
  assumes "files_from cd L d" "target_solid cd s d" and cd: "codec_ok cd" "bt_wf (next_seals s)"
    and fits: "header_fits cd (cur s + 1) (next_seals s) True"
    and ct: "content_ok content" "set (raw_lines [] content) \<subseteq> L"
    and new: "bt_wf d"
    and r: "write_base cd io content s d = (r, s', d')"
  shows "files_from cd L d' \<and> target_solid cd s' d'"
proof -
  define bytes where "bytes = header_line cd (cur s + 1) (next_seals s) True @ content @ BASE_TRAILER @ [newline]"
  have "set (raw_lines [] (content @ BASE_TRAILER @ [newline])) \<subseteq> insert BASE_TRAILER L"
    using ct(2) range_lines_base(1) [OF ct(1)] by auto
  from file_from_take [OF cd fits this] have ff: "file_from cd L (take n bytes)" for n by (simp add: bytes_def)
  have ins: "files_from cd L (bt_insert e (take n bytes) d)" for n e by (rule files_from_insert [OF assms(1) ff])
  have ins': "files_from cd L (bt_insert e bytes d)" for e using ins [of e "length bytes"] by simp
  have so: "\<exists>h hl. solid cd bytes h hl" using base_content(1) [OF cd fits ct(1)] unfolding bytes_def by blast
  have un: "bt_get (prune kept fl (bt_insert e bytes d)) e = Some c \<Longrightarrow> c = bytes" for kept fl e c
    using bt_get_prune(1) [of "bt_insert e bytes d" kept fl e c] new by simp
  have eq: "write_base cd io content s d =
     (if (target s = None \<and> fenced_out s d) then (Inl Superseded, poison s, d)
      else if bt_get d (cur s + 1) \<noteq> None then (Inl Superseded, poison (s\<lparr>seals := next_seals s\<rparr>), d)
      else case io of
        BaseOpenFails \<Rightarrow> (Inl IoError, s\<lparr>seals := next_seals s\<rparr>, d)
      | BaseTorn n \<Rightarrow> (Inl IoError, s\<lparr>seals := next_seals s, target := None, newest := cur s + 1, consumed_len := 0,
            since_base := since_base s + 1, force_roll := True\<rparr>, bt_insert (cur s + 1) (take n bytes) d)
      | BaseUnsynced \<Rightarrow> (Inl IoError, s\<lparr>seals := []\<rparr>, bt_insert (cur s + 1) bytes d)
      | BaseDone kept \<Rightarrow> (Inr (), s\<lparr>base := Some (cur s + 1), seals := [], target := Some (cur s + 1), target_len := length bytes,
            newest := cur s + 1, consumed_len := length bytes, since_base := 0, force_roll := False\<rparr>,
          prune kept (base s) (bt_insert (cur s + 1) bytes d)))"
    by (auto simp: write_base_def Let_def cur_def cur_len_def next_seals_def bytes_def split: option.split base_io.split)
  show ?thesis using r ins ins' assms(1,2) so un files_from_prune unfolding eq
    by (auto simp: target_solid_def poison_def cur_def split: if_splits base_io.splits option.splits; blast)
qed

lemma write_base_target:
  "write_base cd io content s d = (Inr u, s', d') \<Longrightarrow> target s' \<noteq> None"
  by (auto simp: write_base_def Let_def split: option.splits if_splits base_io.splits)

lemma append_to_from:
  assumes "files_from cd L d" "target_solid cd s d" "target s = Some e" and ls: "list_all good_line ls" "set ls \<subseteq> L"
    and r: "append_to io (unlines ls) e s d = (r, s', d')"
  shows "files_from cd L d'"
proof (cases "bt_get d e")
  case None
  with r assms(1) show ?thesis by (auto simp: append_to_def Let_def)
next
  case (Some c)
  obtain h hl where so: "solid cd c h hl" using assms(2,3) Some by (auto simp: target_solid_def)
  have f: "file_from cd L (c @ take n (unlines ls))" for n
    using ls(2) unlines_good(1) [OF ls(1)] by (intro file_from_append [OF so files_from_get [OF assms(1) Some]]) simp
  have "\<exists>n. d' = bt_insert e (c @ take n (unlines ls)) d"
  proof (cases io)
    case (WriteTorn n)
    with r Some show ?thesis by (auto simp: append_to_def Let_def)
  next
    case WriteDone
    with r Some show ?thesis
      by (intro exI [of _ "length (unlines ls)"]) (auto simp: append_to_def Let_def split: prod.splits)
  qed
  then show ?thesis using files_from_insert [OF assms(1) f] by auto
qed

lemma ensure_append_from:
  assumes "files_from cd L d" "target_solid cd s d" "codec_ok cd"
    and fits: "target s = None \<Longrightarrow> bt_wf (next_seals s) \<and> header_fits cd (cur s + 1) (next_seals s) False"
    and ls: "list_all good_line ls" "set ls \<subseteq> L"
    and r: "(case ensure_target cd io s d of (Inl e, s, d) \<Rightarrow> (Inl e, s, d)
       | (Inr epoch, s, d) \<Rightarrow> append_to w (unlines ls) epoch s d) = (r, s', d')"
  shows "files_from cd L d'"
proof -
  obtain q s1 d1 where q: "ensure_target cd io s d = (q, s1, d1)" by (metis prod_cases3)
  have t: "files_from cd L d1" "target_solid cd s1 d1"
    using ensure_target_from [OF assms(1-3) fits q] by auto
  have tg: "target s1 = Some e" if "q = Inr e" for e
    using q that by (auto simp: ensure_target_def Let_def split: option.splits if_splits roll_io.splits)
  from r q t append_to_from [OF t tg ls] show ?thesis by (auto split: sum.splits)
qed

lemma seg_append_from:
  assumes L: "files_from cd L d" "\<And>l. l \<in> L \<Longrightarrow> good_line l" and S: "target_solid cd s d" "bt_wf (next_seals s)" and d: "bt_wf d" "d \<noteq> []"
    and cd: "codec_ok cd" "headers_fit cd s" and ls: "list_all good_line ls" "set ls \<subseteq> L"
    and r: "seg_append cd io (unlines ls) s d = (r, s', d')"
  shows "files_from cd L d'"
proof (cases "consolidation_due s")
  case False
  with r have "(case ensure_target cd (io_roll io) s d of (Inl e, s, d) \<Rightarrow> (Inl e, s, d)
       | (Inr epoch, s, d) \<Rightarrow> append_to (io_write io) (unlines ls) epoch s d) = (r, s', d')"
    unfolding seg_append_def append_sealed_unlines by simp
  from ensure_append_from [OF L(1) S(1) cd(1) _ ls this] S(2) cd(2) show ?thesis by (simp add: headers_fit_def)
next
  case True
  obtain rd where rd: "try_open_reader cd d = Some rd" using d(2) by (auto simp: try_open_reader_def Let_def)
  let ?v = "view cd Map.empty d"
  obtain q s1 d1 where q: "write_base cd (io_base io) (view_bytes ?v) s d = (q, s1, d1)" by (metis prod_cases3)
  have v: "list_all clean_entry ?v" using view_clean by (auto simp: list_all_iff)
  have "set (raw_lines [] (view_bytes ?v)) \<subseteq> L"
  proof -
    have "set (map snd (filter acked_entry ?v)) \<subseteq> L" using view_from [OF L, of Map.empty] by fastforce
    moreover have "list_all good_line (map snd (filter acked_entry ?v))" by (auto simp: list_all_iff acked_entry_def)
    ultimately show ?thesis using unlines_good(1) view_bytes_unlines [OF v] by simp
  qed
  then have t: "files_from cd L d1" "target_solid cd s1 d1"
    using write_base_from [OF L(1) S(1) cd(1) S(2) _ view_copy(1) [OF v] _ d(1) q] cd(2) by (auto simp: headers_fit_def)
  show ?thesis
  proof (cases q)
    case (Inl e)
    with r q rd t True show ?thesis by (auto simp: seg_append_def consolidate_def reader_view)
  next
    case (Inr u)
    have "(case ensure_target cd (io_roll io) s1 d1 of (Inl e, s, d) \<Rightarrow> (Inl e, s, d)
       | (Inr epoch, s, d) \<Rightarrow> append_to (io_write io) (unlines ls) epoch s d) = (r, s', d')"
      using r q rd Inr True unfolding seg_append_def append_sealed_unlines consolidate_def by (simp add: reader_view)
    moreover have "target s1 \<noteq> None" using write_base_target q Inr by blast
    ultimately show ?thesis by (intro ensure_append_from [OF t cd(1) _ ls]) auto
  qed
qed

lemma store_target_solid: "store_inv cd d A s \<Longrightarrow> target_solid cd s d"
  using store_invD(7) [of cd d A s] by (auto simp: target_solid_def cur_def)

lemma create_from:
  assumes "codec_ok cd" and "header_fits cd 1 [] True" and "good_line l" and "seg_create cd [] l = (Inr s, d)"
  shows "files_from cd {l} d"
proof -
  have ap: "append_sealed l = l @ [newline]"
    using assms(3) by (auto simp: append_sealed_def good_line_def) (metis last_in_set)
  let ?body = "l @ newline # BASE_TRAILER @ [newline]"
  have "set (raw_lines [] ?body) \<subseteq> insert BASE_TRAILER {l}"
    using assms(3) raw_lines_line(1) [of l "[]"] raw_lines_line(1) [OF trailer_clean, of "[]" "[]"] by (simp add: good_line_def)
  from file_from_take [OF assms(1) bt_wf_Nil assms(2) this, of "length (header_line cd 1 [] True @ ?body)"]
  show ?thesis using assms(4) ap by (auto simp: seg_create_def Let_def files_from_def)
qed

section \<open>Sessions\<close>

text \<open>
  A session directory, the stores of every process that has it open, the lines that were
  acknowledged (of the content last written as a whole, and of every append since), and all lines
  that were ever handed to a write.

  Each operation of a process is one step: the operations of different processes do not overlap, so
  no process acts between a successor's look at its predecessor's length and its creation of the next
  epoch (\<open>stat_window_loses_a_line\<close> below shows what happens there). Writes may fail or be torn at any
  byte, with two exceptions: a rewrite does not fail in the directory sync after its whole base landed
  (\<open>BaseUnsynced\<close>), and a base reported as torn is short of its last byte (\<open>torn_short\<close>); in both cases a
  reader finds the new content, although the caller was told that the old one stands. Headers fit
  in a line, and no base prunes an epoch by which a live store would notice its successor
  (\<open>prune_spares\<close>; \<open>stale_owner_is_acknowledged\<close> below shows why).
\<close>

inductive session_reach :: "header_codec \<Rightarrow> dir \<Rightarrow> seg_log list \<Rightarrow> string list \<Rightarrow> string list \<Rightarrow> bool" for cd where
  reach_create: "header_fits cd 1 [] True \<Longrightarrow> good_line l \<Longrightarrow> seg_create cd [] l = (Inr s, d) \<Longrightarrow>
    session_reach cd d [s] [l] [l]"
| reach_open: "session_reach cd d ss acked sent \<Longrightarrow> seg_open cd d ro = Inr s \<Longrightarrow> session_reach cd d (s # ss) acked sent"
| reach_exit: "session_reach cd d (xs @ s # ys) acked sent \<Longrightarrow> session_reach cd d (xs @ ys) acked sent"
| reach_append: "session_reach cd d (xs @ s # ys) acked sent \<Longrightarrow> log_append cd io (unlines ls) s d = (r, s', d') \<Longrightarrow>
    list_all good_line ls \<Longrightarrow> ls \<noteq> [] \<Longrightarrow> headers_fit cd s \<Longrightarrow>
    torn_short cd s (view_bytes (view cd Map.empty d)) (io_base io) \<Longrightarrow>
    consolidation_due s \<longrightarrow> list_all (prune_spares s) (filter (\<lambda>t. \<not> superseded t) (xs @ ys)) \<Longrightarrow>
    session_reach cd d' (xs @ s' # ys) (if r = Inr () then acked @ ls else acked) (sent @ ls)"
| reach_replace: "session_reach cd d (xs @ s # ys) acked sent \<Longrightarrow> log_replace_all cd io (unlines ls) s d = (r, s', d') \<Longrightarrow>
    list_all good_line ls \<Longrightarrow> headers_fit cd s \<Longrightarrow> io \<noteq> BaseUnsynced \<Longrightarrow> torn_short cd s (unlines ls) io \<Longrightarrow>
    list_all (prune_spares s) (filter (\<lambda>t. \<not> superseded t) (xs @ ys)) \<Longrightarrow>
    session_reach cd d' (xs @ s' # ys) (if r = Inr () then ls else acked) (sent @ ls)"

definition stores_inv :: "header_codec \<Rightarrow> dir \<Rightarrow> (bool \<times> string) list \<Rightarrow> seg_log list \<Rightarrow> bool" where
  "stores_inv cd d A ss \<longleftrightarrow>
     list_all (\<lambda>s. superseded s \<or> store_inv cd d A s) ss \<and>
     sorted_wrt (\<lambda>s t. superseded s \<or> superseded t \<or> apart s t) ss"

lemma apart_sym: "apart s t \<longleftrightarrow> apart t s" by (auto simp: apart_def)

lemma stores_inv_split:
  "stores_inv cd d A (xs @ s # ys) \<longleftrightarrow>
     stores_inv cd d A (xs @ ys) \<and> (superseded s \<or> store_inv cd d A s) \<and>
     list_all (\<lambda>t. superseded s \<or> superseded t \<or> apart s t) (xs @ ys)"
  by (auto simp: stores_inv_def sorted_wrt_append list_all_iff apart_sym)

lemma stores_step:
  assumes inv: "stores_inv cd d A (xs @ s # ys)" and live: "\<not> superseded s" and st: "step_ok cd P A s d A' s' d'"
    and P: "list_all P (filter (\<lambda>t. \<not> superseded t) (xs @ ys))"
  shows "dir_inv cd d' A'" and "stores_inv cd d' A' (xs @ s' # ys)"
proof -
  have others: "store_inv cd d' A' t \<and> (\<not> superseded s' \<longrightarrow> apart s' t)" if "t \<in> set (xs @ ys)" "\<not> superseded t" for t
  proof -
    have "store_inv cd d A t" "apart s t" "P t"
      using inv live that P unfolding stores_inv_split by (auto simp: stores_inv_def list_all_iff)
    with st show ?thesis by (auto simp: step_ok_def)
  qed
  show "dir_inv cd d' A'" using st by (simp add: step_ok_def)
  have "stores_inv cd d' A' (xs @ ys)" using inv others unfolding stores_inv_split by (auto simp: stores_inv_def list_all_iff)
  then show "stores_inv cd d' A' (xs @ s' # ys)"
    unfolding stores_inv_split using st others by (auto simp: step_ok_def list_all_iff)
qed

definition session_ok :: "header_codec \<Rightarrow> dir \<Rightarrow> seg_log list \<Rightarrow> string list \<Rightarrow> string list \<Rightarrow> bool" where
  "session_ok cd d ss acked sent \<longleftrightarrow>
     list_all good_line acked \<and> list_all good_line sent \<and> dir_inv cd d (map (Pair False) acked) \<and>
     stores_inv cd d (map (Pair False) acked) ss \<and> files_from cd (set sent) d"

lemma session_ok_append:
  assumes ok: "session_ok cd d (xs @ s # ys) acked sent" and cd: "codec_ok cd" and live: "\<not> superseded s"
    and r: "seg_append cd io (unlines ls) s d = (r, s', d')" and ls: "list_all good_line ls" "ls \<noteq> []" and fits: "headers_fit cd s"
    and torn: "torn_short cd s (view_bytes (view cd Map.empty d)) (io_base io)"
    and pr: "consolidation_due s \<longrightarrow> list_all (prune_spares s) (filter (\<lambda>t. \<not> superseded t) (xs @ ys))"
  shows "session_ok cd d' (xs @ s' # ys) (if r = Inr () then acked @ ls else acked) (sent @ ls)"
proof -
  let ?A = "map (Pair False) acked"
  have inv: "dir_inv cd d ?A" "stores_inv cd d ?A (xs @ s # ys)" and S: "store_inv cd d ?A s"
    and A: "list_all acked_entry ?A" and F: "files_from cd (set (sent @ ls)) d"
    using ok live files_from_mono [of cd "set sent" d "set (sent @ ls)"]
    by (auto simp: session_ok_def stores_inv_split list_all_iff acked_entry_def)
  note st = seg_append_ok [OF inv(1) S live cd fits A ls torn r]
  have "list_all (\<lambda>t. consolidation_due s \<longrightarrow> prune_spares s t) (filter (\<lambda>t. \<not> superseded t) (xs @ ys))"
    using pr by (auto simp: list_all_iff)
  note sp = stores_step [OF inv(2) live st this]
  have "files_from cd (set (sent @ ls)) d'"
    using ok ls by (intro seg_append_from [OF F _ store_target_solid [OF S] next_seals_wf [OF S] dir_invD(1,2) [OF inv(1)] cd fits ls(1) _ r])
      (auto simp: session_ok_def list_all_iff)
  with sp ok ls show ?thesis by (auto simp: session_ok_def list_all_iff)
qed

lemma session_ok_replace:
  assumes ok: "session_ok cd d (xs @ s # ys) acked sent" and cd: "codec_ok cd" and live: "\<not> superseded s"
    and r: "write_base cd io (append_sealed (unlines ls)) s d = (r, s', d')" and ls: "list_all good_line ls" and fits: "headers_fit cd s"
    and io: "io \<noteq> BaseUnsynced" "torn_short cd s (unlines ls) io"
    and pr: "list_all (prune_spares s) (filter (\<lambda>t. \<not> superseded t) (xs @ ys))"
  shows "session_ok cd d' (xs @ s' # ys) (if r = Inr () then ls else acked) (sent @ ls)"
proof -
  let ?A = "map (Pair False) acked"
  have inv: "dir_inv cd d ?A" "stores_inv cd d ?A (xs @ s # ys)" and S: "store_inv cd d ?A s" and F: "files_from cd (set (sent @ ls)) d"
    using ok live files_from_mono [of cd "set sent" d "set (sent @ ls)"] by (auto simp: session_ok_def stores_inv_split)
  note sp = stores_step [OF inv(2) live log_replace_ok [OF inv(1) S live cd fits ls io r] pr]
  have fit: "header_fits cd (cur s + 1) (next_seals s) True" using fits by (simp add: headers_fit_def)
  have r': "write_base cd io (unlines ls) s d = (r, s', d')" using r unfolding append_sealed_unlines .
  have "files_from cd (set (sent @ ls)) d'"
    using write_base_from [OF F store_target_solid [OF S] cd next_seals_wf [OF S] fit unlines_good(4) [OF ls] _ dir_invD(1) [OF inv(1)] r']
      unlines_good(1) [OF ls] by simp
  with sp ok ls show ?thesis by (auto simp: session_ok_def)
qed

lemma session_ok_more: "session_ok cd d ss acked sent \<Longrightarrow> list_all good_line ls \<Longrightarrow> session_ok cd d ss acked (sent @ ls)"
  using files_from_mono [of cd "set sent" d "set (sent @ ls)"] by (auto simp: session_ok_def)

lemma session_inv:
  assumes "session_reach cd d ss acked sent" and cd: "codec_ok cd"
  shows "session_ok cd d ss acked sent"
  using assms(1)
proof induction
  case (reach_create l s d)
  with create_ok [OF cd reach_create(1,2,3)] create_from [OF cd reach_create(1,2,3)] show ?case
    by (simp add: stores_inv_def session_ok_def)
next
  case (reach_open d ss acked sent ro s)
  have "store_inv cd d (map (Pair False) acked) s \<and> apart s t \<and> apart t s \<and> \<not> superseded s" for t
    using open_ok reach_open by (auto simp: session_ok_def)
  with reach_open show ?case by (auto simp: session_ok_def stores_inv_def list_all_iff)
next
  case (reach_exit d xs s ys acked sent)
  then show ?case by (simp add: session_ok_def stores_inv_split)
next
  case (reach_append d xs s ys acked sent io ls r s' d')
  show ?case
  proof (cases "guard_writable s")
    case (Some e)
    with reach_append session_ok_more show ?thesis by (auto simp: log_append_def)
  next
    case None
    then have "\<not> superseded s" "seg_append cd io (unlines ls) s d = (r, s', d')"
      using reach_append by (auto simp: guard_writable_def log_append_def split: if_splits)
    with reach_append show ?thesis by (intro session_ok_append [OF _ cd]) auto
  qed
next
  case (reach_replace d xs s ys acked sent io ls r s' d')
  show ?case
  proof (cases "guard_writable s")
    case (Some e)
    with reach_replace session_ok_more show ?thesis by (auto simp: log_replace_all_def)
  next
    case None
    then have "\<not> superseded s" "write_base cd io (append_sealed (unlines ls)) s d = (r, s', d')"
      using reach_replace by (auto simp: guard_writable_def log_replace_all_def split: if_splits)
    with reach_replace show ?thesis by (intro session_ok_replace [OF _ cd]) auto
  qed
qed


text \<open>
  C16. Nothing is made up. What a reader reads in such a session (operations one at a time, with the same exclusions) are whole lines that were handed to a write, and
  no line is ever cut or glued: torn headers, torn bases and torn appends are not read.
\<close>

theorem only_written_lines_are_read:
  assumes "codec_ok cd" and "session_reach cd d ss acked sent" and "try_open_reader cd d = Some r"
  shows "set (seg_read_all (rd_segs r)) \<subseteq> Pair False ` set sent"
proof -
  have "list_all good_line sent" "files_from cd (set sent) d"
    using session_inv [OF assms(2,1)] by (simp_all add: session_ok_def)
  then show ?thesis unfolding reader_view [OF assms(3)] by (intro view_from) (auto simp: list_all_iff)
qed

section \<open>A concrete header\<close>

definition unary :: "nat \<Rightarrow> string" where "unary n = replicate n (CHR ''x'')"

function parse_sealed :: "string \<Rightarrow> (string \<times> nat) list option" where
  "parse_sealed [] = Some []"
| "parse_sealed (c # s) =
     (let k = takeWhile is_ascii_digit s; v = takeWhile (\<lambda>c. c = CHR ''x'') (drop (length k + 1) s) in
      map_option (\<lambda>kvs. (k, length v) # kvs) (parse_sealed (drop (length k + 1 + length v) s)))"
  by pat_completeness auto
termination by (relation "measure length") auto

definition demo_codec :: header_codec where
  "demo_codec =
     \<lparr>to_vec = \<lambda>h. (if h_base h then CHR ''b'' else CHR ''a'') # unary (h_epoch h) @
        concat (map (\<lambda>(k, v). CHR ''k'' # k @ CHR ''v'' # unary v) (h_sealed h)),
      from_slice = \<lambda>s. (case s of
          [] \<Rightarrow> None
        | c # s \<Rightarrow>
            let e = takeWhile (\<lambda>c. c = CHR ''x'') s in
            map_option (\<lambda>kvs. \<lparr>h_epoch = length e, h_sealed = kvs, h_base = (c = CHR ''b'')\<rparr>)
              (parse_sealed (drop (length e) s)))\<rparr>"

lemma takeWhile_unary: "t = [] \<or> hd t \<noteq> CHR ''x'' \<Longrightarrow> takeWhile (\<lambda>c. c = CHR ''x'') (unary n @ t) = unary n"
  by (cases t) (auto simp: unary_def takeWhile_append)

lemma parse_sealed_encoded:
  "list_all (\<lambda>(k, v). list_all is_ascii_digit k) kvs \<Longrightarrow>
     parse_sealed (concat (map (\<lambda>(k, v). CHR ''k'' # k @ CHR ''v'' # unary v) kvs)) = Some kvs"
proof (induction kvs)
  case (Cons kv kvs)
  obtain k v where kv: "kv = (k, v)" by (cases kv)
  let ?t = "concat (map (\<lambda>(k, v). CHR ''k'' # k @ CHR ''v'' # unary v) kvs)"
  have k: "takeWhile is_ascii_digit (k @ CHR ''v'' # unary v @ ?t) = k"
    using Cons.prems kv by (simp add: takeWhile_append list_all_iff is_ascii_digit_def)
  have "?t = [] \<or> hd ?t \<noteq> CHR ''x''" by (cases kvs) auto
  then have "takeWhile (\<lambda>c. c = CHR ''x'') (unary v @ ?t) = unary v" by (rule takeWhile_unary)
  then show ?case using Cons k by (simp add: kv Let_def) (simp add: unary_def)
qed simp

lemma sealed_keys:
  "list_all (\<lambda>(k, v). list_all is_ascii_digit k) (h_sealed (mk_header e s b))"
proof -
  have "list_all (\<lambda>(k, v). list_all is_ascii_digit k) (fold (\<lambda>(k, v) m. bt_insert (show_nat k) v m) s m)"
    if "list_all (\<lambda>(k, v). list_all is_ascii_digit k) m" for m :: "(string, nat) btree"
    using that
  proof (induction s arbitrary: m)
    case (Cons x s)
    have "list_all (\<lambda>(k, v). list_all is_ascii_digit k) (bt_insert (show_nat (fst x)) (snd x) m)"
      using Cons.prems set_bt_insert_subset [of "show_nat (fst x)" "snd x" m] canonical_show [of "fst x"]
      by (fastforce simp: list_all_iff canonical_decimal_def)
    from Cons.IH [OF this] show ?case by (cases x) simp
  qed simp
  from this [of "[]"] show ?thesis by (simp add: mk_header_def)
qed

lemma demo_codec_ok: "codec_ok demo_codec"
proof -
  have "from_slice demo_codec (to_vec demo_codec h) = Some h \<and> newline \<notin> set (to_vec demo_codec h)"
    if k: "list_all (\<lambda>(k, v). list_all is_ascii_digit k) (h_sealed h)" for h
  proof
    let ?t = "concat (map (\<lambda>(k, v). CHR ''k'' # k @ CHR ''v'' # unary v) (h_sealed h))"
    have "?t = [] \<or> hd ?t \<noteq> CHR ''x''" by (cases "h_sealed h") auto
    from takeWhile_unary [OF this, of "h_epoch h"] parse_sealed_encoded [OF k]
    show "from_slice demo_codec (to_vec demo_codec h) = Some h"
      by (simp add: demo_codec_def Let_def) (simp add: unary_def)
    have "\<not> is_ascii_digit newline" by (simp add: is_ascii_digit_def newline_def)
    then have "newline \<notin> set a" if "(a, b) \<in> set (h_sealed h)" for a b using k that by (auto simp: list_all_iff)
    then show "newline \<notin> set (to_vec demo_codec h)" by (auto simp: demo_codec_def unary_def newline_def)
  qed
  then show ?thesis using sealed_keys by (auto simp: codec_ok_def)
qed

definition demo_dir :: dir where
  "demo_dir = snd (seg_create demo_codec [] ''h'')"

definition demo_store :: seg_log where
  "demo_store = projr (fst (seg_create demo_codec [] ''h''))"

lemma demo_create: "seg_create demo_codec [] ''h'' = (Inr demo_store, demo_dir)"
  by (simp add: demo_dir_def demo_store_def seg_create_def Let_def)

lemma demo_good [simp]: "good_line ''h''" "good_line ''b''"
  by (simp_all add: good_line_def newline_def MAX_LINE_BYTES_def BASE_TRAILER_def)

lemma demo_header_fits: "header_fits demo_codec 1 [] True"
  by (simp add: header_fits_def u64_seals_def demo_codec_def mk_header_def unary_def MAX_LINE_BYTES_def)

lemma demo_start: "session_reach demo_codec demo_dir [demo_store] [''h''] [''h'']"
  by (rule reach_create [OF demo_header_fits demo_good(1) demo_create])

lemma demo_fits: "headers_fit demo_codec demo_store"
  by (simp add: headers_fit_def header_fits_def next_seals_def cur_def cur_len_def demo_store_def seg_create_def Let_def
      header_line_def demo_codec_def mk_header_def unary_def MAX_LINE_BYTES_def u64_seals_def BASE_TRAILER_def append_sealed_def
      newline_def show_nat.simps)

text \<open>The first process fails half way through an append and tries again in the next epoch.\<close>

definition demo_failed_log :: seg_log where
  "demo_failed_log = demo_store\<lparr>seals := [(1, target_len demo_store)], newest := 1, consumed_len := target_len demo_store,
     force_roll := True, target := None\<rparr>"

lemmas demo_store_simps = demo_store_def seg_create_def Let_def

lemma demo_torn:
  "log_append demo_codec \<lparr>io_base = BaseOpenFails, io_roll = RollOpenFails, io_write = WriteTorn 1\<rparr> (unlines [''b'']) demo_store demo_dir =
     (Inl IoError, demo_failed_log, [(1, snd (hd demo_dir) @ ''b'')])"
  by (simp add: log_append_def guard_writable_def seg_append_def consolidation_due_def ensure_target_def append_to_def
      demo_failed_log_def demo_store_simps demo_dir_def append_sealed_def newline_def)

lemma demo_again:
  "\<exists>s d. log_append demo_codec \<lparr>io_base = BaseOpenFails, io_roll = RollDone, io_write = WriteDone\<rparr> (unlines [''b''])
     demo_failed_log [(1, c)] = (Inr (), s, d)"
  by (simp add: log_append_def guard_writable_def seg_append_def consolidation_due_def ensure_target_def append_to_def
      demo_failed_log_def demo_store_simps fenced_out_def guard_not_superseded_def)

lemma demo_fits_failed: "headers_fit demo_codec demo_failed_log"
  using demo_fits by (simp add: headers_fit_def demo_failed_log_def next_seals_def cur_def cur_len_def demo_store_simps)

lemma demo_session: "\<exists>d ss. session_reach demo_codec d ss [''h'', ''b''] [''h'', ''b'', ''b'']"
proof -
  have due: "\<not> consolidation_due demo_store" "\<not> consolidation_due demo_failed_log"
    by (simp_all add: consolidation_due_def demo_failed_log_def demo_store_simps)
  have "session_reach demo_codec [(1, snd (hd demo_dir) @ ''b'')] [demo_failed_log] [''h''] [''h'', ''b'']"
    using reach_append [of demo_codec demo_dir "[]" demo_store "[]" "[''h'']" "[''h'']", OF _ demo_torn] demo_start demo_fits due
    by (simp add: torn_short_def)
  moreover obtain s d where "log_append demo_codec \<lparr>io_base = BaseOpenFails, io_roll = RollDone, io_write = WriteDone\<rparr> (unlines [''b''])
     demo_failed_log [(1, snd (hd demo_dir) @ ''b'')] = (Inr (), s, d)" using demo_again by blast
  ultimately have "session_reach demo_codec d [s] [''h'', ''b''] [''h'', ''b'', ''b'']"
    using reach_append [of demo_codec _ "[]" demo_failed_log "[]" "[''h'']" "[''h'', ''b'']" _ "[''b'']" "Inr ()"] demo_fits_failed due
    by (force simp: torn_short_def)
  then show ?thesis by blast
qed


theorem only_written_lines_are_read_witness:
  "\<exists>d ss r. session_reach demo_codec d ss [''h'', ''b''] [''h'', ''b'', ''b''] \<and> try_open_reader demo_codec d = Some r \<and>
     set (seg_read_all (rd_segs r)) \<subseteq> {(False, ''h''), (False, ''b'')}"
proof -
  obtain d ss where s: "session_reach demo_codec d ss [''h'', ''b''] [''h'', ''b'', ''b'']" using demo_session by blast
  have "d \<noteq> []" using session_inv [OF s demo_codec_ok] by (simp add: session_ok_def dir_inv_def)
  then obtain r where "try_open_reader demo_codec d = Some r" by (auto simp: try_open_reader_def Let_def)
  with only_written_lines_are_read [OF demo_codec_ok s this] s show ?thesis by force
qed

section \<open>What the fence does not stop\<close>

lemma demo_dir_bytes:
  "demo_dir = [(1, header_line demo_codec 1 [] True @ unlines [''h''] @ BASE_TRAILER @ [newline])]"
  by (simp add: demo_dir_def seg_create_def Let_def append_sealed_def newline_def)

lemma demo_open: "seg_open demo_codec demo_dir False = Inr (demo_store\<lparr>target := None, target_len := 0\<rparr>)"
proof -
  let ?c = "header_line demo_codec 1 [] True @ unlines [''h''] @ BASE_TRAILER @ [newline]"
  have "content_ok (unlines [''h''])" by (rule unlines_good(4)) simp
  note bc = base_content [OF demo_codec_ok bt_wf_Nil demo_header_fits this]
  have "disk_seals demo_codec demo_dir = Map.empty"
    using bc(3) fold_seals_snoc [of "[]" "open_segment demo_codec (1, ?c)"] by (simp add: demo_dir_bytes fold_seals_Nil)
  with bc(2) [of Map.empty] have "find_base (disk_seals demo_codec demo_dir) (map (open_segment demo_codec) demo_dir) = Some 1"
    by (simp add: demo_dir_bytes find_base_def)
  then show ?thesis
    by (simp add: seg_open_def try_open_reader_def Let_def view_start_def)
      (simp add: demo_dir_bytes fold_seals_def demo_store_simps append_sealed_def newline_def)
qed

definition io_done :: append_io where
  "io_done = \<lparr>io_base = BaseDone [], io_roll = RollDone, io_write = WriteDone\<rparr>"

definition demo_h2 :: string where "demo_h2 = header_line demo_codec 2 [(1, target_len demo_store)] False"

definition demo_b2 :: seg_log where
  "demo_b2 = demo_store\<lparr>seals := [(1, target_len demo_store)], since_base := 1, target := Some 2, target_len := length demo_h2 + 2\<rparr>"

definition demo_d2 :: dir where "demo_d2 = demo_dir @ [(2, demo_h2 @ unlines [''b''])]"

lemma demo_takeover:
  "log_append demo_codec io_done (unlines [''b'']) (demo_store\<lparr>target := None, target_len := 0\<rparr>) demo_dir = (Inr (), demo_b2, demo_d2)"
  by (simp add: log_append_def guard_writable_def seg_append_def consolidation_due_def ensure_target_def append_to_def
      demo_b2_def demo_h2_def demo_d2_def io_done_def fenced_out_def stat_len_def guard_not_superseded_def
      demo_dir_bytes demo_store_simps append_sealed_def newline_def numeral_2_eq_2)

text \<open>The successor then writes the whole session twice, and its second base retires its first epoch.\<close>

definition demo_s3 :: "(nat, nat) btree" where "demo_s3 = [(1, target_len demo_store), (2, length demo_h2 + 2)]"

definition demo_c3 :: string where "demo_c3 = header_line demo_codec 3 demo_s3 True @ unlines [''n''] @ BASE_TRAILER @ [newline]"

definition demo_c4 :: string where
  "demo_c4 = header_line demo_codec 4 [(3, length demo_c3)] True @ unlines [''m''] @ BASE_TRAILER @ [newline]"

definition demo_b3 :: seg_log where
  "demo_b3 = demo_b2\<lparr>base := Some 3, seals := [], target := Some 3, target_len := length demo_c3, newest := 3,
     consumed_len := length demo_c3, since_base := 0, force_roll := False\<rparr>"

lemma demo_rewrite:
  "log_replace_all demo_codec (BaseDone []) (unlines [''n'']) demo_b2 demo_d2 = (Inr (), demo_b3, demo_d2 @ [(3, demo_c3)])"
  by (simp add: log_replace_all_def guard_writable_def write_base_def Let_def append_sealed_def newline_def demo_b2_def demo_b3_def
      demo_d2_def demo_c3_def demo_s3_def demo_dir_bytes prune_def)
    (simp add: demo_store_simps)

lemma demo_rewrite_again:
  "\<exists>s. log_replace_all demo_codec (BaseDone []) (unlines [''m'']) demo_b3 (demo_d2 @ [(3, demo_c3)]) =
     (Inr (), s, demo_dir @ [(3, demo_c3), (4, demo_c4)])"
  by (simp add: log_replace_all_def guard_writable_def write_base_def Let_def append_sealed_def newline_def demo_b3_def
      demo_d2_def demo_c4_def demo_dir_bytes prune_def)
    (simp add: demo_b2_def demo_store_simps)

lemma demo_stale:
  "\<exists>s. log_append demo_codec io_done (unlines [''lost'']) demo_store (demo_dir @ [(3, demo_c3), (4, demo_c4)]) =
     (Inr (), s, [(1, snd (hd demo_dir) @ unlines [''lost'']), (3, demo_c3), (4, demo_c4)])"
  by (simp add: log_append_def guard_writable_def seg_append_def consolidation_due_def ensure_target_def append_to_def
      io_done_def guard_not_superseded_def demo_dir_bytes demo_store_simps append_sealed_def newline_def)

lemma demo_fits34: "header_fits demo_codec 3 demo_s3 True" "header_fits demo_codec 4 [(3, length demo_c3)] True"
  by (simp_all add: header_fits_def demo_s3_def demo_c3_def demo_h2_def demo_store_simps header_line_def demo_codec_def mk_header_def
      unary_def MAX_LINE_BYTES_def u64_seals_def BASE_TRAILER_def append_sealed_def newline_def show_nat.simps)

lemma demo_lost:
  "view demo_codec Map.empty [(1, snd (hd demo_dir) @ unlines [''lost'']), (3, demo_c3), (4, demo_c4)] = [(False, ''m'')]"
proof -
  let ?c1 = "snd (hd demo_dir)" and ?c = "snd (hd demo_dir) @ unlines [''lost'']"
  have g: "list_all good_line [x]" if "x \<in> {''h'', ''n'', ''m''}" for x
    using that by (auto simp: good_line_def newline_def MAX_LINE_BYTES_def BASE_TRAILER_def)
  have wf: "bt_wf demo_s3" "bt_wf [(3 :: nat, length demo_c3)]" by (simp_all add: demo_s3_def bt_wf_def)
  have b1: "opened_seals (open_segment demo_codec (1, ?c1)) = Map.empty" "solid demo_codec ?c1 (mk_header 1 [] True) (length (header_line demo_codec 1 [] True))"
    using base_content(1,3) [OF demo_codec_ok bt_wf_Nil demo_header_fits unlines_good(4) [OF g], of "''h''"] by (simp_all add: demo_dir_bytes)
  have o1: "opened_seals (open_segment demo_codec (1, ?c)) = Map.empty"
    using b1 opened_seals_append by (auto simp: solid_def)
  have o3: "opened_seals (open_segment demo_codec (3, demo_c3)) = bt_get demo_s3"
    using base_content(3) [OF demo_codec_ok wf(1) demo_fits34(1) unlines_good(4) [OF g], of "''n''"] by (simp add: demo_c3_def)
  have "disk_seals demo_codec ([(1, ?c)] @ [(3, demo_c3)]) 4 = None"
    unfolding disk_seals_snoc o3 using o1 disk_seals_snoc [of demo_codec "[]" "(1, ?c)"]
    by (simp add: demo_s3_def fold_seals_Nil map_add_def)
  then have "view demo_codec Map.empty ([(1, ?c), (3, demo_c3)] @ [(4, demo_c4)]) = range_lines (unlines [''m''])"
    by (intro view_base [OF demo_codec_ok wf(2) demo_fits34(2) unlines_good(4) [OF g [of "''m''"]]]) (auto simp: bt_wf_def demo_c4_def split: if_splits)
  then show ?thesis using unlines_good(3) [OF g [of "''m''"]] by simp
qed

text \<open>
  A stale owner can be told that its line is safe when it is not: pruning removes the very epoch by which
  it would have noticed its successor. The process that created the session still holds epoch 1; another
  opens it, appends and rewrites it twice; then the first appends. Every write succeeds, and the line
  of the last is not in the session.
\<close>

lemma stale_owner_is_acknowledged:
  "\<exists>b b1 d1 b2 d2 b3 d3 a d4.
     seg_open demo_codec demo_dir False = Inr b \<and>
     log_append demo_codec io_done (unlines [''b'']) b demo_dir = (Inr (), b1, d1) \<and>
     log_replace_all demo_codec (BaseDone []) (unlines [''n'']) b1 d1 = (Inr (), b2, d2) \<and>
     log_replace_all demo_codec (BaseDone []) (unlines [''m'']) b2 d2 = (Inr (), b3, d3) \<and>
     log_append demo_codec io_done (unlines [''lost'']) demo_store d3 = (Inr (), a, d4) \<and>
     view demo_codec Map.empty d4 = [(False, ''m'')]"
proof -
  obtain b3 where b3: "log_replace_all demo_codec (BaseDone []) (unlines [''m'']) demo_b3 (demo_d2 @ [(3, demo_c3)]) =
     (Inr (), b3, demo_dir @ [(3, demo_c3), (4, demo_c4)])" using demo_rewrite_again by blast
  obtain a where "log_append demo_codec io_done (unlines [''lost'']) demo_store (demo_dir @ [(3, demo_c3), (4, demo_c4)]) =
     (Inr (), a, [(1, snd (hd demo_dir) @ unlines [''lost'']), (3, demo_c3), (4, demo_c4)])" using demo_stale by blast
  with demo_open demo_takeover demo_rewrite b3 demo_lost show ?thesis by blast
qed

text \<open>
  Taking over is two system calls: a look at the predecessor's length, and the exclusive creation of
  the next epoch. \<open>claim_epoch\<close> is the second on its own.
\<close>

definition claim_epoch :: "header_codec \<Rightarrow> seg_log \<Rightarrow> dir \<Rightarrow> (log_error + nat) \<times> seg_log \<times> dir" where
  "claim_epoch cd s d =
     (let sl = bt_insert (newest s) (consumed_len s) (seals s); epoch = newest s + 1;
          header = header_line cd epoch sl False in
      if bt_get d epoch \<noteq> None then (Inl Superseded, poison (s\<lparr>seals := sl\<rparr>), d)
      else (Inr epoch,
            s\<lparr>seals := sl, target := Some epoch, target_len := length header, since_base := since_base s + 1,
              force_roll := False\<rparr>, bt_insert epoch header d))"

lemma ensure_target_two_calls:
  "target s = None \<Longrightarrow>
   ensure_target cd RollDone s d = (if fenced_out s d then (Inl Superseded, poison s, d) else claim_epoch cd s d)"
  by (simp add: ensure_target_def claim_epoch_def Let_def)

lemma demo_fits2: "header_fits demo_codec 2 [(1, target_len demo_store)] False"
  by (simp add: header_fits_def demo_store_simps header_line_def demo_codec_def mk_header_def
      unary_def MAX_LINE_BYTES_def u64_seals_def BASE_TRAILER_def append_sealed_def newline_def show_nat.simps)

lemma demo_sealed_away:
  "view demo_codec Map.empty [(1, snd (hd demo_dir) @ b), (2, demo_h2)] = [(False, ''h'')]"
proof -
  let ?c = "snd (hd demo_dir)" and ?F = "[1 \<mapsto> target_len demo_store]"
  let ?o1 = "open_segment demo_codec (1, ?c @ b)" and ?o2 = "open_segment demo_codec (2, demo_h2)"
  have g: "list_all good_line [''h'']" by (simp add: good_line_def newline_def MAX_LINE_BYTES_def BASE_TRAILER_def)
  note bc = base_content [OF demo_codec_ok bt_wf_Nil demo_header_fits unlines_good(4) [OF g]]
  have len: "target_len demo_store = length ?c" by (simp add: demo_dir_bytes demo_store_simps append_sealed_def newline_def)
  obtain h hl where rd: "read_segment_header demo_codec ?c = Some (h, hl)" using bc(1) by (auto simp: solid_def demo_dir_bytes)
  note rd' = read_header_append(1) [OF rd, of "b"] and hl = read_header_append(2) [OF rd]
  have same: "seg_range ?F ?o1 = seg_range Map.empty (open_segment demo_codec (1, ?c))"
    using hl by (simp add: seg_range_open [OF rd] seg_range_open [OF rd'] len)
  have o1: "opened_seals ?o1 = Map.empty"
    unfolding opened_seals_append [OF rd] using bc(3) by (simp add: demo_dir_bytes)
  have b0: "complete_base Map.empty (open_segment demo_codec (1, ?c))"
    "range_lines (seg_range Map.empty (open_segment demo_codec (1, ?c))) = [(False, ''h'')]"
    using bc(2) [of Map.empty] unlines_good(3) [OF g] by (simp_all add: demo_dir_bytes)
  have b1: "complete_base ?F ?o1" "range_lines (seg_range ?F ?o1) = [(False, ''h'')]"
    unfolding complete_base_open [OF rd'] same complete_base_open [OF rd, of Map.empty 1, symmetric]
    using b0 complete_base_open [OF rd, of Map.empty 1] by blast+
  have rd2: "read_segment_header demo_codec demo_h2 = Some (mk_header 2 [(1, target_len demo_store)] False, length demo_h2)"
    using read_header_line [OF demo_codec_ok _ demo_fits2, of "[]"] by (simp add: demo_h2_def bt_wf_def)
  have o2: "opened_seals ?o2 = ?F"
    using open_segment_header(1) [OF rd2, of 2] header_seals_mk [of "[(1, target_len demo_store)]" 2 False] demo_fits2
    by (simp add: opened_seals_def header_fits_def bt_wf_def)
  have "idle Z ?o2" for Z
    using open_segment_header(1) [OF rd2, of 2] by (simp add: idle_def complete_base_open [OF rd2] seg_range_open [OF rd2] mk_header_def)
  then have "view demo_codec Map.empty ([(1, ?c @ b)] @ [(2, demo_h2)]) = view demo_codec ?F [(1, ?c @ b)]"
    using view_snoc_idle [of "[(1, ?c @ b)]" 2 demo_h2 ?o2 demo_codec Map.empty] by (simp add: bt_wf_def o2)
  also have "\<dots> = [(False, ''h'')]"
    using view_snoc_base [of "[]" 1 "?c @ b" ?o1 demo_codec ?F] b1 by (simp add: bt_wf_def o1 fold_seals_Nil del: One_nat_def)
  finally show ?thesis by simp
qed

text \<open>
  The window the documentation of \<^verbatim>\<open>guard_not_superseded\<close> names is real. A successor opens the session and
  finds its predecessor as long as it read it; the owner then appends, finds no later epoch and
  acknowledges its line; the successor creates epoch 2, which seals epoch 1 at the length it read. The
  acknowledged line is gone for every reader.
\<close>

lemma stat_window_loses_a_line:
  "\<exists>b a d1 b1 d2.
     seg_open demo_codec demo_dir False = Inr b \<and> target b = None \<and> \<not> fenced_out b demo_dir \<and>
     log_append demo_codec io_done (unlines [''lost'']) demo_store demo_dir = (Inr (), a, d1) \<and>
     claim_epoch demo_codec b d1 = (Inr 2, b1, d2) \<and>
     view demo_codec Map.empty d2 = [(False, ''h'')]"
proof -
  let ?b = "demo_store\<lparr>target := None, target_len := 0\<rparr>" and ?d1 = "[(1, snd (hd demo_dir) @ unlines [''lost''])]"
  have "\<not> fenced_out ?b demo_dir"
    by (simp add: fenced_out_def stat_len_def demo_dir_bytes demo_store_simps append_sealed_def newline_def)
  moreover have "\<exists>a. log_append demo_codec io_done (unlines [''lost'']) demo_store demo_dir = (Inr (), a, ?d1)"
    by (simp add: log_append_def guard_writable_def seg_append_def consolidation_due_def ensure_target_def append_to_def
      io_done_def guard_not_superseded_def demo_dir_bytes demo_store_simps append_sealed_def newline_def)
  moreover have "\<exists>b1. claim_epoch demo_codec ?b ?d1 = (Inr 2, b1, ?d1 @ [(2, demo_h2)])"
    by (simp add: claim_epoch_def Let_def demo_h2_def demo_store_simps append_sealed_def newline_def numeral_2_eq_2)
  ultimately show ?thesis using demo_open demo_sealed_away by fastforce
qed

end
