(* ===== verification/Json_Lex.thy ===== *)
theory Json_Lex
  imports Rust_Std
begin

text \<open>
  The gateway's JSON lexer, \<^verbatim>\<open>gateway/src/lex.rs\<close>: a resumable state machine that finds strings and
  nesting depth, reports them to a visitor, and jumps over string contents to the next quote or backslash;
  and the decoding of string contents. Proved here: for a visitor that takes contents in pieces, the lexer
  is a byte-at-a-time automaton, so where a body is cut into chunks does not matter.
\<close>

section \<open>The lexer\<close>

abbreviation quote :: char where "quote \<equiv> CHR 0x22"
abbreviation backslash :: char where "backslash \<equiv> CHR 0x5C"

datatype lex_state = Outside | Plain | Escaped | Escape

record lexer =
  lx_depth :: nat
  lx_state :: lex_state

text \<open>
  The callbacks of a \<^verbatim>\<open>Visit\<close>or, as functions of its state. The flag of \<^verbatim>\<open>byte\<close> and \<^verbatim>\<open>close\<close> is
  \<^verbatim>\<open>Flow::Break\<close>.
\<close>

record 'v visitor =
  v_byte :: "nat \<Rightarrow> char \<Rightarrow> nat \<Rightarrow> 'v \<Rightarrow> 'v \<times> bool"
  v_open :: "nat \<Rightarrow> nat \<Rightarrow> 'v \<Rightarrow> 'v"
  v_content :: "string \<Rightarrow> 'v \<Rightarrow> 'v"
  v_close :: "nat \<Rightarrow> nat \<Rightarrow> bool \<Rightarrow> 'v \<Rightarrow> 'v \<times> bool"

datatype lex_step = StepOn nat | StepBreak "nat option"

definition lexer_new :: lexer where "lexer_new = \<lparr>lx_depth = 0, lx_state = Outside\<rparr>"

definition lexer_in_string :: lexer where "lexer_in_string = \<lparr>lx_depth = 0, lx_state = Plain\<rparr>"

definition memchr2 :: "char \<Rightarrow> char \<Rightarrow> string \<Rightarrow> nat option" where
  "memchr2 a b s = (let k = length (takeWhile (\<lambda>c. c \<noteq> a \<and> c \<noteq> b) s) in if k < length s then Some k else None)"

function lex_string :: "'v visitor \<Rightarrow> string \<Rightarrow> nat \<Rightarrow> nat \<Rightarrow> bool \<Rightarrow> nat \<Rightarrow> 'v \<Rightarrow> lex_state \<times> 'v \<times> lex_step" where
  "lex_string V bytes start i escaped depth v =
     (case memchr2 quote backslash (drop i bytes) of
        None \<Rightarrow> (if escaped then Escaped else Plain, v_content V (drop start bytes) v, StepBreak None)
      | Some k \<Rightarrow>
          let pos = i + k in
          if bytes ! pos = quote then
            let v = v_content V (take (pos - start) (drop start bytes)) v; (v, stop) = v_close V pos depth escaped v in
            (Outside, v, if stop then StepBreak (Some (pos + 1)) else StepOn (pos + 1))
          else if length bytes < pos + 2 then (Escape, v_content V (drop start bytes) v, StepBreak None)
          else lex_string V bytes start (pos + 2) True depth v)"
  by pat_completeness auto
termination by (relation "measure (\<lambda>(V, bytes, start, i, _). length bytes - i)") (auto simp: memchr2_def Let_def split: if_splits)

declare lex_string.simps [simp del]

lemma lex_string_on:
  "lex_string V bytes start i escaped depth v = (st, v', StepOn n) \<Longrightarrow> i < n \<and> n \<le> length bytes"
proof (induction V bytes start i escaped depth v rule: lex_string.induct)
  case (1 V bytes start i escaped depth v)
  show ?case
    using "1.prems" [unfolded lex_string.simps [of V bytes start i]] "1.IH"
    by (force simp: memchr2_def Let_def split: if_splits option.splits prod.splits)
qed

definition depth_after :: "char \<Rightarrow> nat \<Rightarrow> nat" where
  "depth_after b depth =
     (if b = CHR ''{'' \<or> b = CHR ''['' then min (depth + 1) U32_MAX
      else if b = CHR ''}'' \<or> b = CHR '']'' then depth - 1
      else depth)"

function lex_loop :: "'v visitor \<Rightarrow> string \<Rightarrow> nat \<Rightarrow> nat \<Rightarrow> 'v \<Rightarrow> lexer \<times> 'v \<times> nat option" where
  "lex_loop V bytes i depth v =
     (if i < length bytes then
        let b = bytes ! i in
        if b = quote then
          case lex_string V bytes (i + 1) (i + 1) False depth (v_open V i depth v) of
            (st, v, StepOn n) \<Rightarrow> lex_loop V bytes n depth v
          | (st, v, StepBreak stopped) \<Rightarrow> (\<lparr>lx_depth = depth, lx_state = st\<rparr>, v, stopped)
        else
          let (v, stop) = v_byte V i b depth v; depth = depth_after b depth in
          if stop then (\<lparr>lx_depth = depth, lx_state = Outside\<rparr>, v, Some (i + 1))
          else lex_loop V bytes (i + 1) depth v
      else (\<lparr>lx_depth = depth, lx_state = Outside\<rparr>, v, None))"
  by pat_completeness auto
termination by (relation "measure (\<lambda>(V, bytes, i, _). length bytes - i)") (auto dest: lex_string_on [OF sym])

declare lex_loop.simps [simp del]

definition feed :: "'v visitor \<Rightarrow> string \<Rightarrow> lexer \<Rightarrow> 'v \<Rightarrow> lexer \<times> 'v \<times> nat option" where
  "feed V bytes lx v =
     (let depth = lx_depth lx in
      if lx_state lx = Outside then lex_loop V bytes 0 depth v
      else
        let escaped = (lx_state lx \<noteq> Plain); from = (if lx_state lx = Escape then 1 else 0) in
        if length bytes < from then (lx, v, None)
        else
          case lex_string V bytes 0 from escaped depth v of
            (st, v, StepOn n) \<Rightarrow> lex_loop V bytes n depth v
          | (st, v, StepBreak stopped) \<Rightarrow> (\<lparr>lx_depth = depth, lx_state = st\<rparr>, v, stopped))"

definition string_close :: "unit visitor" where
  "string_close =
     \<lparr>v_byte = (\<lambda>_ _ _ v. (v, False)), v_open = (\<lambda>_ _ v. v), v_content = (\<lambda>_ v. v), v_close = (\<lambda>_ _ _ v. (v, True))\<rparr>"

definition string_end :: "string \<Rightarrow> nat \<Rightarrow> nat option" where
  "string_end b op =
     (let from = op + 1 in
      if length b < from then None
      else
        case feed string_close (drop from b) lexer_in_string () of
          (_, _, Some e) \<Rightarrow> Some (from + e)
        | (_, _, None) \<Rightarrow> None)"

section \<open>Decoding\<close>

definition hex4 :: "string \<Rightarrow> (nat \<times> string) option" where
  "hex4 rest =
     (case rest of
        a # b # c # d # rest \<Rightarrow>
          (case (digit_val 16 a, digit_val 16 b, digit_val 16 c, digit_val 16 d) of
             (Some a, Some b, Some c, Some d) \<Rightarrow> Some (((a * 16 + b) * 16 + c) * 16 + d, rest)
           | _ \<Rightarrow> None)
      | _ \<Rightarrow> None)"

definition char_from_u32 :: "nat \<Rightarrow> nat option" where
  "char_from_u32 c = (if c < 0xD800 \<or> 0xE000 \<le> c \<and> c \<le> 0x10FFFF then Some c else None)"

definition unicode_escape :: "string \<Rightarrow> (nat \<times> string) option" where
  "unicode_escape rest =
     (case hex4 rest of
        None \<Rightarrow> None
      | Some (hi, rest) \<Rightarrow>
          if 0xD800 \<le> hi \<and> hi \<le> 0xDBFF then
            (case strip_prefix [backslash, CHR ''u''] rest of
               None \<Rightarrow> None
             | Some rest \<Rightarrow>
                 (case hex4 rest of
                    None \<Rightarrow> None
                  | Some (lo, rest) \<Rightarrow>
                      if \<not> (0xDC00 \<le> lo \<and> lo \<le> 0xDFFF) then None
                      else map_option (\<lambda>c. (c, rest)) (char_from_u32 (0x10000 + (hi - 0xD800) * 1024 + (lo - 0xDC00)))))
          else if 0xDC00 \<le> hi \<and> hi \<le> 0xDFFF then None
          else map_option (\<lambda>c. (c, rest)) (char_from_u32 hi))"

definition encode_utf8 :: "nat \<Rightarrow> string" where
  "encode_utf8 c =
     map char_of
       (if c < 0x80 then [c]
        else if c < 0x800 then [0xC0 + c div 64, 0x80 + c mod 64]
        else if c < 0x10000 then [0xE0 + c div 4096, 0x80 + c div 64 mod 64, 0x80 + c mod 64]
        else [0xF0 + c div 262144, 0x80 + c div 4096 mod 64, 0x80 + c div 64 mod 64, 0x80 + c mod 64])"

definition escape_piece :: "char \<Rightarrow> string \<Rightarrow> (string \<times> string) option" where
  "escape_piece e after =
     (if e = quote \<or> e = backslash \<or> e = CHR ''/'' then Some ([e], after)
      else if e = CHR ''b'' then Some ([CHR 0x08], after)
      else if e = CHR ''f'' then Some ([CHR 0x0C], after)
      else if e = CHR ''n'' then Some ([CHR 0x0A], after)
      else if e = CHR ''r'' then Some ([CHR 0x0D], after)
      else if e = CHR ''t'' then Some ([CHR 0x09], after)
      else if e = CHR ''u'' then map_option (\<lambda>(c, after). (encode_utf8 c, after)) (unicode_escape after)
      else None)"

lemma hex4_less: "hex4 rest = Some (n, rest') \<Longrightarrow> length rest = length rest' + 4"
  by (auto simp: hex4_def split: list.splits option.splits)

lemma unicode_escape_less: "unicode_escape rest = Some (c, rest') \<Longrightarrow> length rest = length rest' + 4 \<or> length rest = length rest' + 10"
  by (force simp: unicode_escape_def strip_prefix_def split: option.splits if_splits dest!: hex4_less)

lemma escape_piece_less: "escape_piece e after = Some (piece, after') \<Longrightarrow> length after' \<le> length after"
  by (auto simp: escape_piece_def dest!: unicode_escape_less split: if_splits)

text \<open>The walk over a string's content. The sink is a function of its state; \<open>None\<close> is a stop.\<close>

function decode :: "(string \<Rightarrow> 's \<Rightarrow> 's option) \<Rightarrow> string \<Rightarrow> 's \<Rightarrow> 's option" where
  "decode sink rest s =
     (let run = takeWhile (\<lambda>c. c \<noteq> backslash) rest; tail = drop (length run) rest in
      if list_ex (\<lambda>c. byte c < 0x20 \<or> c = quote) run then None
      else
        case (if run = [] then Some s else sink run s) of
          None \<Rightarrow> None
        | Some s \<Rightarrow>
            (case tail of
               [] \<Rightarrow> Some s
             | [_] \<Rightarrow> None
             | _ # e # after \<Rightarrow>
                 (case escape_piece e after of
                    None \<Rightarrow> None
                  | Some (piece, after) \<Rightarrow>
                      (case sink piece s of None \<Rightarrow> None | Some s \<Rightarrow> decode sink after s))))"
  by pat_completeness auto
termination
proof (relation "measure (\<lambda>(sink, rest, s). length rest)", goal_cases)
  case (2 sink rest s run tail s1 a tail1 e after p piece after1 s2)
  have "length after1 \<le> length after" using 2 escape_piece_less by metis
  moreover have "length (a # e # after) \<le> length rest" using 2(2,5,6) by (metis length_drop diff_le_self)
  ultimately have "length after1 < length rest" by simp
  then show ?case by simp
qed simp

declare decode.simps [simp del]

definition unescape :: "string \<Rightarrow> string option" where
  "unescape raw = (case decode (\<lambda>piece out. Some (out @ piece)) raw [] of None \<Rightarrow> None | Some out \<Rightarrow> from_utf8 out)"

definition unescapes_to :: "string \<Rightarrow> string \<Rightarrow> bool" where
  "unescapes_to raw want \<longleftrightarrow>
     \<not> length want * 6 < length raw \<and> decode strip_prefix raw want = Some []"

section \<open>One byte at a time\<close>

definition lex1 :: "'v visitor \<Rightarrow> nat \<Rightarrow> char \<Rightarrow> lexer \<Rightarrow> 'v \<Rightarrow> lexer \<times> 'v \<times> bool" where
  "lex1 V pos c lx v =
     (case lx_state lx of
        Outside \<Rightarrow>
          if c = quote then (lx\<lparr>lx_state := Plain\<rparr>, v_open V pos (lx_depth lx) v, False)
          else let (v, stop) = v_byte V pos c (lx_depth lx) v in (lx\<lparr>lx_depth := depth_after c (lx_depth lx)\<rparr>, v, stop)
      | Escape \<Rightarrow> (lx\<lparr>lx_state := Escaped\<rparr>, v_content V [c] v, False)
      | st \<Rightarrow>
          if c = quote then
            let (v, stop) = v_close V pos (lx_depth lx) (st = Escaped) v in (lx\<lparr>lx_state := Outside\<rparr>, v, stop)
          else (lx\<lparr>lx_state := if c = backslash then Escape else st\<rparr>, v_content V [c] v, False))"

fun lex_bytes :: "'v visitor \<Rightarrow> nat \<Rightarrow> string \<Rightarrow> lexer \<Rightarrow> 'v \<Rightarrow> lexer \<times> 'v \<times> nat option" where
  "lex_bytes V pos [] lx v = (lx, v, None)"
| "lex_bytes V pos (c # s) lx v =
     (case lex1 V pos c lx v of
        (lx, v, stop) \<Rightarrow> if stop then (lx, v, Some (pos + 1)) else lex_bytes V (pos + 1) s lx v)"

lemma lex_bytes_append:
  "lex_bytes V pos (s @ t) lx v =
     (case lex_bytes V pos s lx v of
        (lx, v, None) \<Rightarrow> lex_bytes V (pos + length s) t lx v
      | (lx, v, Some e) \<Rightarrow> (lx, v, Some e))"
  by (induction V pos s lx v rule: lex_bytes.induct) (auto split: prod.split)

locale piecewise =
  fixes V :: "'v visitor"
  assumes content_Nil: "v_content V [] v = v"
    and content_append: "v_content V (s @ t) v = v_content V t (v_content V s v)"
begin

lemma plain_run:
  assumes "quote \<notin> set s" "backslash \<notin> set s" "st = Plain \<or> st = Escaped"
  shows "lex_bytes V pos (s @ t) \<lparr>lx_depth = d, lx_state = st\<rparr> v =
    lex_bytes V (pos + length s) t \<lparr>lx_depth = d, lx_state = st\<rparr> (v_content V s v)"
  using assms
proof (induction s arbitrary: pos v)
  case (Cons c s)
  then show ?case using content_append [of "[c]" s v] by (auto simp: lex1_def split: lex_state.split)
qed (simp add: content_Nil)

lemma lex_string_bytes:
  assumes "start \<le> i" "i \<le> length bytes"
  shows "lex_bytes V i (drop i bytes) \<lparr>lx_depth = d, lx_state = (if escaped then Escaped else Plain)\<rparr>
      (v_content V (take (i - start) (drop start bytes)) v) =
    (case lex_string V bytes start i escaped d v of
       (st, v, StepOn n) \<Rightarrow> lex_bytes V n (drop n bytes) \<lparr>lx_depth = d, lx_state = Outside\<rparr> v
     | (st, v, StepBreak stopped) \<Rightarrow> (\<lparr>lx_depth = d, lx_state = st\<rparr>, v, stopped))"
  using assms
proof (induction "length bytes - i" arbitrary: i escaped v rule: less_induct)
  case less
  let ?st = "if escaped then Escaped else Plain"
  define pre where "pre = take (i - start) (drop start bytes)"
  define run where "run = takeWhile (\<lambda>c. c \<noteq> quote \<and> c \<noteq> backslash) (drop i bytes)"
  have run: "quote \<notin> set run" "backslash \<notin> set run" by (auto simp: run_def dest: set_takeWhileD)
  have step: "lex_bytes V i (run @ t) \<lparr>lx_depth = d, lx_state = ?st\<rparr> (v_content V pre v) =
      lex_bytes V (i + length run) t \<lparr>lx_depth = d, lx_state = ?st\<rparr> (v_content V (pre @ run) v)" for t
    using plain_run [OF run, of ?st i t d "v_content V pre v"] by (simp add: content_append)
  have "drop (i - start) (drop start bytes) = drop i bytes" using less.prems by simp
  then have pre: "pre @ drop i bytes = drop start bytes" "length pre = i - start"
    using less.prems append_take_drop_id [of "i - start" "drop start bytes"] by (simp_all add: pre_def)
  show ?case
  proof (cases "length run < length (drop i bytes)")
    case False
    then have dr: "drop i bytes = run" unfolding run_def by (metis length_takeWhile_le order_le_less takeWhile_eq_take take_all)
    then have "memchr2 quote backslash (drop i bytes) = None" using False unfolding memchr2_def run_def [symmetric] by (simp add: Let_def)
    then show ?thesis
      using step [of "[]"] dr pre(1) unfolding pre_def [symmetric] by (simp add: lex_string.simps [of V bytes start i])
  next
    case True
    define p where "p = i + length run"
    have m: "memchr2 quote backslash (drop i bytes) = Some (length run)" using True unfolding memchr2_def run_def [symmetric] by (simp add: Let_def)
    have lt: "p < length bytes" using True by (simp add: p_def)
    have c: "bytes ! p = quote \<or> bytes ! p = backslash"
      using nth_length_takeWhile [of "\<lambda>c. c \<noteq> quote \<and> c \<noteq> backslash" "drop i bytes"] True by (auto simp: run_def p_def less.prems)
    have dr: "drop i bytes = run @ bytes ! p # drop (p + 1) bytes"
    proof -
      have "drop i bytes = run @ drop (length run) (drop i bytes)" by (metis append_take_drop_id run_def takeWhile_eq_take)
      then show ?thesis using lt by (simp add: p_def Cons_nth_drop_Suc add.commute)
    qed
    have pr: "pre @ run = take (p - start) (drop start bytes)"
    proof -
      have "drop start bytes = (pre @ run) @ bytes ! p # drop (p + 1) bytes" using pre(1) dr by simp
      moreover have "length (pre @ run) = p - start" using pre(2) less.prems(1) by (simp add: p_def)
      ultimately show ?thesis by (metis append_eq_conv_conj)
    qed
    have L: "lex_bytes V i (drop i bytes) \<lparr>lx_depth = d, lx_state = ?st\<rparr> (v_content V pre v) =
        lex_bytes V p (bytes ! p # drop (p + 1) bytes) \<lparr>lx_depth = d, lx_state = ?st\<rparr> (v_content V (pre @ run) v)"
      using step [of "bytes ! p # drop (p + 1) bytes"] unfolding dr p_def by simp
    show ?thesis
    proof (cases "bytes ! p = quote")
      case True
      then show ?thesis
        unfolding pre_def [symmetric] L using m pr
        by (subst lex_string.simps) (auto simp: p_def lex1_def Let_def split: prod.split)
    next
      case bs: False
      have dp: "pre @ run @ drop p bytes = drop start bytes"
        using pre(1) dr lt by (simp add: Cons_nth_drop_Suc)
      show ?thesis
      proof (cases "drop (p + 1) bytes")
        case Nil
        then have "drop p bytes = [bytes ! p]" using lt Cons_nth_drop_Suc [of p bytes] by simp
        with Nil bs c lt m dp show ?thesis
          unfolding pre_def [symmetric] L
          by (subst lex_string.simps) (auto simp: p_def lex1_def Let_def content_append [symmetric])
      next
        case (Cons e t)
        then have p1: "p + 1 < length bytes" by (metis drop_all list.distinct(1) not_le)
        have dr2: "drop (p + 1) bytes = bytes ! (p + 1) # drop (p + 2) bytes" using p1 by (simp add: Cons_nth_drop_Suc)
        have "pre @ run @ [bytes ! p, bytes ! (p + 1)] = take (p + 2 - start) (drop start bytes)"
        proof -
          have "drop start bytes = (pre @ run @ [bytes ! p, bytes ! (p + 1)]) @ drop (p + 2) bytes" using pre(1) dr dr2 by simp
          moreover have "length (pre @ run @ [bytes ! p, bytes ! (p + 1)]) = p + 2 - start" using pre(2) less.prems(1) by (simp add: p_def)
          ultimately show ?thesis by (metis append_eq_conv_conj)
        qed
        moreover have "length bytes - (p + 2) < length bytes - i" "start \<le> p + 2" "p + 2 \<le> length bytes"
          using p1 less.prems(1) by (simp_all add: p_def)
        note less.hyps [OF this, of True v]
        ultimately have IH: "lex_bytes V (p + 2) (drop (p + 2) bytes) \<lparr>lx_depth = d, lx_state = Escaped\<rparr>
            (v_content V (pre @ run @ [bytes ! p, bytes ! (p + 1)]) v) =
          (case lex_string V bytes start (p + 2) True d v of
             (st, v, StepOn n) \<Rightarrow> lex_bytes V n (drop n bytes) \<lparr>lx_depth = d, lx_state = Outside\<rparr> v
           | (st, v, StepBreak stopped) \<Rightarrow> (\<lparr>lx_depth = d, lx_state = st\<rparr>, v, stopped))"
          by simp
        have "lex_string V bytes start i escaped d v = lex_string V bytes start (p + 2) True d v"
          using m bs p1 by (subst lex_string.simps) (simp add: p_def Let_def)
        moreover have "lex_bytes V p (bytes ! p # drop (p + 1) bytes) \<lparr>lx_depth = d, lx_state = ?st\<rparr> (v_content V (pre @ run) v) =
            lex_bytes V (p + 2) (drop (p + 2) bytes) \<lparr>lx_depth = d, lx_state = Escaped\<rparr>
              (v_content V (pre @ run @ [bytes ! p, bytes ! (p + 1)]) v)"
          using bs c content_append [of "pre @ run" "[bytes ! p]"] content_append [of "pre @ run @ [bytes ! p]" "[bytes ! (p + 1)]"]
          unfolding dr2 by (auto simp: lex1_def)
        ultimately show ?thesis unfolding pre_def [symmetric] L using IH by simp
      qed
    qed
  qed
qed

lemma lex_loop_bytes: "lex_loop V bytes i d v = lex_bytes V i (drop i bytes) \<lparr>lx_depth = d, lx_state = Outside\<rparr> v"
proof (induction "length bytes - i" arbitrary: i d v rule: less_induct)
  case less
  show ?case
  proof (cases "i < length bytes")
    case False
    then show ?thesis by (simp add: lex_loop.simps [of V bytes i])
  next
    case True
    then have dr: "drop i bytes = bytes ! i # drop (Suc i) bytes" by (simp add: Cons_nth_drop_Suc)
    show ?thesis
    proof (cases "bytes ! i = quote")
      case q: True
      note st = lex_string_bytes [of "Suc i" "Suc i" bytes d False "v_open V i d v"]
      have IH: "lex_loop V bytes n d v' = lex_bytes V n (drop n bytes) \<lparr>lx_depth = d, lx_state = Outside\<rparr> v'"
        if "lex_string V bytes (Suc i) (Suc i) False d (v_open V i d v) = (st, v', StepOn n)" for st v' n
        using lex_string_on [OF that] True by (intro less.hyps) linarith
      show ?thesis
        using True q st IH unfolding dr lex_loop.simps [of V bytes i]
        by (auto simp: lex1_def content_Nil split: prod.splits lex_step.splits)
    next
      case False
      then show ?thesis
        using True less.hyps [of "Suc i"] unfolding dr lex_loop.simps [of V bytes i]
        by (auto simp: lex1_def split: prod.splits)
    qed
  qed
qed

lemma feed_bytes: "feed V bytes lx v = lex_bytes V 0 bytes lx v"
proof (cases lx)
  case (fields d st)
  show ?thesis
  proof (cases st)
    case Outside
    then show ?thesis using fields by (simp add: feed_def lex_loop_bytes)
  next
    case Plain
    then show ?thesis using fields lex_string_bytes [of 0 0 bytes d False v]
      by (simp add: feed_def lex_loop_bytes content_Nil split: prod.split lex_step.split)
  next
    case Escaped
    then show ?thesis using fields lex_string_bytes [of 0 0 bytes d True v]
      by (simp add: feed_def lex_loop_bytes content_Nil split: prod.split lex_step.split)
  next
    case Escape
    then show ?thesis using fields lex_string_bytes [of 0 1 bytes d True v]
      by (cases bytes) (simp_all add: feed_def lex_loop_bytes content_Nil lex1_def split: prod.split lex_step.split)
  qed
qed

end

interpretation string_close: piecewise string_close
  by unfold_locales (simp_all add: string_close_def)

section \<open>Comparing without decoding\<close>

abbreviation append_sink :: "string \<Rightarrow> string \<Rightarrow> string option" where
  "append_sink \<equiv> \<lambda>piece out. Some (out @ piece)"

text \<open>One run of plain bytes and the escape after it, if there is one.\<close>

definition decode_step :: "string \<Rightarrow> (string \<times> (string \<times> string) option) option" where
  "decode_step rest =
     (let run = takeWhile (\<lambda>c. c \<noteq> backslash) rest; tail = drop (length run) rest in
      if list_ex (\<lambda>c. byte c < 0x20 \<or> c = quote) run then None
      else case tail of
        [] \<Rightarrow> Some (run, None)
      | [_] \<Rightarrow> None
      | _ # e # after \<Rightarrow> map_option (\<lambda>p. (run, Some p)) (escape_piece e after))"

definition sink_run :: "(string \<Rightarrow> 's \<Rightarrow> 's option) \<Rightarrow> string \<Rightarrow> 's \<Rightarrow> 's option" where
  "sink_run sink run s = (if run = [] then Some s else sink run s)"

lemma decode_by_step:
  "decode sink rest s =
     (case decode_step rest of
        None \<Rightarrow> None
      | Some (run, p) \<Rightarrow>
          (case sink_run sink run s of
             None \<Rightarrow> None
           | Some s \<Rightarrow>
               (case p of
                  None \<Rightarrow> Some s
                | Some (piece, after) \<Rightarrow> (case sink piece s of None \<Rightarrow> None | Some s \<Rightarrow> decode sink after s))))"
proof -
  define run where "run = takeWhile (\<lambda>c. c \<noteq> backslash) rest"
  define tail where "tail = drop (length run) rest"
  consider "tail = []" | x where "tail = [x]" | x e after where "tail = x # e # after" by (metis list.exhaust)
  then show ?thesis
    unfolding decode.simps [of sink rest] decode_step_def run_def [symmetric] Let_def tail_def [symmetric] sink_run_def [symmetric]
    by cases (simp_all split: option.split)
qed

lemma sink_run_append: "sink_run append_sink run out = Some (out @ run)"
  by (simp add: sink_run_def)

lemma encode_utf8_length: "1 \<le> length (encode_utf8 c)" "0x10000 \<le> c \<Longrightarrow> length (encode_utf8 c) = 4"
  by (simp_all add: encode_utf8_def)

lemma unicode_escape_long:
  assumes "unicode_escape rest = Some (c, after)"
  shows "length rest = length after + 4 \<or> length rest = length after + 10 \<and> 0x10000 \<le> c"
  using assms
  by (auto simp: unicode_escape_def strip_prefix_def char_from_u32_def split: option.splits if_splits dest!: hex4_less)

lemma escape_piece_length:
  assumes "escape_piece e after = Some (piece, after')"
  shows "piece \<noteq> []" and "length after + 2 \<le> length after' + 6 * length piece"
proof -
  have "piece \<noteq> [] \<and> length after + 2 \<le> length after' + 6 * length piece"
  proof (cases "e = CHR ''u''")
    case True
    with assms obtain c where c: "unicode_escape after = Some (c, after')" "piece = encode_utf8 c"
      by (auto simp: escape_piece_def)
    from unicode_escape_long [OF c(1)] encode_utf8_length [of c] show ?thesis by (auto simp: c(2))
  next
    case False
    with assms show ?thesis by (auto simp: escape_piece_def split: if_splits)
  qed
  then show "piece \<noteq> []" "length after + 2 \<le> length after' + 6 * length piece" by auto
qed

lemma decode_step_length:
  assumes "decode_step rest = Some (run, p)"
  shows "case p of None \<Rightarrow> rest = run | Some (piece, after) \<Rightarrow> length after < length rest \<and>
    length rest \<le> length run + 6 * length piece + length after"
proof -
  let ?run = "takeWhile (\<lambda>c. c \<noteq> backslash) rest"
  have len: "length rest = length ?run + length (drop (length ?run) rest)"
    by (metis append_take_drop_id length_append takeWhile_eq_take)
  show ?thesis
  proof (cases p)
    case None
    then show ?thesis using assms
      by (auto simp: decode_step_def Let_def split: if_splits list.splits) (metis length_takeWhile_le order_antisym takeWhile_eq_take take_all)
  next
    case (Some q)
    obtain piece after where q: "q = (piece, after)" by (cases q)
    with assms Some obtain x e tl where d: "drop (length ?run) rest = x # e # tl" "escape_piece e tl = Some (piece, after)" "run = ?run"
      by (auto simp: decode_step_def Let_def split: if_splits list.splits)
    show ?thesis using escape_piece_length [OF d(2)] escape_piece_less [OF d(2)] len d by (simp add: Some q)
  qed
qed

lemma strip_prefix_two: "strip_prefix (p @ q) w = (case strip_prefix p w of None \<Rightarrow> None | Some r \<Rightarrow> strip_prefix q r)"
proof -
  have "strip_prefix (p @ q) w = Some r \<longleftrightarrow> (case strip_prefix p w of None \<Rightarrow> None | Some r \<Rightarrow> strip_prefix q r) = Some r" for r
    by (auto simp: strip_prefix_Some split: option.splits)
  then show ?thesis by (metis option.exhaust)
qed

lemma decode_append: "decode append_sink rest out = map_option (\<lambda>t. out @ t) (decode append_sink rest [])"
proof (induction "length rest" arbitrary: rest out rule: less_induct)
  case less
  show ?case
  proof (cases "decode_step rest")
    case None
    then show ?thesis by (simp add: decode_by_step)
  next
    case (Some x)
    obtain run p where x: "x = (run, p)" by (cases x)
    show ?thesis
    proof (cases p)
      case None
      then show ?thesis using Some x by (simp add: decode_by_step sink_run_append)
    next
      case p: (Some q)
      obtain piece after where q: "q = (piece, after)" by (cases q)
      have "length after < length rest" using decode_step_length [OF Some [unfolded x]] by (simp add: p q)
      note IH = less [OF this]
      have "decode append_sink after (out @ run @ piece) = map_option ((@) (out @ run @ piece)) (decode append_sink after [])" by (rule IH)
      moreover have "decode append_sink after (run @ piece) = map_option ((@) (run @ piece)) (decode append_sink after [])" by (rule IH)
      moreover have "decode append_sink rest o1 = decode append_sink after (o1 @ run @ piece)" for o1
        using Some x p q by (subst decode_by_step) (simp add: sink_run_append)
      ultimately show ?thesis by (cases "decode append_sink after []") simp_all
    qed
  qed
qed

lemma decode_strip:
  "decode strip_prefix rest w = (case decode append_sink rest [] of None \<Rightarrow> None | Some t \<Rightarrow> strip_prefix t w) \<and>
   (\<forall>t. decode append_sink rest [] = Some t \<longrightarrow> length rest \<le> 6 * length t)"
proof (induction "length rest" arbitrary: rest w rule: less_induct)
  case less
  show ?case
  proof (cases "decode_step rest")
    case None
    then show ?thesis by (simp add: decode_by_step)
  next
    case (Some x)
    obtain run p where x: "x = (run, p)" by (cases x)
    have sr: "sink_run strip_prefix run w = strip_prefix run w" by (simp add: sink_run_def strip_prefix_def)
    show ?thesis
    proof (cases p)
      case None
      then show ?thesis using Some x sr decode_step_length [OF Some [unfolded x]]
        by (simp add: decode_by_step sr sink_run_append split: option.split)
    next
      case p: (Some q)
      obtain piece after where q: "q = (piece, after)" by (cases q)
      have len: "length after < length rest" "length rest \<le> length run + 6 * length piece + length after"
        using decode_step_length [OF Some [unfolded x]] by (simp_all add: p q)
      note IH = less [OF len(1)]
      have "decode append_sink rest [] = map_option ((@) (run @ piece)) (decode append_sink after [])"
        using Some x p q decode_append [of after "run @ piece"]
        by (subst decode_by_step) (cases "decode append_sink after []"; simp add: sink_run_append)
      moreover have "decode strip_prefix rest w = (case strip_prefix (run @ piece) w of None \<Rightarrow> None | Some r \<Rightarrow> decode strip_prefix after r)"
        using Some x p q sr by (subst decode_by_step) (simp add: strip_prefix_two split: option.split)
      moreover have "length after \<le> 6 * length t" if "decode append_sink after [] = Some t" for t using IH that by blast
      ultimately show ?thesis using IH len(2) strip_prefix_two [of "run @ piece"]
        by (cases "decode append_sink after []") (fastforce split: option.splits)+
    qed
  qed
qed

lemma unescapes_to_iff: "from_utf8 want = Some want \<Longrightarrow> unescapes_to raw want \<longleftrightarrow> unescape raw = Some want"
  using decode_strip [of raw want]
  by (auto simp: unescapes_to_def unescape_def strip_prefix_def from_utf8_def split: option.splits if_splits)

text \<open>
  The comparison that allocates nothing is the comparison of the decoded text: a string's raw content
  is found to spell a text exactly when a strict parser decodes it to that text.
\<close>

theorem unescapes_to_is_unescape:
  assumes "from_utf8 want = Some want"
  shows "unescapes_to raw want \<longleftrightarrow> unescape raw = Some want"
  using assms by (rule unescapes_to_iff)

theorem unescapes_to_is_unescape_witness:
  "unescapes_to (backslash # ''u0061'') ''a'' \<and> unescape (backslash # ''u0061'') = Some ''a''"
proof -
  have u: "unescape (backslash # ''u0061'') = Some ''a''"
    by (simp add: unescape_def decode.simps escape_piece_def unicode_escape_def hex4_def digit_val_def is_ascii_digit_def
        is_ascii_lower_def is_ascii_upper_def char_from_u32_def encode_utf8_def from_utf8_def char_of_eq_iff take_bit_eq_mod)
  moreover have "unescapes_to (backslash # ''u0061'') ''a'' \<longleftrightarrow> unescape (backslash # ''u0061'') = Some ''a''"
    by (rule unescapes_to_is_unescape) (simp add: from_utf8_def)
  ultimately show ?thesis by blast
qed

end
