(* ===== verification/Json_Text.thy ===== *)
theory Json_Text
  imports Json_Lex
begin

text \<open>
  JSON texts as concrete syntax: every string with its raw content, every scalar as spelled, and the white
  space between the tokens. Against this grammar the walkers of \<^verbatim>\<open>gateway/src/peek.rs\<close> are proved.
\<close>

datatype jval = JScalar string | JString string | JArray string jelems | JObject string jmembers
and jelems = ENil | ECons string jval string jelems
and jmembers = MNil | MCons string string string string jval string jmembers

text \<open>
  An element is white space, a value and white space; a member is white space, a key's raw content, white space,
  (a colon,) white space, a value and white space. What follows the first is written with its comma.
\<close>

primrec render :: "jval \<Rightarrow> string"
  and render_elems :: "jelems \<Rightarrow> string"
  and render_members :: "jmembers \<Rightarrow> string"
where
  "render (JScalar s) = s"
| "render (JString s) = quote # s @ [quote]"
| "render (JArray w es) = CHR ''['' # (if es = ENil then w else tl (render_elems es)) @ '']''"
| "render (JObject w ms) = CHR ''{'' # (if ms = MNil then w else tl (render_members ms)) @ ''}''"
| "render_elems ENil = []"
| "render_elems (ECons w1 v w2 es) = CHR '','' # w1 @ render v @ w2 @ render_elems es"
| "render_members MNil = []"
| "render_members (MCons w1 k w2 w3 v w4 ms) =
     CHR '','' # w1 @ quote # k @ quote # w2 @ CHR '':'' # w3 @ render v @ w4 @ render_members ms"

definition is_ws :: "char \<Rightarrow> bool" where
  "is_ws c \<longleftrightarrow> c = CHR 0x20 \<or> c = CHR 0x09 \<or> c = CHR 0x0A \<or> c = CHR 0x0C \<or> c = CHR 0x0D"

definition structural :: "char \<Rightarrow> bool" where
  "structural c \<longleftrightarrow> c = quote \<or> c = CHR ''{'' \<or> c = CHR ''}'' \<or> c = CHR ''['' \<or> c = CHR '']'' \<or> c = CHR '','' \<or> c = CHR '':''"

fun raw_ok :: "string \<Rightarrow> bool" where
  "raw_ok [] \<longleftrightarrow> True"
| "raw_ok (c # s) \<longleftrightarrow>
     (if c = quote then False
      else if c = backslash then (case s of [] \<Rightarrow> False | _ # s \<Rightarrow> raw_ok s)
      else raw_ok s)"

definition scalar_ok :: "string \<Rightarrow> bool" where
  "scalar_ok s \<longleftrightarrow> s \<noteq> [] \<and> list_all (\<lambda>c. \<not> structural c \<and> \<not> is_ws c) s"

primrec j_ok :: "jval \<Rightarrow> bool"
  and elems_ok :: "jelems \<Rightarrow> bool"
  and members_ok :: "jmembers \<Rightarrow> bool"
where
  "j_ok (JScalar s) \<longleftrightarrow> scalar_ok s"
| "j_ok (JString s) \<longleftrightarrow> raw_ok s"
| "j_ok (JArray w es) \<longleftrightarrow> list_all is_ws w \<and> elems_ok es"
| "j_ok (JObject w ms) \<longleftrightarrow> list_all is_ws w \<and> members_ok ms"
| "elems_ok ENil \<longleftrightarrow> True"
| "elems_ok (ECons w1 v w2 es) \<longleftrightarrow> list_all is_ws w1 \<and> j_ok v \<and> list_all is_ws w2 \<and> elems_ok es"
| "members_ok MNil \<longleftrightarrow> True"
| "members_ok (MCons w1 k w2 w3 v w4 ms) \<longleftrightarrow>
     list_all is_ws w1 \<and> raw_ok k \<and> list_all is_ws w2 \<and> list_all is_ws w3 \<and> j_ok v \<and> list_all is_ws w4 \<and> members_ok ms"

primrec nesting :: "jval \<Rightarrow> nat"
  and nesting_elems :: "jelems \<Rightarrow> nat"
  and nesting_members :: "jmembers \<Rightarrow> nat"
where
  "nesting (JScalar s) = 0"
| "nesting (JString s) = 0"
| "nesting (JArray w es) = Suc (nesting_elems es)"
| "nesting (JObject w ms) = Suc (nesting_members ms)"
| "nesting_elems ENil = 0"
| "nesting_elems (ECons w1 v w2 es) = max (nesting v) (nesting_elems es)"
| "nesting_members MNil = 0"
| "nesting_members (MCons w1 k w2 w3 v w4 ms) = max (nesting v) (nesting_members ms)"

lemma nesting_le_length:
  "nesting v \<le> length (render v)" "nesting_elems es \<le> length (render_elems es) - 1" "nesting_members ms \<le> length (render_members ms) - 1"
  by (induction v and es and ms) (auto split: if_splits)

lemma members_induct [case_names MNil MCons]:
  assumes "P MNil" and "\<And>w1 k w2 w3 v w4 ms. P ms \<Longrightarrow> P (MCons w1 k w2 w3 v w4 ms)"
  shows "P ms"
  by (rule jmembers.induct [of "\<lambda>_. True" "\<lambda>_. True" P]) (use assms in auto)

lemma elems_induct [case_names ENil ECons]:
  assumes "P ENil" and "\<And>w1 v w2 es. P es \<Longrightarrow> P (ECons w1 v w2 es)"
  shows "P es"
  by (rule jelems.induct [of "\<lambda>_. True" P "\<lambda>_. True"]) (use assms in auto)

text \<open>The text of a string, from its raw content.\<close>

definition json_text :: "string \<Rightarrow> string option" where
  "json_text raw = (if backslash \<in> set raw then unescape raw else from_utf8 raw)"

lemma ws_not_structural: "is_ws c \<Longrightarrow> \<not> structural c"
  unfolding is_ws_def by (elim disjE) (simp_all add: structural_def)

lemma ws_plain: "list_all is_ws w \<Longrightarrow> list_all (\<lambda>c. \<not> structural c) w"
  using ws_not_structural by (induction w) auto

lemma scalar_plain: "scalar_ok s \<Longrightarrow> list_all (\<lambda>c. \<not> structural c) s"
  by (auto simp: scalar_ok_def list_all_iff)

lemma render_Nil: "(es = ENil) = (render_elems es = [])" "(ms = MNil) = (render_members ms = [])"
  by (cases es; simp) (cases ms; simp)

section \<open>Properties of texts\<close>

text \<open>
  A property of texts at a depth that holds of the tokens and is kept by concatenation and by brackets holds of
  every value below the root.
\<close>

locale json_walk =
  fixes Q :: "nat \<Rightarrow> string \<Rightarrow> bool"
  assumes Q_append: "Q d x \<Longrightarrow> Q d y \<Longrightarrow> Q d (x @ y)"
    and Q_plain: "list_all (\<lambda>c. \<not> structural c) w \<Longrightarrow> Q d w"
    and Q_string: "raw_ok k \<Longrightarrow> Q d (quote # k @ [quote])"
    and Q_colon: "Q d '':''"
    and Q_comma: "Q d '',''"
    and Q_container: "1 \<le> d \<Longrightarrow> d < U32_MAX \<Longrightarrow> Q (Suc d) inner \<Longrightarrow>
      (c, c') \<in> {(CHR ''['', CHR '']''), (CHR ''{'', CHR ''}'')} \<Longrightarrow> Q d (c # inner @ [c'])"
begin

lemma Q_ws: "list_all is_ws w \<Longrightarrow> Q d w"
  by (rule Q_plain [OF ws_plain])

lemma Q_inner: "list_all is_ws w \<Longrightarrow> (t \<noteq> [] \<Longrightarrow> Q d (tl t)) \<Longrightarrow> Q d (if t = [] then w else tl t)"
  by (simp add: Q_ws)

lemma walk_render:
  "1 \<le> d \<Longrightarrow> d + nesting v \<le> U32_MAX \<Longrightarrow> j_ok v \<Longrightarrow> Q d (render v)"
  "1 \<le> d \<Longrightarrow> d + nesting_elems es \<le> U32_MAX \<Longrightarrow> elems_ok es \<Longrightarrow>
     Q d (render_elems es) \<and> (render_elems es \<noteq> [] \<longrightarrow> Q d (tl (render_elems es)))"
  "1 \<le> d \<Longrightarrow> d + nesting_members ms \<le> U32_MAX \<Longrightarrow> members_ok ms \<Longrightarrow>
     Q d (render_members ms) \<and> (render_members ms \<noteq> [] \<longrightarrow> Q d (tl (render_members ms)))"
proof (induction v and es and ms arbitrary: d and d and d)
  case (JScalar x)
  then show ?case by (simp add: Q_plain scalar_plain)
next
  case (JString x)
  then show ?case using Q_string by simp
next
  case (JArray w es)
  then show ?case
    unfolding render.simps render_Nil by (intro Q_container Q_inner) simp_all
next
  case (JObject w ms)
  then show ?case
    unfolding render.simps render_Nil by (intro Q_container Q_inner) simp_all
next
  case (ECons w1 v w2 es)
  then have p: "Q d (render v)" "Q d (render_elems es)" by simp_all
  have "Q d (w1 @ render v @ w2 @ render_elems es)"
    using ECons.prems by (intro Q_append [OF Q_ws Q_append [OF p(1) Q_append [OF Q_ws p(2)]]]) simp_all
  then show ?case using Q_append [OF Q_comma] by simp
next
  case (MCons w1 k w2 w3 v w4 ms)
  then have p: "Q d (render v)" "Q d (render_members ms)" by simp_all
  have "Q d (w1 @ (quote # k @ [quote]) @ w2 @ '':'' @ w3 @ render v @ w4 @ render_members ms)"
    using MCons.prems
    by (intro Q_append [OF Q_ws Q_append [OF Q_string Q_append [OF Q_ws Q_append [OF Q_colon
      Q_append [OF Q_ws Q_append [OF p(1) Q_append [OF Q_ws p(2)]]]]]]]) simp_all
  then show ?case using Q_append [OF Q_comma] by simp
qed (simp_all add: Q_ws)

end

section \<open>Strings under the lexer\<close>

context piecewise
begin

lemma lex_raw:
  assumes "raw_ok s"
  shows "lex_bytes V pos (s @ t) \<lparr>lx_depth = d, lx_state = (if e then Escaped else Plain)\<rparr> v =
    lex_bytes V (pos + length s) t \<lparr>lx_depth = d, lx_state = (if e \<or> backslash \<in> set s then Escaped else Plain)\<rparr> (v_content V s v)"
  using assms
proof (induction s arbitrary: pos e v rule: raw_ok.induct)
  case 1
  then show ?case by (simp add: content_Nil)
next
  case (2 c s)
  show ?case
  proof (cases "c = backslash")
    case False
    with 2 have c: "c \<noteq> quote" "raw_ok s" by (auto split: if_splits)
    from 2(2) [OF c(1) False c(2), of "Suc pos" e "v_content V [c] v"] False c(1) show ?thesis
      using content_append [of "[c]" s v] by (cases e) (simp_all add: lex1_def)
  next
    case True
    with 2 obtain a s' where s: "s = a # s'" "raw_ok s'" by (auto split: list.splits)
    from True 2(1) [OF _ True s(1) s(2), of "Suc (Suc pos)" True "v_content V [c, a] v"] show ?thesis
      using content_append [of "[c]" "[a]" v] content_append [of "[c, a]" s' v] by (cases e) (simp_all add: lex1_def s)
  qed
qed

end

end
