(* ===== verification/Json_Spans.thy ===== *)
theory Json_Spans
  imports Json_Text
begin

text \<open>
  Reading and editing a JSON body by spans, the second half of \<^verbatim>\<open>gateway/src/peek.rs\<close>: the extent of a value,
  the members of an object and the elements of an array, found on the bytes as the client sent them. On
  a well-formed text the spans are those of the grammar: the bytes between them are exactly the value, the key
  or the element.
\<close>

section \<open>Spans\<close>

definition get_byte :: "string \<Rightarrow> nat \<Rightarrow> char option" where
  "get_byte b i = (if i < length b then Some (b ! i) else None)"

definition get_range :: "string \<Rightarrow> nat \<Rightarrow> nat \<Rightarrow> string option" where
  "get_range b i j = (if i \<le> j \<and> j \<le> length b then Some (take (j - i) (drop i b)) else None)"

definition skip_ws :: "string \<Rightarrow> nat \<Rightarrow> nat" where
  "skip_ws b i = i + length (takeWhile is_ws (drop i b))"

definition bracket_close :: "unit visitor" where
  "bracket_close =
     \<lparr>v_byte = (\<lambda>_ c depth v. (v, (c = CHR ''}'' \<or> c = CHR '']'') \<and> depth = 1)), v_open = (\<lambda>_ _ v. v),
      v_content = (\<lambda>_ v. v), v_close = (\<lambda>_ _ _ v. (v, False))\<rparr>"

definition ends_scalar :: "char \<Rightarrow> bool" where
  "ends_scalar c \<longleftrightarrow> c = CHR '','' \<or> c = CHR ''}'' \<or> c = CHR '']'' \<or> is_ws c"

definition value_end :: "string \<Rightarrow> nat \<Rightarrow> nat option" where
  "value_end b i =
     (case get_byte b i of
        None \<Rightarrow> None
      | Some c \<Rightarrow>
          if c = quote then string_end b i
          else if c = CHR ''{'' \<or> c = CHR ''['' then
            (case feed bracket_close (drop i b) lexer_new () of
               (_, _, Some e) \<Rightarrow> Some (i + e)
             | (_, _, None) \<Rightarrow> None)
          else
            let n = i + length (takeWhile (\<lambda>c. \<not> ends_scalar c) (drop i b)) in
            if i < n then Some n else None)"

record member =
  m_key :: "nat \<times> nat"
  m_value :: "nat \<times> nat"

definition member_span :: "member \<Rightarrow> nat \<times> nat" where
  "member_span m = (fst (m_key m) - 1, snd (m_value m))"

definition strip_quotes :: "string \<Rightarrow> string option" where
  "strip_quotes quoted =
     (case strip_prefix [quote] quoted of None \<Rightarrow> None | Some q \<Rightarrow> strip_suffix [quote] q)"

definition escaped_key_is :: "string \<Rightarrow> string \<Rightarrow> bool" where
  "escaped_key_is quoted want \<longleftrightarrow>
     (case strip_quotes quoted of None \<Rightarrow> False | Some raw \<Rightarrow> unescapes_to raw want)"

definition key_is :: "string \<Rightarrow> string \<Rightarrow> member \<Rightarrow> bool" where
  "key_is body want m \<longleftrightarrow>
     (case get_range body (fst (m_key m)) (snd (m_key m)) of
        None \<Rightarrow> False
      | Some raw \<Rightarrow>
          if backslash \<in> set raw then
            (case get_range body (fst (m_key m) - 1) (snd (m_key m) + 1) of
               None \<Rightarrow> False
             | Some q \<Rightarrow> escaped_key_is q want)
          else raw = want)"

definition str_value :: "string \<Rightarrow> nat \<times> nat \<Rightarrow> string option" where
  "str_value b sp =
     (case get_range b (fst sp) (snd sp) of
        None \<Rightarrow> None
      | Some quoted \<Rightarrow>
          (case strip_quotes quoted of
             None \<Rightarrow> None
           | Some inner \<Rightarrow> if backslash \<notin> set inner then from_utf8 inner else unescape inner))"

definition str_is :: "string \<Rightarrow> nat \<times> nat \<Rightarrow> string \<Rightarrow> bool" where
  "str_is b sp want \<longleftrightarrow>
     (case get_range b (fst sp) (snd sp) of
        None \<Rightarrow> False
      | Some quoted \<Rightarrow>
          (case strip_quotes quoted of
             None \<Rightarrow> False
           | Some inner \<Rightarrow> if backslash \<notin> set inner then inner = want else escaped_key_is quoted want))"

section \<open>Members and elements\<close>

datatype 'a walk_step = StepErr | StepEnd nat | StepItem 'a

text \<open>Past the separator: at the first item, or past a comma; \<open>Inl\<close> is the container's end or an error.\<close>

definition after_separator :: "char \<Rightarrow> string \<Rightarrow> nat \<Rightarrow> bool \<Rightarrow> 'a walk_step + nat" where
  "after_separator close b pos fst_item =
     (let i = skip_ws b pos in
      if fst_item then (if get_byte b i = Some close then Inl (StepEnd (i + 1)) else Inr i)
      else if get_byte b i = Some (CHR '','') then Inr (skip_ws b (i + 1))
      else if get_byte b i = Some close then Inl (StepEnd (i + 1))
      else Inl StepErr)"

definition members_step :: "string \<Rightarrow> nat \<Rightarrow> bool \<Rightarrow> member walk_step" where
  "members_step b pos fst_item =
     (case after_separator (CHR ''}'') b pos fst_item of
        Inl r \<Rightarrow> r
      | Inr i \<Rightarrow>
          if get_byte b i \<noteq> Some quote then StepErr
          else case string_end b i of
            None \<Rightarrow> StepErr
          | Some key_end \<Rightarrow>
              let j = skip_ws b key_end in
              if get_byte b j \<noteq> Some (CHR '':'') then StepErr
              else
                let start = skip_ws b (j + 1) in
                case value_end b start of
                  None \<Rightarrow> StepErr
                | Some e \<Rightarrow> StepItem \<lparr>m_key = (i + 1, key_end - 1), m_value = (start, e)\<rparr>)"

definition elements_step :: "string \<Rightarrow> nat \<Rightarrow> bool \<Rightarrow> (nat \<times> nat) walk_step" where
  "elements_step b pos fst_item =
     (case after_separator (CHR '']'') b pos fst_item of
        Inl r \<Rightarrow> r
      | Inr i \<Rightarrow> (case value_end b i of None \<Rightarrow> StepErr | Some e \<Rightarrow> StepItem (i, e)))"

lemma skip_ws_le: "i \<le> skip_ws b i"
  by (simp add: skip_ws_def)

lemma lex_bytes_pos: "lex_bytes V pos s lx v = (lx', v', Some e) \<Longrightarrow> pos < e \<and> e \<le> pos + length s"
  by (induction V pos s lx v rule: lex_bytes.induct) (fastforce split: prod.splits if_splits)+

interpretation bracket_close: piecewise bracket_close
  by unfold_locales (simp_all add: bracket_close_def)

lemma string_end_less: "string_end b i = Some e \<Longrightarrow> i < e"
  by (auto simp: string_end_def Let_def split: if_splits option.splits prod.splits)

lemma value_end_less: "value_end b i = Some e \<Longrightarrow> i < e"
  by (auto simp: value_end_def Let_def bracket_close.feed_bytes dest: string_end_less lex_bytes_pos
      split: if_splits option.splits prod.splits)

lemma value_end_in: "value_end b i = Some e \<Longrightarrow> i < length b"
  by (auto simp: value_end_def get_byte_def split: if_splits option.splits)

lemma after_separator_le: "after_separator close b pos fst_item = Inr i \<Longrightarrow> pos \<le> i"
  using skip_ws_le [of pos b] skip_ws_le [of "Suc (skip_ws b pos)" b]
  by (auto simp: after_separator_def Let_def split: if_splits)

lemma after_separator_item: "after_separator close b pos fst_item \<noteq> Inl (StepItem x)"
  by (simp add: after_separator_def Let_def)

lemma members_step_less:
  assumes "members_step b pos fst_item = StepItem m"
  shows "pos < snd (m_value m)" "pos < length b"
proof -
  from assms obtain i key_end e where s: "after_separator (CHR ''}'') b pos fst_item = (Inr i :: member walk_step + nat)"
      "string_end b i = Some key_end" "value_end b (skip_ws b (skip_ws b key_end + 1)) = Some e" "snd (m_value m) = e"
    by (auto simp: members_step_def Let_def after_separator_item split: sum.splits option.splits if_splits)
  have "pos \<le> i" "i < key_end" "key_end \<le> skip_ws b key_end" "skip_ws b key_end + 1 \<le> skip_ws b (skip_ws b key_end + 1)"
      "skip_ws b (skip_ws b key_end + 1) < e" "skip_ws b (skip_ws b key_end + 1) < length b"
    using s after_separator_le string_end_less skip_ws_le value_end_less value_end_in by blast+
  then show "pos < snd (m_value m)" "pos < length b" using s(4) by simp_all
qed

lemma elements_step_less:
  assumes "elements_step b pos fst_item = StepItem x"
  shows "pos < snd x" "pos < length b"
proof -
  from assms obtain i e where s: "after_separator (CHR '']'') b pos fst_item = (Inr i :: (nat \<times> nat) walk_step + nat)"
      "value_end b i = Some e" "snd x = e"
    by (auto simp: elements_step_def after_separator_item split: sum.splits option.splits)
  have "pos \<le> i" "i < e" "i < length b" using s after_separator_le value_end_less value_end_in by blast+
  then show "pos < snd x" "pos < length b" using s(3) by simp_all
qed

function collect_members :: "string \<Rightarrow> nat \<Rightarrow> bool \<Rightarrow> member list option" where
  "collect_members b pos fst_item =
     (case members_step b pos fst_item of
        StepErr \<Rightarrow> None
      | StepEnd _ \<Rightarrow> Some []
      | StepItem m \<Rightarrow> map_option (\<lambda>ms. m # ms) (collect_members b (snd (m_value m)) False))"
  by pat_completeness auto
termination
  by (relation "measure (\<lambda>(b, pos, _). length b - pos)") (auto dest: members_step_less intro: diff_less_mono2)

function collect_elements :: "string \<Rightarrow> nat \<Rightarrow> bool \<Rightarrow> (nat \<times> nat) list option" where
  "collect_elements b pos fst_item =
     (case elements_step b pos fst_item of
        StepErr \<Rightarrow> None
      | StepEnd _ \<Rightarrow> Some []
      | StepItem x \<Rightarrow> map_option (\<lambda>xs. x # xs) (collect_elements b (snd x) False))"
  by pat_completeness auto
termination
  by (relation "measure (\<lambda>(b, pos, _). length b - pos)") (auto dest: elements_step_less intro: diff_less_mono2)

declare collect_members.simps [simp del] collect_elements.simps [simp del]

definition object_members :: "string \<Rightarrow> nat \<Rightarrow> member list option" where
  "object_members b op = (if get_byte b op \<noteq> Some (CHR ''{'') then Some [] else collect_members b (op + 1) True)"

definition array_elements :: "string \<Rightarrow> nat \<Rightarrow> (nat \<times> nat) list option" where
  "array_elements b op = (if get_byte b op \<noteq> Some (CHR ''['') then Some [] else collect_elements b (op + 1) True)"

definition root_open :: "string \<Rightarrow> nat option" where
  "root_open b = (let op = skip_ws b 0 in if get_byte b op = Some (CHR ''{'') then Some op else None)"

definition root_members :: "string \<Rightarrow> member list option" where
  "root_members b =
     (let op = skip_ws b 0 in if get_byte b op = Some (CHR ''{'') then object_members b op else None)"

definition last_member :: "string \<Rightarrow> nat \<Rightarrow> string \<Rightarrow> member option option" where
  "last_member b op key =
     (if get_byte b op \<noteq> Some (CHR ''{'') then None
      else map_option (\<lambda>ms. find (key_is b key) (rev ms)) (object_members b op))"

section \<open>Reading spans\<close>

lemma get_byte_drop: "drop i b = c # t \<Longrightarrow> get_byte b i = Some c"
  by (metis drop_all get_byte_def linorder_not_less list.distinct(1) nth_via_drop)

lemma drop_more: "drop i b = x @ t \<Longrightarrow> drop (i + length x) b = t"
  by (metis add.commute append_eq_conv_conj drop_drop)

lemma drop_Cons_more: "drop i b = c # t \<Longrightarrow> drop (i + 1) b = t"
  using drop_more [of i b "[c]" t] by simp

lemma get_range_drop: "drop i b = x @ t \<Longrightarrow> i \<le> length b \<Longrightarrow> get_range b i (i + length x) = Some x"
proof -
  assume d: "drop i b = x @ t" and i: "i \<le> length b"
  have "length (drop i b) = length x + length t" by (simp add: d)
  then have "i + length x \<le> length b" using i by simp
  then show ?thesis by (simp add: get_range_def d)
qed

lemma skip_ws_drop:
  assumes "drop i b = w @ t" and "list_all is_ws w" and "t = [] \<or> \<not> is_ws (hd t)"
  shows "skip_ws b i = i + length w"
proof -
  have "takeWhile is_ws (w @ t) = w" using assms(2,3) by (cases t) (auto simp: takeWhile_append list_all_iff)
  then show ?thesis by (simp add: skip_ws_def assms(1))
qed

lemma string_end_drop:
  assumes "drop i b = quote # raw @ quote # t" and "raw_ok raw"
  shows "string_end b i = Some (i + length raw + 2)"
proof -
  have d: "drop (i + 1) b = raw @ quote # t" using drop_Cons_more [OF assms(1)] by simp
  have le: "\<not> length b < i + 1"
  proof
    assume "length b < i + 1"
    then have "drop i b = []" by simp
    with assms(1) show False by simp
  qed
  have "feed string_close (drop (i + 1) b) lexer_in_string () = (\<lparr>lx_depth = 0, lx_state = Outside\<rparr>, (), Some (length raw + 1))"
    unfolding string_close.feed_bytes d lexer_in_string_def
    using string_close.lex_raw [OF assms(2), of 0 "quote # t" 0 False] by (auto simp: lex1_def string_close_def)
  then show ?thesis using le by (simp add: string_end_def Let_def)
qed

section \<open>The extent of a value\<close>

definition passes :: "nat \<Rightarrow> string \<Rightarrow> bool" where
  "passes d x \<longleftrightarrow>
     (\<forall>pos t. lex_bytes bracket_close pos (x @ t) \<lparr>lx_depth = d, lx_state = Outside\<rparr> () =
        lex_bytes bracket_close (pos + length x) t \<lparr>lx_depth = d, lx_state = Outside\<rparr> ())"

lemma passes_append: "passes d x \<Longrightarrow> passes d y \<Longrightarrow> passes d (x @ y)"
  by (simp add: passes_def add.assoc)

lemma bracket_byte:
  "c \<noteq> quote \<Longrightarrow> lex1 bracket_close pos c \<lparr>lx_depth = d, lx_state = Outside\<rparr> () =
     (\<lparr>lx_depth = depth_after c d, lx_state = Outside\<rparr>, (), (c = CHR ''}'' \<or> c = CHR '']'') \<and> d = 1)"
  by (simp add: lex1_def bracket_close_def)

lemma passes_byte: "c \<noteq> quote \<Longrightarrow> depth_after c d = d \<Longrightarrow> c \<noteq> CHR ''}'' \<Longrightarrow> c \<noteq> CHR '']'' \<Longrightarrow> passes d [c]"
  by (simp add: passes_def bracket_byte)

lemma passes_plain: "list_all (\<lambda>c. \<not> structural c) w \<Longrightarrow> passes d w"
proof (induction w)
  case Nil
  show ?case by (simp add: passes_def)
next
  case (Cons c w)
  then have "passes d [c]" by (intro passes_byte) (auto simp: structural_def depth_after_def)
  with Cons show ?case using passes_append [of d "[c]" w] by simp
qed

lemma passes_string:
  assumes "raw_ok k"
  shows "passes d (quote # k @ [quote])"
  unfolding passes_def
proof (intro allI)
  fix pos t
  show "lex_bytes bracket_close pos ((quote # k @ [quote]) @ t) \<lparr>lx_depth = d, lx_state = Outside\<rparr> () =
      lex_bytes bracket_close (pos + length (quote # k @ [quote])) t \<lparr>lx_depth = d, lx_state = Outside\<rparr> ()"
    using bracket_close.lex_raw [OF assms, of "Suc pos" "quote # t" d False] by (auto simp: lex1_def bracket_close_def)
qed

lemma passes_container:
  assumes "1 \<le> d" "d < U32_MAX" "passes (Suc d) inner" "(c, c') \<in> {(CHR ''['', CHR '']''), (CHR ''{'', CHR ''}'')}"
  shows "passes d (c # inner @ [c'])"
  using assms by (auto simp: passes_def bracket_byte depth_after_def)

interpretation passes: json_walk passes
proof (unfold_locales, goal_cases)
  case (4 d)
  show ?case by (rule passes_byte) (simp_all add: depth_after_def)
next
  case (5 d)
  show ?case by (rule passes_byte) (simp_all add: depth_after_def)
qed (fact passes_append passes_plain passes_string passes_container)+

lemma container_end:
  assumes "passes 1 inner" "(c, c') \<in> {(CHR ''['', CHR '']''), (CHR ''{'', CHR ''}'')}"
  shows "lex_bytes bracket_close 0 (c # inner @ c' # t) lexer_new () =
    (\<lparr>lx_depth = 0, lx_state = Outside\<rparr>, (), Some (length inner + 2))"
proof -
  have "lex_bytes bracket_close 0 (c # inner @ c' # t) lexer_new () = lex_bytes bracket_close 1 (inner @ c' # t) \<lparr>lx_depth = 1, lx_state = Outside\<rparr> ()"
    using assms(2) by (auto simp: lexer_new_def bracket_byte depth_after_def)
  also have "\<dots> = lex_bytes bracket_close (1 + length inner) (c' # t) \<lparr>lx_depth = 1, lx_state = Outside\<rparr> ()"
    using assms(1) by (simp add: passes_def)
  finally show ?thesis using assms(2) by (auto simp: bracket_byte depth_after_def)
qed

lemma value_end_drop:
  assumes v: "j_ok v" "nesting v \<le> U32_MAX" and d: "drop i b = render v @ t" and t: "t = [] \<or> ends_scalar (hd t)"
  shows "value_end b i = Some (i + length (render v))"
proof (cases v)
  case (JScalar s)
  then have s: "s \<noteq> []" "list_all (\<lambda>c. \<not> structural c \<and> \<not> is_ws c) s" using v(1) by (auto simp: scalar_ok_def)
  then obtain c s' where c: "s = c # s'" by (cases s) auto
  then have "get_byte b i = Some c" "\<not> structural c" using d s JScalar get_byte_drop by auto
  moreover have "takeWhile (\<lambda>c. \<not> ends_scalar c) (s @ t) = s"
    using s(2) t by (cases t) (auto simp: takeWhile_append list_all_iff ends_scalar_def structural_def)
  ultimately show ?thesis using s(1) d by (simp add: value_end_def structural_def Let_def JScalar)
next
  case (JString s)
  then have d': "drop i b = quote # s @ quote # t" using d by simp
  then show ?thesis using string_end_drop [OF d'] v get_byte_drop [OF d'] by (simp add: value_end_def JString)
next
  case (JArray w es)
  define inner where "inner = (if render_elems es = [] then w else tl (render_elems es))"
  have d': "drop i b = CHR ''['' # inner @ CHR '']'' # t" using d by (simp add: JArray inner_def render_Nil)
  have "passes 1 inner" unfolding inner_def using v passes.walk_render(2) [of 1 es] by (intro passes.Q_inner) (auto simp: JArray)
  from container_end [OF this, of "CHR ''[''" "CHR '']''" t] get_byte_drop [OF d'] show ?thesis
    by (simp add: value_end_def bracket_close.feed_bytes d') (simp add: JArray inner_def render_Nil)
next
  case (JObject w ms)
  define inner where "inner = (if render_members ms = [] then w else tl (render_members ms))"
  have d': "drop i b = CHR ''{'' # inner @ CHR ''}'' # t" using d by (simp add: JObject inner_def render_Nil)
  have "passes 1 inner" unfolding inner_def using v passes.walk_render(3) [of 1 ms] by (intro passes.Q_inner) (auto simp: JObject)
  from container_end [OF this, of "CHR ''{''" "CHR ''}''" t] get_byte_drop [OF d'] show ?thesis
    by (simp add: value_end_def bracket_close.feed_bytes d') (simp add: JObject inner_def render_Nil)
qed

section \<open>The members of an object\<close>

definition member_text :: "string \<Rightarrow> string \<Rightarrow> string \<Rightarrow> jval \<Rightarrow> string" where
  "member_text k w2 w3 v = quote # k @ quote # w2 @ CHR '':'' # w3 @ render v"

primrec spans :: "nat \<Rightarrow> jmembers \<Rightarrow> member list" where
  "spans pos MNil = []"
| "spans pos (MCons w1 k w2 w3 v w4 ms) =
     (let i = pos + length w1; e = i + length (member_text k w2 w3 v) in
      \<lparr>m_key = (i + 1, i + 1 + length k), m_value = (e - length (render v), e)\<rparr> # spans (e + length w4 + 1) ms)"

lemma render_not_ws: "j_ok v \<Longrightarrow> render v \<noteq> [] \<and> \<not> is_ws (hd (render v))"
  by (cases v) (auto simp: scalar_ok_def is_ws_def list_all_iff)

lemma after_value_ends: "list_all is_ws w \<Longrightarrow> ends_scalar (hd (w @ render_members ms @ CHR ''}'' # t))"
  by (cases w; cases ms) (auto simp: ends_scalar_def)

text \<open>One step of the walk, from the opening quote of a key.\<close>

lemma members_item:
  assumes sep: "after_separator (CHR ''}'') b pos fst_item = (Inr i :: member walk_step + nat)"
    and d: "drop i b = member_text k w2 w3 v @ t" and ok: "raw_ok k" "list_all is_ws w2" "list_all is_ws w3" "j_ok v" "nesting v \<le> U32_MAX"
    and t: "t \<noteq> []" "ends_scalar (hd t)"
  shows "members_step b pos fst_item =
    StepItem \<lparr>m_key = (i + 1, i + 1 + length k),
      m_value = (i + length (member_text k w2 w3 v) - length (render v), i + length (member_text k w2 w3 v))\<rparr>"
proof -
  define j where "j = i + length k + 2"
  have dk: "drop i b = quote # k @ quote # w2 @ CHR '':'' # w3 @ render v @ t" using d by (simp add: member_text_def)
  have se: "string_end b i = Some j" using string_end_drop [OF dk ok(1)] by (simp add: j_def)
  have dj: "drop j b = w2 @ CHR '':'' # w3 @ render v @ t" using drop_more [of i b "quote # k @ [quote]"] dk by (simp add: j_def)
  have sj: "skip_ws b j = j + length w2" by (rule skip_ws_drop [OF dj ok(2)]) (simp add: is_ws_def)
  have dc: "drop (j + length w2) b = CHR '':'' # w3 @ render v @ t" by (rule drop_more [OF dj])
  note dw = drop_Cons_more [OF dc]
  have ss: "skip_ws b (j + length w2 + 1) = j + length w2 + 1 + length w3"
    using render_not_ws [OF ok(4)] by (intro skip_ws_drop [OF dw ok(3)]) (cases "render v"; simp)
  have "drop (j + length w2 + 1 + length w3) b = render v @ t" by (rule drop_more [OF dw])
  from value_end_drop [OF ok(4,5) this] t have ve:
    "value_end b (j + length w2 + 1 + length w3) = Some (j + length w2 + 1 + length w3 + length (render v))" by simp
  show ?thesis
    unfolding members_step_def sep using get_byte_drop [OF dk] get_byte_drop [OF dc] se sj ss ve
    by (simp add: j_def member_text_def)
qed

lemma collect_members_drop:
  assumes "members_ok ms" "nesting_members ms < U32_MAX" "list_all is_ws w" "drop pos b = w @ render_members ms @ CHR ''}'' # t"
  shows "collect_members b pos False = Some (spans (pos + length w + 1) ms)"
  using assms
proof (induction ms arbitrary: pos w rule: members_induct)
  case MNil
  then have d: "drop pos b = w @ CHR ''}'' # t" by simp
  have sk: "skip_ws b pos = pos + length w" by (rule skip_ws_drop [OF d MNil(3)]) (simp add: is_ws_def)
  have "get_byte b (pos + length w) = Some (CHR ''}'')" by (rule get_byte_drop [OF drop_more [OF d]])
  then show ?case by (simp add: collect_members.simps [of b pos] members_step_def after_separator_def sk Let_def)
next
  case (MCons w1 k w2 w3 v w4 ms)
  let ?t = "w4 @ render_members ms @ CHR ''}'' # t"
  have ok: "list_all is_ws w1" "raw_ok k" "list_all is_ws w2" "list_all is_ws w3" "j_ok v" "list_all is_ws w4" "members_ok ms"
    and n: "nesting v < U32_MAX" "nesting_members ms < U32_MAX" using MCons.prems by simp_all
  have d: "drop pos b = w @ CHR '','' # w1 @ member_text k w2 w3 v @ ?t" using MCons.prems(4) by (simp add: member_text_def)
  have sk: "skip_ws b pos = pos + length w" by (rule skip_ws_drop [OF d MCons.prems(3)]) (simp add: is_ws_def)
  note dc = drop_more [OF d] and dw = drop_Cons_more [OF drop_more [OF d]]
  define i where "i = pos + length w + 1 + length w1"
  have sw: "skip_ws b (pos + length w + 1) = i" unfolding i_def by (rule skip_ws_drop [OF dw ok(1)]) (simp add: is_ws_def member_text_def)
  have sep: "after_separator (CHR ''}'') b pos False = (Inr i :: member walk_step + nat)"
    using get_byte_drop [OF dc] sk sw by (simp add: after_separator_def)
  have di: "drop i b = member_text k w2 w3 v @ ?t" unfolding i_def by (rule drop_more [OF dw])
  have step: "members_step b pos False = StepItem \<lparr>m_key = (i + 1, i + 1 + length k),
      m_value = (i + length (member_text k w2 w3 v) - length (render v), i + length (member_text k w2 w3 v))\<rparr>"
    using ok n after_value_ends [OF ok(6), of ms t] by (intro members_item [OF sep di]) simp_all
  have "collect_members b (i + length (member_text k w2 w3 v)) False =
      Some (spans (i + length (member_text k w2 w3 v) + length w4 + 1) ms)"
    by (rule MCons.IH [OF ok(7) n(2) ok(6) drop_more [OF di]])
  then show ?case by (simp add: collect_members.simps [of b pos] step Let_def i_def)
qed

text \<open>The whole walk from an object's opening brace.\<close>

lemma object_members_drop:
  assumes "j_ok (JObject w ms)" "nesting (JObject w ms) \<le> U32_MAX" "drop op b = render (JObject w ms) @ t"
  shows "object_members b op = Some (spans (op + 1) ms)"
proof -
  have ok: "list_all is_ws w" "members_ok ms" and n: "nesting_members ms < U32_MAX" using assms(1,2) by simp_all
  show ?thesis
  proof (cases ms)
    case MNil
    then have d: "drop op b = CHR ''{'' # w @ CHR ''}'' # t" using assms(3) by simp
    note dw = drop_Cons_more [OF d]
    have sk: "skip_ws b (op + 1) = op + 1 + length w" by (rule skip_ws_drop [OF dw ok(1)]) (simp add: is_ws_def)
    have "get_byte b (op + 1 + length w) = Some (CHR ''}'')" by (rule get_byte_drop [OF drop_more [OF dw]])
    then show ?thesis using get_byte_drop [OF d]
      by (simp add: object_members_def collect_members.simps [of b "Suc op"] members_step_def after_separator_def sk Let_def MNil)
        (use sk in \<open>simp add: members_step_def after_separator_def Let_def\<close>)
  next
    case (MCons w1 k w2 w3 v w4 ms1)
    let ?t = "w4 @ render_members ms1 @ CHR ''}'' # t"
    have ok1: "list_all is_ws w1" "raw_ok k" "list_all is_ws w2" "list_all is_ws w3" "j_ok v" "list_all is_ws w4" "members_ok ms1"
      and n1: "nesting v < U32_MAX" "nesting_members ms1 < U32_MAX" using ok n by (simp_all add: MCons)
    have d: "drop op b = CHR ''{'' # w1 @ member_text k w2 w3 v @ ?t" using assms(3) by (simp add: MCons member_text_def)
    note dw = drop_Cons_more [OF d]
    define i where "i = op + 1 + length w1"
    have sk: "skip_ws b (op + 1) = i" unfolding i_def by (rule skip_ws_drop [OF dw ok1(1)]) (simp add: is_ws_def member_text_def)
    have di: "drop i b = member_text k w2 w3 v @ ?t" unfolding i_def by (rule drop_more [OF dw])
    have "get_byte b i = Some quote" using di by (intro get_byte_drop) (simp add: member_text_def)
    then have sep: "after_separator (CHR ''}'') b (op + 1) True = (Inr i :: member walk_step + nat)"
      using sk by (simp add: after_separator_def)
    have step: "members_step b (op + 1) True = StepItem \<lparr>m_key = (i + 1, i + 1 + length k),
        m_value = (i + length (member_text k w2 w3 v) - length (render v), i + length (member_text k w2 w3 v))\<rparr>"
      using ok1 n1 after_value_ends [OF ok1(6), of ms1 t] by (intro members_item [OF sep di]) simp_all
    have "collect_members b (i + length (member_text k w2 w3 v)) False =
        Some (spans (i + length (member_text k w2 w3 v) + length w4 + 1) ms1)"
      by (rule collect_members_drop [OF ok1(7) n1(2) ok1(6) drop_more [OF di]])
    then show ?thesis using get_byte_drop [OF d] step
      by (simp add: object_members_def collect_members.simps [of b "Suc op"] MCons Let_def i_def)
  qed
qed

lemma root_members_drop:
  assumes "j_ok (JObject w ms)" "nesting (JObject w ms) \<le> U32_MAX" "list_all is_ws w0"
  shows "root_members (w0 @ render (JObject w ms) @ w1) = Some (spans (length w0 + 1) ms)"
    and "root_open (w0 @ render (JObject w ms) @ w1) = Some (length w0)"
proof -
  let ?b = "w0 @ render (JObject w ms) @ w1"
  have sk: "skip_ws ?b 0 = length w0" using skip_ws_drop [of 0 ?b w0 "render (JObject w ms) @ w1"] assms(3) by (simp add: is_ws_def)
  have d: "drop (length w0) ?b = render (JObject w ms) @ w1" by simp
  have g: "get_byte ?b (length w0) = Some (CHR ''{'')" by (rule get_byte_drop [of _ _ _ "tl (render (JObject w ms) @ w1)"]) simp
  show "root_members ?b = Some (spans (length w0 + 1) ms)"
    using object_members_drop [OF assms(1,2) d] sk g by (simp add: root_members_def Let_def)
  show "root_open ?b = Some (length w0)" using sk g by (simp add: root_open_def)
qed

text \<open>A string is compared as it would be read.\<close>

lemma str_is_value: "from_utf8 want = Some want \<Longrightarrow> str_is b sp want \<longleftrightarrow> str_value b sp = Some want"
  by (auto simp: str_is_def str_value_def escaped_key_is_def unescapes_to_iff from_utf8_def split: option.split if_splits)

section \<open>The elements of an array\<close>

primrec espans :: "nat \<Rightarrow> jelems \<Rightarrow> (nat \<times> nat) list" where
  "espans pos ENil = []"
| "espans pos (ECons w1 v w2 es) =
     (let i = pos + length w1; e = i + length (render v) in (i, e) # espans (e + length w2 + 1) es)"

lemma after_element_ends: "list_all is_ws w \<Longrightarrow> ends_scalar (hd (w @ render_elems es @ CHR '']'' # t))"
  by (cases w; cases es) (auto simp: ends_scalar_def)

lemma elements_item:
  assumes sep: "after_separator (CHR '']'') b pos fst_item = (Inr i :: (nat \<times> nat) walk_step + nat)"
    and d: "drop i b = render v @ t" and ok: "j_ok v" "nesting v \<le> U32_MAX" and t: "t \<noteq> []" "ends_scalar (hd t)"
  shows "elements_step b pos fst_item = StepItem (i, i + length (render v))"
  using value_end_drop [OF ok d] t by (simp add: elements_step_def sep)

lemma collect_elements_drop:
  assumes "elems_ok es" "nesting_elems es < U32_MAX" "list_all is_ws w" "drop pos b = w @ render_elems es @ CHR '']'' # t"
  shows "collect_elements b pos False = Some (espans (pos + length w + 1) es)"
  using assms
proof (induction es arbitrary: pos w rule: elems_induct)
  case ENil
  then have d: "drop pos b = w @ CHR '']'' # t" by simp
  have sk: "skip_ws b pos = pos + length w" by (rule skip_ws_drop [OF d ENil(3)]) (simp add: is_ws_def)
  have "get_byte b (pos + length w) = Some (CHR '']'')" by (rule get_byte_drop [OF drop_more [OF d]])
  then show ?case by (simp add: collect_elements.simps [of b pos] elements_step_def after_separator_def sk Let_def)
next
  case (ECons w1 v w2 es)
  let ?t = "w2 @ render_elems es @ CHR '']'' # t"
  have ok: "list_all is_ws w1" "j_ok v" "list_all is_ws w2" "elems_ok es" and n: "nesting v < U32_MAX" "nesting_elems es < U32_MAX"
    using ECons.prems by simp_all
  have d: "drop pos b = w @ CHR '','' # w1 @ render v @ ?t" using ECons.prems(4) by simp
  have sk: "skip_ws b pos = pos + length w" by (rule skip_ws_drop [OF d ECons.prems(3)]) (simp add: is_ws_def)
  note dc = drop_more [OF d] and dw = drop_Cons_more [OF drop_more [OF d]]
  define i where "i = pos + length w + 1 + length w1"
  have sw: "skip_ws b (pos + length w + 1) = i" unfolding i_def using render_not_ws [OF ok(2)] by (intro skip_ws_drop [OF dw ok(1)]) (cases "render v"; simp)
  have sep: "after_separator (CHR '']'') b pos False = (Inr i :: (nat \<times> nat) walk_step + nat)"
    using get_byte_drop [OF dc] sk sw by (simp add: after_separator_def)
  have di: "drop i b = render v @ ?t" unfolding i_def by (rule drop_more [OF dw])
  have step: "elements_step b pos False = StepItem (i, i + length (render v))"
    using ok n after_element_ends [OF ok(3), of es t] by (intro elements_item [OF sep di]) simp_all
  have "collect_elements b (i + length (render v)) False = Some (espans (i + length (render v) + length w2 + 1) es)"
    by (rule ECons.IH [OF ok(4) n(2) ok(3) drop_more [OF di]])
  then show ?case by (simp add: collect_elements.simps [of b pos] step Let_def i_def)
qed

lemma render_not_close: "j_ok v \<Longrightarrow> hd (render v @ t) \<noteq> CHR '']''"
  by (cases v) (auto simp: scalar_ok_def structural_def list_all_iff hd_append)

lemma array_elements_drop:
  assumes "j_ok (JArray w es)" "nesting (JArray w es) \<le> U32_MAX" "drop op b = render (JArray w es) @ t"
  shows "array_elements b op = Some (espans (op + 1) es)"
proof -
  have ok: "list_all is_ws w" "elems_ok es" and n: "nesting_elems es < U32_MAX" using assms(1,2) by simp_all
  show ?thesis
  proof (cases es)
    case ENil
    then have d: "drop op b = CHR ''['' # w @ CHR '']'' # t" using assms(3) by simp
    note dw = drop_Cons_more [OF d]
    have sk: "skip_ws b (op + 1) = op + 1 + length w" by (rule skip_ws_drop [OF dw ok(1)]) (simp add: is_ws_def)
    have "get_byte b (op + 1 + length w) = Some (CHR '']'')" by (rule get_byte_drop [OF drop_more [OF dw]])
    then have "elements_step b (op + 1) True = StepEnd (op + 1 + length w + 1)"
      using sk by (simp add: elements_step_def after_separator_def Let_def)
    then show ?thesis using get_byte_drop [OF d]
      by (simp add: array_elements_def collect_elements.simps [of b "Suc op"] ENil)
  next
    case (ECons w1 v w2 es1)
    let ?t = "w2 @ render_elems es1 @ CHR '']'' # t"
    have ok1: "list_all is_ws w1" "j_ok v" "list_all is_ws w2" "elems_ok es1" and n1: "nesting v < U32_MAX" "nesting_elems es1 < U32_MAX"
      using ok n by (simp_all add: ECons)
    have d: "drop op b = CHR ''['' # w1 @ render v @ ?t" using assms(3) by (simp add: ECons)
    note dw = drop_Cons_more [OF d]
    define i where "i = op + 1 + length w1"
    have sk: "skip_ws b (op + 1) = i" unfolding i_def using render_not_ws [OF ok1(2)] by (intro skip_ws_drop [OF dw ok1(1)]) (cases "render v"; simp)
    have di: "drop i b = render v @ ?t" unfolding i_def by (rule drop_more [OF dw])
    obtain c r where c: "render v @ ?t = c # r" using render_not_ws [OF ok1(2)] by (cases "render v") auto
    have "get_byte b i = Some c" "c \<noteq> CHR '']''" using get_byte_drop [of i b c r] di c render_not_close [OF ok1(2), of ?t] by simp_all
    then have sep: "after_separator (CHR '']'') b (op + 1) True = (Inr i :: (nat \<times> nat) walk_step + nat)"
      using sk by (simp add: after_separator_def)
    have step: "elements_step b (op + 1) True = StepItem (i, i + length (render v))"
      using ok1 n1 after_element_ends [OF ok1(3), of es1 t] by (intro elements_item [OF sep di]) simp_all
    have "collect_elements b (i + length (render v)) False = Some (espans (i + length (render v) + length w2 + 1) es1)"
      by (rule collect_elements_drop [OF ok1(4) n1(2) ok1(3) drop_more [OF di]])
    then show ?thesis using get_byte_drop [OF d] step
      by (simp add: array_elements_def collect_elements.simps [of b "Suc op"] ECons Let_def i_def)
  qed
qed


end
