(* ===== verification/Json_Edit.thy ===== *)
theory Json_Edit
  imports Json_Spans
begin

text \<open>
  Edits of a JSON body by spans, \<^verbatim>\<open>gateway/src/peek.rs\<close>: members are cut out of the root object, or out of every
  object of an array, or one is set, and every other byte stays as the client sent it. The cuts are computed
  for a whole run and made in one pass over the body.
\<close>

section \<open>Cutting\<close>

fun last_kept :: "(nat \<Rightarrow> bool) \<Rightarrow> nat \<Rightarrow> nat option" where
  "last_kept dropped 0 = None"
| "last_kept dropped (Suc n) = (if \<not> dropped n then Some n else last_kept dropped n)"

function cuts_from :: "(nat \<times> nat) list \<Rightarrow> (nat \<Rightarrow> bool) \<Rightarrow> nat option \<Rightarrow> nat \<Rightarrow> nat \<Rightarrow> (nat \<times> nat) list" where
  "cuts_from items dropped kept e k =
     (if k < length items then
        if \<not> dropped k then cuts_from items dropped kept e (k + 1)
        else
          case kept of
            None \<Rightarrow> [(fst (items ! k), e)]
          | Some l \<Rightarrow>
              if k < l then
                (fst (items ! k), if k + 1 < length items then fst (items ! (k + 1)) else e) # cuts_from items dropped kept e (k + 1)
              else [(snd (items ! l), e)]
      else [])"
  by pat_completeness auto
termination by (relation "measure (\<lambda>(items, _, _, _, k). length items - k)") auto

declare cuts_from.simps [simp del]

definition item_cuts :: "(nat \<times> nat) list \<Rightarrow> (nat \<Rightarrow> bool) \<Rightarrow> (nat \<times> nat) list" where
  "item_cuts items dropped =
     (if items = [] then [] else cuts_from items dropped (last_kept dropped (length items)) (snd (last items)) 0)"

definition copy_within :: "string \<Rightarrow> nat \<Rightarrow> nat \<Rightarrow> nat \<Rightarrow> string" where
  "copy_within b i j dest = take dest b @ take (j - i) (drop i b) @ drop (dest + (j - i)) b"

fun splice_loop :: "string \<Rightarrow> (nat \<times> nat) list \<Rightarrow> nat \<Rightarrow> string \<times> nat" where
  "splice_loop body [] write = (body, write)"
| "splice_loop body ((s, e) # cuts) write =
     (let nxt = (case cuts of [] \<Rightarrow> length body | c # _ \<Rightarrow> fst c) in
      splice_loop (copy_within body e nxt write) cuts (write + (nxt - e)))"

definition splice_out :: "string \<Rightarrow> (nat \<times> nat) list \<Rightarrow> string" where
  "splice_out body cuts =
     (case cuts of [] \<Rightarrow> body | (s, _) # _ \<Rightarrow> (case splice_loop body cuts s of (body, write) \<Rightarrow> take write body))"

definition remove_items :: "string \<Rightarrow> (nat \<times> nat) list \<Rightarrow> (nat \<Rightarrow> bool) \<Rightarrow> string \<times> bool" where
  "remove_items body items dropped =
     (let cuts = item_cuts items dropped in (splice_out body cuts, cuts \<noteq> []))"

definition nth_flag :: "bool list \<Rightarrow> nat \<Rightarrow> bool" where
  "nth_flag bs k = (if k < length bs then bs ! k else False)"

definition remove_root_members :: "string \<Rightarrow> string \<Rightarrow> string \<times> bool" where
  "remove_root_members body key =
     (case root_members body of
        None \<Rightarrow> (body, False)
      | Some ms \<Rightarrow> remove_items body (map member_span ms) (nth_flag (map (key_is body key) ms)))"

definition remove_root_nulls :: "string \<Rightarrow> string \<times> bool" where
  "remove_root_nulls body =
     (if split_once ''null'' body = None then (body, False)
      else case root_members body of
        None \<Rightarrow> (body, False)
      | Some ms \<Rightarrow>
          remove_items body (map member_span ms)
            (nth_flag (map (\<lambda>m. get_range body (fst (m_value m)) (snd (m_value m)) = Some ''null'') ms)))"

definition set_root_member :: "string \<Rightarrow> string \<Rightarrow> string \<Rightarrow> string \<times> bool" where
  "set_root_member body key value =
     (case root_members body of
        None \<Rightarrow> (body, False)
      | Some found \<Rightarrow>
          let hit = map (key_is body key) found;
              had_others = list_ex (\<lambda>h. \<not> h) hit;
              body = fst (remove_items body (map member_span found) (nth_flag hit))
          in case root_open body of
               None \<Rightarrow> (body, False)
             | Some op \<Rightarrow>
                 let member = [quote] @ key @ [quote] @ '':'' @ value @ (if had_others then '','' else []) in
                 (take (op + 1) body @ member @ drop (op + 1) body, True))"

fun element_cuts :: "string \<Rightarrow> string \<Rightarrow> (nat \<times> nat) list \<Rightarrow> (nat \<times> nat) list option" where
  "element_cuts body key [] = Some []"
| "element_cuts body key ((start, _) # elements) =
     (if get_byte body start \<noteq> Some (CHR ''{'') then element_cuts body key elements
      else case object_members body start of
        None \<Rightarrow> None
      | Some ms \<Rightarrow>
          map_option ((@) (item_cuts (map member_span ms) (\<lambda>k. k < length ms \<and> key_is body key (ms ! k))))
            (element_cuts body key elements))"

definition remove_element_members :: "string \<Rightarrow> nat \<Rightarrow> string \<Rightarrow> string \<times> bool" where
  "remove_element_members body op key =
     (case array_elements body op of
        None \<Rightarrow> (body, False)
      | Some elements \<Rightarrow>
          (case element_cuts body key elements of None \<Rightarrow> (body, False) | Some cuts \<Rightarrow> (splice_out body cuts, cuts \<noteq> [])))"

section \<open>Cutting spans out\<close>

fun cuts_ok :: "nat \<Rightarrow> nat \<Rightarrow> (nat \<times> nat) list \<Rightarrow> bool" where
  "cuts_ok n pos [] \<longleftrightarrow> pos \<le> n"
| "cuts_ok n pos ((s, e) # cuts) \<longleftrightarrow> pos \<le> s \<and> s \<le> e \<and> cuts_ok n e cuts"

fun without :: "string \<Rightarrow> nat \<Rightarrow> (nat \<times> nat) list \<Rightarrow> string" where
  "without b pos [] = drop pos b"
| "without b pos ((s, e) # cuts) = take (s - pos) (drop pos b) @ without b e cuts"

lemma cuts_ok_le: "cuts_ok n pos cuts \<Longrightarrow> pos \<le> n"
  by (induction n pos cuts rule: cuts_ok.induct) auto

lemma without_from: "cuts_ok n q cuts \<Longrightarrow> p \<le> q \<Longrightarrow> without b p cuts = take (q - p) (drop p b) @ without b q cuts"
proof (cases cuts)
  case Nil
  assume "p \<le> q"
  then show ?thesis using Nil append_take_drop_id [of "q - p" "drop p b"] by simp
next
  case (Cons c cs)
  assume ok: "cuts_ok n q cuts" and le: "p \<le> q"
  obtain s e where c: "c = (s, e)" by (cases c)
  have sp: "s - p = (q - p) + (s - q)" using ok le by (simp add: Cons c)
  have "take (s - p) (drop p b) = take (q - p) (drop p b) @ take (s - q) (drop q b)"
    unfolding sp take_add using le by simp
  then show ?thesis by (simp add: Cons c)
qed

lemma copy_within_down:
  assumes "i \<le> j" "j \<le> length b" "dest \<le> i"
  shows "length (copy_within b i j dest) = length b" "drop j (copy_within b i j dest) = drop j b"
    "take (dest + (j - i)) (copy_within b i j dest) = take dest b @ take (j - i) (drop i b)"
proof -
  have l: "length (take dest b @ take (j - i) (drop i b)) = dest + (j - i)" using assms by simp
  then show "take (dest + (j - i)) (copy_within b i j dest) = take dest b @ take (j - i) (drop i b)"
    unfolding copy_within_def by (metis append.assoc append_eq_conv_conj)
  show "length (copy_within b i j dest) = length b" using assms by (simp add: copy_within_def)
  have "drop j (copy_within b i j dest) = drop (j - (dest + (j - i))) (drop (dest + (j - i)) b)"
    unfolding copy_within_def append.assoc [symmetric] using l assms by (simp add: drop_append)
  then show "drop j (copy_within b i j dest) = drop j b" using assms by simp
qed

lemma splice_loop_without:
  assumes "cuts \<noteq> []" "cuts_ok (length b) s cuts" "s = fst (hd cuts)" "wr \<le> s" "length body = length b" "drop s body = drop s b"
  shows "case splice_loop body cuts wr of (body', wr') \<Rightarrow> take wr' body' = take wr body @ without b s cuts"
  using assms
proof (induction cuts arbitrary: body wr s)
  case (Cons c cuts)
  obtain s' e where c: "c = (s', e)" by (cases c)
  define nxt where "nxt = (case cuts of [] \<Rightarrow> length body | c # _ \<Rightarrow> fst c)"
  have s: "s' = s" "s \<le> e" "cuts_ok (length b) e cuts" using Cons.prems(2,3) by (auto simp: c)
  have e: "e \<le> nxt" "nxt \<le> length b"
    using s(3) cuts_ok_le [OF s(3)] Cons.prems(5) cuts_ok_le [of "length b"] by (auto simp: nxt_def split: list.splits)
      (metis cuts_ok.simps(2) cuts_ok_le le_trans prod.collapse)
  have de: "drop e body = drop e b"
  proof -
    have "drop e body = drop (e - s) (drop s body)" "drop e b = drop (e - s) (drop s b)" using s(2) by simp_all
    then show ?thesis using Cons.prems(6) by simp
  qed
  let ?body = "copy_within body e nxt wr"
  have cw: "length ?body = length b" "drop nxt ?body = drop nxt b" "take (wr + (nxt - e)) ?body = take wr body @ take (nxt - e) (drop e b)"
    using copy_within_down [of e nxt body wr] e Cons.prems(4,5) s(2) de by (auto intro: le_trans)
      (metis drop_drop le_add_diff_inverse2 de)
  have step: "splice_loop body (c # cuts) wr = splice_loop ?body cuts (wr + (nxt - e))" by (simp add: c nxt_def Let_def)
  show ?case
  proof (cases cuts)
    case Nil
    then have "nxt = length b" using Cons.prems(5) by (simp add: nxt_def)
    then show ?thesis unfolding step using cw(3) by (simp add: Nil c s(1))
  next
    case (Cons c2 cs)
    obtain s2 e2 where c2: "c2 = (s2, e2)" by (cases c2)
    have n: "nxt = s2" by (simp add: nxt_def Cons c2)
    have ok: "cuts_ok (length b) nxt cuts" using s(3) by (simp add: Cons c2 n)
    have "wr + (nxt - e) \<le> nxt" using Cons.prems(4) s(2) e(1) by simp
    from Cons.IH [OF _ ok _ this cw(1,2)] have
      "case splice_loop ?body cuts (wr + (nxt - e)) of (body', wr') \<Rightarrow> take wr' body' = take (wr + (nxt - e)) ?body @ without b nxt cuts"
      by (simp add: Cons n c2)
    then show ?thesis unfolding step cw(3) using without_from [OF ok e(1), of b] by (simp add: c s(1) split: prod.splits)
  qed
qed simp

lemma splice_out_without: "cuts_ok (length b) 0 cuts \<Longrightarrow> splice_out b cuts = without b 0 cuts"
proof (cases cuts)
  case (Cons c cs)
  assume ok: "cuts_ok (length b) 0 cuts"
  obtain s e where c: "c = (s, e)" by (cases c)
  have "cuts_ok (length b) s cuts" using ok by (simp add: Cons c)
  then have "case splice_loop b cuts s of (body', wr') \<Rightarrow> take wr' body' = take s b @ without b s cuts"
    by (intro splice_loop_without) (simp_all add: Cons c)
  moreover have "splice_out b cuts = (case splice_loop b cuts s of (body', wr') \<Rightarrow> take wr' body')" by (simp add: splice_out_def Cons c)
  ultimately show ?thesis by (cases "splice_loop b cuts s") (simp add: Cons c)
qed (simp add: splice_out_def)

section \<open>Cutting items out\<close>

text \<open>Items with what separates each from the next, their spans, and what is left without the dropped ones.\<close>

definition itext :: "(string \<times> string) list \<Rightarrow> string" where
  "itext its = concat (map (\<lambda>(i, s). i @ s) its)"

fun ispans :: "nat \<Rightarrow> (string \<times> string) list \<Rightarrow> (nat \<times> nat) list" where
  "ispans pos [] = []"
| "ispans pos ((i, s) # its) = (pos, pos + length i) # ispans (pos + length i + length s) its"

fun keep :: "(string \<times> string) list \<Rightarrow> bool list \<Rightarrow> string" where
  "keep ((i, s) # its) (f # fl) = (if f then keep its fl else if list_all (\<lambda>f. f) fl then i else i @ s @ keep its fl)"
| "keep _ _ = []"

lemma itext_simps [simp]: "itext [] = []" "itext ((i, s) # its) = i @ s @ itext its" "itext (xs @ ys) = itext xs @ itext ys"
  by (simp_all add: itext_def)

lemma ispans_append: "ispans pos (xs @ ys) = ispans pos xs @ ispans (pos + length (itext xs)) ys"
  by (induction pos xs rule: ispans.induct) (simp_all add: add.assoc)

lemma length_ispans [simp]: "length (ispans pos its) = length its"
  by (induction pos its rule: ispans.induct) simp_all

lemma ispans_last: "its \<noteq> [] \<Longrightarrow> snd (last its) = [] \<Longrightarrow> snd (last (ispans pos its)) = pos + length (itext its)"
proof (induction pos its rule: ispans.induct)
  case (2 pos i s its)
  show ?case
  proof (cases its)
    case Nil
    with 2 show ?thesis by simp
  next
    case (Cons x xs)
    then have "ispans (pos + length i + length s) its \<noteq> []" by (cases x) simp
    with 2 Cons show ?thesis by (simp add: add.assoc)
  qed
qed simp

lemma last_kept_Some: "last_kept dropped n = Some l \<longleftrightarrow> l < n \<and> \<not> dropped l \<and> (\<forall>j. l < j \<longrightarrow> j < n \<longrightarrow> dropped j)"
  by (induction n) (auto simp: less_Suc_eq)

lemma last_kept_None: "last_kept dropped n = None \<longleftrightarrow> (\<forall>j < n. dropped j)"
  by (induction n) (auto simp: less_Suc_eq)

lemma cuts_ok_mono: "cuts_ok n q cuts \<Longrightarrow> p \<le> q \<Longrightarrow> cuts_ok n p cuts"
  by (cases cuts) (auto simp: cuts_ok_le)

text \<open>From the \<open>k\<close>-th item on, when one of them is kept.\<close>

lemma cuts_from_keep:
  assumes b: "drop pos b = itext rest @ z" "pos = o0 + length (itext pre)" "pos \<le> length b"
    and its: "items = ispans o0 (pre @ rest)" "e = snd (last items)" "rest \<noteq> [] \<Longrightarrow> snd (last rest) = []"
    and fl: "length fl = length rest" "\<And>j. j < length rest \<Longrightarrow> dropped (length pre + j) = fl ! j"
    and l: "last_kept dropped (length items) = Some l" and some: "\<not> list_all (\<lambda>f. f) fl"
  shows "cuts_ok (length b) pos (cuts_from items dropped (Some l) e (length pre)) \<and>
    without b pos (cuts_from items dropped (Some l) e (length pre)) = keep rest fl @ z"
  using assms
proof (induction rest arbitrary: pos pre fl)
  case (Cons x rest)
  obtain i s where x: "x = (i, s)" by (cases x)
  obtain f fl' where fl: "fl = f # fl'" using Cons.prems(7) by (cases fl) auto
  let ?k = "length pre" and ?pos = "pos + length i + length s" and ?pre = "pre @ [x]"
  have items: "items = ispans o0 pre @ (pos, pos + length i) # ispans ?pos rest"
    using Cons.prems(2,4) by (simp add: ispans_append x add.assoc)
  have lk: "l < length items" "\<not> dropped l" "\<And>j. l < j \<Longrightarrow> j < length items \<Longrightarrow> dropped j"
    using Cons.prems(9) by (auto simp: last_kept_Some)
  have len: "length items = ?k + Suc (length rest)" by (simp add: items)
  have itk: "items ! ?k = (pos, pos + length i)" by (simp add: items nth_append)
  have dk: "dropped ?k = f" using Cons.prems(8) [of 0] by (simp add: fl)
  have d: "drop ?pos b = itext rest @ z" and tk: "take (length i + length s) (drop pos b) = i @ s"
    using drop_more [of pos b "i @ s" "itext rest @ z"] Cons.prems(1) by (simp_all add: x add.assoc)
  have le: "?pos \<le> length b"
  proof -
    have "length (drop pos b) = length i + length s + length (itext rest) + length z" unfolding Cons.prems(1) by (simp add: x)
    then show ?thesis using Cons.prems(3) by simp
  qed
  have fl': "length fl' = length rest" "dropped (length ?pre + j) = fl' ! j" if "j < length rest" for j
    using Cons.prems(7) Cons.prems(8) [of "Suc j"] that by (simp_all add: fl)
  show ?case
  proof (cases "list_all (\<lambda>f. f) fl'")
    case False
    then have ne: "rest \<noteq> []" using Cons.prems(7) by (auto simp: fl)
    obtain j where j: "j < length rest" "\<not> fl' ! j" using False Cons.prems(7) by (auto simp: list_all_length fl)
    have kl: "?k < l"
    proof (rule ccontr)
      assume "\<not> ?k < l"
      then have "l < length ?pre + j" by simp
      then have "dropped (length ?pre + j)" using j(1) len by (intro lk(3)) auto
      with fl'(2) j show False by simp
    qed
    have IH: "cuts_ok (length b) ?pos (cuts_from items dropped (Some l) e (length ?pre)) \<and>
        without b ?pos (cuts_from items dropped (Some l) e (length ?pre)) = keep rest fl' @ z"
      using Cons.prems(2,4,5,6,7,9) d le fl' False ne by (intro Cons.IH) (auto simp: x fl)
    have nx: "fst (items ! Suc ?k) = ?pos" using ne by (cases rest) (auto simp: items nth_append)
    show ?thesis
    proof (cases f)
      case True
      then have "cuts_from items dropped (Some l) e ?k = (pos, ?pos) # cuts_from items dropped (Some l) e (length ?pre)"
        using kl lk(1) dk itk nx by (subst cuts_from.simps) simp
      then show ?thesis using IH True by (simp add: x fl)
    next
      case False
      then have c: "cuts_from items dropped (Some l) e ?k = cuts_from items dropped (Some l) e (length ?pre)"
        using kl lk(1) dk by (subst cuts_from.simps) simp
      have "without b pos (cuts_from items dropped (Some l) e (length ?pre)) = (i @ s) @ keep rest fl' @ z"
        using without_from [of "length b" ?pos _ pos b] IH tk by (simp add: add.assoc)
      then show ?thesis using IH False \<open>\<not> list_all (\<lambda>f. f) fl'\<close> cuts_ok_mono [of "length b" ?pos _ pos] unfolding c by (simp add: x fl)
    qed
  next
    case True
    then have f: "\<not> f" using Cons.prems(10) by (simp add: fl)
    have lk': "l = ?k"
    proof (rule ccontr)
      assume ne: "l \<noteq> ?k"
      have "\<not> l < ?k" using lk(3) [of ?k] dk f len by auto
      then obtain j where "l = length ?pre + j" using ne by (metis add.commute add_Suc_right length_append_singleton less_imp_Suc_add linorder_neqE_nat plus_1_eq_Suc add_Suc)
      then show False using lk(1,2) fl' True len by (auto simp: list_all_length)
    qed
    have "cuts_from items dropped (Some l) e ?k = cuts_from items dropped (Some l) e (length ?pre)"
      using lk(1) dk f lk' by (subst cuts_from.simps) simp
    moreover have "cuts_from items dropped (Some l) e (length ?pre) = (if rest = [] then [] else [(pos + length i, e)])"
    proof (cases "rest = []")
      case True
      then show ?thesis using len by (subst cuts_from.simps) simp
    next
      case False
      then have "dropped (length ?pre)" using lk(3) [of "length ?pre"] lk' len by simp
      then show ?thesis using False len lk' itk by (subst cuts_from.simps) simp
    qed
    moreover have "drop e b = z" "e \<le> length b" "pos + length i \<le> e"
    proof -
      have "e = pos + length (itext (x # rest))"
      proof -
        have "snd (last (ispans pos (x # rest))) = pos + length (itext (x # rest))" using Cons.prems(6) by (intro ispans_last) auto
        then show ?thesis using Cons.prems(5) by (simp add: items x)
      qed
      then show "drop e b = z" "e \<le> length b" "pos + length i \<le> e"
        using drop_more [OF Cons.prems(1)] Cons.prems(1,3) length_drop [of pos b] by (auto simp: x)
    qed
    moreover have "rest = [] \<Longrightarrow> s = []" using Cons.prems(6) by (simp add: x)
    moreover have "take (length i) (drop pos b) = i" using Cons.prems(1) by (simp add: x)
    ultimately show ?thesis using f True Cons.prems(1,3) by (auto simp: x fl)
  qed
qed simp

lemma cuts_from_Nil: "cuts_from items dropped kept e k = [] \<longleftrightarrow> (\<forall>j. k \<le> j \<longrightarrow> j < length items \<longrightarrow> \<not> dropped j)"
proof (induction items dropped kept e k rule: cuts_from.induct)
  case (1 items dropped kept e k)
  show ?case
  proof (cases "k < length items \<and> \<not> dropped k")
    case True
    then have "cuts_from items dropped kept e k = cuts_from items dropped kept e (k + 1)" by (subst cuts_from.simps) simp
    then show ?thesis using 1(1) True by (metis Suc_eq_plus1 Suc_le_eq le_less)
  next
    case False
    then show ?thesis by (subst cuts_from.simps) (auto split: option.split)
  qed
qed

lemma keep_all: "list_all (\<lambda>f. f) fl \<Longrightarrow> keep its fl = []"
  by (induction its fl rule: keep.induct) auto

text \<open>The cuts leave what \<open>keep\<close> names, and everything around the items.\<close>

lemma item_cuts_keep:
  assumes sep: "its \<noteq> [] \<Longrightarrow> snd (last its) = []" and fl: "length fl = length its"
    and b: "b = A @ itext its @ Z" and cuts: "cuts = item_cuts (ispans (length A) its) (nth_flag fl)"
  shows "cuts_ok (length b) (length A) cuts" "without b (length A) cuts = keep its fl @ Z" "cuts \<noteq> [] \<longleftrightarrow> list_ex (\<lambda>f. f) fl"
proof -
  have "cuts_ok (length b) (length A) cuts \<and> without b (length A) cuts = keep its fl @ Z \<and> (cuts \<noteq> [] \<longleftrightarrow> list_ex (\<lambda>f. f) fl)"
  proof (cases "its = []")
    case True
    then show ?thesis using fl by (simp add: item_cuts_def b cuts)
  next
    case ne: False
    let ?items = "ispans (length A) its"
    define e where "e = snd (last ?items)"
    have ine: "?items \<noteq> []" using ne length_ispans [of "length A" its] by (metis length_0_conv)
    have ic: "cuts = cuts_from ?items (nth_flag fl) (last_kept (nth_flag fl) (length ?items)) e 0"
      using ine by (simp add: item_cuts_def cuts e_def)
    have some: "cuts \<noteq> [] \<longleftrightarrow> list_ex (\<lambda>f. f) fl"
      unfolding ic cuts_from_Nil using fl by (auto simp: list_ex_length nth_flag_def)
    show ?thesis
    proof (cases "last_kept (nth_flag fl) (length ?items)")
      case (Some l)
      then have "\<not> list_all (\<lambda>f. f) fl" using fl by (auto simp: last_kept_Some list_all_length nth_flag_def)
      then have "cuts_ok (length b) (length A) cuts \<and> without b (length A) cuts = keep its fl @ Z"
        unfolding ic Some using Some fl sep
        by (intro cuts_from_keep [where pre = "[]" and rest = its, unfolded list.size append_Nil]) (auto simp: e_def nth_flag_def b)
      with some show ?thesis by blast
    next
      case None
      then have all: "list_all (\<lambda>f. f) fl" using fl by (auto simp: last_kept_None list_all_length nth_flag_def)
      have "nth_flag fl 0" using all ne fl by (auto simp: nth_flag_def list_all_length)
      moreover have "fst (?items ! 0) = length A" using ne by (cases its) auto
      ultimately have "cuts = [(length A, e)]" unfolding ic None using ne by (subst cuts_from.simps) simp
      moreover have "e = length A + length (itext its)" unfolding e_def using sep ne by (intro ispans_last) auto
      ultimately show ?thesis using some by (simp add: keep_all [OF all] b)
    qed
  qed
  then show "cuts_ok (length b) (length A) cuts" "without b (length A) cuts = keep its fl @ Z" "cuts \<noteq> [] \<longleftrightarrow> list_ex (\<lambda>f. f) fl"
    by blast+
qed

text \<open>Cuts from \<open>p\<close> on, made in the whole body.\<close>

lemma splice_out_from: "cuts_ok (length b) p cuts \<Longrightarrow> splice_out b cuts = take p b @ without b p cuts"
  using splice_out_without [of b cuts] cuts_ok_mono [of "length b" p cuts 0] without_from [of "length b" p cuts 0 b] by simp

section \<open>Members as items\<close>

primrec kvs :: "jmembers \<Rightarrow> (string \<times> jval) list" where
  "kvs MNil = []"
| "kvs (MCons w1 k w2 w3 v w4 ms) = (k, v) # kvs ms"

primrec lead :: "jmembers \<Rightarrow> string" where
  "lead MNil = []"
| "lead (MCons w1 k w2 w3 v w4 ms) = w1"

primrec trail :: "jmembers \<Rightarrow> string" where
  "trail MNil = []"
| "trail (MCons w1 k w2 w3 v w4 ms) = (if ms = MNil then w4 else trail ms)"

primrec items_of :: "jmembers \<Rightarrow> (string \<times> string) list" where
  "items_of MNil = []"
| "items_of (MCons w1 k w2 w3 v w4 ms) =
     (member_text k w2 w3 v, if ms = MNil then [] else w4 @ CHR '','' # lead ms) # items_of ms"

lemma items_of_Nil [simp]: "items_of ms = [] \<longleftrightarrow> ms = MNil" "[] = items_of ms \<longleftrightarrow> ms = MNil"
  by (cases ms; simp)+

lemma length_items_of [simp]: "length (items_of ms) = length (kvs ms)"
  by (induction ms rule: members_induct) simp_all

lemma items_of_last: "items_of ms \<noteq> [] \<Longrightarrow> snd (last (items_of ms)) = []"
  by (induction ms rule: members_induct) auto

lemma render_items: "ms \<noteq> MNil \<Longrightarrow> tl (render_members ms) = lead ms @ itext (items_of ms) @ trail ms"
proof (induction ms rule: members_induct)
  case (MCons w1 k w2 w3 v w4 ms)
  show ?case
  proof (cases "ms = MNil")
    case False
    then have "render_members ms = CHR '','' # tl (render_members ms)" by (cases ms) simp_all
    then show ?thesis using MCons False by (simp add: member_text_def)
  qed (simp add: member_text_def)
qed simp

lemma spans_items: "map member_span (spans pos ms) = ispans (pos + length (lead ms)) (items_of ms)"
proof (induction ms arbitrary: pos rule: members_induct)
  case (MCons w1 k w2 w3 v w4 ms)
  then show ?case by (cases "ms = MNil") (simp_all add: member_span_def Let_def add.assoc)
qed simp

text \<open>The members that stay, with the white space that stays around them.\<close>

primrec remaining :: "string \<Rightarrow> jmembers \<Rightarrow> string \<Rightarrow> bool list \<Rightarrow> jmembers" where
  "remaining tr MNil u fl = MNil"
| "remaining tr (MCons w1 k w2 w3 v w4 ms) u fl =
     (if hd fl then remaining tr ms u (tl fl)
      else if list_all (\<lambda>f. f) (tl fl) then MCons u k w2 w3 v tr MNil
      else MCons u k w2 w3 v w4 (remaining tr ms (lead ms) (tl fl)))"

lemma remaining_render:
  "length fl = length (kvs ms) \<Longrightarrow> \<not> list_all (\<lambda>f. f) fl \<Longrightarrow>
     render_members (remaining tr ms u fl) = CHR '','' # u @ keep (items_of ms) fl @ tr"
proof (induction ms arbitrary: u fl rule: members_induct)
  case (MCons w1 k w2 w3 v w4 ms)
  then obtain f fl' where fl: "fl = f # fl'" by (cases fl) auto
  show ?case
  proof (cases "list_all (\<lambda>f. f) fl'")
    case True
    then show ?thesis using MCons.prems by (simp add: fl member_text_def)
  next
    case False
    then have "ms \<noteq> MNil" using MCons.prems by (auto simp: fl)
    then show ?thesis using MCons False by (simp add: fl member_text_def)
  qed
qed simp

lemma lead_trail_ws: "members_ok ms \<Longrightarrow> list_all is_ws (lead ms) \<and> list_all is_ws (trail ms)"
  by (induction ms rule: members_induct) auto

lemma remaining_ok:
  "members_ok ms \<Longrightarrow> list_all is_ws u \<Longrightarrow> list_all is_ws tr \<Longrightarrow> members_ok (remaining tr ms u fl)"
  by (induction ms arbitrary: u fl rule: members_induct) (auto simp: lead_trail_ws)

lemma remaining_nesting: "nesting_members (remaining tr ms u fl) \<le> nesting_members ms"
proof (induction ms arbitrary: u fl rule: members_induct)
  case (MCons w1 k w2 w3 v w4 ms)
  then show ?case by (auto intro: max.coboundedI2)
qed simp

lemma remaining_none: "list_all (\<lambda>f. f) fl \<Longrightarrow> length fl = length (kvs ms) \<Longrightarrow> remaining tr ms u fl = MNil"
proof (induction ms arbitrary: u fl rule: members_induct)
  case (MCons w1 k w2 w3 v w4 ms)
  then show ?case by (cases fl) auto
qed simp

lemma filter_none: "list_all P xs \<Longrightarrow> filter (\<lambda>x. \<not> P x) xs = []"
  by (induction xs) auto

lemma remaining_kvs: "kvs (remaining tr ms u (map P (kvs ms))) = filter (\<lambda>kv. \<not> P kv) (kvs ms)"
proof (induction ms arbitrary: u rule: members_induct)
  case (MCons w1 k w2 w3 v w4 ms)
  then show ?case using filter_none [of P "kvs ms"] by (auto simp: list.pred_map comp_def)
qed simp

text \<open>The members of an object, less those a predicate picks.\<close>

definition object_without :: "(string \<times> jval \<Rightarrow> bool) \<Rightarrow> string \<Rightarrow> jmembers \<Rightarrow> jval" where
  "object_without P w ms =
     (let ms' = remaining (trail ms) ms (lead ms) (map P (kvs ms)) in
      JObject (if ms = MNil then w else lead ms @ trail ms) ms')"

lemma render_object: "render (JObject w ms) = CHR ''{'' # (if ms = MNil then w else lead ms @ itext (items_of ms) @ trail ms) @ ''}''"
  by (simp add: render_items)

lemma item_cuts_members:
  assumes b: "b = w0 @ render (JObject w ms) @ w1"
    and cuts: "cuts = item_cuts (map member_span (spans (length w0 + 1) ms)) (nth_flag (map P (kvs ms)))"
  shows "cuts_ok (length b) (length w0) cuts \<and> without b (length w0) cuts = render (object_without P w ms) @ w1 \<and>
    (cuts \<noteq> [] \<longleftrightarrow> list_ex P (kvs ms))"
proof (cases "ms = MNil")
  case True
  then show ?thesis using b cuts by (simp add: object_without_def item_cuts_def)
next
  case False
  let ?A = "w0 @ CHR ''{'' # lead ms" and ?Z = "trail ms @ CHR ''}'' # w1" and ?fl = "map P (kvs ms)"
  have b': "b = ?A @ itext (items_of ms) @ ?Z" using b False by (simp add: render_object del: render.simps)
  have c': "cuts = item_cuts (ispans (length ?A) (items_of ms)) (nth_flag ?fl)" using cuts by (simp add: spans_items)
  note k = item_cuts_keep [OF items_of_last, of ms ?fl b ?A ?Z cuts, OF _ _ b' c']
  have ok: "cuts_ok (length b) (length ?A) cuts" and w: "without b (length ?A) cuts = keep (items_of ms) ?fl @ ?Z"
    and some: "cuts \<noteq> [] \<longleftrightarrow> list_ex P (kvs ms)"
    using k by (simp_all add: list_ex_iff)
  have le: "length w0 \<le> length ?A" by simp
  have tk: "take (length ?A - length w0) (drop (length w0) b) = CHR ''{'' # lead ms" by (simp add: b')
  have "without b (length w0) cuts = (CHR ''{'' # lead ms) @ keep (items_of ms) ?fl @ ?Z"
    unfolding without_from [OF ok le] tk w ..
  also have "\<dots> = render (object_without P w ms) @ w1"
  proof (cases "list_all (\<lambda>f. f) ?fl")
    case True
    then show ?thesis using False by (simp add: object_without_def remaining_none keep_all)
  next
    case some: False
    have r: "render_members (remaining (trail ms) ms (lead ms) ?fl) = CHR '','' # lead ms @ keep (items_of ms) ?fl @ trail ms"
      by (rule remaining_render) (use some in auto)
    then have "remaining (trail ms) ms (lead ms) ?fl \<noteq> MNil" by auto
    then show ?thesis using r by (simp add: object_without_def)
  qed
  finally show ?thesis using cuts_ok_mono [OF ok le] some by blast
qed

lemma remove_items_members:
  assumes "b = w0 @ render (JObject w ms) @ w1"
  shows "remove_items b (map member_span (spans (length w0 + 1) ms)) (nth_flag (map P (kvs ms))) =
    (w0 @ render (object_without P w ms) @ w1, list_ex P (kvs ms))"
  using item_cuts_members [OF assms refl, of P] splice_out_from [of b "length w0"] assms by (auto simp: remove_items_def Let_def)

lemma object_without_ok:
  assumes "j_ok (JObject w ms)"
  shows "j_ok (object_without P w ms)"
  using assms lead_trail_ws [of ms] by (simp add: object_without_def Let_def remaining_ok)

lemma object_without_nesting: "nesting (object_without P w ms) \<le> nesting (JObject w ms)"
  by (simp add: object_without_def Let_def remaining_nesting)

lemma strip_quotes_quoted: "strip_quotes (quote # k @ [quote]) = Some k"
  by (simp add: strip_quotes_def strip_prefix_def strip_suffix_def)

lemma json_text_plain: "from_utf8 want = Some want \<Longrightarrow> json_text k = Some want \<longleftrightarrow>
    (if backslash \<in> set k then unescapes_to k want else k = want)"
  by (auto simp: json_text_def unescapes_to_iff from_utf8_def split: if_splits)

lemma key_is_span:
  assumes d: "drop i b = quote # k @ quote # t" and want: "from_utf8 want = Some want" and m: "m_key m = (i + 1, i + 1 + length k)"
  shows "key_is b want m \<longleftrightarrow> json_text k = Some want"
proof -
  have i: "i < length b" using d by (metis drop_all linorder_not_less list.distinct(1))
  have "get_range b (i + 1) (i + 1 + length k) = Some k"
    using drop_Cons_more [OF d] i by (intro get_range_drop) simp_all
  moreover have "get_range b i (i + 2 + length k) = Some (quote # k @ [quote])"
    using get_range_drop [of i b "quote # k @ [quote]" t] d i by simp
  ultimately show ?thesis
    using strip_quotes_quoted [of k] by (simp add: key_is_def m json_text_plain [OF want] escaped_key_is_def)
qed

lemma spans_map:
  assumes "drop pos b = (if ms = MNil then w else tl (render_members ms)) @ t" "pos \<le> length b"
    and "\<And>i w1 k w2 w3 v t. drop i b = w1 @ member_text k w2 w3 v @ t \<Longrightarrow> i \<le> length b \<Longrightarrow>
      F \<lparr>m_key = (i + length w1 + 1, i + length w1 + 1 + length k),
         m_value = (i + length w1 + length (member_text k w2 w3 v) - length (render v), i + length w1 + length (member_text k w2 w3 v))\<rparr> = P (k, v)"
  shows "map F (spans pos ms) = map P (kvs ms)"
  using assms(1,2)
proof (induction ms arbitrary: pos rule: members_induct)
  case (MCons w1 k w2 w3 v w4 ms)
  let ?e = "pos + length w1 + length (member_text k w2 w3 v)"
  have d: "drop pos b = w1 @ member_text k w2 w3 v @ w4 @ render_members ms @ t" using MCons.prems by (simp add: member_text_def)
  have "map F (spans (?e + length w4 + 1) ms) = map P (kvs ms)"
  proof (cases "ms = MNil")
    case False
    then obtain r where r: "render_members ms = CHR '','' # r" by (cases ms) simp_all
    have "drop (pos + length (w1 @ member_text k w2 w3 v @ w4 @ [CHR '',''])) b = r @ t"
      using d by (intro drop_more) (simp add: r)
    moreover have "pos + length (w1 @ member_text k w2 w3 v @ w4 @ [CHR '','']) \<le> length b"
    proof -
      have "length (drop pos b) = length (w1 @ member_text k w2 w3 v @ w4 @ [CHR '','']) + length r + length t" unfolding d by (simp add: r)
      then show ?thesis using MCons.prems(2) by simp
    qed
    ultimately show ?thesis using False r MCons.IH [of "?e + length w4 + 1"] by (simp add: add.assoc)
  qed simp
  then show ?case using assms(3) [OF d MCons.prems(2)] by (simp add: Let_def)
qed simp

lemma key_is_members:
  assumes "b = w0 @ render (JObject w ms) @ w1" "from_utf8 key = Some key"
  shows "map (key_is b key) (spans (length w0 + 1) ms) = map (\<lambda>kv. json_text (fst kv) = Some key) (kvs ms)"
proof (rule spans_map [where w = w and t = "CHR ''}'' # w1"])
  fix i w1 k w2 w3 v t
  assume "drop i b = w1 @ member_text k w2 w3 v @ t"
  then have "drop (i + length w1) b = quote # k @ quote # w2 @ CHR '':'' # w3 @ render v @ t"
    using drop_more [of i b w1] by (simp add: member_text_def)
  from key_is_span [OF this assms(2)] show "key_is b key \<lparr>m_key = (i + length w1 + 1, i + length w1 + 1 + length k),
         m_value = (i + length w1 + length (member_text k w2 w3 v) - length (render v), i + length w1 + length (member_text k w2 w3 v))\<rparr> =
      (json_text (fst (k, v)) = Some key)" by simp
qed (simp_all add: assms(1))

lemma null_members:
  assumes "b = w0 @ render (JObject w ms) @ w1"
  shows "map (\<lambda>m. get_range b (fst (m_value m)) (snd (m_value m)) = Some want) (spans (length w0 + 1) ms) =
    map (\<lambda>kv. render (snd kv) = want) (kvs ms)"
proof (rule spans_map [where w = w and t = "CHR ''}'' # w1"])
  fix i w1 k w2 w3 v t
  assume d: "drop i b = w1 @ member_text k w2 w3 v @ t" and i: "i \<le> length b"
  define j where "j = i + length w1 + length (member_text k w2 w3 v) - length (render v)"
  have j: "j = i + length (w1 @ quote # k @ quote # w2 @ CHR '':'' # w3)" by (simp add: j_def member_text_def)
  have "drop j b = render v @ t" unfolding j using d by (intro drop_more) (simp add: member_text_def)
  moreover have "j \<le> length b"
  proof -
    have "length (drop i b) = length (w1 @ quote # k @ quote # w2 @ CHR '':'' # w3) + length (render v) + length t" unfolding d by (simp add: member_text_def)
    then show ?thesis using i by (simp add: j)
  qed
  ultimately have "get_range b j (j + length (render v)) = Some (render v)" by (intro get_range_drop)
  moreover have "j + length (render v) = i + length w1 + length (member_text k w2 w3 v)" by (simp add: j_def member_text_def)
  ultimately show "(get_range b (fst (m_value \<lparr>m_key = (i + length w1 + 1, i + length w1 + 1 + length k),
         m_value = (i + length w1 + length (member_text k w2 w3 v) - length (render v), i + length w1 + length (member_text k w2 w3 v))\<rparr>))
       (snd (m_value \<lparr>m_key = (i + length w1 + 1, i + length w1 + 1 + length k),
         m_value = (i + length w1 + length (member_text k w2 w3 v) - length (render v), i + length w1 + length (member_text k w2 w3 v))\<rparr>)) = Some want) =
      (render (snd (k, v)) = want)" by (simp add: j_def)
qed (simp_all add: assms)

lemma split_once_infix: "split_once p (a @ p @ c) \<noteq> None"
proof (induction a)
  case Nil
  show ?case
  proof (cases "p @ c")
    case (Cons x s)
    then have "strip_prefix p (x # s) = Some c" using strip_prefix_append [of p c] by simp
    then show ?thesis by (simp add: Cons)
  qed simp
next
  case (Cons x a)
  then show ?case by (auto split: option.splits)
qed

lemma remove_root_members_object:
  assumes "j_ok (JObject w ms)" "nesting (JObject w ms) \<le> U32_MAX" "list_all is_ws w0" "from_utf8 key = Some key"
  shows "remove_root_members (w0 @ render (JObject w ms) @ w1) key =
    (w0 @ render (object_without (\<lambda>kv. json_text (fst kv) = Some key) w ms) @ w1, list_ex (\<lambda>kv. json_text (fst kv) = Some key) (kvs ms))"
  unfolding remove_root_members_def root_members_drop(1) [OF assms(1-3)] option.case
    key_is_members [OF refl assms(4)] by (rule remove_items_members [OF refl])

lemma remaining_infix: "kv \<in> set (kvs ms) \<Longrightarrow> \<exists>a c. render_members ms = CHR '','' # a @ render (snd kv) @ c"
proof (induction ms rule: members_induct)
  case (MCons w1 k w2 w3 v w4 ms)
  show ?case
  proof (cases "kv = (k, v)")
    case True
    then have "render_members (MCons w1 k w2 w3 v w4 ms) =
        CHR '','' # (w1 @ quote # k @ quote # w2 @ CHR '':'' # w3) @ render (snd kv) @ w4 @ render_members ms" by simp
    then show ?thesis by blast
  next
    case False
    with MCons obtain a c where ac: "render_members ms = CHR '','' # a @ render (snd kv) @ c" by auto
    then have "render_members (MCons w1 k w2 w3 v w4 ms) =
        CHR '','' # (w1 @ quote # k @ quote # w2 @ CHR '':'' # w3 @ render v @ w4 @ CHR '','' # a) @ render (snd kv) @ c" by simp
    then show ?thesis by blast
  qed
qed simp

lemma remove_root_nulls_object:
  assumes "j_ok (JObject w ms)" "nesting (JObject w ms) \<le> U32_MAX" "list_all is_ws w0"
  shows "remove_root_nulls (w0 @ render (JObject w ms) @ w1) =
    (w0 @ render (object_without (\<lambda>kv. render (snd kv) = ''null'') w ms) @ w1, list_ex (\<lambda>kv. render (snd kv) = ''null'') (kvs ms))"
proof -
  let ?b = "w0 @ render (JObject w ms) @ w1" and ?P = "\<lambda>kv. render (snd kv) = ''null''"
  have r: "remove_items ?b (map member_span (spans (length w0 + 1) ms)) (nth_flag (map ?P (kvs ms))) =
      (w0 @ render (object_without ?P w ms) @ w1, list_ex ?P (kvs ms))" by (rule remove_items_members [OF refl])
  show ?thesis
  proof (cases "split_once ''null'' ?b = None")
    case False
    then show ?thesis unfolding remove_root_nulls_def root_members_drop(1) [OF assms] option.case null_members [OF refl] using r by (auto simp del: render.simps)
  next
    case True
    have none: "\<not> list_ex ?P (kvs ms)"
    proof
      assume "list_ex ?P (kvs ms)"
      then obtain kv where kv: "kv \<in> set (kvs ms)" "render (snd kv) = ''null''" by (auto simp: list_ex_iff)
      then obtain a c where ac: "render_members ms = CHR '','' # a @ ''null'' @ c" using remaining_infix by metis
      then have "?b = (w0 @ CHR ''{'' # a) @ ''null'' @ (c @ ''}'' @ w1)" by (cases ms) auto
      then show False using True split_once_infix by metis
    qed
    then have "item_cuts (map member_span (spans (length w0 + 1) ms)) (nth_flag (map ?P (kvs ms))) = []"
      by (auto simp: item_cuts_def cuts_from_Nil nth_flag_def list_ex_length)
    then have "remove_items ?b (map member_span (spans (length w0 + 1) ms)) (nth_flag (map ?P (kvs ms))) = (?b, False)"
      by (simp add: remove_items_def splice_out_def)
    then show ?thesis using r True by (simp add: remove_root_nulls_def del: render.simps)
  qed
qed

lemma object_without_kvs:
  "\<exists>w' ms'. object_without P w ms = JObject w' ms' \<and> kvs ms' = filter (\<lambda>kv. \<not> P kv) (kvs ms)"
  by (simp add: object_without_def Let_def remaining_kvs)

lemma kvs_Nil: "kvs ms = [] \<longleftrightarrow> ms = MNil"
  by (cases ms) simp_all

lemma set_root_member_object:
  assumes ok: "j_ok (JObject w ms)" "nesting (JObject w ms) \<le> U32_MAX" "list_all is_ws w0"
    and key: "from_utf8 key = Some key" "raw_ok key" and v: "j_ok v0"
  shows "\<exists>w' ms'. set_root_member (w0 @ render (JObject w ms) @ w1) key (render v0) = (w0 @ render (JObject w' ms') @ w1, True) \<and>
    j_ok (JObject w' ms') \<and> kvs ms' = (key, v0) # filter (\<lambda>kv. json_text (fst kv) \<noteq> Some key) (kvs ms)"
proof -
  let ?b = "w0 @ render (JObject w ms) @ w1" and ?P = "\<lambda>kv. json_text (fst kv) = Some key"
  obtain w' ms' where o: "object_without ?P w ms = JObject w' ms'" by (simp add: object_without_def Let_def)
  have ok': "j_ok (JObject w' ms')" "nesting (JObject w' ms') \<le> U32_MAX"
    using object_without_ok [OF ok(1), of ?P] object_without_nesting [of ?P w ms] ok(2) unfolding o by linarith+
  have kv: "kvs ms' = filter (\<lambda>kv. \<not> ?P kv) (kvs ms)" using o by (auto simp: object_without_def Let_def remaining_kvs)
  let ?m = "quote # key @ quote # CHR '':'' # render v0"
  have others: "list_ex (\<lambda>h. \<not> h) (map ?P (kvs ms)) \<longleftrightarrow> ms' \<noteq> MNil"
    unfolding kvs_Nil [symmetric] kv by (auto simp: list_ex_iff filter_empty_conv)
  have set: "set_root_member ?b key (render v0) =
      (w0 @ CHR ''{'' # (?m @ (if ms' \<noteq> MNil then '','' else [])) @ (if ms' = MNil then w' else tl (render_members ms')) @ ''}'' @ w1, True)"
    unfolding set_root_member_def root_members_drop(1) [OF ok] option.case key_is_members [OF refl key(1)] Let_def
      remove_items_members [OF refl] fst_conv others o root_members_drop(2) [OF ok' ok(3)]
    by simp
  show ?thesis
  proof (cases "ms' = MNil")
    case True
    then show ?thesis
      using ok' key v kv set by (intro exI [of _ "[]"] exI [of _ "MCons [] key [] [] v0 w' MNil"]) simp
  next
    case False
    then have "render_members ms' = CHR '','' # tl (render_members ms')" by (cases ms') simp_all
    then show ?thesis
      using ok' key v kv set False by (intro exI [of _ "[]"] exI [of _ "MCons [] key [] [] v0 [] ms'"]) simp
  qed
qed

section \<open>Members of elements\<close>

text \<open>Cuts of one stretch followed by cuts of the rest.\<close>

lemma cuts_append:
  "cuts_ok e p c \<Longrightarrow> cuts_ok (length b) e r \<Longrightarrow>
     cuts_ok (length b) p (c @ r) \<and> without b p (c @ r) = without (take e b) p c @ without b e r"
proof (induction e p c rule: cuts_ok.induct)
  case (1 e p)
  then show ?case using without_from [of "length b" e r p b] cuts_ok_mono [of "length b" e r p] by (simp add: drop_take)
next
  case (2 e p s x c)
  then have "s \<le> e" using cuts_ok_le by fastforce
  with 2 show ?case by (simp add: drop_take min_absorb1)
qed

definition value_without :: "(string \<times> jval \<Rightarrow> bool) \<Rightarrow> jval \<Rightarrow> jval" where
  "value_without P v = (case v of JObject w ms \<Rightarrow> object_without P w ms | _ \<Rightarrow> v)"

primrec elems_without :: "(string \<times> jval \<Rightarrow> bool) \<Rightarrow> jelems \<Rightarrow> jelems" where
  "elems_without P ENil = ENil"
| "elems_without P (ECons w1 v w2 es) = ECons w1 (value_without P v) w2 (elems_without P es)"

definition has_member :: "(string \<times> jval \<Rightarrow> bool) \<Rightarrow> jval \<Rightarrow> bool" where
  "has_member P v \<longleftrightarrow> (case v of JObject w ms \<Rightarrow> list_ex P (kvs ms) | _ \<Rightarrow> False)"

definition members_of :: "jval \<Rightarrow> (string \<times> jval) list" where
  "members_of v = (case v of JObject w ms \<Rightarrow> kvs ms | _ \<Rightarrow> [])"

primrec evs :: "jelems \<Rightarrow> jval list" where
  "evs ENil = []"
| "evs (ECons w1 v w2 es) = v # evs es"

lemma render_elems_without: "render_elems (elems_without P es) = [] \<longleftrightarrow> es = ENil"
  by (cases es) simp_all

lemma map_append_Nil [simp]: "map_option ((@) []) x = x"
  by (cases x) simp_all

lemma value_cuts:
  assumes "drop i b = render v @ t" "j_ok v" "nesting v \<le> U32_MAX" "i \<le> length b" "from_utf8 key = Some key"
    and "P = (\<lambda>kv. json_text (fst kv) = Some key)"
  shows "\<exists>c. element_cuts b key ((i, e) # es) = map_option ((@) c) (element_cuts b key es) \<and>
    cuts_ok (i + length (render v)) i c \<and> without (take (i + length (render v)) b) i c = render (value_without P v) \<and>
    (c \<noteq> [] \<longleftrightarrow> has_member P v)"
proof (cases v)
  case (JObject w ms)
  have b: "b = take i b @ render (JObject w ms) @ t" "length (take i b) = i"
    using assms(1,4) JObject append_take_drop_id [of i b] by auto
  have tb: "take (i + length (render v)) b = take i b @ render (JObject w ms) @ []"
    using assms(1) by (simp add: take_add JObject del: render.simps)
  define c where "c = item_cuts (map member_span (spans (i + 1) ms)) (nth_flag (map P (kvs ms)))"
  have om: "object_members b i = Some (spans (i + 1) ms)" using assms(1,2,3) by (intro object_members_drop) (simp_all add: JObject)
  have km: "map (key_is b key) (spans (i + 1) ms) = map P (kvs ms)"
    unfolding assms(6) using key_is_members [OF b(1) assms(5)] unfolding b(2) .
  have "(\<lambda>k. k < length (spans (i + 1) ms) \<and> key_is b key (spans (i + 1) ms ! k)) = nth_flag (map P (kvs ms))"
    unfolding km [symmetric] by (auto simp: nth_flag_def fun_eq_iff)
  moreover have "get_byte b i = Some (CHR ''{'')" using assms(1) JObject by (intro get_byte_drop) simp
  ultimately have "element_cuts b key ((i, e) # es) = map_option ((@) c) (element_cuts b key es)" using om by (simp add: c_def)
  moreover have "cuts_ok (i + length (render v)) i c \<and> without (take (i + length (render v)) b) i c = render (value_without P v) \<and>
      (c \<noteq> [] \<longleftrightarrow> has_member P v)"
  proof -
    have "length (take (i + length (render v)) b) = i + length (render v)" unfolding tb using b(2) by (simp add: JObject del: render.simps)
    then show ?thesis using item_cuts_members [OF tb, of c P] unfolding b(2) by (simp add: c_def value_without_def has_member_def JObject del: render.simps)
  qed
  ultimately show ?thesis by blast
next
  case (JScalar s)
  then have "s \<noteq> []" "hd s \<noteq> CHR ''{''" using assms(2) by (auto simp: scalar_ok_def list_all_iff structural_def)
  then have "get_byte b i \<noteq> Some (CHR ''{'')" using get_byte_drop [of i b "hd s" "tl s @ t"] assms(1) JScalar by simp
  then show ?thesis using assms(1) JScalar by (intro exI [of _ "[]"]) (simp add: value_without_def has_member_def drop_take)
next
  case (JString s)
  then show ?thesis using assms(1) get_byte_drop [of i b quote] by (intro exI [of _ "[]"]) (simp add: value_without_def has_member_def drop_take)
next
  case (JArray w es)
  then show ?thesis using assms(1) get_byte_drop [of i b "CHR ''[''"] by (intro exI [of _ "[]"]) (simp add: value_without_def has_member_def drop_take)
qed

lemma element_cuts_drop:
  assumes "elems_ok es" "nesting_elems es < U32_MAX" "es \<noteq> ENil" "drop pos b = tl (render_elems es) @ t" "pos \<le> length b"
    and key: "from_utf8 key = Some key" "P = (\<lambda>kv. json_text (fst kv) = Some key)"
  shows "\<exists>cuts. element_cuts b key (espans pos es) = Some cuts \<and> cuts_ok (length b) pos cuts \<and>
    without b pos cuts = tl (render_elems (elems_without P es)) @ t \<and> (cuts \<noteq> [] \<longleftrightarrow> list_ex (has_member P) (evs es))"
  using assms(1-5)
proof (induction es arbitrary: pos rule: elems_induct)
  case (ECons w1 v w2 es)
  define i where "i = pos + length w1"
  define e where "e = i + length (render v)"
  have d: "drop pos b = w1 @ render v @ w2 @ render_elems es @ t" using ECons.prems by simp
  have di: "drop i b = render v @ w2 @ render_elems es @ t" unfolding i_def by (rule drop_more [OF d])
  have de: "drop e b = w2 @ render_elems es @ t" unfolding e_def by (rule drop_more [OF di])
  have le: "e + length w2 + length (render_elems es) \<le> length b" "i \<le> length b" "e \<le> length b"
  proof -
    have "length (drop pos b) = length w1 + length (render v) + length w2 + length (render_elems es) + length t" unfolding d by simp
    then show "e + length w2 + length (render_elems es) \<le> length b" "i \<le> length b" "e \<le> length b" using ECons.prems(5) by (simp_all add: e_def i_def)
  qed
  let ?rest = "espans (e + length w2 + 1) es"
  obtain r where r: "element_cuts b key ?rest = Some r" "cuts_ok (length b) e r"
      "without b e r = w2 @ render_elems (elems_without P es) @ t" "r \<noteq> [] \<longleftrightarrow> list_ex (has_member P) (evs es)"
  proof (cases "es = ENil")
    case True
    then show ?thesis using that [of "[]"] de le(3) by simp
  next
    case False
    let ?q = "e + length w2 + 1"
    obtain x where x: "render_elems es = CHR '','' # x" using False by (cases es) simp_all
    have dq: "drop ?q b = tl (render_elems es) @ t" using drop_more [of e b "w2 @ [CHR '','']" "x @ t"] de by (simp add: x)
    obtain r where r: "element_cuts b key ?rest = Some r" "cuts_ok (length b) ?q r"
        "without b ?q r = tl (render_elems (elems_without P es)) @ t" "r \<noteq> [] \<longleftrightarrow> list_ex (has_member P) (evs es)"
      using ECons.IH [of ?q] ECons.prems(1,2) False dq le(1) x by auto
    have "take (?q - e) (drop e b) = w2 @ [CHR '','']" by (simp add: de x)
    then have "without b e r = w2 @ CHR '','' # without b ?q r" using without_from [OF r(2), of e b] by simp
    moreover have "render_elems (elems_without P es) = CHR '','' # tl (render_elems (elems_without P es))" using False by (cases es) simp_all
    ultimately have "without b e r = w2 @ render_elems (elems_without P es) @ t" using r(3) by simp
    then show ?thesis using that [OF r(1) cuts_ok_mono [OF r(2)] _ r(4)] by simp
  qed
  have "nesting v \<le> U32_MAX" "j_ok v" using ECons.prems(1,2) by simp_all
  then obtain c where c: "element_cuts b key ((i, e) # ?rest) = map_option ((@) c) (element_cuts b key ?rest)" "cuts_ok e i c"
      "without (take e b) i c = render (value_without P v)" "c \<noteq> [] \<longleftrightarrow> has_member P v"
    using value_cuts [OF di _ _ le(2) key, of e ?rest] unfolding e_def by auto
  have cr: "cuts_ok (length b) i (c @ r)" "without b i (c @ r) = render (value_without P v) @ w2 @ render_elems (elems_without P es) @ t"
    using cuts_append [OF c(2) r(2)] c(3) r(3) by simp_all
  have "take (i - pos) (drop pos b) = w1" by (simp add: d i_def)
  then have "without b pos (c @ r) = w1 @ without b i (c @ r)" using without_from [OF cr(1), of pos b] by (simp add: i_def)
  moreover have "cuts_ok (length b) pos (c @ r)" using cuts_ok_mono [OF cr(1)] by (simp add: i_def)
  moreover have "espans pos (ECons w1 v w2 es) = (i, e) # ?rest" by (simp add: Let_def i_def e_def)
  ultimately show ?case using c(1,4) r(1,4) cr(2) by (intro exI [of _ "c @ r"]) auto
qed simp

lemma value_without_ok: "j_ok v \<Longrightarrow> j_ok (value_without P v)"
  by (cases v) (simp_all add: value_without_def object_without_ok)

lemma elems_without_ok: "elems_ok es \<Longrightarrow> elems_ok (elems_without P es)"
  by (induction es rule: elems_induct) (simp_all add: value_without_ok)

lemma value_without_members:
  "(case v of JObject _ _ \<Rightarrow> (\<exists>w' ms'. value_without P v = JObject w' ms') | _ \<Rightarrow> value_without P v = v) \<and>
     members_of (value_without P v) = filter (\<lambda>kv. \<not> P kv) (members_of v)"
proof (cases v)
  case (JObject w ms)
  then show ?thesis using object_without_kvs [of P w ms] by (auto simp: value_without_def members_of_def)
qed (simp_all add: value_without_def members_of_def)

lemma evs_without: "evs (elems_without P es) = map (value_without P) (evs es)"
  by (induction es rule: elems_induct) simp_all

lemma has_member_of: "has_member P = (\<lambda>v. list_ex P (members_of v))"
  by (rule ext) (simp add: has_member_def members_of_def split: jval.split)

lemma remove_element_members_array:
  assumes ok: "j_ok (JArray w es)" "nesting (JArray w es) \<le> U32_MAX" and key: "from_utf8 key = Some key"
    and P: "P = (\<lambda>kv. json_text (fst kv) = Some key)"
  shows "remove_element_members (A @ render (JArray w es) @ Z) (length A) key =
    (A @ render (JArray w (elems_without P es)) @ Z, list_ex (has_member P) (evs es))"
proof -
  let ?b = "A @ render (JArray w es) @ Z"
  have ae: "array_elements ?b (length A) = Some (espans (length A + 1) es)" using ok by (intro array_elements_drop) simp_all
  show ?thesis
  proof (cases "es = ENil")
    case True
    then show ?thesis using ae by (simp add: remove_element_members_def splice_out_def)
  next
    case False
    have d: "drop (length A + 1) ?b = tl (render_elems es) @ CHR '']'' # Z" using False by simp
    obtain cuts where c: "element_cuts ?b key (espans (length A + 1) es) = Some cuts" "cuts_ok (length ?b) (length A + 1) cuts"
        "without ?b (length A + 1) cuts = tl (render_elems (elems_without P es)) @ CHR '']'' # Z" "cuts \<noteq> [] \<longleftrightarrow> list_ex (has_member P) (evs es)"
      using element_cuts_drop [OF _ _ False d _ key P] ok by auto
    have "splice_out ?b cuts = (A @ ''['') @ tl (render_elems (elems_without P es)) @ CHR '']'' # Z"
      unfolding splice_out_from [OF c(2)] c(3) by simp
    moreover have "elems_without P es \<noteq> ENil" using False by (cases es) simp_all
    ultimately show ?thesis using ae c(1,4) by (simp add: remove_element_members_def)
  qed
qed

section \<open>What the edits do\<close>

text \<open>
  C7. The gateway strips a root member by name (a provider's private field, an option a host refuses) without
  parsing the body. Take any well-formed JSON object text with any white space around its tokens, any escapes in its
  keys and any values. After \<^verbatim>\<open>remove_root_members\<close> the body is again the text of a well-formed object, with the
  same bytes before and after it; its members are exactly those of the original whose key does not decode
  to the name, in their order, each with its key and value spelled as sent; and the returned flag says
  whether one was removed.
\<close>

theorem remove_root_members_exact:
  assumes "j_ok (JObject w ms)" and "nesting (JObject w ms) \<le> U32_MAX" and "list_all is_ws w0" and "from_utf8 key = Some key"
  shows "\<exists>w' ms'. remove_root_members (w0 @ render (JObject w ms) @ w1) key =
      (w0 @ render (JObject w' ms') @ w1, list_ex (\<lambda>kv. json_text (fst kv) = Some key) (kvs ms)) \<and>
    j_ok (JObject w' ms') \<and> kvs ms' = filter (\<lambda>kv. json_text (fst kv) \<noteq> Some key) (kvs ms)"
proof -
  obtain w' ms' where o: "object_without (\<lambda>kv. json_text (fst kv) = Some key) w ms = JObject w' ms'"
      "kvs ms' = filter (\<lambda>kv. json_text (fst kv) \<noteq> Some key) (kvs ms)"
    using object_without_kvs by blast
  then show ?thesis using remove_root_members_object [OF assms] object_without_ok [OF assms(1)] by metis
qed

theorem remove_root_members_exact_witness:
  "\<exists>w' ms'. remove_root_members ('' '' @ render (JObject [] (MCons [] ''a'' [] [] (JScalar ''1'') '' ''
        (MCons [] ''b'' [] '' '' (JString ''x'') [] (MCons [] ''a'' [] [] (JScalar ''2'') [] MNil)))) @ []) ''a'' =
      ('' '' @ render (JObject w' ms') @ [], True) \<and> j_ok (JObject w' ms') \<and> kvs ms' = [(''b'', JString ''x'')]"
  using remove_root_members_exact [of "[]" "MCons [] ''a'' [] [] (JScalar ''1'') '' ''
        (MCons [] ''b'' [] '' '' (JString ''x'') [] (MCons [] ''a'' [] [] (JScalar ''2'') [] MNil))" "'' ''" "''a''" "[]"]
  by (simp add: scalar_ok_def structural_def is_ws_def from_utf8_def json_text_def)

text \<open>
  C8. Setting a root member (the model a request is re-spelled to, the usage option of a stream) replaces every
  spelling of it. On any well-formed object text, with a key that needs no escaping and a value that is one JSON
  value, \<^verbatim>\<open>set_root_member\<close> succeeds, and the body is the text of a well-formed object whose members are the new
  one first and then exactly those of the original whose key does not decode to the name, each spelled as sent:
  so the name occurs once, whatever duplicates or escaped spellings the client sent.
\<close>

theorem set_root_member_exact:
  assumes "j_ok (JObject w ms)" and "nesting (JObject w ms) \<le> U32_MAX" and "list_all is_ws w0"
    and "from_utf8 key = Some key" and "raw_ok key" and "j_ok v0"
  shows "\<exists>w' ms'. set_root_member (w0 @ render (JObject w ms) @ w1) key (render v0) = (w0 @ render (JObject w' ms') @ w1, True) \<and>
    j_ok (JObject w' ms') \<and> kvs ms' = (key, v0) # filter (\<lambda>kv. json_text (fst kv) \<noteq> Some key) (kvs ms)"
  using assms by (rule set_root_member_object)

theorem set_root_member_exact_witness:
  "\<exists>w' ms'. set_root_member ([] @ render (JObject [] (MCons [] ''m'' [] [] (JScalar ''1'') []
        (MCons '' '' ''b'' [] [] (JArray [] ENil) [] MNil))) @ []) ''m'' (render (JString ''y'')) = ([] @ render (JObject w' ms') @ [], True) \<and>
    j_ok (JObject w' ms') \<and> kvs ms' = [(''m'', JString ''y''), (''b'', JArray [] ENil)]"
  using set_root_member_exact [of "[]" "MCons [] ''m'' [] [] (JScalar ''1'') []
        (MCons '' '' ''b'' [] [] (JArray [] ENil) [] MNil)" "[]" "''m''" "JString ''y''" "[]"]
  by (simp add: scalar_ok_def structural_def is_ws_def from_utf8_def json_text_def)

text \<open>
  A field is stripped from each object of an array in one pass (the per-tool fields of a \<^verbatim>\<open>tools\<close> list): on any
  well-formed array inside a body, every object element loses exactly its members of that name and stays
  well formed, every other element and every byte outside the array stays, and the flag says whether anything was
  removed.
\<close>

theorem remove_element_members_exact:
  assumes "j_ok (JArray w es)" and "nesting (JArray w es) \<le> U32_MAX" and "from_utf8 key = Some key"
  shows "\<exists>es'. remove_element_members (A @ render (JArray w es) @ Z) (length A) key =
      (A @ render (JArray w es') @ Z,
       list_ex (\<lambda>v. list_ex (\<lambda>kv. json_text (fst kv) = Some key) (members_of v)) (evs es)) \<and>
    j_ok (JArray w es') \<and>
    list_all2 (\<lambda>v v'. (case v of JObject _ _ \<Rightarrow> (\<exists>w' ms'. v' = JObject w' ms') | _ \<Rightarrow> v' = v) \<and>
      members_of v' = filter (\<lambda>kv. json_text (fst kv) \<noteq> Some key) (members_of v)) (evs es) (evs es')"
proof -
  define P :: "string \<times> jval \<Rightarrow> bool" where "P = (\<lambda>kv. json_text (fst kv) = Some key)"
  note r = remove_element_members_array [OF assms P_def, of A Z]
  have "j_ok (JArray w (elems_without P es))" using assms(1) by (simp add: elems_without_ok)
  moreover have "list_all2 (\<lambda>v v'. (case v of JObject _ _ \<Rightarrow> (\<exists>w' ms'. v' = JObject w' ms') | _ \<Rightarrow> v' = v) \<and>
      members_of v' = filter (\<lambda>kv. \<not> P kv) (members_of v)) (evs es) (evs (elems_without P es))"
    unfolding evs_without by (simp add: list_all2_map2 list_all2_same value_without_members)
  ultimately show ?thesis using r unfolding has_member_of P_def by blast
qed

theorem remove_element_members_exact_witness:
  "\<exists>es'. remove_element_members (''xy'' @ render (JArray [] (ECons [] (JObject [] (MCons [] ''t'' [] [] (JScalar ''1'') [] MNil)) [] ENil)) @ ''z'')
        (length ''xy'') ''t'' = (''xy'' @ render (JArray [] es') @ ''z'', True) \<and>
    j_ok (JArray [] es') \<and> (\<exists>w' ms'. evs es' = [JObject w' ms'] \<and> kvs ms' = [])"
proof -
  let ?es = "ECons [] (JObject [] (MCons [] ''t'' [] [] (JScalar ''1'') [] MNil)) [] ENil"
  have "j_ok (JArray [] ?es)" "nesting (JArray [] ?es) \<le> U32_MAX" "from_utf8 ''t'' = Some ''t''"
    by (simp_all add: scalar_ok_def structural_def is_ws_def from_utf8_def)
  from remove_element_members_exact [OF this, of "''xy''" "''z''"] obtain es' where
    r: "remove_element_members (''xy'' @ render (JArray [] ?es) @ ''z'') (length ''xy'') ''t'' =
      (''xy'' @ render (JArray [] es') @ ''z'',
       list_ex (\<lambda>v. list_ex (\<lambda>kv. json_text (fst kv) = Some ''t'') (members_of v)) (evs ?es))" and ok: "j_ok (JArray [] es')"
    and l: "list_all2 (\<lambda>v v'. (case v of JObject _ _ \<Rightarrow> (\<exists>w' ms'. v' = JObject w' ms') | _ \<Rightarrow> v' = v) \<and>
      members_of v' = filter (\<lambda>kv. json_text (fst kv) \<noteq> Some ''t'') (members_of v)) (evs ?es) (evs es')"
    by blast
  have t: "json_text ''t'' = Some ''t''" by (simp add: json_text_def from_utf8_def)
  have "\<exists>w' ms'. evs es' = [JObject w' ms'] \<and> kvs ms' = []"
    using l t by (auto simp: list_all2_Cons1 members_of_def)
  moreover have "list_ex (\<lambda>v. list_ex (\<lambda>kv. json_text (fst kv) = Some ''t'') (members_of v)) (evs ?es) = True"
    by (simp add: members_of_def t)
  ultimately show ?thesis using ok by (intro exI [of _ es'] conjI r [unfolded \<open>list_ex _ _ = True\<close>])
qed

end
