(* ===== verification/Model_Scan.thy ===== *)
theory Model_Scan
  imports Json_Text
begin

text \<open>
  The streaming model scanner, \<^verbatim>\<open>ModelScanner\<close> of \<^verbatim>\<open>gateway/src/peek.rs\<close>: the model a request names, or a
  response was served by, found in the body's chunks as they pass, with the members a caller also wants kept.
\<close>

section \<open>Captures\<close>

definition MAX_CAPTURE :: nat where "MAX_CAPTURE = 256"

definition RAW_CAPTURE :: nat where "RAW_CAPTURE = 512"

definition MAX_EXTRAS :: nat where "MAX_EXTRAS = 6"

definition push_capped :: "string \<Rightarrow> string \<Rightarrow> string" where
  "push_capped buf bytes = buf @ take (MAX_CAPTURE - length buf) bytes"

definition push_raw :: "string \<Rightarrow> string \<Rightarrow> string" where
  "push_raw buf bytes = buf @ take (RAW_CAPTURE - length buf) bytes"

definition capture_text :: "string \<Rightarrow> bool \<Rightarrow> string option" where
  "capture_text raw escaped =
     (if \<not> escaped then from_utf8 raw
      else if MAX_CAPTURE \<le> length raw then None
      else unescape raw)"

definition key_bytes :: "string \<Rightarrow> bool \<Rightarrow> string option" where
  "key_bytes raw escaped = (if escaped then capture_text raw True else Some raw)"

fun valid_up_to :: "nat \<Rightarrow> string \<Rightarrow> nat" where
  "valid_up_to 0 buf = 0"
| "valid_up_to (Suc n) buf = (if from_utf8 (take (Suc n) buf) \<noteq> None then Suc n else valid_up_to n buf)"

definition utf8_prefix :: "string \<Rightarrow> string" where
  "utf8_prefix buf = (case from_utf8 buf of Some v \<Rightarrow> v | None \<Rightarrow> take (valid_up_to (length buf) buf) buf)"

section \<open>State\<close>

datatype cap = CapNo | CapKey | CapModelValue | CapExtra

record scanner =
  sc_model :: "string option"
  sc_done :: bool
  sc_lex :: lexer
  root_is_object :: bool
  expect_key :: bool
  last_key_is_model :: bool
  accept_message_nesting :: bool
  last_key_is_message :: bool
  in_message :: bool
  sc_cap :: cap
  sc_cur :: string

record kept =
  kp_keys :: "string list"
  past_model :: bool
  kp_values :: "string option list"
  last_key_extra :: "nat option"
  kp_raw :: "nat option"
  raw_depth :: nat
  raw_buf :: string

definition RESPONSE_EXTRA_KEYS :: "string list" where "RESPONSE_EXTRA_KEYS = [''id'', ''provider'']"

definition REQUEST_KNOB_KEYS :: "string list" where
  "REQUEST_KNOB_KEYS = [''service_tier'', ''speed'', ''inference_geo'', ''provider'', ''plugins'', ''container'']"

definition kept_with :: "string list \<Rightarrow> bool \<Rightarrow> kept" where
  "kept_with keys past =
     \<lparr>kp_keys = keys, past_model = past, kp_values = replicate MAX_EXTRAS None, last_key_extra = None, kp_raw = None,
      raw_depth = 0, raw_buf = []\<rparr>"

definition kept_response :: kept where "kept_response = kept_with RESPONSE_EXTRA_KEYS False"

definition kept_request_knobs :: kept where "kept_request_knobs = kept_with REQUEST_KNOB_KEYS True"

definition kept_get :: "kept \<Rightarrow> nat \<Rightarrow> string option" where
  "kept_get k i = (if i < length (kp_values k) then kp_values k ! i else None)"

definition kept_keep :: "nat \<Rightarrow> string \<Rightarrow> kept \<Rightarrow> kept" where
  "kept_keep i v k =
     (if i < length (kp_values k) \<and> kp_values k ! i = None then k\<lparr>kp_values := (kp_values k)[i := Some v]\<rparr> else k)"

definition all_found :: "kept \<Rightarrow> bool" where
  "all_found k \<longleftrightarrow> list_all (\<lambda>v. v \<noteq> None) (take (length (kp_keys k)) (kp_values k))"

definition position :: "string list \<Rightarrow> string \<Rightarrow> nat option" where
  "position keys key = (let i = length (takeWhile (\<lambda>k. k \<noteq> key) keys) in if i < length keys then Some i else None)"

definition scanner_new :: scanner where
  "scanner_new =
     \<lparr>sc_model = None, sc_done = False, sc_lex = lexer_new, root_is_object = False, expect_key = False,
      last_key_is_model = False, accept_message_nesting = False, last_key_is_message = False, in_message = False,
      sc_cap = CapNo, sc_cur = []\<rparr>"

definition scanner_for_response :: scanner where
  "scanner_for_response = scanner_new\<lparr>accept_message_nesting := True\<rparr>"

definition take_model :: "scanner \<Rightarrow> string option \<times> scanner" where
  "take_model s = (sc_model s, s\<lparr>sc_model := None\<rparr>)"

definition at_key_level :: "scanner \<Rightarrow> nat \<Rightarrow> bool" where
  "at_key_level s depth \<longleftrightarrow> depth = 1 \<and> root_is_object s \<or> depth = 2 \<and> in_message s"

section \<open>The walk\<close>

record scan_walk =
  wk_s :: scanner
  wk_kept :: "kept option"
  raw_from :: "nat option"

definition walk_extra :: "scan_walk \<Rightarrow> nat option" where
  "walk_extra w = (case wk_kept w of None \<Rightarrow> None | Some k \<Rightarrow> last_key_extra k)"

definition walk_finish :: "scan_walk \<Rightarrow> scan_walk \<times> bool" where
  "walk_finish w = (w\<lparr>wk_s := (wk_s w)\<lparr>sc_done := True\<rparr>\<rparr>, True)"

definition walk_open :: "nat \<Rightarrow> nat \<Rightarrow> scan_walk \<Rightarrow> scan_walk" where
  "walk_open pos depth w =
     (let s = wk_s w;
          c = (if at_key_level s depth then
                 (if expect_key s then CapKey
                  else if last_key_is_model s then CapModelValue
                  else if walk_extra w \<noteq> None then CapExtra
                  else CapNo)
               else CapNo)
      in w\<lparr>wk_s := s\<lparr>sc_cur := [], sc_cap := c\<rparr>\<rparr>)"

definition walk_content :: "string \<Rightarrow> scan_walk \<Rightarrow> scan_walk" where
  "walk_content raw w =
     (let s = wk_s w in if sc_cap s = CapNo then w else w\<lparr>wk_s := s\<lparr>sc_cur := push_capped (sc_cur s) raw\<rparr>\<rparr>)"

definition walk_closed :: "scan_walk \<Rightarrow> scan_walk \<times> bool" where
  "walk_closed w = (w\<lparr>wk_s := (wk_s w)\<lparr>sc_cap := CapNo, sc_cur := []\<rparr>\<rparr>, False)"

definition close_key :: "nat \<Rightarrow> bool \<Rightarrow> scan_walk \<Rightarrow> scan_walk" where
  "close_key depth escaped w =
     (let s = wk_s w;
          key = key_bytes (sc_cur s) escaped;
          s1 = s\<lparr>last_key_is_model := (key = Some ''model'')\<rparr>;
          kp = map_option (\<lambda>k. k\<lparr>last_key_extra := (case key of None \<Rightarrow> None | Some key \<Rightarrow> position (kp_keys k) key)\<rparr>) (wk_kept w);
          s2 = (if accept_message_nesting s \<and> depth = 1
                then s1\<lparr>last_key_is_message := (key = Some ''message'' \<or> key = Some ''response'')\<rparr> else s1)
      in w\<lparr>wk_s := s2, wk_kept := kp\<rparr>)"

definition close_model :: "bool \<Rightarrow> scan_walk \<Rightarrow> scan_walk \<times> bool" where
  "close_model escaped w =
     (let s = wk_s w;
          v = (case capture_text (sc_cur s) escaped of Some v \<Rightarrow> v | None \<Rightarrow> ''unknown'');
          s1 = s\<lparr>sc_cur := []\<rparr>
      in if (case wk_kept w of None \<Rightarrow> False | Some k \<Rightarrow> past_model k) then
           let s2 = (if sc_model s1 = None then s1\<lparr>sc_model := Some v\<rparr> else s1); w = w\<lparr>wk_s := s2\<rparr> in
           if (case wk_kept w of None \<Rightarrow> False | Some k \<Rightarrow> all_found k) then walk_finish w else walk_closed w
         else walk_finish (w\<lparr>wk_s := s1\<lparr>sc_model := Some v\<rparr>\<rparr>))"

definition close_extra :: "bool \<Rightarrow> scan_walk \<Rightarrow> scan_walk \<times> bool" where
  "close_extra escaped w =
     (case wk_kept w of
        None \<Rightarrow> walk_closed w
      | Some k \<Rightarrow>
          (case last_key_extra k of
             None \<Rightarrow> walk_closed w
           | Some idx \<Rightarrow>
               let s = wk_s w;
                   k = (case capture_text (sc_cur s) escaped of Some v \<Rightarrow> kept_keep idx v k | None \<Rightarrow> k);
                   w = w\<lparr>wk_s := s\<lparr>sc_cur := []\<rparr>, wk_kept := Some k\<rparr>
               in if past_model k \<and> all_found k then walk_finish w else walk_closed w))"

definition walk_close :: "nat \<Rightarrow> nat \<Rightarrow> bool \<Rightarrow> scan_walk \<Rightarrow> scan_walk \<times> bool" where
  "walk_close pos depth escaped w =
     (case sc_cap (wk_s w) of
        CapKey \<Rightarrow> walk_closed (close_key depth escaped w)
      | CapModelValue \<Rightarrow> close_model escaped w
      | CapExtra \<Rightarrow> close_extra escaped w
      | CapNo \<Rightarrow> walk_closed w)"

definition byte_close :: "string \<Rightarrow> nat \<Rightarrow> nat \<Rightarrow> scan_walk \<Rightarrow> scan_walk \<times> bool" where
  "byte_close bytes pos depth w =
     (let s = wk_s w;
          s = (if depth = 2 \<and> in_message s then s\<lparr>in_message := False, last_key_is_message := False\<rparr> else s);
          w = w\<lparr>wk_s := s\<rparr>
      in case wk_kept w of
           None \<Rightarrow> (w, False)
         | Some k \<Rightarrow>
             (case kp_raw k of
                None \<Rightarrow> (w, False)
              | Some idx \<Rightarrow>
                  if depth - 1 = raw_depth k then
                    let from = (case raw_from w of Some f \<Rightarrow> f | None \<Rightarrow> 0);
                        buf = push_raw (raw_buf k) (take (pos + 1 - from) (drop from bytes));
                        k = kept_keep idx (utf8_prefix buf) (k\<lparr>kp_raw := None, raw_buf := []\<rparr>);
                        w = w\<lparr>raw_from := None, wk_kept := Some k\<rparr>
                    in if past_model k \<and> all_found k then walk_finish w else (w, False)
                  else (w, False)))"

definition walk_byte :: "string \<Rightarrow> nat \<Rightarrow> char \<Rightarrow> nat \<Rightarrow> scan_walk \<Rightarrow> scan_walk \<times> bool" where
  "walk_byte bytes pos b depth w =
     (let s = wk_s w; extra = walk_extra w in
      if (b = CHR ''{'' \<or> b = CHR ''['') \<and> extra \<noteq> None \<and> \<not> expect_key s \<and> at_key_level s depth \<and>
         (case wk_kept w of None \<Rightarrow> False | Some k \<Rightarrow> kp_raw k = None)
      then (w\<lparr>wk_kept := map_option (\<lambda>k. k\<lparr>kp_raw := extra, raw_depth := depth, raw_buf := []\<rparr>) (wk_kept w), raw_from := Some pos\<rparr>, False)
      else if b = CHR ''{'' then
        (w\<lparr>wk_s := (if depth = 0 then s\<lparr>root_is_object := True, expect_key := True\<rparr>
                    else if depth = 1 \<and> last_key_is_message s then s\<lparr>in_message := True, expect_key := True\<rparr>
                    else s)\<rparr>, False)
      else if b = CHR ''['' then (w\<lparr>wk_s := (if depth = 0 then s\<lparr>root_is_object := False\<rparr> else s)\<rparr>, False)
      else if b = CHR ''}'' \<or> b = CHR '']'' then byte_close bytes pos depth w
      else if b = CHR '':'' then (w\<lparr>wk_s := s\<lparr>expect_key := False\<rparr>\<rparr>, False)
      else if b = CHR '','' then
        (w\<lparr>wk_s := (let s = s\<lparr>expect_key := True, last_key_is_model := False\<rparr> in
                     if depth = 1 then s\<lparr>last_key_is_message := False\<rparr> else s),
           wk_kept := map_option (\<lambda>k. k\<lparr>last_key_extra := None\<rparr>) (wk_kept w)\<rparr>, False)
      else (w, False))"

definition walk_visitor :: "string \<Rightarrow> scan_walk visitor" where
  "walk_visitor bytes =
     \<lparr>v_byte = walk_byte bytes, v_open = walk_open, v_content = walk_content, v_close = walk_close\<rparr>"

definition feed_inner :: "scanner \<Rightarrow> string \<Rightarrow> kept option \<Rightarrow> scanner \<times> kept option" where
  "feed_inner s bytes kp =
     (if sc_done s then (s, kp)
      else
        let rf = (case kp of None \<Rightarrow> None | Some k \<Rightarrow> map_option (\<lambda>_. 0) (kp_raw k));
            (lx, w, stopped) = feed (walk_visitor bytes) bytes (sc_lex s) \<lparr>wk_s = s, wk_kept = kp, raw_from = rf\<rparr>;
            kp = (case (wk_kept w, raw_from w) of
                    (Some k, Some from) \<Rightarrow>
                      if stopped = None \<and> kp_raw k \<noteq> None then Some (k\<lparr>raw_buf := push_raw (raw_buf k) (drop from bytes)\<rparr>) else Some k
                  | (kp, _) \<Rightarrow> kp)
        in ((wk_s w)\<lparr>sc_lex := lx\<rparr>, kp))"

definition scanner_feed :: "string \<Rightarrow> scanner \<Rightarrow> scanner" where
  "scanner_feed bytes s = fst (feed_inner s bytes None)"

definition feed_keeping :: "string \<Rightarrow> scanner \<times> kept \<Rightarrow> scanner \<times> kept" where
  "feed_keeping bytes sk = (case feed_inner (fst sk) bytes (Some (snd sk)) of
     (s, Some k) \<Rightarrow> (s, k) | (s, None) \<Rightarrow> (s, snd sk))"

section \<open>The scan of one byte\<close>

lemma push_capped_append: "push_capped buf (s @ t) = push_capped (push_capped buf s) t"
  by (simp add: push_capped_def min_def)

lemma push_capped_Nil [simp]: "push_capped buf [] = buf"
  by (simp add: push_capped_def)

interpretation walk: piecewise "walk_visitor bytes"
  by unfold_locales (simp_all add: walk_visitor_def walk_content_def push_capped_append Let_def)

definition bare :: "scanner \<Rightarrow> scan_walk" where "bare s = \<lparr>wk_s = s, wk_kept = None, raw_from = None\<rparr>"

definition scan1 :: "char \<Rightarrow> scanner \<Rightarrow> scanner" where
  "scan1 c s =
     (if sc_done s then s
      else case lex1 (walk_visitor []) 0 c (sc_lex s) (bare s) of (lx, w, stop) \<Rightarrow> (wk_s w)\<lparr>sc_lex := lx\<rparr>)"

lemmas walk_defs = walk_visitor_def walk_open_def walk_content_def walk_close_def walk_byte_def walk_closed_def close_key_def
  close_model_def close_extra_def byte_close_def walk_finish_def walk_extra_def at_key_level_def bare_def

lemma walk_step:
  assumes "\<not> sc_done s"
  shows "\<exists>lx' s' stop. lex1 (walk_visitor bytes) pos c lx (bare s) = (lx', bare s', stop) \<and>
    scan1 c (s\<lparr>sc_lex := lx\<rparr>) = s'\<lparr>sc_lex := lx'\<rparr> \<and> stop = sc_done s'"
  using assms
  by (cases "lx_state lx"; cases "sc_cap s")
    (auto simp: scan1_def lex1_def walk_defs Let_def split: option.split)

lemma scan1_done: "sc_done s \<Longrightarrow> fold scan1 t s = s"
  by (induction t) (simp_all add: scan1_def)

lemma walk_bytes:
  assumes "\<not> sc_done s"
  shows "\<exists>lx' s' stop. lex_bytes (walk_visitor bytes) pos t lx (bare s) = (lx', bare s', stop) \<and>
    fold scan1 t (s\<lparr>sc_lex := lx\<rparr>) = s'\<lparr>sc_lex := lx'\<rparr>"
  using assms
proof (induction t arbitrary: pos lx s)
  case (Cons c t)
  obtain lx1 s1 stop where 1: "lex1 (walk_visitor bytes) pos c lx (bare s) = (lx1, bare s1, stop)"
    "scan1 c (s\<lparr>sc_lex := lx\<rparr>) = s1\<lparr>sc_lex := lx1\<rparr>" "stop = sc_done s1"
    using walk_step [OF Cons.prems] by blast
  show ?case
  proof (cases "sc_done s1")
    case True
    then show ?thesis using 1 scan1_done [of "s1\<lparr>sc_lex := lx1\<rparr>"] by (intro exI [of _ lx1] exI [of _ s1]) simp
  next
    case False
    from Cons.IH [OF this, of "pos + 1" lx1] show ?thesis using 1 False by simp
  qed
qed auto

lemma scanner_feed_bytes: "scanner_feed bytes s = fold scan1 bytes s"
proof (cases "sc_done s")
  case True
  then show ?thesis by (simp add: scanner_feed_def feed_inner_def scan1_done)
next
  case False
  from walk_bytes [OF this, of bytes 0 bytes "sc_lex s"] show ?thesis using False
    by (auto simp: scanner_feed_def feed_inner_def walk.feed_bytes bare_def)
qed

lemma scanner_feed_chunks: "fold scanner_feed chunks s = fold scan1 (concat chunks) s"
  by (induction chunks arbitrary: s) (simp_all add: scanner_feed_bytes)

section \<open>The scan of JSON\<close>

text \<open>Between two tokens at a depth, with nothing found yet.\<close>

definition calm :: "nat \<Rightarrow> scanner \<Rightarrow> bool" where
  "calm d s \<longleftrightarrow> \<not> sc_done s \<and> sc_lex s = \<lparr>lx_depth = d, lx_state = Outside\<rparr> \<and> sc_cap s = CapNo \<and> sc_cur s = []"

lemma visitor_simps [simp]:
  "v_byte (walk_visitor bytes) = walk_byte bytes" "v_open (walk_visitor bytes) = walk_open"
  "v_content (walk_visitor bytes) = walk_content" "v_close (walk_visitor bytes) = walk_close"
  by (simp_all add: walk_visitor_def)

lemma sc_lex_same: "sc_lex s = lx \<Longrightarrow> s\<lparr>sc_lex := lx\<rparr> = s"
  by (cases s) simp

lemma scan1_byte:
  assumes "calm d s" and "c \<noteq> quote"
  shows "scan1 c s = (wk_s (fst (walk_byte [] 0 c d (bare s))))\<lparr>sc_lex := \<lparr>lx_depth = depth_after c d, lx_state = Outside\<rparr>\<rparr>"
  using assms by (simp add: scan1_def calm_def lex1_def split: prod.split)

lemma scan_idle:
  assumes "list_all (\<lambda>c. \<not> structural c) w" and "calm d s"
  shows "fold scan1 w s = s"
  using assms
proof (induction w)
  case (Cons c w)
  have c: "c \<noteq> quote" "c \<noteq> CHR ''{''" "c \<noteq> CHR ''}''" "c \<noteq> CHR ''[''" "c \<noteq> CHR '']''" "c \<noteq> CHR '',''" "c \<noteq> CHR '':''"
    using Cons.prems(1) by (simp_all add: structural_def)
  have "walk_byte [] 0 c d (bare s) = (bare s, False)" "depth_after c d = d"
    using c by (simp_all add: walk_byte_def depth_after_def Let_def)
  then have "scan1 c s = s" using scan1_byte [OF Cons.prems(2) c(1)] Cons.prems(2)
    by (simp add: bare_def calm_def sc_lex_same)
  with Cons show ?case by simp
qed simp

lemma scan_ws: "list_all is_ws w \<Longrightarrow> calm d s \<Longrightarrow> fold scan1 w s = s"
  by (rule scan_idle [OF ws_plain])

lemma scan_scalar: "scalar_ok t \<Longrightarrow> calm d s \<Longrightarrow> fold scan1 t s = s"
  by (rule scan_idle [OF scalar_plain])

text \<open>A string, by what it is to the scan.\<close>

definition captured :: "string \<Rightarrow> string" where "captured raw = take MAX_CAPTURE raw"

lemma walk_close_pos: "walk_close p = walk_close q"
  by (simp add: walk_close_def fun_eq_iff)

lemma scan_string:
  assumes s: "calm d s" and raw: "raw_ok raw"
  shows "fold scan1 (quote # raw @ [quote]) s =
    (let w = walk_open 0 d (bare s) in
     (wk_s (fst (walk_close 0 d (backslash \<in> set raw) (walk_content raw w))))\<lparr>sc_lex := sc_lex s\<rparr>)"
proof -
  obtain lx' s' stop where r: "lex_bytes (walk_visitor []) 0 (quote # raw @ [quote]) (sc_lex s) (bare s) = (lx', bare s', stop)"
    "fold scan1 (quote # raw @ [quote]) (s\<lparr>sc_lex := sc_lex s\<rparr>) = s'\<lparr>sc_lex := lx'\<rparr>"
    using walk_bytes [of s "[]" 0 "quote # raw @ [quote]" "sc_lex s"] s by (auto simp: calm_def)
  let ?w = "walk_open 0 d (bare s)" let ?c = "walk_close 0 d (backslash \<in> set raw) (walk_content raw ?w)"
  have st: "sc_lex s = \<lparr>lx_depth = d, lx_state = Outside\<rparr>" using s by (simp add: calm_def)
  have "lex_bytes (walk_visitor []) 0 (quote # raw @ [quote]) (sc_lex s) (bare s) =
      lex_bytes (walk_visitor []) (1 + length raw) [quote]
        \<lparr>lx_depth = d, lx_state = (if backslash \<in> set raw then Escaped else Plain)\<rparr> (walk_content raw ?w)"
    using walk.lex_raw [OF raw, of "[]" 1 "[quote]" d False "?w"] by (simp add: st lex1_def)
  also have "\<dots> = (sc_lex s, fst ?c, if snd ?c then Some (length raw + 2) else None)"
    using walk_close_pos [of "Suc (length raw)" 0]
    by (cases "backslash \<in> set raw") (simp_all add: st lex1_def split: prod.split)
  finally have "bare s' = fst ?c" "lx' = sc_lex s" using r(1) by simp_all
  then have "s' = wk_s (fst ?c)" by (metis bare_def scan_walk.select_convs(1))
  with r(2) \<open>lx' = sc_lex s\<close> show ?thesis by (simp add: Let_def sc_lex_same)
qed

definition loose :: "scanner \<Rightarrow> scanner \<Rightarrow> bool" where
  "loose s s' \<longleftrightarrow> s' = s\<lparr>expect_key := expect_key s', last_key_is_model := last_key_is_model s'\<rparr>"

definition quiet :: "nat \<Rightarrow> scanner \<Rightarrow> bool" where
  "quiet d s \<longleftrightarrow>
     1 \<le> d \<and> (d = 1 \<longrightarrow> \<not> root_is_object s \<and> \<not> last_key_is_message s) \<and> (d \<le> 2 \<longrightarrow> \<not> in_message s)"

lemma loose_fields:
  assumes "loose s s'"
  shows "calm d s' = calm d s" "quiet d s' = quiet d s" "sc_lex s' = sc_lex s" "in_message s' = in_message s"
    "root_is_object s' = root_is_object s" "last_key_is_message s' = last_key_is_message s" "sc_model s' = sc_model s"
    "accept_message_nesting s' = accept_message_nesting s" "sc_done s' = sc_done s" "sc_cap s' = sc_cap s" "sc_cur s' = sc_cur s"
proof -
  obtain a b where s': "s' = s\<lparr>expect_key := a, last_key_is_model := b\<rparr>" using assms by (auto simp: loose_def)
  show "calm d s' = calm d s" "quiet d s' = quiet d s" "sc_lex s' = sc_lex s" "in_message s' = in_message s"
    "root_is_object s' = root_is_object s" "last_key_is_message s' = last_key_is_message s" "sc_model s' = sc_model s"
    "accept_message_nesting s' = accept_message_nesting s" "sc_done s' = sc_done s" "sc_cap s' = sc_cap s" "sc_cur s' = sc_cur s"
    by (simp_all add: s' calm_def quiet_def)
qed

lemma loose_refl [simp]: "loose s s"
  by (cases s) (simp add: loose_def)

lemma loose_trans: "loose s t \<Longrightarrow> loose t u \<Longrightarrow> loose s u"
  by (cases s; cases t; cases u) (auto simp: loose_def)

lemma loose_upd [simp]: "loose s (s\<lparr>expect_key := a\<rparr>)" "loose s (s\<lparr>expect_key := a, last_key_is_model := b\<rparr>)" "loose s (s\<lparr>last_key_is_model := b\<rparr>)"
  by (cases s; simp add: loose_def)+

lemma loose_lex: "loose (s\<lparr>sc_lex := lx\<rparr>) t \<Longrightarrow> loose s (t\<lparr>sc_lex := sc_lex s\<rparr>)"
  by (cases s; cases t) (auto simp: loose_def)

text \<open>The structural bytes, for a scan that keeps only the model.\<close>

lemma scan_colon: "calm d s \<Longrightarrow> scan1 CHR '':'' s = s\<lparr>expect_key := False\<rparr>"
  by (simp add: scan1_byte walk_byte_def Let_def bare_def depth_after_def calm_def)

lemma scan_comma:
  "calm d s \<Longrightarrow> scan1 CHR '','' s =
     s\<lparr>expect_key := True, last_key_is_model := False, last_key_is_message := (d \<noteq> 1 \<and> last_key_is_message s)\<rparr>"
  by (simp add: scan1_byte walk_byte_def Let_def bare_def depth_after_def calm_def)

lemma scan_bracket: "calm d s \<Longrightarrow> 1 \<le> d \<Longrightarrow> d < U32_MAX \<Longrightarrow> scan1 CHR ''['' s = s\<lparr>sc_lex := \<lparr>lx_depth = Suc d, lx_state = Outside\<rparr>\<rparr>"
  by (simp add: scan1_byte walk_byte_def Let_def bare_def depth_after_def walk_extra_def)

lemma scan_brace:
  "calm d s \<Longrightarrow> 1 \<le> d \<Longrightarrow> d < U32_MAX \<Longrightarrow> scan1 CHR ''{'' s =
     (if d = 1 \<and> last_key_is_message s then s\<lparr>in_message := True, expect_key := True\<rparr> else s)\<lparr>sc_lex := \<lparr>lx_depth = Suc d, lx_state = Outside\<rparr>\<rparr>"
  by (simp add: scan1_byte walk_byte_def Let_def bare_def depth_after_def walk_extra_def)

lemma scan_closing:
  "calm (Suc d) s \<Longrightarrow> c = CHR ''}'' \<or> c = CHR '']'' \<Longrightarrow> scan1 c s =
     (if d = 1 \<and> in_message s then s\<lparr>in_message := False, last_key_is_message := False\<rparr> else s)\<lparr>sc_lex := \<lparr>lx_depth = d, lx_state = Outside\<rparr>\<rparr>"
  by (auto simp: scan1_byte walk_byte_def byte_close_def Let_def bare_def depth_after_def walk_extra_def)

lemma calm_lex: "calm d s \<Longrightarrow> calm e (s\<lparr>sc_lex := \<lparr>lx_depth = e, lx_state = Outside\<rparr>\<rparr>)"
  by (simp add: calm_def)

text \<open>A string that is neither a key nor the model's value.\<close>

lemma scan_string_idle:
  assumes "calm d s" "raw_ok raw" "\<not> at_key_level s d \<or> \<not> expect_key s \<and> \<not> last_key_is_model s"
  shows "fold scan1 (quote # raw @ [quote]) s = s"
  using assms(3) assms(1)
  unfolding scan_string [OF assms(1,2)]
  by (auto simp: walk_open_def walk_content_def walk_close_def walk_closed_def bare_def walk_extra_def Let_def at_key_level_def calm_def)

section \<open>Values whose members do not count\<close>

lemma scan_container:
  assumes s: "calm d s" "1 \<le> d" "d < U32_MAX" "\<not> (d = 1 \<and> in_message s)"
    and c: "c = CHR ''['' \<and> c' = CHR '']'' \<or> c = CHR ''{'' \<and> c' = CHR ''}'' \<and> \<not> (d = 1 \<and> last_key_is_message s)"
    and inner: "loose (s\<lparr>sc_lex := \<lparr>lx_depth = Suc d, lx_state = Outside\<rparr>\<rparr>)
      (fold scan1 inner (s\<lparr>sc_lex := \<lparr>lx_depth = Suc d, lx_state = Outside\<rparr>\<rparr>))"
  shows "loose s (fold scan1 (c # inner @ [c']) s)"
proof -
  let ?s1 = "s\<lparr>sc_lex := \<lparr>lx_depth = Suc d, lx_state = Outside\<rparr>\<rparr>" and ?s2 = "fold scan1 inner (s\<lparr>sc_lex := \<lparr>lx_depth = Suc d, lx_state = Outside\<rparr>\<rparr>)"
  have "scan1 c s = ?s1" using c scan_bracket [OF s(1-3)] scan_brace [OF s(1-3)] by auto
  moreover have "scan1 c' ?s2 = ?s2\<lparr>sc_lex := \<lparr>lx_depth = d, lx_state = Outside\<rparr>\<rparr>"
  proof -
    have "calm (Suc d) ?s2" using loose_fields(1) [OF inner] calm_lex [OF s(1)] by simp
    moreover have "in_message ?s2 = in_message s" using loose_fields(4) [OF inner] by simp
    ultimately show ?thesis using scan_closing [of d ?s2 c'] c s(4) by auto
  qed
  ultimately show ?thesis using loose_lex [OF inner] s(1) by (simp add: calm_def)
qed

definition quietly :: "nat \<Rightarrow> string \<Rightarrow> bool" where
  "quietly d x \<longleftrightarrow> (\<forall>s. calm d s \<longrightarrow> quiet d s \<longrightarrow> loose s (fold scan1 x s))"

lemma quietly_append: "quietly d x \<Longrightarrow> quietly d y \<Longrightarrow> quietly d (x @ y)"
proof -
  assume x: "quietly d x" and y: "quietly d y"
  have "loose s (fold scan1 y (fold scan1 x s))" if s: "calm d s" "quiet d s" for s
  proof -
    have l: "loose s (fold scan1 x s)" using x s by (simp add: quietly_def)
    then have "loose (fold scan1 x s) (fold scan1 y (fold scan1 x s))" using y s loose_fields(1,2) [OF l] by (simp add: quietly_def)
    with l show ?thesis by (rule loose_trans)
  qed
  then show ?thesis by (simp add: quietly_def)
qed

lemma quietly_string: "raw_ok k \<Longrightarrow> quietly d (quote # k @ [quote])"
  using scan_string_idle [of d _ k] by (auto simp: quietly_def quiet_def at_key_level_def)

lemma quietly_colon: "quietly d '':''"
  by (simp add: quietly_def scan_colon)

lemma quietly_comma: "quietly d '',''"
proof -
  have "scan1 CHR '','' s = s\<lparr>expect_key := True, last_key_is_model := False, last_key_is_message := last_key_is_message s\<rparr>"
    if "calm d s" "quiet d s" for s using that by (auto simp: scan_comma quiet_def)
  then show ?thesis by (auto simp: quietly_def loose_def)
qed

lemma quietly_container:
  assumes "1 \<le> d" "d < U32_MAX" "quietly (Suc d) inner" "(c, c') \<in> {(CHR ''['', CHR '']''), (CHR ''{'', CHR ''}'')}"
  shows "quietly d (c # inner @ [c'])"
proof -
  have "loose s (fold scan1 (c # inner @ [c']) s)" if s: "calm d s" "quiet d s" for s
  proof -
    let ?s1 = "s\<lparr>sc_lex := \<lparr>lx_depth = Suc d, lx_state = Outside\<rparr>\<rparr>"
    have q: "quiet (Suc d) ?s1" using s(2) by (auto simp: quiet_def)
    have "loose ?s1 (fold scan1 inner ?s1)" using assms(3) calm_lex [OF s(1)] q by (simp add: quietly_def)
    then show ?thesis
      using s assms(1,2,4) by (intro scan_container) (auto simp: quiet_def)
  qed
  then show ?thesis by (simp add: quietly_def)
qed

interpretation quietly: json_walk quietly
proof (unfold_locales, goal_cases)
  case (1 d x y)
  then show ?case by (rule quietly_append)
next
  case (2 w d)
  then show ?case by (simp add: quietly_def scan_idle)
next
  case (3 k d)
  then show ?case by (rule quietly_string)
next
  case (4 d)
  show ?case by (rule quietly_colon)
next
  case (5 d)
  show ?case by (rule quietly_comma)
next
  case (6 d inner c c')
  then show ?case by (rule quietly_container)
qed

section \<open>What the model is\<close>

definition recorded :: "string \<Rightarrow> string" where
  "recorded raw =
     (if backslash \<in> set raw \<and> MAX_CAPTURE \<le> length raw then ''unknown''
      else case json_text (take MAX_CAPTURE raw) of Some t \<Rightarrow> t | None \<Rightarrow> ''unknown'')"

primrec firsts :: "(string \<Rightarrow> jval \<Rightarrow> 'a option) \<Rightarrow> jmembers \<Rightarrow> 'a option" where
  "firsts f MNil = None"
| "firsts f (MCons w1 k w2 w3 v w4 ms) = (case f k v of Some x \<Rightarrow> Some x | None \<Rightarrow> firsts f ms)"

definition plain_model :: "string \<Rightarrow> jval \<Rightarrow> string option" where
  "plain_model k v = (case v of JString raw \<Rightarrow> if json_text k = Some ''model'' then Some raw else None | _ \<Rightarrow> None)"

definition member_model :: "bool \<Rightarrow> string \<Rightarrow> jval \<Rightarrow> string option" where
  "member_model nested k v =
     (case v of
        JObject w ms \<Rightarrow>
          if nested \<and> (json_text k = Some ''message'' \<or> json_text k = Some ''response'') then firsts plain_model ms else None
      | _ \<Rightarrow> plain_model k v)"

definition body_model :: "bool \<Rightarrow> jval \<Rightarrow> string option" where
  "body_model nested v = (case v of JObject w ms \<Rightarrow> firsts (member_model nested) ms | _ \<Rightarrow> None)"

text \<open>A key is compared as captured, which is as it is.\<close>

lemma from_utf8_ascii: "list_all (\<lambda>c. byte c < 0x80) s \<Longrightarrow> from_utf8 s = Some s"
proof -
  assume "list_all (\<lambda>c. byte c < 0x80) s"
  then have "utf8_bytes (map byte s)" by (induction s) auto
  then show ?thesis by (simp add: from_utf8_def)
qed

lemma key_text:
  assumes "want \<in> {''model'', ''message'', ''response''}"
  shows "key_bytes (take MAX_CAPTURE k) (backslash \<in> set k) = Some want \<longleftrightarrow> json_text k = Some want"
proof -
  have u: "from_utf8 want = Some want" and l: "length want \<le> 8"
    using assms by (auto intro!: from_utf8_ascii)
  have short: "length k \<le> 48" if "unescape k = Some want"
  proof -
    have "unescapes_to k want" using unescapes_to_iff [OF u, of k] that by simp
    then show ?thesis using l by (simp add: unescapes_to_def)
  qed
  show ?thesis
  proof (cases "backslash \<in> set k")
    case True
    then show ?thesis using short
      by (auto simp: key_bytes_def capture_text_def json_text_def MAX_CAPTURE_def split: if_splits)
  next
    case False
    have "take MAX_CAPTURE k = want \<longleftrightarrow> k = want"
      using l by (auto simp: MAX_CAPTURE_def take_all_iff)
    then show ?thesis using False u by (auto simp: key_bytes_def json_text_def from_utf8_def split: if_splits)
  qed
qed

lemma capture_recorded:
  "(case capture_text (push_capped [] raw) (backslash \<in> set raw) of Some v \<Rightarrow> v | None \<Rightarrow> ''unknown'') = recorded raw"
proof (cases "backslash \<in> set raw \<and> \<not> MAX_CAPTURE \<le> length raw")
  case True
  then show ?thesis by (simp add: capture_text_def recorded_def json_text_def push_capped_def)
next
  case False
  then show ?thesis by (auto simp: capture_text_def recorded_def json_text_def push_capped_def dest: in_set_takeD)
qed

section \<open>Members that count\<close>

definition roam :: "scanner \<Rightarrow> scanner \<Rightarrow> bool" where
  "roam s s' \<longleftrightarrow>
     s' = s\<lparr>expect_key := expect_key s', last_key_is_model := last_key_is_model s', last_key_is_message := last_key_is_message s'\<rparr>"

definition found :: "scanner \<Rightarrow> scanner \<Rightarrow> string option \<Rightarrow> bool" where
  "found s s' r \<longleftrightarrow>
     (case r of Some raw \<Rightarrow> sc_done s' \<and> sc_model s' = Some (recorded raw) | None \<Rightarrow> roam s s')"

definition level :: "nat \<Rightarrow> bool \<Rightarrow> scanner \<Rightarrow> bool" where
  "level d acc s \<longleftrightarrow>
     accept_message_nesting s = acc \<and> (d = 1 \<and> root_is_object s \<and> \<not> in_message s \<or> d = 2 \<and> in_message s)"

lemma roam_refl [simp]: "roam s s"
  by (cases s) (simp add: roam_def)

lemma roam_trans: "roam s t \<Longrightarrow> roam t u \<Longrightarrow> roam s u"
  by (cases s; cases t; cases u) (auto simp: roam_def)

lemma roam_loose: "loose s t \<Longrightarrow> roam s t"
  by (cases s; cases t) (auto simp: roam_def loose_def)

lemma roam_upd [simp]:
  "roam s (s\<lparr>expect_key := a\<rparr>)" "roam s (s\<lparr>expect_key := a, last_key_is_model := b, last_key_is_message := c\<rparr>)"
  "roam s (s\<lparr>last_key_is_model := b, last_key_is_message := c\<rparr>)"
  by (cases s; simp add: roam_def)+

lemma roam_fields:
  assumes "roam s s'"
  shows "calm d s' = calm d s" "level d acc s' = level d acc s" "at_key_level s' d = at_key_level s d"
proof -
  obtain a b c where s': "s' = s\<lparr>expect_key := a, last_key_is_model := b, last_key_is_message := c\<rparr>" using assms by (auto simp: roam_def)
  show "calm d s' = calm d s" "level d acc s' = level d acc s" "at_key_level s' d = at_key_level s d"
    by (simp_all add: s' calm_def level_def at_key_level_def)
qed

lemma found_more: "found s t r \<Longrightarrow> (r = None \<Longrightarrow> roam s t \<Longrightarrow> roam t (fold scan1 x t)) \<Longrightarrow> found s (fold scan1 x t) r"
  by (cases r) (auto simp: found_def scan1_done intro: roam_trans)

lemma found_roam: "roam s t \<Longrightarrow> found t u r \<Longrightarrow> found s u r"
  by (cases r) (auto simp: found_def intro: roam_trans)

lemma level_key: "level d acc s \<Longrightarrow> at_key_level s d"
  by (auto simp: level_def at_key_level_def)

lemma scan_key:
  assumes "calm d s" "level d acc s" "expect_key s" "raw_ok k"
  shows "fold scan1 (quote # k @ [quote]) s =
    s\<lparr>last_key_is_model := (json_text k = Some ''model''),
      last_key_is_message := (if acc \<and> d = 1 then json_text k = Some ''message'' \<or> json_text k = Some ''response'' else last_key_is_message s)\<rparr>"
proof -
  have "push_capped [] k = take MAX_CAPTURE k" by (simp add: push_capped_def)
  then show ?thesis
    using assms(1-3) level_key [OF assms(2)] key_text [of "''model''" k] key_text [of "''message''" k] key_text [of "''response''" k]
    unfolding scan_string [OF assms(1,4)]
    by (cases s) (auto simp: walk_open_def walk_content_def walk_close_def walk_closed_def close_key_def bare_def Let_def calm_def level_def)
qed

lemma scan_model_value:
  assumes "calm d s" "at_key_level s d" "\<not> expect_key s" "last_key_is_model s" "raw_ok raw"
  shows "found s (fold scan1 (quote # raw @ [quote]) s) (Some raw)"
  using assms(1-4) capture_recorded [of raw]
  unfolding scan_string [OF assms(1,5)]
  by (simp add: walk_open_def walk_content_def walk_close_def close_model_def walk_finish_def bare_def Let_def found_def)

lemma inner_quiet:
  assumes "1 \<le> d" "d + nesting v \<le> U32_MAX" "j_ok v" "v = JArray w es \<or> v = JObject w ms"
  shows "\<exists>c inner c'. render v = c # inner @ [c'] \<and> quietly (Suc d) inner \<and>
    (v = JArray w es \<and> c = CHR ''['' \<and> c' = CHR '']'' \<or> v = JObject w ms \<and> c = CHR ''{'' \<and> c' = CHR ''}'')"
  using assms(4)
proof
  assume v: "v = JArray w es"
  have "quietly (Suc d) (if render_elems es = [] then w else tl (render_elems es))"
    using quietly.walk_render(2) [of "Suc d" es] assms v by (intro quietly.Q_inner) auto
  then show ?thesis using v by (simp add: render_Nil)
next
  assume v: "v = JObject w ms"
  have "quietly (Suc d) (if render_members ms = [] then w else tl (render_members ms))"
    using quietly.walk_render(3) [of "Suc d" ms] assms v by (intro quietly.Q_inner) auto
  then show ?thesis using v by (simp add: render_Nil)
qed

lemma scan_value_container:
  assumes t: "calm d t" "level d acc t" and v: "d + nesting v \<le> U32_MAX" "j_ok v" "v = JArray w es \<or> v = JObject w ms"
    and msg: "v = JObject w ms \<Longrightarrow> \<not> (d = 1 \<and> last_key_is_message t)"
  shows "loose t (fold scan1 (render v) t)"
proof -
  have d: "1 \<le> d" "d \<le> 2" using t(2) by (auto simp: level_def)
  obtain c inner c' where r: "render v = c # inner @ [c']" "quietly (Suc d) inner"
      "v = JArray w es \<and> c = CHR ''['' \<and> c' = CHR '']'' \<or> v = JObject w ms \<and> c = CHR ''{'' \<and> c' = CHR ''}''"
    using inner_quiet [OF d(1) v] by blast
  let ?t1 = "t\<lparr>sc_lex := \<lparr>lx_depth = Suc d, lx_state = Outside\<rparr>\<rparr>"
  have "quiet (Suc d) ?t1" using t(2) by (auto simp: level_def quiet_def)
  then have "loose ?t1 (fold scan1 inner ?t1)" using r(2) calm_lex [OF t(1)] by (simp add: quietly_def)
  then show ?thesis
    unfolding r(1) using t d r(3) msg by (intro scan_container) (auto simp: level_def)
qed

lemma scan_value:
  assumes t: "calm d t" "level d acc t" "\<not> expect_key t" "last_key_is_model t = (json_text k = Some ''model'')"
    and v: "d + nesting v \<le> U32_MAX" "j_ok v" and msg: "\<And>w ms. v = JObject w ms \<Longrightarrow> \<not> (d = 1 \<and> last_key_is_message t)"
  shows "found t (fold scan1 (render v) t) (plain_model k v)"
proof (cases v)
  case (JScalar x)
  then show ?thesis using t(1) v(2) by (simp add: scan_scalar found_def plain_model_def)
next
  case (JString raw)
  show ?thesis
  proof (cases "last_key_is_model t")
    case True
    then show ?thesis using scan_model_value [OF t(1) level_key [OF t(2)] t(3) True] t(4) v(2) by (simp add: JString plain_model_def)
  next
    case False
    then show ?thesis using scan_string_idle [OF t(1)] t(3,4) v(2) by (simp add: JString plain_model_def found_def)
  qed
next
  case (JArray w es)
  then show ?thesis using scan_value_container [OF t(1,2) v] by (simp add: found_def plain_model_def roam_loose)
next
  case (JObject w ms)
  then show ?thesis using scan_value_container [OF t(1,2) v] msg by (simp add: found_def plain_model_def roam_loose)
qed

text \<open>One member, given what its value does.\<close>

lemma scan_member:
  assumes s: "calm d s" "level d acc s" "expect_key s" and ok: "list_all is_ws w1" "raw_ok k" "list_all is_ws w2" "list_all is_ws w3" "list_all is_ws w4"
    and v: "\<And>t. calm d t \<Longrightarrow> level d acc t \<Longrightarrow> \<not> expect_key t \<Longrightarrow> last_key_is_model t = (json_text k = Some ''model'') \<Longrightarrow>
      (acc \<and> d = 1 \<Longrightarrow> last_key_is_message t = (json_text k = Some ''message'' \<or> json_text k = Some ''response'')) \<Longrightarrow>
      (\<not> (acc \<and> d = 1) \<Longrightarrow> last_key_is_message t = last_key_is_message s) \<Longrightarrow>
      found t (fold scan1 (render v) t) r"
  shows "found s (fold scan1 (w1 @ quote # k @ quote # w2 @ CHR '':'' # w3 @ render v @ w4) s) r"
proof -
  let ?k = "s\<lparr>last_key_is_model := (json_text k = Some ''model''),
      last_key_is_message := (if acc \<and> d = 1 then json_text k = Some ''message'' \<or> json_text k = Some ''response'' else last_key_is_message s)\<rparr>"
  let ?t = "?k\<lparr>expect_key := False\<rparr>"
  have k: "fold scan1 (quote # k @ [quote]) (fold scan1 w1 s) = ?k"
    using scan_key [OF s ok(2)] scan_ws [OF ok(1) s(1)] by simp
  have ck: "calm d ?k" "calm d ?t" "level d acc ?t" using s by (auto simp: calm_def level_def)
  have "scan1 CHR '':'' (fold scan1 w2 ?k) = ?t" using scan_ws [OF ok(3) ck(1)] scan_colon [OF ck(1)] by simp
  then have t: "fold scan1 (w1 @ quote # k @ quote # w2 @ CHR '':'' # w3 @ render v @ w4) s = fold scan1 w4 (fold scan1 (render v) ?t)"
    using k scan_ws [OF ok(4) ck(2)] by simp
  have "found ?t (fold scan1 (render v) ?t) r" using ck by (intro v) auto
  then have "found ?t (fold scan1 w4 (fold scan1 (render v) ?t)) r"
  proof (rule found_more)
    assume "roam ?t (fold scan1 (render v) ?t)"
    from roam_fields(1) [OF this, of d] ck(2) have "calm d (fold scan1 (render v) ?t)" by blast
    from scan_ws [OF ok(5) this] show "roam (fold scan1 (render v) ?t) (fold scan1 w4 (fold scan1 (render v) ?t))" by simp
  qed
  moreover have "roam s ?t" by (cases s) (simp add: roam_def)
  ultimately show ?thesis unfolding t by (rule found_roam [rotated])
qed

lemma scan_members:
  assumes member: "\<And>s w1 k w2 w3 v w4. calm d s \<Longrightarrow> level d acc s \<Longrightarrow> expect_key s \<Longrightarrow>
      (\<not> (acc \<and> d = 1) \<Longrightarrow> d = 1 \<Longrightarrow> \<not> last_key_is_message s) \<Longrightarrow>
      list_all is_ws w1 \<Longrightarrow> raw_ok k \<Longrightarrow> list_all is_ws w2 \<Longrightarrow> list_all is_ws w3 \<Longrightarrow> j_ok v \<Longrightarrow> list_all is_ws w4 \<Longrightarrow>
      d + nesting v \<le> U32_MAX \<Longrightarrow>
      found s (fold scan1 (w1 @ quote # k @ quote # w2 @ CHR '':'' # w3 @ render v @ w4) s) (f k v)"
    and "calm d s" "level d acc s" "members_ok ms" "d + nesting_members ms \<le> U32_MAX"
  shows "found s (fold scan1 (render_members ms) s) (firsts f ms)"
    and "ms \<noteq> MNil \<Longrightarrow> expect_key s \<Longrightarrow> (\<not> (acc \<and> d = 1) \<Longrightarrow> d = 1 \<Longrightarrow> \<not> last_key_is_message s) \<Longrightarrow>
      found s (fold scan1 (tl (render_members ms)) s) (firsts f ms)"
proof -
  have "found s (fold scan1 (render_members ms) s) (firsts f ms) \<and>
      (ms \<noteq> MNil \<longrightarrow> expect_key s \<longrightarrow> (\<not> (acc \<and> d = 1) \<longrightarrow> d = 1 \<longrightarrow> \<not> last_key_is_message s) \<longrightarrow>
        found s (fold scan1 (tl (render_members ms)) s) (firsts f ms))"
    using assms(2-5)
  proof (induction ms arbitrary: s rule: members_induct)
    case MNil
    then show ?case by (simp add: found_def)
  next
    case (MCons w1 k w2 w3 v w4 ms)
    let ?m = "w1 @ quote # k @ quote # w2 @ CHR '':'' # w3 @ render v @ w4"
    have body: "found t (fold scan1 (?m @ render_members ms) t) (firsts f (MCons w1 k w2 w3 v w4 ms))"
      if t: "calm d t" "level d acc t" "expect_key t" "\<not> (acc \<and> d = 1) \<Longrightarrow> d = 1 \<Longrightarrow> \<not> last_key_is_message t" for t
    proof -
      have m: "found t (fold scan1 ?m t) (f k v)"
        using MCons.prems by (intro member t) auto
      show ?thesis
      proof (cases "f k v")
        case (Some x)
        with m show ?thesis by (simp add: found_def scan1_done)
      next
        case None
        then have ro: "roam t (fold scan1 ?m t)" using m by (simp add: found_def)
        then have "found (fold scan1 ?m t) (fold scan1 (render_members ms) (fold scan1 ?m t)) (firsts f ms)"
          using MCons t roam_fields(1,2) [OF ro] by simp
        with ro None show ?thesis by (simp add: found_roam)
      qed
    qed
    let ?c = "s\<lparr>expect_key := True, last_key_is_model := False, last_key_is_message := (d \<noteq> 1 \<and> last_key_is_message s)\<rparr>"
    have c: "scan1 CHR '','' s = ?c" and ro: "roam s ?c" using scan_comma MCons.prems(1) by simp_all
    have "calm d ?c" "level d acc ?c" using roam_fields(1,2) [OF ro] MCons.prems(1,2) by blast+
    then have "found ?c (fold scan1 (?m @ render_members ms) ?c) (firsts f (MCons w1 k w2 w3 v w4 ms))" by (intro body) simp_all
    from found_roam [OF ro this] have "found s (fold scan1 (CHR '','' # ?m @ render_members ms) s) (firsts f (MCons w1 k w2 w3 v w4 ms))"
      by (simp only: fold_simps c)
    then show ?case using body [of s] MCons.prems(1,2) by auto
  qed
  then show "found s (fold scan1 (render_members ms) s) (firsts f ms)"
    and "ms \<noteq> MNil \<Longrightarrow> expect_key s \<Longrightarrow> (\<not> (acc \<and> d = 1) \<Longrightarrow> d = 1 \<Longrightarrow> \<not> last_key_is_message s) \<Longrightarrow>
      found s (fold scan1 (tl (render_members ms)) s) (firsts f ms)" by blast+
qed

lemma member_at_two:
  assumes "calm 2 s" "level 2 acc s" "expect_key s" and ok: "list_all is_ws w1" "raw_ok k" "list_all is_ws w2" "list_all is_ws w3" "j_ok v" "list_all is_ws w4"
    and n: "2 + nesting v \<le> U32_MAX"
  shows "found s (fold scan1 (w1 @ quote # k @ quote # w2 @ CHR '':'' # w3 @ render v @ w4) s) (plain_model k v)"
proof (rule scan_member [OF assms(1-3) ok(1-4) ok(6)])
  fix t assume "calm 2 t" "level 2 acc t" "\<not> expect_key t" "last_key_is_model t = (json_text k = Some ''model'')"
  then show "found t (fold scan1 (render v) t) (plain_model k v)" by (rule scan_value) (use ok(5) n in simp_all)
qed

lemma scan_message:
  assumes t: "calm 1 t" "level 1 acc t" "last_key_is_message t" and v: "v = JObject w ms" "1 + nesting v \<le> U32_MAX" "j_ok v"
  shows "found t (fold scan1 (render v) t) (firsts plain_model ms)"
proof -
  let ?t1 = "t\<lparr>in_message := True, expect_key := True, sc_lex := \<lparr>lx_depth = 2, lx_state = Outside\<rparr>\<rparr>"
  let ?inner = "if ms = MNil then w else tl (render_members ms)"
  have o: "scan1 CHR ''{'' t = ?t1" using scan_brace [OF t(1)] t(3) by (simp add: numeral_2_eq_2)
  have t1: "calm 2 ?t1" "level 2 acc ?t1" "expect_key ?t1" using t by (auto simp: calm_def level_def)
  have ok: "list_all is_ws w" "members_ok ms" "2 + nesting_members ms \<le> U32_MAX" using v by simp_all
  have f: "found ?t1 (fold scan1 ?inner ?t1) (firsts plain_model ms)"
  proof (cases "ms = MNil")
    case True
    then show ?thesis using scan_ws [OF ok(1) t1(1)] by (simp add: found_def)
  next
    case False
    then show ?thesis using scan_members(2) [OF member_at_two t1(1,2) ok(2,3) False t1(3)] by simp
  qed
  show ?thesis
  proof (cases "firsts plain_model ms")
    case (Some raw)
    have "fold scan1 (render v) t = scan1 CHR ''}'' (fold scan1 ?inner ?t1)" using o by (simp add: v(1))
    then show ?thesis using f Some by (simp add: found_def scan1_def)
  next
    case None
    let ?t2 = "fold scan1 ?inner ?t1"
    obtain a b c where t2: "?t2 = ?t1\<lparr>expect_key := a, last_key_is_model := b, last_key_is_message := c\<rparr>"
      using f None by (auto simp: found_def roam_def)
    have "calm (Suc 1) ?t2" using t1(1) unfolding t2 by (simp add: calm_def numeral_2_eq_2)
    from scan_closing [OF this, of "CHR ''}''"] have "scan1 CHR ''}'' ?t2 =
        t\<lparr>expect_key := a, last_key_is_model := b, last_key_is_message := False, in_message := False, sc_lex := \<lparr>lx_depth = 1, lx_state = Outside\<rparr>\<rparr>"
      unfolding t2 by simp
    moreover have "\<dots> = t\<lparr>expect_key := a, last_key_is_model := b, last_key_is_message := False\<rparr>"
      using t(1,2) by (cases t) (simp add: calm_def level_def)
    ultimately have "fold scan1 (render v) t = t\<lparr>expect_key := a, last_key_is_model := b, last_key_is_message := False\<rparr>"
      using o by (simp add: v(1))
    then show ?thesis using None by (simp add: found_def)
  qed
qed

lemma member_at_root:
  assumes "calm 1 s" "level 1 acc s" "expect_key s" "\<not> acc \<Longrightarrow> \<not> last_key_is_message s"
    and ok: "list_all is_ws w1" "raw_ok k" "list_all is_ws w2" "list_all is_ws w3" "j_ok v" "list_all is_ws w4"
    and n: "1 + nesting v \<le> U32_MAX"
  shows "found s (fold scan1 (w1 @ quote # k @ quote # w2 @ CHR '':'' # w3 @ render v @ w4) s) (member_model acc k v)"
proof (rule scan_member [OF assms(1-3) ok(1-4) ok(6)])
  fix t
  assume t: "calm 1 t" "level 1 acc t" "\<not> expect_key t" "last_key_is_model t = (json_text k = Some ''model'')"
    "acc \<and> (1::nat) = 1 \<Longrightarrow> last_key_is_message t = (json_text k = Some ''message'' \<or> json_text k = Some ''response'')"
    "\<not> (acc \<and> (1::nat) = 1) \<Longrightarrow> last_key_is_message t = last_key_is_message s"
  have msg: "last_key_is_message t = (acc \<and> (json_text k = Some ''message'' \<or> json_text k = Some ''response''))"
    using t(5,6) assms(4) by (cases acc) auto
  show "found t (fold scan1 (render v) t) (member_model acc k v)"
  proof (cases "\<exists>w ms. v = JObject w ms \<and> last_key_is_message t")
    case True
    then obtain w ms where v: "v = JObject w ms" "last_key_is_message t" by blast
    then have "member_model acc k v = firsts plain_model ms" using msg by (simp add: member_model_def)
    then show ?thesis using scan_message [OF t(1,2) v(2,1) n ok(5)] by simp
  next
    case False
    then have "member_model acc k v = plain_model k v" using msg by (cases v) (auto simp: member_model_def plain_model_def)
    then show ?thesis using scan_value [OF t(1-4) n ok(5)] False by auto
  qed
qed

lemma calm_start: "s0 = scanner_new \<or> s0 = scanner_for_response \<Longrightarrow> calm 0 s0 \<and> sc_model s0 = None \<and>
    \<not> in_message s0 \<and> \<not> last_key_is_message s0 \<and> \<not> root_is_object s0"
  by (auto simp: scanner_new_def scanner_for_response_def calm_def lexer_new_def)

lemma scan_body:
  assumes s0: "s0 = scanner_new \<or> s0 = scanner_for_response" and ok: "j_ok v" "nesting v \<le> U32_MAX"
    and ws: "list_all is_ws w0" "list_all is_ws w1"
  shows "sc_model (fold scan1 (w0 @ render v @ w1) s0) = map_option recorded (body_model (accept_message_nesting s0) v)"
proof -
  note st = calm_start [OF s0]
  have w0: "fold scan1 w0 s0 = s0" using scan_ws [OF ws(1)] st by blast
  show ?thesis
  proof (cases "\<exists>w ms. v = JObject w ms")
    case True
    then obtain w ms where v: "v = JObject w ms" by blast
    let ?s1 = "s0\<lparr>root_is_object := True, expect_key := True, sc_lex := \<lparr>lx_depth = 1, lx_state = Outside\<rparr>\<rparr>"
    let ?inner = "if ms = MNil then w else tl (render_members ms)"
    have o: "scan1 CHR ''{'' s0 = ?s1"
      using st by (simp add: scan1_byte [of 0] walk_byte_def Let_def bare_def depth_after_def walk_extra_def)
    have s1: "calm 1 ?s1" "level 1 (accept_message_nesting s0) ?s1" using st by (auto simp: calm_def level_def)
    have f: "found ?s1 (fold scan1 ?inner ?s1) (firsts (member_model (accept_message_nesting s0)) ms)"
    proof (cases "ms = MNil")
      case True
      then show ?thesis using scan_ws [OF _ s1(1), of w] ok by (simp add: found_def v)
    next
      case False
      have m: "members_ok ms" "1 + nesting_members ms \<le> U32_MAX" using ok by (simp_all add: v)
      have "found ?s1 (fold scan1 (tl (render_members ms)) ?s1) (firsts (member_model (accept_message_nesting s0)) ms)"
        by (rule scan_members(2) [OF _ s1 m False]) (use member_at_root st in auto)
      then show ?thesis using False by simp
    qed
    let ?s2 = "fold scan1 ?inner ?s1"
    have e: "fold scan1 (w0 @ render v @ w1) s0 = fold scan1 w1 (scan1 CHR ''}'' ?s2)" using w0 o by (simp add: v)
    show ?thesis
    proof (cases "firsts (member_model (accept_message_nesting s0)) ms")
      case (Some raw)
      then have "sc_done ?s2" "sc_model ?s2 = Some (recorded raw)" using f by (simp_all add: found_def)
      then show ?thesis using Some scan1_done [of ?s2 "''}''"] scan1_done [of ?s2 w1] unfolding e by (simp add: body_model_def v)
    next
      case None
      then have ro: "roam ?s1 ?s2" using f by (simp add: found_def)
      then have c2: "calm (Suc 0) ?s2" using roam_fields(1) [OF ro, of 1] s1(1) by simp
      have "sc_model ?s2 = None" using ro st by (cases ?s2) (auto simp: roam_def)
      then show ?thesis
        using scan_closing [OF c2, of "CHR ''}''"] scan_ws [OF ws(2) calm_lex [OF c2, of 0]] None unfolding e
        by (simp add: body_model_def v)
    qed
  next
    case False
    have "calm 0 (fold scan1 (render v) s0) \<and> sc_model (fold scan1 (render v) s0) = None"
    proof (cases v)
      case (JScalar x)
      then show ?thesis using scan_scalar [of x 0 s0] st ok by simp
    next
      case (JString x)
      then show ?thesis using scan_string_idle [of 0 s0 x] st ok by (simp add: at_key_level_def)
    next
      case (JArray w es)
      let ?s1 = "s0\<lparr>sc_lex := \<lparr>lx_depth = 1, lx_state = Outside\<rparr>\<rparr>"
      let ?inner = "if render_elems es = [] then w else tl (render_elems es)"
      have o: "scan1 CHR ''['' s0 = ?s1"
        using st by (simp add: scan1_byte [of 0] walk_byte_def Let_def bare_def depth_after_def walk_extra_def)
      have s1: "calm 1 ?s1" "quiet 1 ?s1" using st by (auto simp: calm_def quiet_def)
      have "quietly 1 ?inner" using quietly.walk_render(2) [of 1 es] ok JArray by (intro quietly.Q_inner) auto
      then have l: "loose ?s1 (fold scan1 ?inner ?s1)" using s1 by (simp add: quietly_def)
      have c2: "calm (Suc 0) (fold scan1 ?inner ?s1)" using loose_fields(1) [OF l, of 1] s1(1) by simp
      have "sc_model (fold scan1 ?inner ?s1) = None" using loose_fields(7) [OF l] st by simp
      then show ?thesis
        using scan_closing [OF c2, of "CHR '']''"] calm_lex [OF c2, of 0] o by (simp add: JArray render_Nil)
    next
      case (JObject w ms)
      with False show ?thesis by blast
    qed
    moreover have "body_model (accept_message_nesting s0) v = None" using False by (cases v) (auto simp: body_model_def)
    ultimately show ?thesis using w0 scan_ws [OF ws(2), of 0 "fold scan1 (render v) s0"] by simp
  qed
qed

text \<open>
  C6. The scanner finds the model, and only the model. Whatever JSON the body is and however it is cut into
  chunks, what the scanner has in the end is the value of the first root member that is named \<open>model\<close>
  (escapes decoded) and is a string; for a response, also of the first such member of an object under a root
  \<open>message\<close> or \<open>response\<close>. The same text in a nested object, in an array or inside a string is not taken.
  A plain value past the capture of 256 bytes is recorded by its first 256, and an escaped one of 256 bytes or more, or
  one that does not decode to UTF-8, as unknown (\<open>recorded\<close>).
\<close>

theorem model_scan_exact:
  assumes "s0 = scanner_new \<or> s0 = scanner_for_response" and "j_ok v" and "nesting v \<le> U32_MAX"
    and "list_all is_ws w0" and "list_all is_ws w1" and "concat chunks = w0 @ render v @ w1"
  shows "fst (take_model (fold scanner_feed chunks s0)) = map_option recorded (body_model (accept_message_nesting s0) v)"
  using scan_body [OF assms(1-5)] by (simp add: take_model_def scanner_feed_chunks assms(6))

definition scanned_demo :: jval where
  "scanned_demo = JObject [] (MCons [] ''a'' [] '' '' (JObject [] (MCons [] ''model'' [] [] (JString ''x'') [] MNil)) []
     (MCons '' '' (''mod'' @ backslash # ''u0065l'') [] [] (JString ''gpt'') [] MNil))"

theorem model_scan_exact_witness:
  "fst (take_model (fold scanner_feed [take 7 (render scanned_demo), drop 7 (render scanned_demo)] scanner_new)) = Some ''gpt''"
proof -
  have "fst (take_model (fold scanner_feed [take 7 (render scanned_demo), drop 7 (render scanned_demo)] scanner_new)) =
      map_option recorded (body_model (accept_message_nesting scanner_new) scanned_demo)"
    by (rule model_scan_exact [where v = scanned_demo and ?w0.0 = "[]" and ?w1.0 = "[]"])
      (simp_all add: scanned_demo_def is_ws_def)
  then show ?thesis by (simp add: scanned_demo_def body_model_def member_model_def plain_model_def json_text_def recorded_def
      from_utf8_def scanner_new_def MAX_CAPTURE_def unescape_def decode.simps escape_piece_def unicode_escape_def hex4_def digit_val_def
      is_ascii_digit_def is_ascii_lower_def is_ascii_upper_def char_from_u32_def encode_utf8_def char_of_eq_iff take_bit_eq_mod)
qed

end
