(* ===== verification/Buffered_Scan.thy ===== *)
theory Buffered_Scan
  imports Model_Scan Json_Spans
begin

text \<open>
  The one walk over a fully buffered request body, \<^verbatim>\<open>scan_buffered\<close> of \<^verbatim>\<open>gateway/src/peek.rs\<close>: the model and where
  its value stands, where the usage option of a stream goes, and where the output limits stand. The walk over the text of
  an object is shown to be the effects of its members, one after the other.
\<close>

section \<open>The walk\<close>

definition OUTPUT_LIMIT_KEYS :: "string list" where
  "OUTPUT_LIMIT_KEYS = [''max_tokens'', ''max_completion_tokens'', ''max_output_tokens'']"

record buffered_scan =
  bs_model :: "string option"
  inject_at :: "nat option"
  stream_options_at :: "nat option"
  bs_model_span :: "(nat \<times> nat) option"
  duplicate_model :: bool
  bs_limit_spans :: "(nat \<times> nat) option list"
  bs_inexact_limit :: bool
  bs_limit_keys :: "nat option list"
  bs_stream_options_ambiguous :: bool

datatype open_string = OpenNone | OpenKey nat | OpenModel nat

record fused =
  fu_open :: open_string
  fu_expect_key :: bool
  fu_key_is_stream :: bool
  fu_key_is_model :: bool
  stream_true :: bool
  saw_stream_options :: bool
  stream_options_ambiguous :: bool
  stream_options_key_end :: nat
  fu_model :: "string option"
  fu_model_span :: "(nat \<times> nat) option"
  model_keys :: nat
  limit_key :: "nat option"
  limit_spans :: "(nat \<times> nat) option list"
  inexact_limit :: bool
  limit_value_next :: bool
  limit_keys :: "nat option list"

definition fused_new :: fused where
  "fused_new = \<lparr>fu_open = OpenNone, fu_expect_key = False, fu_key_is_stream = False, fu_key_is_model = False,
     stream_true = False, saw_stream_options = False, stream_options_ambiguous = False, stream_options_key_end = 0,
     fu_model = None, fu_model_span = None, model_keys = 0, limit_key = None, limit_spans = replicate 3 None,
     inexact_limit = False, limit_value_next = False, limit_keys = replicate 3 None\<rparr>"

definition key_names :: "string \<Rightarrow> bool \<Rightarrow> string \<Rightarrow> bool" where
  "key_names raw escaped want \<longleftrightarrow> (if escaped then unescapes_to raw want else raw = want)"

definition starts_at :: "string \<Rightarrow> nat \<Rightarrow> string \<Rightarrow> bool" where
  "starts_at b i p \<longleftrightarrow> i \<le> length b \<and> strip_prefix p (drop i b) \<noteq> None"

definition limit_value :: "string \<Rightarrow> nat \<Rightarrow> char \<Rightarrow> fused \<Rightarrow> fused" where
  "limit_value b pos c f =
     (if limit_value_next f \<and> \<not> (is_ws c \<or> c = CHR '':'') then
        let f = f\<lparr>limit_value_next := False\<rparr> in
        if \<not> (is_ascii_digit c \<or> starts_at b pos ''null'') then f\<lparr>inexact_limit := True\<rparr> else f
      else f)"

definition key_stream_options :: "string \<Rightarrow> bool \<Rightarrow> nat \<Rightarrow> fused \<Rightarrow> fused" where
  "key_stream_options key escaped e f =
     (if key = ''stream_options'' then
        let f = f\<lparr>stream_options_ambiguous := stream_options_ambiguous f \<or> saw_stream_options f\<rparr> in
        if \<not> saw_stream_options f then f\<lparr>saw_stream_options := True, stream_options_key_end := e\<rparr> else f
      else if escaped \<and> unescapes_to key ''stream_options'' then f\<lparr>stream_options_ambiguous := True\<rparr>
      else f)"

definition key_stream :: "string \<Rightarrow> bool \<Rightarrow> fused \<Rightarrow> fused" where
  "key_stream key escaped f =
     (let f = f\<lparr>fu_key_is_stream := key_names key escaped ''stream''\<rparr> in
      if fu_key_is_stream f then f\<lparr>stream_true := False\<rparr> else f)"

definition key_model :: "string \<Rightarrow> bool \<Rightarrow> fused \<Rightarrow> fused" where
  "key_model key escaped f =
     (let f = f\<lparr>fu_key_is_model := key_names key escaped ''model''\<rparr> in
      f\<lparr>model_keys := min U32_MAX (model_keys f + (if fu_key_is_model f then 1 else 0))\<rparr>)"

definition find_index :: "('a \<Rightarrow> bool) \<Rightarrow> 'a list \<Rightarrow> nat option" where
  "find_index P xs = (let k = length (takeWhile (\<lambda>x. \<not> P x) xs) in if k < length xs then Some k else None)"

definition key_limit :: "string \<Rightarrow> bool \<Rightarrow> nat \<Rightarrow> fused \<Rightarrow> fused" where
  "key_limit key escaped start f =
     (let f = f\<lparr>limit_key :=
            find_index (\<lambda>k. case from_utf8 k of None \<Rightarrow> False | Some want \<Rightarrow> key_names key escaped want) OUTPUT_LIMIT_KEYS\<rparr> in
      case limit_key f of
        None \<Rightarrow> f
      | Some k \<Rightarrow>
          if k < length (limit_keys f) then
            let f = (if limit_keys f ! k \<noteq> None then f\<lparr>inexact_limit := True\<rparr>
                     else f\<lparr>limit_keys := (limit_keys f)[k := Some (start - 1)]\<rparr>) in
            f\<lparr>limit_value_next := True\<rparr>
          else f)"

definition root_key :: "string \<Rightarrow> nat \<Rightarrow> nat \<Rightarrow> bool \<Rightarrow> fused \<Rightarrow> fused" where
  "root_key b start e escaped f =
     (let key = (case get_range b start e of None \<Rightarrow> [] | Some key \<Rightarrow> key) in
      key_limit key escaped start (key_model key escaped (key_stream key escaped (key_stream_options key escaped e f))))"

definition limit_digits :: "string \<Rightarrow> nat \<Rightarrow> fused \<Rightarrow> fused" where
  "limit_digits b pos f =
     (let e = pos + length (takeWhile is_ascii_digit (drop pos b));
          ends_member = (case dropWhile is_ws (drop e b) of [] \<Rightarrow> False | c # _ \<Rightarrow> c = CHR '','' \<or> c = CHR ''}'')
      in case limit_key f of
           None \<Rightarrow> f
         | Some k \<Rightarrow>
             let f = f\<lparr>limit_key := None\<rparr> in
             if \<not> ends_member then f\<lparr>inexact_limit := True\<rparr>
             else if k < length (limit_spans f) \<and> limit_spans f ! k = None then f\<lparr>limit_spans := (limit_spans f)[k := Some (pos, e)]\<rparr>
             else f)"

definition fused_byte :: "string \<Rightarrow> nat \<Rightarrow> char \<Rightarrow> nat \<Rightarrow> fused \<Rightarrow> fused \<times> bool" where
  "fused_byte b pos c depth f =
     (let f = limit_value b pos c f in
      (if c = CHR ''{'' \<and> depth = 0 then f\<lparr>fu_expect_key := True\<rparr>
       else if c = CHR '':'' then f\<lparr>fu_expect_key := False\<rparr>
       else if c = CHR '','' \<and> depth = 1 then
         f\<lparr>fu_expect_key := True, fu_key_is_stream := False, fu_key_is_model := False, limit_key := None\<rparr>
       else if is_ascii_digit c \<and> depth = 1 \<and> \<not> fu_expect_key f \<and> limit_key f \<noteq> None then limit_digits b pos f
       else if c = CHR ''-'' then f\<lparr>limit_key := None\<rparr>
       else if c = CHR ''t'' \<and> depth = 1 \<and> fu_key_is_stream f then
         (let f = (if starts_at b pos ''true'' then f\<lparr>stream_true := True\<rparr> else f) in f\<lparr>fu_key_is_stream := False\<rparr>)
       else f, False))"

definition fused_open :: "string \<Rightarrow> nat \<Rightarrow> nat \<Rightarrow> fused \<Rightarrow> fused" where
  "fused_open b pos depth f =
     (let f = limit_value b pos quote f; start = pos + 1 in
      f\<lparr>fu_open :=
          if depth = 1 \<and> fu_expect_key f then OpenKey start
          else if depth = 1 \<and> fu_key_is_model f \<and> fu_model f = None then OpenModel start
          else OpenNone\<rparr>)"

definition fused_close :: "string \<Rightarrow> nat \<Rightarrow> nat \<Rightarrow> bool \<Rightarrow> fused \<Rightarrow> fused \<times> bool" where
  "fused_close b pos depth escaped f =
     (let was = fu_open f; f = f\<lparr>fu_open := OpenNone\<rparr> in
      (case was of
         OpenKey start \<Rightarrow> if depth = 1 then root_key b start pos escaped f else f
       | OpenModel start \<Rightarrow>
           let f = f\<lparr>fu_key_is_model := False, fu_model_span := Some (start, pos)\<rparr>;
               kept = min pos (start + MAX_CAPTURE);
               raw = (case get_range b start kept of None \<Rightarrow> [] | Some raw \<Rightarrow> raw) in
           f\<lparr>fu_model := Some (case capture_text raw escaped of Some t \<Rightarrow> t | None \<Rightarrow> ''unknown'')\<rparr>
       | OpenNone \<Rightarrow> f, False))"

definition fused_visitor :: "string \<Rightarrow> fused visitor" where
  "fused_visitor b =
     \<lparr>v_byte = fused_byte b, v_open = fused_open b, v_content = (\<lambda>_ f. f), v_close = fused_close b\<rparr>"

definition options_value :: "string \<Rightarrow> nat \<Rightarrow> nat option" where
  "options_value b key_end =
     (let colon = skip_ws b (key_end + 1) in
      if get_byte b colon \<noteq> Some (CHR '':'') then None
      else let v = skip_ws b (colon + 1) in if v < length b then Some v else None)"

definition scan_buffered :: "string \<Rightarrow> buffered_scan" where
  "scan_buffered body =
     (case root_open body of
        None \<Rightarrow>
          \<lparr>bs_model = None, inject_at = None, stream_options_at = None, bs_model_span = None, duplicate_model = False,
           bs_limit_spans = replicate 3 None, bs_inexact_limit = False, bs_limit_keys = replicate 3 None,
           bs_stream_options_ambiguous = False\<rparr>
      | Some op \<Rightarrow>
          let w = fst (snd (feed (fused_visitor body) body lexer_new fused_new)) in
          \<lparr>bs_model = fu_model w,
           inject_at = (if stream_true w \<and> \<not> saw_stream_options w then Some (op + 1) else None),
           stream_options_at =
             (if stream_true w \<and> saw_stream_options w then options_value body (stream_options_key_end w) else None),
           bs_model_span = fu_model_span w, duplicate_model = model_keys w > 1, bs_limit_spans = limit_spans w,
           bs_inexact_limit = inexact_limit w, bs_limit_keys = limit_keys w,
           bs_stream_options_ambiguous = stream_options_ambiguous w\<rparr>)"

section \<open>Walking a text\<close>

interpretation fused: piecewise "fused_visitor b"
  by unfold_locales (simp_all add: fused_visitor_def)

definition runs :: "string \<Rightarrow> nat \<Rightarrow> nat \<Rightarrow> string \<Rightarrow> fused \<Rightarrow> fused \<Rightarrow> bool" where
  "runs b d pos x f f' \<longleftrightarrow>
     (\<forall>t. lex_bytes (fused_visitor b) pos (x @ t) \<lparr>lx_depth = d, lx_state = Outside\<rparr> f =
        lex_bytes (fused_visitor b) (pos + length x) t \<lparr>lx_depth = d, lx_state = Outside\<rparr> f')"

lemma runs_Nil: "runs b d pos [] f f"
  by (simp add: runs_def)

lemma runs_append: "runs b d pos x f f' \<Longrightarrow> runs b d (pos + length x) y f' f'' \<Longrightarrow> runs b d pos (x @ y) f f''"
  by (simp add: runs_def add.assoc)

lemma runs_Cons: "runs b d pos [c] f f' \<Longrightarrow> runs b d (pos + 1) y f' f'' \<Longrightarrow> runs b d pos (c # y) f f''"
  using runs_append [of b d pos "[c]" f f' y f''] by simp

lemma runs_byte: "c \<noteq> quote \<Longrightarrow> depth_after c d = d \<Longrightarrow> runs b d pos [c] f (fst (fused_byte b pos c d f))"
  by (simp add: runs_def lex1_def fused_visitor_def fused_byte_def Let_def)

lemma lex1_byte:
  "c \<noteq> quote \<Longrightarrow> lex1 (fused_visitor b) pos c \<lparr>lx_depth = d, lx_state = Outside\<rparr> f =
     (\<lparr>lx_depth = depth_after c d, lx_state = Outside\<rparr>, fst (fused_byte b pos c d f), False)"
  by (simp add: lex1_def fused_visitor_def fused_byte_def Let_def)

lemma lex1_quote:
  "lex1 (fused_visitor b) pos quote \<lparr>lx_depth = d, lx_state = Outside\<rparr> f = (\<lparr>lx_depth = d, lx_state = Plain\<rparr>, fused_open b pos d f, False)"
  by (simp add: lex1_def fused_visitor_def)

lemma lex1_close:
  "lex1 (fused_visitor b) pos quote \<lparr>lx_depth = d, lx_state = (if e then Escaped else Plain)\<rparr> f =
     (\<lparr>lx_depth = d, lx_state = Outside\<rparr>, fst (fused_close b pos d e f), False)"
  by (cases e) (simp_all add: lex1_def fused_visitor_def fused_close_def Let_def)

lemmas fused_lex1 = lex1_byte lex1_quote lex1_close

lemma runs_string:
  assumes "raw_ok k"
  shows "runs b d pos (quote # k @ [quote]) f
    (fst (fused_close b (pos + 1 + length k) d (backslash \<in> set k) (fused_open b pos d f)))"
  unfolding runs_def
proof (intro allI)
  fix t
  show "lex_bytes (fused_visitor b) pos ((quote # k @ [quote]) @ t) \<lparr>lx_depth = d, lx_state = Outside\<rparr> f =
      lex_bytes (fused_visitor b) (pos + length (quote # k @ [quote])) t \<lparr>lx_depth = d, lx_state = Outside\<rparr>
        (fst (fused_close b (pos + 1 + length k) d (backslash \<in> set k) (fused_open b pos d f)))"
    using fused.lex_raw [OF assms, of b "Suc pos" "quote # t" d False "fused_open b pos d f"]
    by (simp add: fused_lex1 fused_visitor_def [THEN arg_cong, of v_content])
qed

lemma runs_container:
  assumes "1 \<le> d" "d < U32_MAX" "(c, c') \<in> {(CHR ''['', CHR '']''), (CHR ''{'', CHR ''}'')}"
    and "runs b (Suc d) (pos + 1) inner (fst (fused_byte b pos c d f)) f'"
  shows "runs b d pos (c # inner @ [c']) f (fst (fused_byte b (pos + 1 + length inner) c' (Suc d) f'))"
  unfolding runs_def
proof (intro allI)
  fix t
  have cc: "c \<noteq> quote" "c' \<noteq> quote" "depth_after c d = Suc d" "depth_after c' (Suc d) = d" using assms(1-3) by (auto simp: depth_after_def)
  show "lex_bytes (fused_visitor b) pos ((c # inner @ [c']) @ t) \<lparr>lx_depth = d, lx_state = Outside\<rparr> f =
      lex_bytes (fused_visitor b) (pos + length (c # inner @ [c'])) t \<lparr>lx_depth = d, lx_state = Outside\<rparr>
        (fst (fused_byte b (pos + 1 + length inner) c' (Suc d) f'))"
    using assms(4) by (simp add: fused_lex1 cc runs_def)
qed

section \<open>Nested text\<close>

text \<open>Below the root's members nothing changes but a pending limit, which a minus sign forgets.\<close>

definition idle :: "fused \<Rightarrow> bool" where
  "idle f \<longleftrightarrow> fu_open f = OpenNone \<and> \<not> fu_expect_key f \<and> \<not> limit_value_next f"

definition nested :: "nat \<Rightarrow> string \<Rightarrow> bool" where
  "nested d x \<longleftrightarrow> (\<forall>b pos f. 2 \<le> d \<longrightarrow> idle f \<longrightarrow> runs b d pos x f f \<or> runs b d pos x f (f\<lparr>limit_key := None\<rparr>))"

lemma idle_limit [simp]: "idle (f\<lparr>limit_key := l\<rparr>) = idle f"
  by (simp add: idle_def)

lemma idle_expect: "idle f \<Longrightarrow> f\<lparr>fu_expect_key := False\<rparr> = f"
  by (cases f) (simp add: idle_def)

lemma idle_value: "idle f \<Longrightarrow> limit_value b pos c f = f"
  by (simp add: limit_value_def idle_def)

lemma idle_byte:
  assumes "2 \<le> d" "idle f"
  shows "fst (fused_byte b pos c d f) = (if c = CHR ''-'' then f\<lparr>limit_key := None\<rparr> else f)"
  using assms(1) by (simp add: fused_byte_def idle_value [OF assms(2)] idle_expect [OF assms(2)] is_ascii_digit_def Let_def)

lemma nested_byte:
  assumes "c \<noteq> quote" "depth_after c d = d"
  shows "nested d [c]"
  unfolding nested_def
proof (intro impI allI)
  fix b pos f
  assume d: "2 \<le> d" and f: "idle f"
  show "runs b d pos [c] f f \<or> runs b d pos [c] f (f\<lparr>limit_key := None\<rparr>)"
    using runs_byte [OF assms, of b pos f] unfolding idle_byte [OF d f] by (simp split: if_splits)
qed

lemma nested_append:
  assumes x: "nested d x" and y: "nested d y"
  shows "nested d (x @ y)"
  unfolding nested_def
proof (intro impI allI)
  fix b pos f
  assume d: "2 \<le> d" and f: "idle f"
  define g where "g = f\<lparr>limit_key := None\<rparr>"
  have g: "idle g" "g\<lparr>limit_key := None\<rparr> = g" using f by (simp_all add: g_def)
  have "runs b d pos x f f \<or> runs b d pos x f g" using x d f by (simp add: nested_def g_def)
  moreover have "runs b d (pos + length x) y f f \<or> runs b d (pos + length x) y f g" using y d f by (simp add: nested_def g_def)
  moreover have "runs b d (pos + length x) y g g" using y d g unfolding nested_def by metis
  ultimately show "runs b d pos (x @ y) f f \<or> runs b d pos (x @ y) f (f\<lparr>limit_key := None\<rparr>)"
    unfolding g_def [symmetric] by (blast intro: runs_append)
qed

lemma nested_plain: "list_all (\<lambda>c. \<not> structural c) w \<Longrightarrow> nested d w"
proof (induction w)
  case Nil
  show ?case by (simp add: nested_def runs_Nil)
next
  case (Cons c w)
  then have "nested d [c]" by (intro nested_byte) (auto simp: structural_def depth_after_def)
  with Cons show ?case using nested_append [of d "[c]" w] by simp
qed

lemma idle_string:
  assumes "2 \<le> d" "idle f"
  shows "fst (fused_close b p d e (fused_open b pos d f)) = f"
proof -
  have "f\<lparr>fu_open := OpenNone\<rparr> = f" "fu_open f = OpenNone" using assms(2) by (cases f; simp add: idle_def)+
  then show ?thesis using assms(1) by (simp add: fused_close_def fused_open_def idle_value [OF assms(2)] Let_def)
qed

lemma nested_string:
  assumes "raw_ok k"
  shows "nested d (quote # k @ [quote])"
  using runs_string [OF assms] idle_string unfolding nested_def by metis

lemma nested_container:
  assumes "1 \<le> d" "d < U32_MAX" "nested (Suc d) inner" "(c, c') \<in> {(CHR ''['', CHR '']''), (CHR ''{'', CHR ''}'')}"
  shows "nested d (c # inner @ [c'])"
  unfolding nested_def
proof (intro impI allI)
  fix b pos f
  assume d: "2 \<le> d" and f: "idle f"
  have ne: "c \<noteq> CHR ''-''" "c' \<noteq> CHR ''-''" using assms(4) by auto
  have o: "fst (fused_byte b pos c d f) = f" using idle_byte [OF d f] ne by simp
  have c: "fst (fused_byte b p c' (Suc d) g) = g" if "idle g" for p g using idle_byte [of "Suc d" g] d ne that by simp
  have "runs b (Suc d) (pos + 1) inner f f \<or> runs b (Suc d) (pos + 1) inner f (f\<lparr>limit_key := None\<rparr>)"
    using assms(3) d f by (simp add: nested_def)
  then show "runs b d pos (c # inner @ [c']) f f \<or> runs b d pos (c # inner @ [c']) f (f\<lparr>limit_key := None\<rparr>)"
    using runs_container [OF assms(1,2,4), of b pos inner f] o c f by (metis idle_limit)
qed

interpretation nested: json_walk nested
proof (unfold_locales, goal_cases)
  case (4 d)
  show ?case by (rule nested_byte) (simp_all add: depth_after_def)
next
  case (5 d)
  show ?case by (rule nested_byte) (simp_all add: depth_after_def)
qed (fact nested_append nested_plain nested_string nested_container)+

section \<open>The root's members\<close>

lemma byte_ws: "is_ws c \<Longrightarrow> fst (fused_byte b pos c d f) = f"
  unfolding is_ws_def by (elim disjE) (simp_all add: fused_byte_def limit_value_def is_ws_def is_ascii_digit_def Let_def)

lemma plain_byte: "\<not> structural c \<Longrightarrow> c \<noteq> quote \<and> depth_after c d = d"
  by (simp add: structural_def depth_after_def)

lemma runs_ws: "list_all is_ws w \<Longrightarrow> runs b d pos w f f"
proof (induction w arbitrary: pos)
  case (Cons c w)
  then have s: "is_ws c" by simp
  have "c \<noteq> quote \<and> depth_after c d = d" by (rule plain_byte [OF ws_not_structural [OF s]])
  then have "runs b d pos [c] f f" using runs_byte [of c d b pos f] byte_ws [OF s, of b pos d f] by simp
  moreover have "runs b d (pos + 1) w f f" using Cons.prems by (intro Cons.IH) simp
  ultimately show ?case by (rule runs_Cons)
qed (simp add: runs_Nil)

definition key_effect :: "nat \<Rightarrow> string \<Rightarrow> fused \<Rightarrow> fused" where
  "key_effect pos k f =
     (let escaped = backslash \<in> set k in
      key_limit k escaped (pos + 1) (key_model k escaped (key_stream k escaped (key_stream_options k escaped (pos + 1 + length k) f))))"

lemma runs_key:
  assumes d: "drop pos b = quote # k @ quote # t" and k: "raw_ok k"
    and f: "fu_open f = OpenNone" "fu_expect_key f" "\<not> limit_value_next f"
  shows "runs b 1 pos (quote # k @ [quote]) f (key_effect pos k f)"
proof -
  have "pos < length b" using d by (metis drop_all linorder_not_less list.distinct(1))
  then have g: "get_range b (pos + 1) (pos + 1 + length k) = Some k" using drop_Cons_more [OF d] by (intro get_range_drop) simp_all
  have o: "f\<lparr>fu_open := OpenNone\<rparr> = f" using f(1) by (cases f) simp
  have "fst (fused_close b (pos + 1 + length k) 1 (backslash \<in> set k) (fused_open b pos 1 f)) = key_effect pos k f"
    using f g by (simp add: fused_close_def fused_open_def limit_value_def root_key_def key_effect_def Let_def o)
  then show ?thesis using runs_string [OF k, of b 1 pos f] by simp
qed

lemma runs_colon: "runs b 1 pos '':'' f (f\<lparr>fu_expect_key := False\<rparr>)"
  using runs_byte [of "CHR '':''" 1 b pos f] by (simp add: fused_byte_def limit_value_def depth_after_def Let_def)

text \<open>Scalars, after their first byte.\<close>

lemma runs_rest:
  assumes "idle f" "list_all (\<lambda>c. \<not> structural c) s" "limit_key f = None \<or> list_all (\<lambda>c. \<not> is_ascii_digit c \<and> c \<noteq> CHR ''-'') s"
    and "CHR ''t'' \<notin> set s \<or> \<not> fu_key_is_stream f"
  shows "runs b 1 pos s f f"
  using assms(2-4)
proof (induction s arbitrary: pos)
  case (Cons c s)
  have c: "c \<noteq> quote" "depth_after c 1 = 1" using Cons.prems(1) plain_byte [of c 1] by simp_all
  have n: "c \<noteq> CHR ''{''" "c \<noteq> CHR '':''" "c \<noteq> CHR '',''" using Cons.prems(1) by (simp_all add: structural_def)
  have k: "limit_key f = None \<Longrightarrow> f\<lparr>limit_key := None\<rparr> = f" by (cases f) simp
  have t: "\<not> (c = CHR ''t'' \<and> fu_key_is_stream f)" using Cons.prems(3) by auto
  have "fst (fused_byte b pos c 1 f) = f"
    unfolding fused_byte_def idle_value [OF assms(1)] Let_def
    using Cons.prems(2) n k t by (cases "limit_key f = None"; cases "fu_key_is_stream f") simp_all
  then have "runs b 1 pos [c] f f" using runs_byte [OF c, of b pos f] by simp
  moreover have "runs b 1 (pos + 1) s f f" using Cons.prems by (intro Cons.IH) auto
  ultimately show ?case by (rule runs_Cons)
qed (simp add: runs_Nil)

definition reset :: "fused \<Rightarrow> fused" where
  "reset f = f\<lparr>fu_open := OpenNone, fu_expect_key := True, fu_key_is_stream := False, fu_key_is_model := False,
     limit_key := None, limit_value_next := False\<rparr>"

definition number :: "string \<Rightarrow> bool" where
  "number s \<longleftrightarrow> s \<noteq> [] \<and> (is_ascii_digit (hd s) \<or> hd s = CHR ''-'') \<and>
     list_all (\<lambda>c. is_ascii_digit c \<or> c \<in> set ''+-.eE'') s"

definition literal :: "jval \<Rightarrow> bool" where
  "literal v \<longleftrightarrow> (case v of JScalar s \<Rightarrow> s \<in> {''true'', ''false'', ''null''} \<or> number s | _ \<Rightarrow> True)"

definition plain_integer :: "jval \<Rightarrow> bool" where
  "plain_integer v \<longleftrightarrow> (case v of JScalar s \<Rightarrow> s \<noteq> [] \<and> list_all is_ascii_digit s | _ \<Rightarrow> False)"

text \<open>What a member's value does, once the next member begins.\<close>

definition value_effect :: "nat \<Rightarrow> jval \<Rightarrow> fused \<Rightarrow> fused" where
  "value_effect pos v f = reset
     (let f = (if limit_value_next f \<and> \<not> (plain_integer v \<or> v = JScalar ''null'') then f\<lparr>inexact_limit := True\<rparr> else f);
          f = (if fu_key_is_stream f \<and> v = JScalar ''true'' then f\<lparr>stream_true := True\<rparr> else f)
      in case limit_key f of
           Some k \<Rightarrow>
             if plain_integer v \<and> k < length (limit_spans f) \<and> limit_spans f ! k = None
             then f\<lparr>limit_spans := (limit_spans f)[k := Some (pos, pos + length (render v))]\<rparr> else f
         | None \<Rightarrow>
             (case v of
                JString raw \<Rightarrow>
                  if fu_key_is_model f \<and> fu_model f = None
                  then f\<lparr>fu_model_span := Some (pos + 1, pos + 1 + length raw), fu_model := Some (recorded raw)\<rparr> else f
              | _ \<Rightarrow> f))"

lemma reset_simps [simp]:
  "reset (f\<lparr>fu_open := a\<rparr>) = reset f" "reset (f\<lparr>fu_expect_key := e\<rparr>) = reset f" "reset (f\<lparr>fu_key_is_stream := e\<rparr>) = reset f"
  "reset (f\<lparr>fu_key_is_model := e\<rparr>) = reset f" "reset (f\<lparr>limit_key := l\<rparr>) = reset f" "reset (f\<lparr>limit_value_next := e\<rparr>) = reset f"
  "reset (reset f) = reset f"
  by (simp_all add: reset_def)

lemma reset_inexact: "reset (f\<lparr>inexact_limit := x\<rparr>) = (reset f)\<lparr>inexact_limit := x\<rparr>"
  by (simp add: reset_def)

lemma reset_stream: "reset (f\<lparr>stream_true := x\<rparr>) = (reset f)\<lparr>stream_true := x\<rparr>"
  by (simp add: reset_def)

text \<open>The first byte of a value settles a pending limit.\<close>

definition settled :: "bool \<Rightarrow> fused \<Rightarrow> fused" where
  "settled exact f = (if limit_value_next f then f\<lparr>limit_value_next := False, inexact_limit := inexact_limit f \<or> \<not> exact\<rparr> else f)"

lemma limit_value_settled:
  "\<not> is_ws c \<Longrightarrow> c \<noteq> CHR '':'' \<Longrightarrow> limit_value b pos c f = settled (is_ascii_digit c \<or> starts_at b pos ''null'') f"
  by (cases f) (simp add: limit_value_def settled_def Let_def)

lemma settled_simps [simp]:
  "fu_open (settled e f) = fu_open f" "fu_expect_key (settled e f) = fu_expect_key f" "fu_key_is_stream (settled e f) = fu_key_is_stream f"
  "fu_key_is_model (settled e f) = fu_key_is_model f" "fu_model (settled e f) = fu_model f" "limit_key (settled e f) = limit_key f"
  "limit_spans (settled e f) = limit_spans f" "\<not> limit_value_next (settled e f)"
  by (simp_all add: settled_def)

lemma settled_idle: "fu_open f = OpenNone \<Longrightarrow> \<not> fu_expect_key f \<Longrightarrow> idle (settled e f)"
  by (simp add: idle_def)

lemma reset_settled: "reset (settled e f) = reset (if limit_value_next f \<and> \<not> e then f\<lparr>inexact_limit := True\<rparr> else f)"
  by (cases f) (simp add: settled_def reset_def)

lemma starts_at_drop: "drop pos b = x @ t \<Longrightarrow> pos \<le> length b \<Longrightarrow> starts_at b pos p \<longleftrightarrow> strip_prefix p (x @ t) \<noteq> None"
  by (simp add: starts_at_def)

lemma starts_at_Cons: "drop pos b = c # t \<Longrightarrow> c \<noteq> CHR ''n'' \<Longrightarrow> \<not> starts_at b pos ''null''"
  by (simp add: starts_at_def strip_prefix_def)

lemma value_string:
  assumes d: "drop pos b = render (JString raw) @ t" and ok: "raw_ok raw"
    and h: "fu_open h = OpenNone" "\<not> fu_expect_key h" "limit_key h \<noteq> None \<Longrightarrow> \<not> fu_key_is_model h"
  shows "\<exists>g. runs b 1 pos (render (JString raw)) h g \<and> idle g \<and> reset g = value_effect pos (JString raw) h"
proof -
  have d': "drop pos b = quote # raw @ quote # t" using d by simp
  have pos: "pos < length b" using d' by (metis drop_all linorder_not_less list.distinct(1))
  let ?h = "settled False h"
  have lv: "limit_value b pos quote h = ?h"
    using starts_at_Cons [OF d'] limit_value_settled [of quote b pos h] by (simp add: is_ws_def is_ascii_digit_def)
  define g where "g = fst (fused_close b (pos + 1 + length raw) 1 (backslash \<in> set raw) (fused_open b pos 1 h))"
  have r: "runs b 1 pos (render (JString raw)) h g" using runs_string [OF ok, of b 1 pos h] by (simp add: g_def)
  have o: "?h\<lparr>fu_open := OpenNone\<rparr> = ?h" using h(1) by (cases "settled False h") (metis fused.select_convs(1) fused.update_convs(1) settled_simps(1))
  show ?thesis
  proof (cases "fu_key_is_model h \<and> fu_model h = None")
    case True
    then have l: "limit_key h = None" using h(3) by blast
    have gr: "get_range b (pos + 1) (min (pos + 1 + length raw) (pos + 1 + MAX_CAPTURE)) = Some (take MAX_CAPTURE raw)"
      using get_range_drop [of "pos + 1" b "take MAX_CAPTURE raw" "drop MAX_CAPTURE raw @ quote # t"] drop_Cons_more [OF d'] pos
      by (simp add: min_def split: if_splits)
    have "g = ?h\<lparr>fu_key_is_model := False, fu_model_span := Some (pos + 1, pos + 1 + length raw), fu_model := Some (recorded raw)\<rparr>"
      using True h gr capture_recorded [of raw] o unfolding g_def fused_close_def fused_open_def lv
      by (simp add: Let_def push_capped_def)
    then show ?thesis using r True h l by (intro exI [of _ g]) (cases h, simp add: idle_def value_effect_def plain_integer_def settled_def reset_def)
  next
    case False
    then have "g = ?h" unfolding g_def fused_close_def fused_open_def lv using h o by (auto simp: Let_def)
    then show ?thesis using r h False settled_idle [OF h(1,2)] reset_settled [of False h]
      by (intro exI [of _ g]) (auto simp: value_effect_def plain_integer_def split: option.split)
  qed
qed

lemma value_container:
  assumes d: "drop pos b = render v @ t" and ok: "j_ok v" "1 + nesting v \<le> U32_MAX"
    and v: "(\<exists>w es. v = JArray w es) \<or> (\<exists>w ms. v = JObject w ms)"
    and h: "fu_open h = OpenNone" "\<not> fu_expect_key h"
  shows "\<exists>g. runs b 1 pos (render v) h g \<and> idle g \<and> reset g = value_effect pos v h"
proof -
  obtain c c' inner where r: "render v = c # inner @ [c']" "(c, c') \<in> {(CHR ''['', CHR '']''), (CHR ''{'', CHR ''}'')}" "nested 2 inner"
  proof -
    from v show thesis
    proof (elim disjE exE)
      fix w es assume v: "v = JArray w es"
      have "nested 2 (if es = ENil then w else tl (render_elems es))"
        unfolding render_Nil using ok nested.walk_render(2) [of 2 es] by (intro nested.Q_inner) (auto simp: v)
      then show thesis using v by (intro that [of "CHR ''[''" _ "CHR '']''"]) simp_all
    next
      fix w ms assume v: "v = JObject w ms"
      have "nested 2 (if ms = MNil then w else tl (render_members ms))"
        unfolding render_Nil using ok nested.walk_render(3) [of 2 ms] by (intro nested.Q_inner) (auto simp: v)
      then show thesis using v by (intro that [of "CHR ''{''" _ "CHR ''}''"]) simp_all
    qed
  qed
  let ?h = "settled False h"
  have cc: "\<not> is_ws c" "c \<noteq> CHR '':''" "c \<noteq> CHR ''n''" "c \<noteq> CHR '',''" "c \<noteq> CHR ''-''" "c \<noteq> CHR ''t''" "\<not> is_ascii_digit c"
    using r(2) by (auto simp: is_ws_def is_ascii_digit_def)
  have cc': "c' \<noteq> CHR ''{''" "c' \<noteq> CHR '':''" "c' \<noteq> CHR '',''" "c' \<noteq> CHR ''-''" "c' \<noteq> CHR ''t''" "\<not> is_ascii_digit c'"
    using r(2) by (auto simp: is_ascii_digit_def)
  have "drop pos b = c # inner @ c' # t" using d r(1) by simp
  from starts_at_Cons [OF this cc(3)] limit_value_settled [OF cc(1,2), of b pos h] cc(7)
  have lv: "limit_value b pos c h = ?h" by simp
  have byte: "fst (fused_byte b pos c 1 h) = ?h" unfolding fused_byte_def lv Let_def using cc by simp
  have i: "idle ?h" by (rule settled_idle [OF h])
  have e: "fst (fused_byte b p c' 2 g) = g" if "idle g" for p g unfolding fused_byte_def idle_value [OF that] Let_def using cc' by simp
  have "runs b 2 (pos + 1) inner ?h ?h \<or> runs b 2 (pos + 1) inner ?h (?h\<lparr>limit_key := None\<rparr>)"
    using r(3) i by (simp add: nested_def)
  then obtain g where g: "runs b 2 (pos + 1) inner ?h g" "idle g" "reset g = reset ?h" using i by auto
  have "runs b 1 pos (render v) h g"
    using runs_container [OF _ _ r(2), of 1 b pos inner h g] g(1,2) byte e [OF g(2)] by (simp add: r(1) numeral_2_eq_2)
  moreover have "reset ?h = value_effect pos v h"
    using v reset_settled [of False h] by (auto simp: value_effect_def plain_integer_def split: option.split)
  ultimately show ?thesis using g by auto
qed

text \<open>A scalar whose first byte is not the start of a limit.\<close>

lemma value_word:
  assumes d: "drop pos b = s @ t" and s: "s \<in> {''true'', ''false'', ''null''}"
    and h: "fu_open h = OpenNone" "\<not> fu_expect_key h"
  shows "\<exists>g. runs b 1 pos s h g \<and> idle g \<and> reset g = value_effect pos (JScalar s) h"
proof -
  obtain c r where cr: "s = c # r" "c \<in> {CHR ''t'', CHR ''f'', CHR ''n''}" using s by auto
  have pos: "pos \<le> length b" using d s by (cases "pos \<le> length b") auto
  have sn: "starts_at b pos ''null'' \<longleftrightarrow> s = ''null''" and st: "starts_at b pos ''true'' \<longleftrightarrow> s = ''true''"
    using s starts_at_drop [OF d pos] by (auto simp: strip_prefix_def)
  define h1 where "h1 = settled (s = ''null'') h"
  have "\<not> is_ws c" "c \<noteq> CHR '':''" "\<not> is_ascii_digit c" using cr(2) by (auto simp: is_ws_def is_ascii_digit_def)
  then have lv: "limit_value b pos c h = h1" using limit_value_settled [of c b pos h] sn by (simp add: h1_def)
  define g where "g = (if s = ''true'' \<and> fu_key_is_stream h then h1\<lparr>stream_true := True, fu_key_is_stream := False\<rparr> else h1)"
  have "fst (fused_byte b pos c 1 h) = g"
  proof -
    consider "s = ''true''" "c = CHR ''t''" | "s = ''false''" "c = CHR ''f''" | "s = ''null''" "c = CHR ''n''" using s cr(1) by auto
    then show ?thesis unfolding fused_byte_def lv Let_def by cases (simp_all add: g_def h1_def is_ascii_digit_def st)
  qed
  then have r1: "runs b 1 pos [c] h g" using runs_byte [of c 1 b pos h] cr(2) by (auto simp: depth_after_def)
  have i: "idle g" using settled_idle [OF h(1,2)] by (simp add: g_def h1_def idle_def)
  have "list_all (\<lambda>c. \<not> structural c) r" "list_all (\<lambda>c. \<not> is_ascii_digit c \<and> c \<noteq> CHR ''-'') r" "CHR ''t'' \<notin> set r"
    using s cr(1) by (auto simp: structural_def is_ascii_digit_def)
  then have "runs b 1 (pos + 1) r g g" by (intro runs_rest [OF i]) simp_all
  then have "runs b 1 pos s h g" using runs_Cons [OF r1] by (simp add: cr(1))
  moreover have "reset g = value_effect pos (JScalar s) h"
  proof -
    have p: "\<not> plain_integer (JScalar s)" using s by (auto simp: plain_integer_def is_ascii_digit_def)
    have "s = ''null'' \<Longrightarrow> s \<noteq> ''true''" by simp
    then show ?thesis
      using p by (cases h; cases "limit_key h"; cases "s = ''true''"; cases "s = ''null''")
        (simp_all add: g_def h1_def value_effect_def settled_def reset_def)
  qed
  ultimately show ?thesis using i by blast
qed

lemma digits_end:
  assumes d: "drop pos b = s @ t" and t: "t = w4 @ c # r" "list_all is_ws w4" "c = CHR '','' \<or> c = CHR ''}''"
    and s: "number s" "is_ascii_digit (hd s)"
  shows "limit_digits b pos f =
    (case limit_key f of
       None \<Rightarrow> f
     | Some k \<Rightarrow>
         if plain_integer (JScalar s) then
           if k < length (limit_spans f) \<and> limit_spans f ! k = None
           then f\<lparr>limit_key := None, limit_spans := (limit_spans f)[k := Some (pos, pos + length s)]\<rparr> else f\<lparr>limit_key := None\<rparr>
         else f\<lparr>limit_key := None, inexact_limit := True\<rparr>)"
proof -
  have ht: "t \<noteq> []" "\<not> is_ascii_digit (hd t)" using t by (cases w4; auto simp: is_ws_def is_ascii_digit_def)+
  show ?thesis
  proof (cases "list_all is_ascii_digit s")
    case True
    then have "takeWhile is_ascii_digit (s @ t) = s" using ht by (cases t) (auto simp: takeWhile_append list_all_iff)
    moreover have "drop (pos + length s) b = t" by (rule drop_more [OF d])
    moreover have "dropWhile is_ws t = c # r" using t by (auto simp: dropWhile_append list_all_iff is_ws_def)
    ultimately show ?thesis using True t(3) s by (auto simp: limit_digits_def d plain_integer_def number_def Let_def split: option.split)
  next
    case False
    define x where "x = takeWhile is_ascii_digit s"
    obtain y ys where dy: "dropWhile is_ascii_digit s = y # ys"
      using False by (cases "dropWhile is_ascii_digit s") (auto simp: dropWhile_eq_Nil_conv list_all_iff)
    have y: "s = x @ y # ys" "\<not> is_ascii_digit y"
      using takeWhile_dropWhile_id [of is_ascii_digit s] hd_dropWhile [of is_ascii_digit s] dy by (simp_all add: x_def)
    have x: "list_all is_ascii_digit x" by (auto simp: x_def list_all_iff dest: set_takeWhileD)
    have yc: "y \<in> set ''+-.eE''" using s(1) y by (auto simp: number_def)
    have "takeWhile is_ascii_digit (s @ t) = x" using x y by (auto simp: takeWhile_append list_all_iff)
    moreover have "drop (pos + length x) b = y # ys @ t" using drop_more [of pos b x] d y(1) by simp
    moreover have "dropWhile is_ws (y # ys @ t) = y # ys @ t" "y \<noteq> CHR '',''" "y \<noteq> CHR ''}''" using yc by (auto simp: is_ws_def)
    ultimately show ?thesis using False by (auto simp: limit_digits_def d plain_integer_def Let_def split: option.split)
  qed
qed

lemma value_number:
  assumes d: "drop pos b = s @ t" and t: "t = w4 @ c # r" "list_all is_ws w4" "c = CHR '','' \<or> c = CHR ''}''" and s: "number s"
    and h: "fu_open h = OpenNone" "\<not> fu_expect_key h" "limit_value_next h \<longleftrightarrow> limit_key h \<noteq> None"
  shows "\<exists>g. runs b 1 pos s h g \<and> idle g \<and> reset g = value_effect pos (JScalar s) h"
proof -
  obtain a s' where a: "s = a # s'" using s by (cases s) (auto simp: number_def)
  have ad: "is_ascii_digit a \<or> a = CHR ''-''" using s by (simp add: number_def a)
  have ns: "\<not> structural x" "x \<noteq> CHR ''t''" if "x \<in> set s" for x
    using s that by (auto simp: number_def list_all_iff structural_def is_ascii_digit_def)
  then have a1: "\<not> is_ws a" "a \<noteq> CHR '':''" "a \<noteq> CHR ''{''" "a \<noteq> CHR '',''" "a \<noteq> CHR ''n''" "a \<noteq> CHR ''t''"
    using ad by (auto simp: is_ws_def is_ascii_digit_def)
  have d': "drop pos b = a # s' @ t" using d by (simp add: a)
  define h1 where "h1 = settled (is_ascii_digit a) h"
  have lv: "limit_value b pos a h = h1" using limit_value_settled [OF a1(1,2)] starts_at_Cons [OF d' a1(5)] by (simp add: h1_def)
  have i1: "idle h1" using settled_idle [OF h(1,2)] by (simp add: h1_def)
  define g where "g = (if is_ascii_digit a then limit_digits b pos h1 else h1\<lparr>limit_key := None\<rparr>)"
  have de: "is_ascii_digit a \<Longrightarrow> limit_digits b pos f =
    (case limit_key f of
       None \<Rightarrow> f
     | Some k \<Rightarrow>
         if plain_integer (JScalar s) then
           if k < length (limit_spans f) \<and> limit_spans f ! k = None
           then f\<lparr>limit_key := None, limit_spans := (limit_spans f)[k := Some (pos, pos + length s)]\<rparr> else f\<lparr>limit_key := None\<rparr>
         else f\<lparr>limit_key := None, inexact_limit := True\<rparr>)" for f
    using s by (intro digits_end [OF d t]) (simp_all add: a)
  have "fst (fused_byte b pos a 1 h) = g"
    unfolding fused_byte_def lv Let_def g_def using a1 ad i1 de [of h1] by (cases "limit_key h1") (auto simp: idle_def is_ascii_digit_def)
  moreover have "a \<noteq> quote" "depth_after a 1 = 1" using plain_byte [of a 1] ns(1) [of a] by (simp_all add: a)
  ultimately have r1: "runs b 1 pos [a] h g" using runs_byte [of a 1 b pos h] by simp
  have g: "idle g" "limit_key g = None" using i1 ad by (auto simp: g_def de idle_def split: option.split)
  have "runs b 1 (pos + 1) s' g g"
    using ns g by (intro runs_rest [OF g(1)]) (auto simp: a list_all_iff)
  then have "runs b 1 pos s h g" using runs_Cons [OF r1] by (simp add: a)
  moreover have "reset g = value_effect pos (JScalar s) h"
  proof -
    have w: "s \<noteq> ''true''" "s \<noteq> ''null''" using a1 by (auto simp: a)
    have p: "plain_integer (JScalar s) \<Longrightarrow> is_ascii_digit a" by (simp add: plain_integer_def a)
    show ?thesis
    proof (cases "limit_key h")
      case None
      then show ?thesis using h(3) w p by (auto simp: g_def de h1_def value_effect_def settled_def)
    next
      case (Some k)
      then show ?thesis using h(3) w p by (cases h) (auto simp: g_def de h1_def value_effect_def settled_def reset_def)
    qed
  qed
  ultimately show ?thesis using g by blast
qed

section \<open>What a member does\<close>

lemma key_names_text:
  "from_utf8 want = Some want \<Longrightarrow> key_names k (backslash \<in> set k) want \<longleftrightarrow> json_text k = Some want"
  by (auto simp: key_names_def json_text_def unescapes_to_iff from_utf8_def split: if_splits)

lemma limit_keys_text: "from_utf8 ''stream'' = Some ''stream''" "from_utf8 ''stream_options'' = Some ''stream_options''"
    "from_utf8 ''model'' = Some ''model''" "key \<in> set OUTPUT_LIMIT_KEYS \<Longrightarrow> from_utf8 key = Some key"
  by (auto simp: OUTPUT_LIMIT_KEYS_def intro!: from_utf8_ascii)

definition limit_index :: "string \<Rightarrow> nat option" where
  "limit_index k = find_index (\<lambda>key. json_text k = Some key) OUTPUT_LIMIT_KEYS"

lemma length_limit_keys: "length OUTPUT_LIMIT_KEYS = 3" "distinct OUTPUT_LIMIT_KEYS"
  by (simp_all add: OUTPUT_LIMIT_KEYS_def)

lemma limit_index_Some: "limit_index k = Some j \<longleftrightarrow> j < 3 \<and> json_text k = Some (OUTPUT_LIMIT_KEYS ! j)"
proof -
  consider "json_text k = Some ''max_tokens''" | "json_text k = Some ''max_completion_tokens''" | "json_text k = Some ''max_output_tokens''"
    | "json_text k \<noteq> Some ''max_tokens''" "json_text k \<noteq> Some ''max_completion_tokens''" "json_text k \<noteq> Some ''max_output_tokens''" by blast
  moreover have "j < 3 \<longleftrightarrow> j = 0 \<or> j = 1 \<or> j = 2" by auto
  ultimately show ?thesis
    by cases (auto simp: limit_index_def find_index_def OUTPUT_LIMIT_KEYS_def)
qed

lemma find_index_cong: "(\<And>x. x \<in> set xs \<Longrightarrow> P x = Q x) \<Longrightarrow> find_index P xs = find_index Q xs"
proof -
  assume "\<And>x. x \<in> set xs \<Longrightarrow> P x = Q x"
  then have "takeWhile (\<lambda>x. \<not> P x) xs = takeWhile (\<lambda>x. \<not> Q x) xs" by (intro takeWhile_cong) simp_all
  then show ?thesis by (simp add: find_index_def)
qed

lemma key_limit_index:
  "find_index (\<lambda>key. case from_utf8 key of None \<Rightarrow> False | Some want \<Rightarrow> key_names k (backslash \<in> set k) want) OUTPUT_LIMIT_KEYS = limit_index k"
  unfolding limit_index_def by (rule find_index_cong) (simp add: limit_keys_text(4) key_names_text)

text \<open>The stages of a root key, each as one update.\<close>

lemma key_stream_options_alt:
  "key_stream_options k (backslash \<in> set k) e f =
     f\<lparr>stream_options_ambiguous := stream_options_ambiguous f \<or>
         (if k = ''stream_options'' then saw_stream_options f else json_text k = Some ''stream_options''),
       saw_stream_options := saw_stream_options f \<or> k = ''stream_options'',
       stream_options_key_end := if k = ''stream_options'' \<and> \<not> saw_stream_options f then e else stream_options_key_end f\<rparr>"
proof -
  have "backslash \<in> set k \<and> unescapes_to k ''stream_options'' \<longleftrightarrow> json_text k = Some ''stream_options''" if "k \<noteq> ''stream_options''"
    using that key_names_text [OF limit_keys_text(2), of k] by (simp add: key_names_def split: if_splits)
  then show ?thesis by (cases f) (simp add: key_stream_options_def Let_def)
qed

lemma key_stream_alt:
  "key_stream k (backslash \<in> set k) f =
     f\<lparr>fu_key_is_stream := (json_text k = Some ''stream''), stream_true := stream_true f \<and> json_text k \<noteq> Some ''stream''\<rparr>"
  by (cases f) (simp add: key_stream_def key_names_text [OF limit_keys_text(1)] Let_def)

lemma key_model_alt:
  "key_model k (backslash \<in> set k) f =
     f\<lparr>fu_key_is_model := (json_text k = Some ''model''),
       model_keys := min U32_MAX (model_keys f + (if json_text k = Some ''model'' then 1 else 0))\<rparr>"
  by (simp add: key_model_def key_names_text [OF limit_keys_text(3)])

lemma key_limit_alt:
  assumes "length (limit_keys f) = 3" "\<not> limit_value_next f"
  shows "key_limit k (backslash \<in> set k) (i + 1) f =
    f\<lparr>limit_key := limit_index k, limit_value_next := (limit_index k \<noteq> None),
      inexact_limit := inexact_limit f \<or> (\<exists>j. limit_index k = Some j \<and> limit_keys f ! j \<noteq> None),
      limit_keys := (case limit_index k of
        None \<Rightarrow> limit_keys f
      | Some j \<Rightarrow> if limit_keys f ! j = None then (limit_keys f)[j := Some i] else limit_keys f)\<rparr>"
proof (cases "limit_index k")
  case None
  then show ?thesis using assms by (cases f) (simp add: key_limit_def key_limit_index)
next
  case (Some j)
  then have "j < 3" by (simp add: limit_index_Some)
  then show ?thesis using assms Some by (cases f) (simp add: key_limit_def key_limit_index Let_def)
qed

definition key_read :: "nat \<Rightarrow> string \<Rightarrow> fused \<Rightarrow> fused" where
  "key_read i k f = f\<lparr>stream_options_ambiguous := stream_options_ambiguous f \<or>
         (if k = ''stream_options'' then saw_stream_options f else json_text k = Some ''stream_options''),
       saw_stream_options := saw_stream_options f \<or> k = ''stream_options'',
       stream_options_key_end := if k = ''stream_options'' \<and> \<not> saw_stream_options f then i + 1 + length k else stream_options_key_end f,
       fu_key_is_stream := (json_text k = Some ''stream''), stream_true := stream_true f \<and> json_text k \<noteq> Some ''stream'',
       fu_key_is_model := (json_text k = Some ''model''),
       model_keys := min U32_MAX (model_keys f + (if json_text k = Some ''model'' then 1 else 0))\<rparr>"

lemma key_effect_alt:
  assumes "length (limit_keys f) = 3" "\<not> limit_value_next f"
  shows "key_effect i k f =
    (key_read i k f)\<lparr>limit_key := limit_index k, limit_value_next := (limit_index k \<noteq> None),
      inexact_limit := inexact_limit f \<or> (\<exists>j. limit_index k = Some j \<and> limit_keys f ! j \<noteq> None),
      limit_keys := (case limit_index k of
        None \<Rightarrow> limit_keys f
      | Some j \<Rightarrow> if limit_keys f ! j = None then (limit_keys f)[j := Some i] else limit_keys f)\<rparr>"
proof -
  have r: "key_model k (backslash \<in> set k) (key_stream k (backslash \<in> set k) (key_stream_options k (backslash \<in> set k) (i + 1 + length k) f)) =
      key_read i k f"
    unfolding key_model_alt key_stream_alt key_stream_options_alt key_read_def by (cases f) simp
  have k: "limit_keys (key_read i k f) = limit_keys f" "inexact_limit (key_read i k f) = inexact_limit f"
      "limit_value_next (key_read i k f) = limit_value_next f"
    by (simp_all add: key_read_def)
  show ?thesis
    unfolding key_effect_def Let_def r using key_limit_alt [of "key_read i k f" k i] assms unfolding k by blast
qed

lemma key_effect_fields:
  assumes "length (limit_keys f) = 3" "\<not> limit_value_next f"
  shows "fu_open (key_effect i k f) = fu_open f"
    "stream_true (key_effect i k f) \<longleftrightarrow> stream_true f \<and> json_text k \<noteq> Some ''stream''"
    "fu_key_is_stream (key_effect i k f) \<longleftrightarrow> json_text k = Some ''stream''"
    "saw_stream_options (key_effect i k f) \<longleftrightarrow> saw_stream_options f \<or> k = ''stream_options''"
    "stream_options_ambiguous (key_effect i k f) \<longleftrightarrow> stream_options_ambiguous f \<or>
       (if k = ''stream_options'' then saw_stream_options f else json_text k = Some ''stream_options'')"
    "stream_options_key_end (key_effect i k f) =
       (if k = ''stream_options'' \<and> \<not> saw_stream_options f then i + 1 + length k else stream_options_key_end f)"
    "fu_key_is_model (key_effect i k f) \<longleftrightarrow> json_text k = Some ''model''"
    "model_keys (key_effect i k f) = min U32_MAX (model_keys f + (if json_text k = Some ''model'' then 1 else 0))"
    "fu_model (key_effect i k f) = fu_model f" "fu_model_span (key_effect i k f) = fu_model_span f"
    "limit_key (key_effect i k f) = limit_index k" "limit_spans (key_effect i k f) = limit_spans f"
    "limit_value_next (key_effect i k f) \<longleftrightarrow> limit_index k \<noteq> None"
    "inexact_limit (key_effect i k f) \<longleftrightarrow> inexact_limit f \<or> (\<exists>j. limit_index k = Some j \<and> limit_keys f ! j \<noteq> None)"
    "limit_keys (key_effect i k f) =
       (case limit_index k of
          None \<Rightarrow> limit_keys f
        | Some j \<Rightarrow> if limit_keys f ! j = None then (limit_keys f)[j := Some i] else limit_keys f)"
  by (simp_all only: key_effect_alt [OF assms]) (simp_all add: key_read_def)

lemma runs_value:
  assumes "drop pos b = render v @ t" "t = w4 @ c # r" "list_all is_ws w4" "c = CHR '','' \<or> c = CHR ''}''"
    and "j_ok v" "1 + nesting v \<le> U32_MAX" "literal v"
    and "fu_open h = OpenNone" "\<not> fu_expect_key h" "limit_key h \<noteq> None \<Longrightarrow> \<not> fu_key_is_model h" "limit_value_next h \<longleftrightarrow> limit_key h \<noteq> None"
  shows "\<exists>g. runs b 1 pos (render v) h g \<and> idle g \<and> reset g = value_effect pos v h"
proof (cases v)
  case (JScalar s)
  then have s: "s \<in> {''true'', ''false'', ''null''} \<or> number s" using assms(7) by (simp add: literal_def)
  have d: "drop pos b = s @ t" using assms(1) JScalar by simp
  from s show ?thesis
  proof
    assume "s \<in> {''true'', ''false'', ''null''}"
    from value_word [OF d this assms(8,9)] show ?thesis by (simp add: JScalar)
  next
    assume "number s"
    from value_number [OF d assms(2-4) this assms(8,9,11)] show ?thesis by (simp add: JScalar)
  qed
next
  case (JString raw)
  then show ?thesis using value_string [of pos b raw t h] assms by simp
qed (use value_container [OF assms(1,5,6) _ assms(8,9)] in blast)+

definition member_effect :: "nat \<Rightarrow> string \<Rightarrow> nat \<Rightarrow> jval \<Rightarrow> fused \<Rightarrow> fused" where
  "member_effect i k vpos v f = value_effect vpos v ((key_effect i k f)\<lparr>fu_expect_key := False\<rparr>)"

lemma reset_fresh: "reset f = f \<Longrightarrow> fu_open f = OpenNone \<and> fu_expect_key f \<and> \<not> limit_value_next f"
  by (cases f) (simp add: reset_def)

lemma runs_member:
  assumes d: "drop pos b = w1 @ member_text k w2 w3 v @ w4 @ c # r" and c: "c = CHR '','' \<or> c = CHR ''}''"
    and ok: "list_all is_ws w1" "raw_ok k" "list_all is_ws w2" "list_all is_ws w3" "j_ok v" "list_all is_ws w4"
    and v: "1 + nesting v \<le> U32_MAX" "literal v" and f: "reset f = f" "length (limit_keys f) = 3"
    and i: "i = pos + length w1" "vpos = i + length (member_text k w2 w3 v) - length (render v)"
  shows "\<exists>g. runs b 1 pos (w1 @ member_text k w2 w3 v @ w4) f g \<and> idle g \<and> reset g = member_effect i k vpos v f"
proof -
  have fr: "fu_open f = OpenNone" "fu_expect_key f" "\<not> limit_value_next f"
    using reset_fresh [OF f(1)] by simp_all
  let ?h = "(key_effect i k f)\<lparr>fu_expect_key := False\<rparr>"
  note kf = key_effect_fields [OF f(2) fr(3), of i k]
  have h: "fu_open ?h = OpenNone" "\<not> fu_expect_key ?h" "limit_key ?h \<noteq> None \<Longrightarrow> \<not> fu_key_is_model ?h" "limit_value_next ?h \<longleftrightarrow> limit_key ?h \<noteq> None"
  proof -
    assume "limit_key ?h \<noteq> None"
    then obtain j where j: "limit_index k = Some j" using kf by auto
    then have "json_text k = Some (OUTPUT_LIMIT_KEYS ! j)" "j < 3" by (simp_all add: limit_index_Some)
    moreover have "OUTPUT_LIMIT_KEYS ! j \<noteq> ''model''" using \<open>j < 3\<close> by (auto simp: OUTPUT_LIMIT_KEYS_def less_Suc_eq numeral_3_eq_3)
    ultimately show "\<not> fu_key_is_model ?h" using kf by simp
  qed (use kf fr in simp_all)
  have dk: "drop i b = quote # k @ quote # (w2 @ CHR '':'' # w3 @ render v @ w4 @ c # r)"
    unfolding i(1) using drop_more [OF d] by (simp add: member_text_def)
  define j where "j = i + length (quote # k @ [quote])"
  have vp: "vpos = j + length w2 + 1 + length w3" by (simp add: i(2) j_def member_text_def)
  have dv: "drop vpos b = render v @ w4 @ c # r"
    using drop_more [of i b "quote # k @ quote # w2 @ CHR '':'' # w3"] dk by (simp add: vp j_def add.assoc)
  obtain g where g: "runs b 1 vpos (render v) ?h g" "idle g" "reset g = value_effect vpos v ?h"
    using runs_value [OF dv refl ok(6) c ok(5) v h] by blast
  have "runs b 1 pos w1 f f" "runs b 1 i (quote # k @ [quote]) f (key_effect i k f)" "runs b 1 j w2 (key_effect i k f) (key_effect i k f)"
      "runs b 1 (j + length w2) '':'' (key_effect i k f) ?h" "runs b 1 (j + length w2 + 1) w3 ?h ?h"
      "runs b 1 (vpos + length (render v)) w4 g g"
    using ok runs_key [OF dk ok(2) fr] runs_colon by (simp_all add: runs_ws)
  then have "runs b 1 pos (w1 @ (quote # k @ [quote]) @ w2 @ '':'' @ w3 @ render v @ w4) f g"
    using g(1) by (intro runs_append) (simp_all add: i(1) j_def vp add.assoc)
  then show ?thesis using g by (auto simp: member_text_def member_effect_def)
qed

lemma runs_comma: "idle g \<Longrightarrow> runs b 1 pos '','' g (reset g)"
proof -
  assume i: "idle g"
  have "fst (fused_byte b pos (CHR '','') 1 g) = reset g"
    unfolding fused_byte_def idle_value [OF i] Let_def using i by (cases g) (simp add: reset_def idle_def)
  then show ?thesis using runs_byte [of "CHR '',''" 1 b pos g] by (simp add: depth_after_def)
qed

text \<open>Every member with where it stands: the key's opening quote and the value's first byte.\<close>

primrec places :: "nat \<Rightarrow> jmembers \<Rightarrow> (string \<times> jval \<times> nat \<times> nat) list" where
  "places pos MNil = []"
| "places pos (MCons w1 k w2 w3 v w4 ms) =
     (let i = pos + length w1; e = i + length (member_text k w2 w3 v) in
      (k, v, i, e - length (render v)) # places (e + length w4 + 1) ms)"

definition effects :: "(string \<times> jval \<times> nat \<times> nat) list \<Rightarrow> fused \<Rightarrow> fused" where
  "effects l f = fold (\<lambda>(k, v, i, vpos). member_effect i k vpos v) l f"

lemma member_effect_reset: "reset (member_effect i k vpos v f) = member_effect i k vpos v f"
  by (simp add: member_effect_def value_effect_def)

lemma member_effect_length: "length (limit_keys f) = 3 \<Longrightarrow> \<not> limit_value_next f \<Longrightarrow> length (limit_keys (member_effect i k vpos v f)) = 3"
  using key_effect_fields(15) [of f i k]
  by (simp add: member_effect_def value_effect_def reset_def Let_def split: option.split jval.split)

lemma runs_members:
  assumes "members_ok ms" "nesting_members ms < U32_MAX" "list_all (\<lambda>(k, v, _). literal v) (places pos ms)" "ms \<noteq> MNil"
    and "drop pos b = tl (render_members ms) @ CHR ''}'' # t" "reset f = f" "length (limit_keys f) = 3"
  shows "\<exists>g. runs b 1 pos (tl (render_members ms)) f g \<and> idle g \<and> reset g = effects (places pos ms) f"
  using assms
proof (induction ms arbitrary: pos f rule: members_induct)
  case (MCons w1 k w2 w3 v w4 ms)
  define i where "i = pos + length w1"
  define vpos where "vpos = i + length (member_text k w2 w3 v) - length (render v)"
  define nxt where "nxt = i + length (member_text k w2 w3 v) + length w4 + 1"
  have ok: "list_all is_ws w1" "raw_ok k" "list_all is_ws w2" "list_all is_ws w3" "j_ok v" "list_all is_ws w4" "members_ok ms"
    and n: "1 + nesting v \<le> U32_MAX" "nesting_members ms < U32_MAX" using MCons.prems(1,2) by simp_all
  have p: "places pos (MCons w1 k w2 w3 v w4 ms) = (k, v, i, vpos) # places nxt ms"
    by (simp add: i_def vpos_def nxt_def Let_def)
  have lit: "literal v" "list_all (\<lambda>(k, v, _). literal v) (places nxt ms)" using MCons.prems(3) unfolding p by simp_all
  let ?x = "w1 @ member_text k w2 w3 v @ w4" and ?f = "member_effect i k vpos v f"
  have d: "drop pos b = ?x @ render_members ms @ CHR ''}'' # t" using MCons.prems(5) by (simp add: member_text_def)
  obtain c r where cr: "render_members ms @ CHR ''}'' # t = c # r" "c = CHR '','' \<or> c = CHR ''}''" by (cases ms) auto
  have dd: "drop pos b = w1 @ member_text k w2 w3 v @ w4 @ c # r" using d by (simp add: cr(1))
  obtain g where g: "runs b 1 pos ?x f g" "idle g" "reset g = ?f"
    using runs_member [OF dd cr(2) ok(1-6) n(1) lit(1) MCons.prems(6,7) i_def vpos_def] by blast
  have fr: "\<not> limit_value_next f" using reset_fresh [OF MCons.prems(6)] by simp
  show ?case
  proof (cases "ms = MNil")
    case True
    then show ?thesis using g unfolding p by (intro exI [of _ g]) (simp add: effects_def member_text_def)
  next
    case False
    then obtain rm where rm: "render_members ms = CHR '','' # rm" by (cases ms) simp_all
    have nx: "nxt = pos + length (?x @ '','')" by (simp add: nxt_def i_def)
    have dn: "drop nxt b = tl (render_members ms) @ CHR ''}'' # t"
      unfolding nx using d by (intro drop_more) (simp add: rm)
    obtain g' where g': "runs b 1 nxt (tl (render_members ms)) ?f g'" "idle g'" "reset g' = effects (places nxt ms) ?f"
      using MCons.IH [OF ok(7) n(2) lit(2) False dn member_effect_reset member_effect_length [OF MCons.prems(7) fr]] by blast
    have "runs b 1 pos (?x @ '','') f ?f" using runs_append [OF g(1) runs_comma [OF g(2)]] g(3) by simp
    then have "runs b 1 pos ((?x @ '','') @ tl (render_members ms)) f g'" using g'(1) unfolding nx by (rule runs_append)
    moreover have "(?x @ '','') @ tl (render_members ms) = tl (render_members (MCons w1 k w2 w3 v w4 ms))" by (simp add: rm member_text_def)
    ultimately show ?thesis using g' unfolding p by (intro exI [of _ g']) (simp add: effects_def)
  qed
qed simp

end
