(* ===== verification/Buffered_Answer.thy ===== *)
theory Buffered_Answer
  imports Buffered_Scan
begin

text \<open>
  The answer of \<^verbatim>\<open>scan_buffered\<close>, written on the syntax tree of the body, and that the walk gives it.
\<close>

section \<open>The answer on the syntax tree\<close>

type_synonym place = "string \<times> jval \<times> nat \<times> nat"

abbreviation p_val :: "place \<Rightarrow> jval" where "p_val x \<equiv> fst (snd x)"
abbreviation p_at :: "place \<Rightarrow> nat" where "p_at x \<equiv> fst (snd (snd x))"
abbreviation p_value :: "place \<Rightarrow> nat" where "p_value x \<equiv> snd (snd (snd x))"

definition named :: "string \<Rightarrow> place \<Rightarrow> bool" where
  "named want x \<longleftrightarrow> json_text (fst x) = Some want"

definition is_text :: "jval \<Rightarrow> bool" where
  "is_text v \<longleftrightarrow> (case v of JString _ \<Rightarrow> True | _ \<Rightarrow> False)"

definition text_of :: "jval \<Rightarrow> string" where
  "text_of v = (case v of JString raw \<Rightarrow> raw | _ \<Rightarrow> [])"

definition exact_limit :: "jval \<Rightarrow> bool" where
  "exact_limit v \<longleftrightarrow> plain_integer v \<or> v = JScalar ''null''"

definition streams :: "place list \<Rightarrow> bool" where
  "streams l \<longleftrightarrow> (case find (named ''stream'') (rev l) of None \<Rightarrow> False | Some x \<Rightarrow> p_val x = JScalar ''true'')"

definition options_place :: "place list \<Rightarrow> place option" where
  "options_place l = find (\<lambda>x. fst x = ''stream_options'') l"

definition model_place :: "place list \<Rightarrow> place option" where
  "model_place l = find (\<lambda>x. named ''model'' x \<and> is_text (p_val x)) l"

definition options_ambiguous :: "place list \<Rightarrow> bool" where
  "options_ambiguous l \<longleftrightarrow> 1 < length (filter (\<lambda>x. fst x = ''stream_options'') l) \<or>
     list_ex (\<lambda>x. fst x \<noteq> ''stream_options'' \<and> named ''stream_options'' x) l"

definition inexact_limits :: "place list \<Rightarrow> bool" where
  "inexact_limits l \<longleftrightarrow>
     list_ex (\<lambda>key. list_ex (\<lambda>x. named key x \<and> \<not> exact_limit (p_val x)) l \<or> 1 < length (filter (named key) l)) OUTPUT_LIMIT_KEYS"

definition limit_value_spans :: "place list \<Rightarrow> (nat \<times> nat) option list" where
  "limit_value_spans l =
     map (\<lambda>key. map_option (\<lambda>x. (p_value x, p_value x + length (render (p_val x))))
       (find (\<lambda>x. named key x \<and> plain_integer (p_val x)) l)) OUTPUT_LIMIT_KEYS"

definition limit_key_places :: "place list \<Rightarrow> nat option list" where
  "limit_key_places l = map (\<lambda>key. map_option (\<lambda>x. p_at x) (find (named key) l)) OUTPUT_LIMIT_KEYS"

text \<open>What the answer of the scan has to be, of an object that opens at \<open>op\<close>.\<close>

definition buffered_of :: "nat \<Rightarrow> place list \<Rightarrow> buffered_scan" where
  "buffered_of op l =
     \<lparr>bs_model = map_option (\<lambda>x. recorded (text_of (p_val x))) (model_place l),
      inject_at = (if streams l \<and> options_place l = None then Some (op + 1) else None),
      stream_options_at = (if streams l then map_option (\<lambda>x. p_value x) (options_place l) else None),
      bs_model_span = map_option (\<lambda>x. (p_value x + 1, p_value x + 1 + length (text_of (p_val x)))) (model_place l),
      duplicate_model = (1 < length (filter (named ''model'') l)),
      bs_limit_spans = limit_value_spans l, bs_inexact_limit = inexact_limits l, bs_limit_keys = limit_key_places l,
      bs_stream_options_ambiguous = options_ambiguous l\<rparr>"

section \<open>The walk gives that answer\<close>

definition scan_of :: "place list \<Rightarrow> fused" where
  "scan_of l =
     \<lparr>fu_open = OpenNone, fu_expect_key = True, fu_key_is_stream = False, fu_key_is_model = False,
      stream_true = streams l, saw_stream_options = (options_place l \<noteq> None), stream_options_ambiguous = options_ambiguous l,
      stream_options_key_end = (case options_place l of None \<Rightarrow> 0 | Some x \<Rightarrow> p_at x + 1 + length (fst x)),
      fu_model = map_option (\<lambda>x. recorded (text_of (p_val x))) (model_place l),
      fu_model_span = map_option (\<lambda>x. (p_value x + 1, p_value x + 1 + length (text_of (p_val x)))) (model_place l),
      model_keys = min U32_MAX (length (filter (named ''model'') l)), limit_key = None, limit_spans = limit_value_spans l,
      inexact_limit = inexact_limits l, limit_value_next = False, limit_keys = limit_key_places l\<rparr>"

lemma find_snoc: "find P (xs @ [x]) = (case find P xs of Some y \<Rightarrow> Some y | None \<Rightarrow> if P x then Some x else None)"
  by (induction xs) auto

lemma find_filter: "(find P xs = None) = (length (filter P xs) = 0)"
  by (induction xs) auto

lemma value_effect_alt:
  "value_effect p v h = reset (h\<lparr>inexact_limit := inexact_limit h \<or> limit_value_next h \<and> \<not> exact_limit v,
     stream_true := stream_true h \<or> fu_key_is_stream h \<and> v = JScalar ''true'',
     fu_model := (if limit_key h = None \<and> fu_key_is_model h \<and> fu_model h = None \<and> is_text v then Some (recorded (text_of v)) else fu_model h),
     fu_model_span := (if limit_key h = None \<and> fu_key_is_model h \<and> fu_model h = None \<and> is_text v
       then Some (p + 1, p + 1 + length (text_of v)) else fu_model_span h),
     limit_spans := (case limit_key h of
        None \<Rightarrow> limit_spans h
      | Some k \<Rightarrow> if plain_integer v \<and> k < length (limit_spans h) \<and> limit_spans h ! k = None
          then (limit_spans h)[k := Some (p, p + length (render v))] else limit_spans h)\<rparr>)"
proof -
  let ?i = "limit_value_next h \<and> \<not> exact_limit v" and ?s = "fu_key_is_stream h \<and> v = JScalar ''true''"
  have e: "(if limit_value_next h \<and> \<not> (plain_integer v \<or> v = JScalar ''null'') then h\<lparr>inexact_limit := True\<rparr> else h) =
      h\<lparr>inexact_limit := inexact_limit h \<or> ?i\<rparr>"
    by (cases h) (simp add: exact_limit_def, blast)
  have t: "(if fu_key_is_stream f \<and> v = JScalar ''true'' then f\<lparr>stream_true := True\<rparr> else f) =
      f\<lparr>stream_true := stream_true f \<or> fu_key_is_stream f \<and> v = JScalar ''true''\<rparr>" for f
    by (cases f) (simp, blast)
  show ?thesis
    unfolding value_effect_def e t Let_def
    by (cases h; cases "limit_key h"; cases v) (simp_all add: is_text_def text_of_def)
qed

lemma value_effect_fields:
  "fu_open (value_effect p v h) = OpenNone" "fu_expect_key (value_effect p v h)" "\<not> fu_key_is_stream (value_effect p v h)"
  "\<not> fu_key_is_model (value_effect p v h)" "limit_key (value_effect p v h) = None" "\<not> limit_value_next (value_effect p v h)"
  "stream_true (value_effect p v h) \<longleftrightarrow> stream_true h \<or> fu_key_is_stream h \<and> v = JScalar ''true''"
  "saw_stream_options (value_effect p v h) = saw_stream_options h"
  "stream_options_ambiguous (value_effect p v h) = stream_options_ambiguous h"
  "stream_options_key_end (value_effect p v h) = stream_options_key_end h"
  "model_keys (value_effect p v h) = model_keys h" "limit_keys (value_effect p v h) = limit_keys h"
  "inexact_limit (value_effect p v h) \<longleftrightarrow> inexact_limit h \<or> limit_value_next h \<and> \<not> exact_limit v"
  "fu_model (value_effect p v h) =
     (if limit_key h = None \<and> fu_key_is_model h \<and> fu_model h = None \<and> is_text v then Some (recorded (text_of v)) else fu_model h)"
  "fu_model_span (value_effect p v h) =
     (if limit_key h = None \<and> fu_key_is_model h \<and> fu_model h = None \<and> is_text v then Some (p + 1, p + 1 + length (text_of v)) else fu_model_span h)"
  "limit_spans (value_effect p v h) =
     (case limit_key h of
        None \<Rightarrow> limit_spans h
      | Some k \<Rightarrow> if plain_integer v \<and> k < length (limit_spans h) \<and> limit_spans h ! k = None
          then (limit_spans h)[k := Some (p, p + length (render v))] else limit_spans h)"
  by (simp_all add: value_effect_alt reset_def)

lemma limit_lengths: "length (limit_value_spans l) = 3" "length (limit_key_places l) = 3"
  by (simp_all add: limit_value_spans_def limit_key_places_def length_limit_keys)

lemma named_limit: "j < 3 \<Longrightarrow> named (OUTPUT_LIMIT_KEYS ! j) x \<longleftrightarrow> limit_index (fst x) = Some j"
  by (simp add: named_def limit_index_Some)

lemma limit_key_places_snoc:
  "limit_key_places (l @ [x]) =
     (case limit_index (fst x) of
        None \<Rightarrow> limit_key_places l
      | Some j \<Rightarrow> if limit_key_places l ! j = None then (limit_key_places l)[j := Some (p_at x)] else limit_key_places l)"
  (is "_ = ?r")
proof (rule nth_equalityI)
  show "length (limit_key_places (l @ [x])) = length ?r" by (simp add: limit_lengths split: option.split)
  fix j
  assume "j < length (limit_key_places (l @ [x]))"
  then have j: "j < 3" by (simp add: limit_lengths)
  show "limit_key_places (l @ [x]) ! j = ?r ! j"
    using j named_limit [OF j, of x]
    by (cases "limit_index (fst x)")
      (auto simp: limit_key_places_def find_snoc length_limit_keys nth_list_update split: option.split)
qed

lemma limit_value_spans_snoc:
  "limit_value_spans (l @ [x]) =
     (case limit_index (fst x) of
        None \<Rightarrow> limit_value_spans l
      | Some j \<Rightarrow> if plain_integer (p_val x) \<and> j < length (limit_value_spans l) \<and> limit_value_spans l ! j = None
          then (limit_value_spans l)[j := Some (p_value x, p_value x + length (render (p_val x)))] else limit_value_spans l)"
  (is "_ = ?r")
proof (rule nth_equalityI)
  show "length (limit_value_spans (l @ [x])) = length ?r" by (simp add: limit_lengths split: option.split)
  fix j
  assume "j < length (limit_value_spans (l @ [x]))"
  then have j: "j < 3" by (simp add: limit_lengths)
  show "limit_value_spans (l @ [x]) ! j = ?r ! j"
    using j named_limit [OF j, of x]
    by (cases "limit_index (fst x)")
      (auto simp: limit_value_spans_def find_snoc length_limit_keys nth_list_update split: option.split)
qed

lemma inexact_limits_snoc:
  "inexact_limits (l @ [x]) \<longleftrightarrow> inexact_limits l \<or>
     (\<exists>j. limit_index (fst x) = Some j \<and> (limit_key_places l ! j \<noteq> None \<or> \<not> exact_limit (p_val x)))"
proof -
  define bad where "bad = (\<lambda>l key. list_ex (\<lambda>x. named key x \<and> \<not> exact_limit (p_val x)) l \<or> 1 < length (filter (named key) l))"
  have i: "inexact_limits l \<longleftrightarrow> (\<exists>j<3. bad l (OUTPUT_LIMIT_KEYS ! j))" for l
    by (simp add: inexact_limits_def bad_def list_ex_length length_limit_keys)
  have step: "bad (l @ [x]) (OUTPUT_LIMIT_KEYS ! j) \<longleftrightarrow> bad l (OUTPUT_LIMIT_KEYS ! j) \<or>
      limit_index (fst x) = Some j \<and> (limit_key_places l ! j \<noteq> None \<or> \<not> exact_limit (p_val x))" if j: "j < 3" for j
  proof -
    have "limit_key_places l ! j \<noteq> None \<longleftrightarrow> 0 < length (filter (named (OUTPUT_LIMIT_KEYS ! j)) l)"
      using j find_filter [of "named (OUTPUT_LIMIT_KEYS ! j)" l] by (simp add: limit_key_places_def length_limit_keys)
    then show ?thesis using named_limit [OF j, of x] by (auto simp: bad_def)
  qed
  have "limit_index (fst x) = Some j \<Longrightarrow> j < 3" for j by (simp add: limit_index_Some)
  then show ?thesis unfolding i using step by blast
qed

lemma streams_snoc:
  "streams (l @ [x]) \<longleftrightarrow> (if named ''stream'' x then p_val x = JScalar ''true'' else streams l)"
  by (simp add: streams_def)

lemma options_place_snoc:
  "options_place (l @ [x]) = (case options_place l of Some y \<Rightarrow> Some y | None \<Rightarrow> if fst x = ''stream_options'' then Some x else None)"
  by (simp add: options_place_def find_snoc)

lemma options_ambiguous_snoc:
  "options_ambiguous (l @ [x]) \<longleftrightarrow> options_ambiguous l \<or>
     (if fst x = ''stream_options'' then options_place l \<noteq> None else named ''stream_options'' x)"
  using find_filter [of "\<lambda>x. fst x = ''stream_options''" l] by (auto simp: options_ambiguous_def options_place_def)

lemma model_place_snoc:
  "model_place (l @ [x]) = (case model_place l of Some y \<Rightarrow> Some y | None \<Rightarrow> if named ''model'' x \<and> is_text (p_val x) then Some x else None)"
  by (simp add: model_place_def find_snoc)

lemma model_no_limit: "json_text k = Some ''model'' \<Longrightarrow> limit_index k = None"
proof (cases "limit_index k")
  case (Some j)
  assume "json_text k = Some ''model''"
  then have "''model'' = OUTPUT_LIMIT_KEYS ! j" "j < 3" using Some by (simp_all add: limit_index_Some)
  moreover have "''model'' \<notin> set OUTPUT_LIMIT_KEYS" by (simp add: OUTPUT_LIMIT_KEYS_def)
  ultimately show ?thesis using length_limit_keys(1) nth_mem by metis
qed simp

lemma scan_of_fields:
  "stream_true (scan_of l) = streams l" "saw_stream_options (scan_of l) = (options_place l \<noteq> None)"
  "stream_options_ambiguous (scan_of l) = options_ambiguous l"
  "stream_options_key_end (scan_of l) = (case options_place l of None \<Rightarrow> 0 | Some x \<Rightarrow> p_at x + 1 + length (fst x))"
  "fu_model (scan_of l) = map_option (\<lambda>x. recorded (text_of (p_val x))) (model_place l)"
  "fu_model_span (scan_of l) = map_option (\<lambda>x. (p_value x + 1, p_value x + 1 + length (text_of (p_val x)))) (model_place l)"
  "model_keys (scan_of l) = min U32_MAX (length (filter (named ''model'') l))" "limit_spans (scan_of l) = limit_value_spans l"
  "inexact_limit (scan_of l) = inexact_limits l" "limit_keys (scan_of l) = limit_key_places l"
  by (simp_all add: scan_of_def)

lemma scan_of_fresh:
  "fu_open (scan_of l) = OpenNone" "fu_expect_key (scan_of l)" "\<not> fu_key_is_stream (scan_of l)" "\<not> fu_key_is_model (scan_of l)"
  "limit_key (scan_of l) = None" "\<not> limit_value_next (scan_of l)"
  by (simp_all add: scan_of_def)

lemma member_effect_scan:
  "member_effect (p_at x) (fst x) (p_value x) (p_val x) (scan_of l) = scan_of (l @ [x])"
proof -
  have pre: "length (limit_keys (scan_of l)) = 3" "\<not> limit_value_next (scan_of l)" by (simp_all add: scan_of_def limit_lengths)
  note kf = key_effect_fields [OF pre, of "p_at x" "fst x"]
  let ?m = "member_effect (p_at x) (fst x) (p_value x) (p_val x) (scan_of l)" and ?r = "scan_of (l @ [x])"
  have "stream_true ?m = stream_true ?r"
    by (auto simp: member_effect_def value_effect_fields kf scan_of_fields streams_snoc named_def)
  moreover have "saw_stream_options ?m = saw_stream_options ?r"
    by (cases "options_place l") (simp_all add: member_effect_def value_effect_fields kf scan_of_fields options_place_snoc del: not_None_eq)
  moreover have "stream_options_ambiguous ?m = stream_options_ambiguous ?r"
    by (simp add: member_effect_def value_effect_fields kf scan_of_fields options_ambiguous_snoc named_def)
  moreover have "stream_options_key_end ?m = stream_options_key_end ?r"
    by (simp add: member_effect_def value_effect_fields kf scan_of_fields options_place_snoc split: option.split)
  moreover have "model_keys ?m = model_keys ?r"
    by (simp add: member_effect_def value_effect_fields kf scan_of_fields named_def min_def)
  moreover have "limit_spans ?m = limit_spans ?r"
    by (cases "limit_index (fst x)") (simp_all add: member_effect_def value_effect_fields kf scan_of_fields limit_value_spans_snoc)
  moreover have "limit_keys ?m = limit_keys ?r"
    by (cases "limit_index (fst x)") (simp_all add: member_effect_def value_effect_fields kf scan_of_fields limit_key_places_snoc)
  moreover have "inexact_limit ?m = inexact_limit ?r"
    by (auto simp: member_effect_def value_effect_fields kf scan_of_fields inexact_limits_snoc)
  moreover have "fu_model ?m = fu_model ?r" "fu_model_span ?m = fu_model_span ?r"
    using model_no_limit [of "fst x"]
    by (auto simp: member_effect_def value_effect_fields kf scan_of_fields model_place_snoc named_def split: option.split)
  ultimately show ?thesis
    by (intro fused.equality) (simp_all add: member_effect_def value_effect_fields scan_of_fresh)
qed

lemma effects_scan: "effects l (scan_of []) = scan_of l"
proof (induction l rule: rev_induct)
  case (snoc x l)
  have "effects (l @ [x]) (scan_of []) = member_effect (p_at x) (fst x) (p_value x) (p_val x) (effects l (scan_of []))"
    by (simp add: effects_def split: prod.split)
  then show ?case using snoc member_effect_scan by simp
qed (simp add: effects_def)

lemma scan_start: "fst (fused_byte b pos (CHR ''{'') 0 fused_new) = scan_of []"
  by (simp add: fused_byte_def fused_new_def limit_value_def scan_of_def streams_def options_place_def options_ambiguous_def
      model_place_def limit_value_spans_def limit_key_places_def inexact_limits_def OUTPUT_LIMIT_KEYS_def numeral_3_eq_3)

lemma scan_of_reset: "reset (scan_of l) = scan_of l" "length (limit_keys (scan_of l)) = 3"
  by (simp_all add: scan_of_def reset_def limit_lengths)

text \<open>Where the value of a member begins, from the end of its key.\<close>

lemma options_value_place:
  assumes "x \<in> set (places pos ms)" "drop pos b = tl (render_members ms) @ t" "members_ok ms"
  shows "options_value b (p_at x + 1 + length (fst x)) = Some (p_value x)"
  using assms
proof (induction ms arbitrary: pos rule: members_induct)
  case (MCons w1 k w2 w3 v w4 ms)
  define i where "i = pos + length w1"
  define e where "e = i + length (member_text k w2 w3 v)"
  have d: "drop pos b = w1 @ member_text k w2 w3 v @ w4 @ render_members ms @ t" using MCons.prems(2) by (simp add: member_text_def)
  have di: "drop i b = member_text k w2 w3 v @ w4 @ render_members ms @ t" unfolding i_def by (rule drop_more [OF d])
  have ok: "list_all is_ws w2" "list_all is_ws w3" "j_ok v" "members_ok ms" using MCons.prems(3) by simp_all
  consider "x = (k, v, i, e - length (render v))" | "x \<in> set (places (e + length w4 + 1) ms)"
    using MCons.prems(1) by (auto simp: Let_def i_def e_def)
  then show ?case
  proof cases
    case 1
    define j where "j = i + length (quote # k @ [quote])"
    have dj: "drop j b = w2 @ CHR '':'' # w3 @ render v @ w4 @ render_members ms @ t"
      unfolding j_def using di by (intro drop_more) (simp add: member_text_def)
    have sj: "skip_ws b j = j + length w2" by (rule skip_ws_drop [OF dj ok(1)]) (simp add: is_ws_def)
    note dc = drop_more [OF dj]
    note dv = drop_Cons_more [OF dc]
    have sv: "skip_ws b (j + length w2 + 1) = j + length w2 + 1 + length w3"
      using render_not_ws [OF ok(3)] by (intro skip_ws_drop [OF dv ok(2)]) (cases "render v"; simp)
    have "drop (j + length w2 + 1 + length w3) b \<noteq> []" using drop_more [OF dv] render_not_ws [OF ok(3)] by simp
    then have "j + length w2 + 1 + length w3 < length b" by simp
    moreover have "p_at x + 1 + length (fst x) + 1 = j" "p_value x = j + length w2 + 1 + length w3"
      by (simp_all add: 1 j_def e_def member_text_def)
    ultimately show ?thesis using get_byte_drop [OF dc] sj sv by (simp add: options_value_def Let_def)
  next
    case 2
    then obtain rm where rm: "render_members ms = CHR '','' # rm" by (cases ms) simp_all
    have "drop (e + length w4 + 1) b = tl (render_members ms) @ t"
      using drop_more [of i b "member_text k w2 w3 v @ w4 @ '',''"] di by (simp add: rm e_def add.assoc)
    then show ?thesis by (intro MCons.IH [OF 2 _ ok(4)])
  qed
qed simp

lemma idle_close: "\<not> limit_value_next g \<Longrightarrow> fst (fused_byte b pos (CHR ''}'') 1 g) = g"
  by (simp add: fused_byte_def limit_value_def is_ascii_digit_def Let_def)

lemma scan_walk:
  assumes ok: "j_ok (JObject w ms)" "nesting (JObject w ms) \<le> U32_MAX" "list_all is_ws w0" "list_all is_ws w1"
    and lit: "list_all (\<lambda>x. literal (p_val x)) (places (length w0 + 1) ms)" and b: "b = w0 @ render (JObject w ms) @ w1"
  shows "\<exists>g. fst (snd (feed (fused_visitor b) b lexer_new fused_new)) = g \<and> reset g = scan_of (places (length w0 + 1) ms)"
proof -
  define inner where "inner = (if ms = MNil then w else tl (render_members ms))"
  have b': "b = w0 @ CHR ''{'' # inner @ CHR ''}'' # w1" by (simp add: b inner_def)
  have d: "drop (length w0 + 1) b = inner @ CHR ''}'' # w1" by (simp add: b')
  have "\<exists>g. runs b 1 (length w0 + 1) inner (scan_of []) g \<and> \<not> limit_value_next g \<and> reset g = scan_of (places (length w0 + 1) ms)"
  proof (cases "ms = MNil")
    case True
    then show ?thesis using ok(1) runs_ws [of w] by (intro exI [of _ "scan_of []"]) (simp add: inner_def scan_of_reset scan_of_fresh)
  next
    case False
    have l: "list_all (\<lambda>(k, v, _). literal v) (places (length w0 + 1) ms)" using lit by (simp add: case_prod_unfold)
    have "drop (length w0 + 1) b = tl (render_members ms) @ CHR ''}'' # w1" using d False by (simp add: inner_def)
    from runs_members [OF _ _ l False this scan_of_reset] ok(1,2) obtain g where
      "runs b 1 (length w0 + 1) (tl (render_members ms)) (scan_of []) g" "idle g" "reset g = effects (places (length w0 + 1) ms) (scan_of [])"
      by auto
    then show ?thesis using False effects_scan by (intro exI [of _ g]) (simp add: inner_def idle_def)
  qed
  then obtain g where g: "runs b 1 (length w0 + 1) inner (scan_of []) g" "\<not> limit_value_next g" "reset g = scan_of (places (length w0 + 1) ms)"
    by blast
  have "lex_bytes (fused_visitor b) 0 (w0 @ CHR ''{'' # inner @ CHR ''}'' # w1) lexer_new fused_new =
      lex_bytes (fused_visitor b) (length w0 + 1) (inner @ CHR ''}'' # w1) \<lparr>lx_depth = 1, lx_state = Outside\<rparr> (scan_of [])"
    using runs_ws [OF ok(3), of b 0 0 fused_new] unfolding runs_def lexer_new_def by (simp add: fused_lex1 depth_after_def scan_start)
  also have "\<dots> = lex_bytes (fused_visitor b) (length w0 + 1 + length inner) (CHR ''}'' # w1) \<lparr>lx_depth = 1, lx_state = Outside\<rparr> g"
    using g(1) by (simp add: runs_def)
  also have "\<dots> = lex_bytes (fused_visitor b) (length w0 + 1 + length inner + 1) (w1 @ []) \<lparr>lx_depth = 0, lx_state = Outside\<rparr> g"
    by (simp add: fused_lex1 depth_after_def idle_close [OF g(2), unfolded One_nat_def])
  also have "\<dots> = (\<lparr>lx_depth = 0, lx_state = Outside\<rparr>, g, None)"
    using runs_ws [OF ok(4), of b 0 "length w0 + 1 + length inner + 1" g] unfolding runs_def by (metis lex_bytes.simps(1))
  finally show ?thesis using g(3) unfolding fused.feed_bytes by (simp add: b' [symmetric])
qed

lemma reset_eqD:
  assumes "reset g = scan_of l"
  shows "stream_true g = streams l" "saw_stream_options g = (options_place l \<noteq> None)" "stream_options_ambiguous g = options_ambiguous l"
    "stream_options_key_end g = (case options_place l of None \<Rightarrow> 0 | Some x \<Rightarrow> p_at x + 1 + length (fst x))"
    "fu_model g = map_option (\<lambda>x. recorded (text_of (p_val x))) (model_place l)"
    "fu_model_span g = map_option (\<lambda>x. (p_value x + 1, p_value x + 1 + length (text_of (p_val x)))) (model_place l)"
    "model_keys g = min U32_MAX (length (filter (named ''model'') l))" "limit_spans g = limit_value_spans l"
    "inexact_limit g = inexact_limits l" "limit_keys g = limit_key_places l"
  using scan_of_fields [of l] unfolding assms [symmetric] by (simp_all add: reset_def)

lemma scan_buffered_of:
  assumes ok: "j_ok (JObject w ms)" "nesting (JObject w ms) \<le> U32_MAX" "list_all is_ws w0" "list_all is_ws w1"
    and lit: "list_all (\<lambda>x. literal (p_val x)) (places (length w0 + 1) ms)"
  shows "scan_buffered (w0 @ render (JObject w ms) @ w1) = buffered_of (length w0) (places (length w0 + 1) ms)"
proof -
  define b where "b = w0 @ render (JObject w ms) @ w1"
  let ?l = "places (length w0 + 1) ms"
  obtain g where g: "fst (snd (feed (fused_visitor b) b lexer_new fused_new)) = g" "reset g = scan_of ?l"
    using scan_walk [OF ok lit b_def] by blast
  have ro: "root_open b = Some (length w0)" unfolding b_def by (rule root_members_drop(2) [OF ok(1-3)])
  have ov: "options_value b (p_at x + 1 + length (fst x)) = Some (p_value x)" if "options_place ?l = Some x" for x
  proof -
    have x: "x \<in> set ?l" using that unfolding options_place_def find_Some_iff by (metis nth_mem)
    then have "ms \<noteq> MNil" by auto
    then have "drop (length w0 + 1) b = tl (render_members ms) @ CHR ''}'' # w1" by (simp add: b_def)
    then show ?thesis using ok(1) by (intro options_value_place [OF x]) simp_all
  qed
  show ?thesis
    unfolding b_def [symmetric] scan_buffered_def ro option.case g(1) Let_def reset_eqD [OF g(2)] buffered_of_def
    using ov by (cases "options_place ?l") (simp_all del: not_None_eq)
qed

lemma model_place_firsts: "map_option (\<lambda>x. text_of (p_val x)) (model_place (places pos ms)) = firsts plain_model ms"
proof (induction ms arbitrary: pos rule: members_induct)
  case (MCons w1 k w2 w3 v w4 ms)
  then show ?case by (cases v) (auto simp: model_place_def Let_def named_def is_text_def text_of_def plain_model_def)
qed (simp add: model_place_def)

lemma member_model_False: "member_model False k v = plain_model k v"
  by (cases v) (simp_all add: member_model_def plain_model_def)

lemma body_model_place: "body_model False (JObject w ms) = map_option (\<lambda>x. text_of (p_val x)) (model_place (places pos ms))"
proof -
  have "member_model False = plain_model" using member_model_False by blast
  then show ?thesis by (simp add: body_model_def model_place_firsts)
qed

section \<open>What the scan answers\<close>

text \<open>
  C9. The one walk over a buffered body answers what the syntax tree says, in every field: the model and the span of its
  value are those of the first root \<open>model\<close> that is a string; it is a duplicate when two root keys decode to \<open>model\<close>; the
  usage option is injected just past the root's brace exactly when the last root \<open>stream\<close> is true and no
  \<open>stream_options\<close> stands at the root, and where one stands its value's first byte is given; the limits are spanned
  at their first plain integer, and flagged when one is neither a plain integer nor null or is repeated.
\<close>

theorem scan_buffered_exact:
  assumes "j_ok (JObject w ms)" and "nesting (JObject w ms) \<le> U32_MAX" and "list_all is_ws w0" and "list_all is_ws w1"
    and "list_all (\<lambda>x. literal (p_val x)) (places (length w0 + 1) ms)"
  shows "scan_buffered (w0 @ render (JObject w ms) @ w1) = buffered_of (length w0) (places (length w0 + 1) ms)"
  using assms by (rule scan_buffered_of)

definition streamed_demo :: jmembers where
  "streamed_demo = MCons [] ''stream'' [] [] (JScalar ''true'') [] (MCons '' '' ''max_tokens'' [] [] (JScalar ''10'') []
     (MCons [] ''model'' [] '' '' (JString ''gpt'') [] MNil))"

theorem scan_buffered_exact_witness:
  "scan_buffered ([] @ render (JObject [] streamed_demo) @ []) =
     \<lparr>bs_model = Some ''gpt'', inject_at = Some 1, stream_options_at = None, bs_model_span = Some (42, 45), duplicate_model = False,
      bs_limit_spans = [Some (29, 31), None, None], bs_inexact_limit = False, bs_limit_keys = [Some 16, None, None],
      bs_stream_options_ambiguous = False\<rparr>"
proof -
  have t: "json_text ''stream'' = Some ''stream''" "json_text ''max_tokens'' = Some ''max_tokens''" "json_text ''model'' = Some ''model''"
    by (auto simp: json_text_def intro!: from_utf8_ascii)
  have "scan_buffered ([] @ render (JObject [] streamed_demo) @ []) = buffered_of 0 (places (0 + 1) streamed_demo)"
    by (rule scan_buffered_exact [where ?w0.0 = "[]" and ?w1.0 = "[]", unfolded list.size])
      (simp_all add: streamed_demo_def is_ws_def scalar_ok_def structural_def literal_def number_def is_ascii_digit_def member_text_def)
  also have "\<dots> = \<lparr>bs_model = Some ''gpt'', inject_at = Some 1, stream_options_at = None, bs_model_span = Some (42, 45), duplicate_model = False,
      bs_limit_spans = [Some (29, 31), None, None], bs_inexact_limit = False, bs_limit_keys = [Some 16, None, None],
      bs_stream_options_ambiguous = False\<rparr>"
    by (simp add: streamed_demo_def buffered_of_def member_text_def model_place_def named_def t is_text_def text_of_def streams_def options_place_def
        limit_value_spans_def limit_key_places_def inexact_limits_def options_ambiguous_def OUTPUT_LIMIT_KEYS_def plain_integer_def
        exact_limit_def is_ascii_digit_def recorded_def MAX_CAPTURE_def json_text_def from_utf8_def)
  finally show ?thesis .
qed

text \<open>
  C10. The buffered walk and the streaming scanner name the same model: on any well-formed object, whatever chunks the
  streaming scanner is fed, so that a request is metered under the same model whether or not its body is buffered.
\<close>

theorem buffered_and_streamed_model_agree:
  assumes "j_ok (JObject w ms)" and "nesting (JObject w ms) \<le> U32_MAX" and "list_all is_ws w0" and "list_all is_ws w1"
    and "list_all (\<lambda>x. literal (p_val x)) (places (length w0 + 1) ms)" and "concat chunks = w0 @ render (JObject w ms) @ w1"
  shows "bs_model (scan_buffered (concat chunks)) = fst (take_model (fold scanner_feed chunks scanner_new))"
proof -
  have "fst (take_model (fold scanner_feed chunks scanner_new)) = map_option recorded (body_model False (JObject w ms))"
    using scan_body [OF disjI1 [OF refl] assms(1-4)] by (simp add: take_model_def scanner_feed_chunks assms(6)) (simp add: scanner_new_def)
  then show ?thesis
    unfolding assms(6) scan_buffered_of [OF assms(1-5)] body_model_place [of w ms "length w0 + 1"]
    by (simp add: buffered_of_def option.map_comp comp_def)
qed

theorem buffered_and_streamed_model_agree_witness:
  "bs_model (scan_buffered (concat [take 20 (render (JObject [] streamed_demo)), drop 20 (render (JObject [] streamed_demo))])) =
   fst (take_model (fold scanner_feed [take 20 (render (JObject [] streamed_demo)), drop 20 (render (JObject [] streamed_demo))] scanner_new))"
  by (rule buffered_and_streamed_model_agree [where w = "[]" and ms = streamed_demo and ?w0.0 = "[]" and ?w1.0 = "[]"])
    (simp_all add: streamed_demo_def is_ws_def scalar_ok_def structural_def literal_def number_def is_ascii_digit_def member_text_def)

end
