(* ===== verification/Body_Rewrite.thy ===== *)
theory Body_Rewrite
  imports Json_Edit Buffered_Answer "HOL-Library.AList"
begin

text \<open>
  The outgoing body's byte edits, \<^verbatim>\<open>gateway/src/rewrite.rs\<close>: a body owns the scan of its bytes, and every edit moves
  the offsets of the scan by what it did to the bytes. The JSON library that reads and writes the value of
  \<open>stream_options\<close> is a parameter.
\<close>

section \<open>Splices\<close>

definition STREAM_OPTIONS_FRAG :: string where
  "STREAM_OPTIONS_FRAG = [quote] @ ''stream_options'' @ [quote] @ '':{'' @ [quote] @ ''include_usage'' @ [quote] @ '':true},''"

record splice =
  sp_at :: nat
  sp_removed :: nat
  sp_added :: nat

definition splice_point :: "splice \<Rightarrow> nat \<Rightarrow> nat option" where
  "splice_point s p =
     (let e = sp_at s + sp_removed s in
      if p < sp_at s \<or> p = sp_at s \<and> 0 < sp_removed s then Some p
      else if p < e then None
      else if p < sp_removed s then None else Some (p - sp_removed s + sp_added s))"

definition splice_shift :: "splice \<Rightarrow> nat \<Rightarrow> nat option" where
  "splice_shift s i = (if i + sp_added s < sp_removed s then None else Some (i + sp_added s - sp_removed s))"

definition shift_span :: "splice \<Rightarrow> nat \<times> nat \<Rightarrow> (nat \<times> nat) option" where
  "shift_span s r =
     (case splice_shift s (fst r) of
        None \<Rightarrow> None
      | Some a \<Rightarrow> (case splice_shift s (snd r) of None \<Rightarrow> None | Some b \<Rightarrow> Some (a, b)))"

definition splice_span :: "splice \<Rightarrow> nat \<times> nat \<Rightarrow> (nat \<times> nat) option" where
  "splice_span s r =
     (let e = sp_at s + sp_removed s in
      if r = (sp_at s, e) then Some (sp_at s, sp_at s + sp_added s)
      else if snd r \<le> sp_at s then Some r
      else if e \<le> fst r then shift_span s r
      else if sp_at s < fst r then shift_span s r
      else Some r)"

definition splice_in :: "string \<Rightarrow> nat \<times> nat \<Rightarrow> string \<Rightarrow> (string \<times> splice) option" where
  "splice_in buf r w =
     (if snd r < fst r \<or> length buf < snd r then None
      else Some (take (fst r) buf @ w @ drop (snd r) buf,
        \<lparr>sp_at = fst r, sp_removed = snd r - fst r, sp_added = length w\<rparr>))"

section \<open>A body with its scan\<close>

record scanned_body =
  sb_buf :: string
  sb_scan :: buffered_scan

definition sb_new :: "string \<Rightarrow> scanned_body" where
  "sb_new buf = \<lparr>sb_buf = buf, sb_scan = scan_buffered buf\<rparr>"

definition opt_bind :: "'a option \<Rightarrow> ('a \<Rightarrow> 'b option) \<Rightarrow> 'b option" where
  "opt_bind x f = (case x of None \<Rightarrow> None | Some a \<Rightarrow> f a)"

definition moved_scan :: "splice \<Rightarrow> buffered_scan \<Rightarrow> buffered_scan" where
  "moved_scan s c =
     c\<lparr>inject_at := opt_bind (inject_at c) (splice_point s), stream_options_at := opt_bind (stream_options_at c) (splice_point s),
       bs_model_span := opt_bind (bs_model_span c) (splice_span s),
       bs_limit_spans := map (\<lambda>r. opt_bind r (splice_span s)) (bs_limit_spans c),
       bs_limit_keys := map (\<lambda>p. opt_bind p (splice_point s)) (bs_limit_keys c)\<rparr>"

text \<open>An edit of the bytes, with the offsets moved when it was one.\<close>

definition moved :: "scanned_body \<Rightarrow> (string \<times> splice) option \<Rightarrow> scanned_body" where
  "moved sb r = (case r of None \<Rightarrow> sb | Some (buf, s) \<Rightarrow> \<lparr>sb_buf = buf, sb_scan = moved_scan s (sb_scan sb)\<rparr>)"

definition clamp_limit :: "string \<Rightarrow> nat \<times> nat \<Rightarrow> nat \<Rightarrow> (string \<times> splice) option" where
  "clamp_limit buf r mx =
     (case get_range buf (fst r) (snd r) of
        None \<Rightarrow> None
      | Some digits \<Rightarrow>
          let over = (case opt_bind (from_utf8 digits) (parse_uint U64_MAX) of None \<Rightarrow> True | Some n \<Rightarrow> mx < n) in
          if \<not> over then None else splice_in buf r (show_nat mx))"

definition clamp_one :: "nat \<Rightarrow> nat \<Rightarrow> scanned_body \<Rightarrow> scanned_body" where
  "clamp_one mx k sb =
     (case (if k < length (bs_limit_spans (sb_scan sb)) then bs_limit_spans (sb_scan sb) ! k else None) of
        None \<Rightarrow> sb
      | Some r \<Rightarrow> moved sb (clamp_limit (sb_buf sb) r mx))"

definition clamp_output_limits :: "nat \<Rightarrow> scanned_body \<Rightarrow> scanned_body" where
  "clamp_output_limits mx sb = (if mx = 0 then sb else fold (clamp_one mx) [0..<length OUTPUT_LIMIT_KEYS] sb)"

definition overwrite :: "string \<Rightarrow> nat \<times> nat \<Rightarrow> string \<Rightarrow> (string \<times> splice) option" where
  "overwrite buf r i =
     (case get_range buf (fst r) (snd r) of None \<Rightarrow> None | Some old \<Rightarrow> if old = i then None else splice_in buf r i)"

text \<open>What the JSON library reads: a value, and how many bytes it took.\<close>

datatype svalue = SNull | SBool bool | SNumber string | SString string | SArray "svalue list" | SObject "(string \<times> svalue) list"

definition usage_options :: "svalue \<Rightarrow> (string \<times> svalue) list option" where
  "usage_options v =
     (case v of
        SObject m \<Rightarrow> if map_of m ''include_usage'' = Some (SBool True) then None else Some (AList.update ''include_usage'' (SBool True) m)
      | _ \<Rightarrow> Some (AList.update ''include_usage'' (SBool True) []))"

definition force_include_usage ::
  "(string \<Rightarrow> (svalue \<times> nat) option) \<Rightarrow> ((string \<times> svalue) list \<Rightarrow> string option) \<Rightarrow> string \<Rightarrow> nat \<Rightarrow> (string \<times> splice) option" where
  "force_include_usage read_value to_vec buf pos =
     (if length buf < pos then None
      else case read_value (drop pos buf) of
        None \<Rightarrow> None
      | Some (v, n) \<Rightarrow>
          (case usage_options v of
             None \<Rightarrow> None
           | Some options \<Rightarrow> (case to_vec options of None \<Rightarrow> None | Some replacement \<Rightarrow> splice_in buf (pos, pos + n) replacement)))"

definition inject_stream_options :: "string \<Rightarrow> nat \<Rightarrow> string" where
  "inject_stream_options buf pos =
     (let n = length STREAM_OPTIONS_FRAG; old = length buf; dest = pos + n in
      if old < pos then buf
      else
        let buf = buf @ replicate n (CHR 0x00); buf = copy_within buf pos old dest in
        take pos buf @ STREAM_OPTIONS_FRAG @ drop dest buf)"

definition settle_ambiguous :: "bool \<Rightarrow> scanned_body \<Rightarrow> scanned_body" where
  "settle_ambiguous stream_usage sb =
     (if stream_usage \<and> bs_stream_options_ambiguous (sb_scan sb) then
        case remove_root_members (sb_buf sb) ''stream_options'' of (buf, changed) \<Rightarrow> if changed then sb_new buf else sb\<lparr>sb_buf := buf\<rparr>
      else sb)"

definition into_upstream ::
  "(string \<Rightarrow> (svalue \<times> nat) option) \<Rightarrow> ((string \<times> svalue) list \<Rightarrow> string option) \<Rightarrow> scanned_body \<Rightarrow> bool \<Rightarrow> string option \<Rightarrow> string" where
  "into_upstream read_value to_vec sb stream_usage model =
     (let sb = settle_ambiguous stream_usage sb;
          sb = (case (if stream_usage then stream_options_at (sb_scan sb) else None) of
                  None \<Rightarrow> sb
                | Some pos \<Rightarrow> moved sb (force_include_usage read_value to_vec (sb_buf sb) pos));
          sb = (case model of
                  None \<Rightarrow> sb
                | Some i \<Rightarrow> (case bs_model_span (sb_scan sb) of None \<Rightarrow> sb | Some r \<Rightarrow> moved sb (overwrite (sb_buf sb) r i)))
      in case (if stream_usage then inject_at (sb_scan sb) else None) of
           None \<Rightarrow> sb_buf sb
         | Some pos \<Rightarrow> inject_stream_options (sb_buf sb) pos)"

section \<open>Edits the scan cannot follow\<close>

definition body_take_model :: "scanned_body \<Rightarrow> string option \<times> scanned_body" where
  "body_take_model sb = (bs_model (sb_scan sb), sb\<lparr>sb_scan := (sb_scan sb)\<lparr>bs_model := None\<rparr>\<rparr>)"

definition edit_map :: "(string \<Rightarrow> string) \<Rightarrow> scanned_body \<Rightarrow> scanned_body" where
  "edit_map f e = e\<lparr>sb_buf := f (sb_buf e)\<rparr>"

definition edit_finish :: "bool \<Rightarrow> scanned_body \<Rightarrow> scanned_body" where
  "edit_finish changed e = (if changed then sb_new (sb_buf e) else e)"

definition MAX_TOKENS_KEY :: string where
  "MAX_TOKENS_KEY = [quote] @ ''max_tokens'' @ [quote]"

text \<open>The range of a member and one adjacent comma, from its key's quote and its value's end.\<close>

definition rposition_not_ws :: "string \<Rightarrow> nat option" where
  "rposition_not_ws s = (case dropWhile is_ws (rev s) of [] \<Rightarrow> None | _ # rest \<Rightarrow> Some (length rest))"

definition member_range :: "string \<Rightarrow> nat \<Rightarrow> nat \<Rightarrow> nat \<times> nat" where
  "member_range body pos e =
     (let after = skip_ws body e in
      if get_byte body after = Some (CHR '','') then (pos, after + 1)
      else
        let prior = take pos body in
        case rposition_not_ws prior of
          None \<Rightarrow> (pos, e)
        | Some comma \<Rightarrow> if get_byte prior comma = Some (CHR '','') then (comma, e) else (pos, e))"

definition splice_done :: "string \<Rightarrow> (string \<times> splice) option \<Rightarrow> string \<times> bool" where
  "splice_done body r = (case r of None \<Rightarrow> (body, False) | Some (b, _) \<Rightarrow> (b, True))"

definition rename_max_tokens_in :: "(string \<Rightarrow> nat option) \<Rightarrow> string \<Rightarrow> nat option list \<Rightarrow> string \<times> bool" where
  "rename_max_tokens_in skip_value body keys =
     (case keys of
        Some pos # second # _ \<Rightarrow>
          let key_end = pos + length MAX_TOKENS_KEY in
          if get_range body pos key_end \<noteq> Some MAX_TOKENS_KEY then (body, False)
          else if second = None then splice_done body (splice_in body (pos + 1, key_end - 1) ''max_completion_tokens'')
          else
            let colon = skip_ws body key_end in
            if get_byte body colon \<noteq> Some (CHR '':'') then (body, False)
            else
              let val = skip_ws body (colon + 1) in
              if length body < val then (body, False)
              else
                (case skip_value (drop val body) of
                   None \<Rightarrow> (body, False)
                 | Some n \<Rightarrow> splice_done body (splice_in body (member_range body pos (val + n)) []))
      | _ \<Rightarrow> (body, False))"

definition rename_max_tokens :: "(string \<Rightarrow> nat option) \<Rightarrow> scanned_body \<Rightarrow> scanned_body" where
  "rename_max_tokens skip_value sb =
     (case rename_max_tokens_in skip_value (sb_buf sb) (bs_limit_keys (sb_scan sb)) of
        (buf, changed) \<Rightarrow> if changed then sb_new buf else sb\<lparr>sb_buf := buf\<rparr>)"

section \<open>Replacing a member's value\<close>

primrec set_val :: "jmembers \<Rightarrow> nat \<Rightarrow> jval \<Rightarrow> jmembers" where
  "set_val MNil n v' = MNil"
| "set_val (MCons w1 k w2 w3 v w4 ms) n v' =
     (case n of 0 \<Rightarrow> MCons w1 k w2 w3 v' w4 ms | Suc n \<Rightarrow> MCons w1 k w2 w3 v w4 (set_val ms n v'))"

definition place_up :: "nat \<Rightarrow> place \<Rightarrow> place" where
  "place_up d x = (fst x, p_val x, p_at x + d, p_value x + d)"

lemma place_up_simps [simp]: "fst (place_up d x) = fst x" "p_val (place_up d x) = p_val x" "p_at (place_up d x) = p_at x + d" "p_value (place_up d x) = p_value x + d"
  by (simp_all add: place_up_def)

lemma length_places [simp]: "length (places pos ms) = length (kvs ms)"
  by (induction ms arbitrary: pos rule: members_induct) (simp_all add: Let_def)

lemma places_kvs: "map (\<lambda>x. (fst x, p_val x)) (places pos ms) = kvs ms"
  by (induction ms arbitrary: pos rule: members_induct) (simp_all add: Let_def)

lemma places_shift: "places (pos + d) ms = map (place_up d) (places pos ms)"
proof (induction ms arbitrary: pos rule: members_induct)
  case (MCons w1 k w2 w3 v w4 ms)
  show ?case using MCons [of "pos + length w1 + length (member_text k w2 w3 v) + length w4 + 1"]
    by (simp add: Let_def place_up_def member_text_def ac_simps)
qed simp

lemma places_after: "y \<in> set (places pos ms) \<Longrightarrow> pos \<le> p_at y \<and> p_at y < p_value y"
  by (induction ms arbitrary: pos rule: members_induct) (fastforce simp: Let_def member_text_def)+

lemma kvs_set_val: "kvs (set_val ms n v') = (kvs ms)[n := (fst (kvs ms ! n), v')]"
  by (induction ms arbitrary: n rule: members_induct) (auto split: nat.split)

lemma set_val_MNil [simp]: "set_val ms n v' = MNil \<longleftrightarrow> ms = MNil"
  by (cases ms) (auto split: nat.split)

lemma set_val_ok: "members_ok ms \<Longrightarrow> j_ok v' \<Longrightarrow> members_ok (set_val ms n v')"
  by (induction ms arbitrary: n rule: members_induct) (auto split: nat.split)

lemma set_val_nesting: "nesting_members (set_val ms n v') \<le> max (nesting v') (nesting_members ms)"
proof (induction ms arbitrary: n rule: members_induct)
  case (MCons w1 k w2 w3 v w4 ms)
  show ?case using MCons [of "n - 1"] by (cases n) (auto simp: le_max_iff_disj)
qed simp

lemma set_val_same: "n < length (kvs ms) \<Longrightarrow> set_val ms n (snd (kvs ms ! n)) = ms"
proof (induction ms arbitrary: n rule: members_induct)
  case (MCons w1 k w2 w3 v w4 ms)
  then show ?case by (cases n) simp_all
qed simp

text \<open>Where the value stands, what is around it in the text, and where the other members stand.\<close>

definition value_tail :: "jmembers \<Rightarrow> string \<Rightarrow> bool" where
  "value_tail ms Z \<longleftrightarrow> (\<exists>u ms'. Z = u @ render_members ms' \<and> (members_ok ms \<longrightarrow> list_all is_ws u))"

lemma value_tail_hd: "value_tail (MCons w1 k w2 w3 v w4 ms) (w4 @ render_members ms)"
  unfolding value_tail_def by (intro exI conjI, rule refl) simp

lemma value_tail_tl: "value_tail ms Z \<Longrightarrow> value_tail (MCons w1 k w2 w3 v w4 ms) Z"
  unfolding value_tail_def by auto

definition value_at :: "nat \<Rightarrow> jmembers \<Rightarrow> nat \<Rightarrow> place list \<Rightarrow> place \<Rightarrow> place list \<Rightarrow> string \<Rightarrow> string \<Rightarrow> bool" where
  "value_at pos ms n l1 x l0 A Z \<longleftrightarrow>
     length l1 = n \<and> kvs ms ! n = (fst x, p_val x) \<and> p_value x = pos + length A \<and> p_at x < p_value x \<and>
     (\<forall>y \<in> set l1. p_value y + length (render (p_val y)) \<le> p_at x \<and> p_at y < p_value y) \<and>
     (\<forall>y \<in> set l0. p_value x \<le> p_at y \<and> p_at y < p_value y) \<and>
     value_tail ms Z \<and>
     (\<forall>v'. places pos (set_val ms n v') = l1 @ (fst x, v', p_at x, p_value x) # map (place_up (length (render v'))) l0 \<and>
        tl (render_members (set_val ms n v')) = A @ render v' @ Z)"

lemma value_at_ex: "n < length (kvs ms) \<Longrightarrow> \<exists>l1 x l0 A Z. value_at pos ms n l1 x l0 A Z"
proof (induction ms arbitrary: n pos rule: members_induct)
  case (MCons w1 k w2 w3 v w4 ms)
  define i where "i = pos + length w1"
  define A0 where "A0 = w1 @ quote # k @ quote # w2 @ CHR '':'' # w3"
  have im: "i + length (member_text k w2 w3 u) = pos + length A0 + length (render u)" for u
    by (simp add: i_def A0_def member_text_def)
  have i: "i < pos + length A0" by (simp add: i_def A0_def)
  show ?case
  proof (cases n)
    case 0
    define l0 where "l0 = places (pos + length A0 + length w4 + 1) ms"
    have "places pos (MCons w1 k w2 w3 u w4 ms) = (k, u, i, pos + length A0) # map (place_up (length (render u))) l0" for u
    proof -
      have "pos + length A0 + length (render u) + length w4 + 1 = (pos + length A0 + length w4 + 1) + length (render u)" by simp
      then have "places (pos + length A0 + length (render u) + length w4 + 1) ms = map (place_up (length (render u))) l0"
        unfolding l0_def by (metis places_shift)
      then show ?thesis by (simp only: places.simps Let_def i_def [symmetric] im diff_add_inverse2)
    qed
    moreover have "p_value (k, v, i, pos + length A0) \<le> p_at y \<and> p_at y < p_value y" if "y \<in> set l0" for y
      using places_after [of y "pos + length A0 + length w4 + 1" ms] that by (simp add: l0_def)
    ultimately have "value_at pos (MCons w1 k w2 w3 v w4 ms) 0 [] (k, v, i, pos + length A0) l0 A0 (w4 @ render_members ms)"
      using i value_tail_hd by (simp add: value_at_def A0_def)
    then show ?thesis using 0 by blast
  next
    case (Suc m)
    define nxt where "nxt = i + length (member_text k w2 w3 v) + length w4 + 1"
    obtain l1 x l0 A Z where v: "value_at nxt ms m l1 x l0 A Z" using MCons.IH [of m nxt] MCons.prems Suc by auto
    let ?y = "(k, v, i, i + length (member_text k w2 w3 v) - length (render v))"
    let ?B = "w1 @ member_text k w2 w3 v @ w4 @ '',''"
    have ne: "ms \<noteq> MNil" using MCons.prems Suc by auto
    have r: "render_members (set_val ms m u) = CHR '','' # tl (render_members (set_val ms m u))" for u
      using ne set_val_MNil [of ms m u] by (cases "set_val ms m u") simp_all
    have nx: "nxt = pos + length ?B" by (simp add: nxt_def i_def)
    have px: "nxt \<le> p_at x"
    proof -
      have "places nxt (set_val ms m (p_val x)) = l1 @ (fst x, p_val x, p_at x, p_value x) # map (place_up (length (render (p_val x)))) l0"
        using v unfolding value_at_def by blast
      then have "(fst x, p_val x, p_at x, p_value x) \<in> set (places nxt (set_val ms m (p_val x)))" by simp
      from places_after [OF this] show ?thesis by simp
    qed
    have "value_at pos (MCons w1 k w2 w3 v w4 ms) (Suc m) (?y # l1) x l0 (?B @ A) Z"
      unfolding value_at_def
    proof (intro conjI allI ballI)
      fix u
      show "places pos (set_val (MCons w1 k w2 w3 v w4 ms) (Suc m) u) =
          (?y # l1) @ (fst x, u, p_at x, p_value x) # map (place_up (length (render u))) l0"
      proof -
        have "places pos (set_val (MCons w1 k w2 w3 v w4 ms) (Suc m) u) = ?y # places nxt (set_val ms m u)"
          by (simp add: Let_def i_def nxt_def)
        moreover have "places nxt (set_val ms m u) = l1 @ (fst x, u, p_at x, p_value x) # map (place_up (length (render u))) l0"
          using v unfolding value_at_def by blast
        ultimately show ?thesis by (metis append_Cons)
      qed
      show "tl (render_members (set_val (MCons w1 k w2 w3 v w4 ms) (Suc m) u)) = (?B @ A) @ render u @ Z"
        using v r [of u] by (simp add: value_at_def member_text_def)
    qed (use v px nx value_tail_tl in \<open>auto simp: value_at_def member_text_def nxt_def i_def\<close>)
    then show ?thesis using Suc by blast
  qed
qed simp

lemma value_at_places: "value_at pos ms n l1 x l0 A Z \<Longrightarrow> n < length (kvs ms) \<Longrightarrow>
    places pos ms = l1 @ x # map (place_up (length (render (p_val x)))) l0 \<and> tl (render_members ms) = A @ render (p_val x) @ Z"
proof -
  assume v: "value_at pos ms n l1 x l0 A Z" and n: "n < length (kvs ms)"
  have "set_val ms n (snd (kvs ms ! n)) = ms" by (rule set_val_same [OF n])
  then show ?thesis using v by (simp add: value_at_def) (metis prod.collapse snd_conv)
qed

section \<open>The offsets follow the bytes\<close>

definition same_class :: "place \<Rightarrow> place \<Rightarrow> bool" where
  "same_class x y \<longleftrightarrow> fst x = fst y \<and>
     (p_val x = p_val y \<or> plain_integer (p_val x) \<and> plain_integer (p_val y) \<or> fst x = ''stream_options'')"

definition moves :: "splice \<Rightarrow> place \<Rightarrow> place \<Rightarrow> bool" where
  "moves s x y \<longleftrightarrow> same_class x y \<and>
     splice_point s (p_at x) = Some (p_at y) \<and> splice_point s (p_value x) = Some (p_value y) \<and>
     splice_span s (p_value x, p_value x + length (render (p_val x))) = Some (p_value y, p_value y + length (render (p_val y))) \<and>
     (p_val x = p_val y \<longrightarrow> is_text (p_val x) \<longrightarrow>
        splice_span s (p_value x + 1, p_value x + 1 + length (text_of (p_val x))) = Some (p_value y + 1, p_value y + 1 + length (text_of (p_val x))))"

definition agrees :: "('a \<Rightarrow> 'a \<Rightarrow> bool) \<Rightarrow> ('a \<Rightarrow> bool) \<Rightarrow> bool" where
  "agrees R P \<longleftrightarrow> (\<forall>x y. R x y \<longrightarrow> P x = P y)"

lemma find_rel:
  "list_all2 R l l' \<Longrightarrow> agrees R P \<Longrightarrow>
     (find P l = None \<and> find P l' = None) \<or> (\<exists>x y. find P l = Some x \<and> find P l' = Some y \<and> R x y \<and> P x)"
  by (induction l l' rule: list_all2_induct) (auto simp: agrees_def)

lemma filter_rel: "list_all2 R l l' \<Longrightarrow> agrees R P \<Longrightarrow> length (filter P l) = length (filter P l')"
  by (induction l l' rule: list_all2_induct) (auto simp: agrees_def)

lemma list_ex_rel: "list_all2 R l l' \<Longrightarrow> agrees R P \<Longrightarrow> list_ex P l = list_ex P l'"
  by (induction l l' rule: list_all2_induct) (auto simp: agrees_def)

lemma options_text: "json_text ''stream_options'' = Some ''stream_options''"
  by (auto simp: json_text_def intro!: from_utf8_ascii)

lemma options_not_named: "fst x = ''stream_options'' \<Longrightarrow> want \<in> {''stream'', ''model''} \<union> set OUTPUT_LIMIT_KEYS \<Longrightarrow> \<not> named want x"
  by (auto simp: named_def options_text OUTPUT_LIMIT_KEYS_def)

lemma plain_not: "plain_integer v \<Longrightarrow> \<not> is_text v \<and> v \<noteq> JScalar ''true'' \<and> exact_limit v"
  by (auto simp: plain_integer_def is_text_def exact_limit_def is_ascii_digit_def split: jval.splits)

lemma same_class_named: "same_class x y \<Longrightarrow> named want x = named want y" "same_class x y \<Longrightarrow> fst x = fst y"
  by (simp_all add: same_class_def named_def)

lemma same_class_val:
  assumes "same_class x y" "named want x" "want \<in> {''stream'', ''model''} \<union> set OUTPUT_LIMIT_KEYS"
  shows "p_val x = p_val y \<or> plain_integer (p_val x) \<and> plain_integer (p_val y)"
  using assms options_not_named [of x want] by (auto simp: same_class_def)

text \<open>One offset of the answer, moved.\<close>

lemma moves_find:
  assumes l: "list_all2 (moves s) l l'" and P: "agrees (moves s) P"
    and g: "\<And>x y. moves s x y \<Longrightarrow> P x \<Longrightarrow> m (g x) = Some (g y)"
  shows "map_option g (find P l') = opt_bind (map_option g (find P l)) m"
  using find_rel [of "moves s" l l' P, OF l P] g by (auto simp: opt_bind_def)

lemma moves_named:
  assumes "moves s x y"
  shows "named want x = named want y" "fst x = fst y" "splice_point s (p_at x) = Some (p_at y)" "splice_point s (p_value x) = Some (p_value y)"
  using assms same_class_named by (auto simp: moves_def)

lemma moves_plain:
  assumes "moves s x y" "want \<in> set OUTPUT_LIMIT_KEYS"
  shows "(named want x \<and> plain_integer (p_val x)) = (named want y \<and> plain_integer (p_val y))"
    "(named want x \<and> \<not> exact_limit (p_val x)) = (named want y \<and> \<not> exact_limit (p_val y))"
  using assms same_class_val [of x y want] moves_named(1) [OF assms(1), of want] plain_not by (auto simp: moves_def)

lemma moves_text:
  assumes "moves s x y"
  shows "(named ''model'' x \<and> is_text (p_val x)) = (named ''model'' y \<and> is_text (p_val y))"
    "named ''model'' x \<Longrightarrow> is_text (p_val x) \<Longrightarrow> p_val x = p_val y"
  using assms same_class_val [of x y "''model''"] moves_named(1) [OF assms(1), of "''model''"] plain_not by (auto simp: moves_def)

lemma moves_model:
  assumes m: "moves s x y" and "named ''model'' x \<and> is_text (p_val x)"
  shows "splice_span s (p_value x + 1, p_value x + 1 + length (text_of (p_val x))) = Some (p_value y + 1, p_value y + 1 + length (text_of (p_val y)))"
proof -
  have "p_val x = p_val y" "is_text (p_val x)" using moves_text(2) [OF m] assms(2) by simp_all
  then show ?thesis using m by (simp add: moves_def)
qed

lemma moves_true:
  assumes "moves s x y" "named ''stream'' x"
  shows "p_val x = JScalar ''true'' \<longleftrightarrow> p_val y = JScalar ''true''"
  using assms same_class_val [of x y "''stream''"] plain_not by (auto simp: moves_def)

lemma buffered_of_moves:
  assumes l: "list_all2 (moves s) l l'" and op: "splice_point s (op + 1) = Some (op + 1)"
  shows "buffered_of op l' = moved_scan s (buffered_of op l)"
proof -
  have named: "agrees (moves s) (named want)" for want by (simp add: agrees_def moves_named(1))
  have fsts: "agrees (moves s) (\<lambda>x. fst x = ''stream_options'')" by (simp add: agrees_def moves_named(2))
  have texts: "agrees (moves s) (\<lambda>x. named ''model'' x \<and> is_text (p_val x))" by (simp add: agrees_def moves_text(1))
  have r: "list_all2 (moves s) (rev l) (rev l')" using l by simp
  have st: "streams l' = streams l"
    using find_rel [OF r named, of "''stream''"] by (elim disjE exE conjE) (simp_all add: streams_def moves_true)
  have mp: "map_option (\<lambda>x. f (p_val x)) (model_place l') = map_option (\<lambda>x. f (p_val x)) (model_place l)" for f :: "jval \<Rightarrow> 'z"
    using find_rel [OF l texts] moves_text(2) [of s]
    unfolding model_place_def by fastforce
  have op': "options_place l' = None \<longleftrightarrow> options_place l = None"
    using find_rel [OF l fsts] by (fastforce simp: options_place_def)
  have "map_option (\<lambda>x. p_value x) (options_place l') = opt_bind (map_option (\<lambda>x. p_value x) (options_place l)) (splice_point s)"
    unfolding options_place_def by (rule moves_find [OF l fsts]) (simp add: moves_named)
  then have so: "stream_options_at (buffered_of op l') = opt_bind (stream_options_at (buffered_of op l)) (splice_point s)"
    by (simp add: buffered_of_def st) (simp add: opt_bind_def)
  have inj: "inject_at (buffered_of op l') = opt_bind (inject_at (buffered_of op l)) (splice_point s)"
    using op' op by (simp add: buffered_of_def st opt_bind_def)
  have ms: "bs_model_span (buffered_of op l') = opt_bind (bs_model_span (buffered_of op l)) (splice_span s)"
    unfolding buffered_of_def model_place_def buffered_scan.simps
    by (rule moves_find [OF l texts]) (rule moves_model, simp_all)
  have dm: "length (filter (named ''model'') l') = length (filter (named ''model'') l)" using filter_rel [OF l named] by simp
  have sp: "limit_value_spans l' = map (\<lambda>r. opt_bind r (splice_span s)) (limit_value_spans l)"
    unfolding limit_value_spans_def list.map_comp comp_def
  proof (rule list.map_cong0)
    fix key assume k: "key \<in> set OUTPUT_LIMIT_KEYS"
    show "map_option (\<lambda>x. (p_value x, p_value x + length (render (p_val x)))) (find (\<lambda>x. named key x \<and> plain_integer (p_val x)) l') =
        opt_bind (map_option (\<lambda>x. (p_value x, p_value x + length (render (p_val x)))) (find (\<lambda>x. named key x \<and> plain_integer (p_val x)) l)) (splice_span s)"
    proof (rule moves_find [OF l])
      show "agrees (moves s) (\<lambda>x. named key x \<and> plain_integer (p_val x))"
        unfolding agrees_def using moves_plain(1) [OF _ k] by blast
    qed (simp add: moves_def)
  qed
  have kp: "limit_key_places l' = map (\<lambda>p. opt_bind p (splice_point s)) (limit_key_places l)"
    unfolding limit_key_places_def list.map_comp comp_def
    by (rule list.map_cong0, rule moves_find [OF l named]) (simp_all add: moves_def)
  have il: "inexact_limits l' = inexact_limits l"
  proof -
    have "list_ex (\<lambda>x. named key x \<and> \<not> exact_limit (p_val x)) l = list_ex (\<lambda>x. named key x \<and> \<not> exact_limit (p_val x)) l' \<and>
        length (filter (named key) l) = length (filter (named key) l')" if "key \<in> set OUTPUT_LIMIT_KEYS" for key
      using list_ex_rel [OF l, of "\<lambda>x. named key x \<and> \<not> exact_limit (p_val x)"] filter_rel [OF l named, of key]
        moves_plain(2) [OF _ that, of s] by (simp add: agrees_def)
    then show ?thesis unfolding inexact_limits_def list_ex_iff [of _ OUTPUT_LIMIT_KEYS] by auto
  qed
  have oa: "options_ambiguous l' = options_ambiguous l"
    unfolding options_ambiguous_def
    using filter_rel [OF l fsts] list_ex_rel [OF l, of "\<lambda>x. fst x \<noteq> ''stream_options'' \<and> named ''stream_options'' x"]
    by (simp add: agrees_def moves_named(1,2))
  show ?thesis
    using so inj ms sp kp il oa dm mp [of "\<lambda>v. recorded (text_of v)"]
    by (intro buffered_scan.equality) (simp_all add: moved_scan_def, simp_all add: buffered_of_def)
qed

lemma render_pos: "j_ok v \<Longrightarrow> 0 < length (render v)"
  using render_not_ws by blast

lemma text_render: "is_text v \<Longrightarrow> length (render v) = length (text_of v) + 2"
  by (cases v) (simp_all add: is_text_def text_of_def)

lemma value_moves:
  assumes v: "value_at pos ms n l1 x l0 A Z" and n: "n < length (kvs ms)"
    and s: "s = \<lparr>sp_at = p_value x, sp_removed = length (render (p_val x)), sp_added = length (render v')\<rparr>"
    and r: "0 < length (render (p_val x))" and c: "same_class x (fst x, v', p_at x, p_value x)"
  shows "list_all2 (moves s) (places pos ms) (places pos (set_val ms n v'))"
proof -
  have p: "places pos ms = l1 @ x # map (place_up (length (render (p_val x)))) l0"
    "places pos (set_val ms n v') = l1 @ (fst x, v', p_at x, p_value x) # map (place_up (length (render v'))) l0"
    using value_at_places [OF v n] v unfolding value_at_def by blast+
  have sc: "same_class y y" for y by (simp add: same_class_def)
  have "moves s y y" if "y \<in> set l1" for y
  proof -
    have "p_value y + length (render (p_val y)) \<le> p_at x" "p_at y < p_value y" "p_at x < p_value x" using v that by (simp_all add: value_at_def)
    then show ?thesis using text_render [of "p_val y"] by (auto simp: moves_def sc splice_point_def splice_span_def s)
  qed
  moreover have "moves s x (fst x, v', p_at x, p_value x)"
  proof -
    have "p_at x < p_value x" using v by (simp add: value_at_def)
    then show ?thesis using c r text_render [of v'] by (auto simp: moves_def splice_point_def splice_span_def shift_span_def splice_shift_def s)
  qed
  moreover have "moves s (place_up (length (render (p_val x))) y) (place_up (length (render v')) y)" if "y \<in> set l0" for y
  proof -
    have o: "p_value x \<le> p_at y" "p_at y < p_value y" using v that unfolding value_at_def by blast+
    obtain d where d: "length (render (p_val x)) = Suc d" using r by (cases "length (render (p_val x))") simp_all
    show ?thesis
      using o unfolding s d by (auto simp: moves_def same_class_def splice_point_def splice_span_def shift_span_def splice_shift_def Let_def)
  qed
  ultimately show ?thesis unfolding p
    by (intro list_all2_appendI list.rel_intros(2))
      (auto simp: list_all2_map1 list_all2_map2 intro!: list.rel_refl_strong)
qed

section \<open>Bodies that are what their scan says\<close>

definition good_body :: "string \<Rightarrow> string \<Rightarrow> jmembers \<Rightarrow> string \<Rightarrow> bool" where
  "good_body w0 w ms w1 \<longleftrightarrow> j_ok (JObject w ms) \<and> nesting (JObject w ms) \<le> U32_MAX \<and> list_all is_ws w0 \<and> list_all is_ws w1 \<and>
     list_all (\<lambda>kv. literal (snd kv)) (kvs ms)"

definition body_text :: "string \<Rightarrow> string \<Rightarrow> jmembers \<Rightarrow> string \<Rightarrow> string" where
  "body_text w0 w ms w1 = w0 @ render (JObject w ms) @ w1"

definition represents :: "string \<Rightarrow> string \<Rightarrow> jmembers \<Rightarrow> string \<Rightarrow> scanned_body \<Rightarrow> bool" where
  "represents w0 w ms w1 sb \<longleftrightarrow> sb_buf sb = body_text w0 w ms w1 \<and> sb_scan sb = buffered_of (length w0) (places (length w0 + 1) ms)"

lemma places_literal: "list_all (\<lambda>x. literal (p_val x)) (places pos ms) \<longleftrightarrow> list_all (\<lambda>kv. literal (snd kv)) (kvs ms)"
  by (simp add: places_kvs [of pos ms, symmetric] list.pred_map comp_def)

lemma sb_new_represents: "good_body w0 w ms w1 \<Longrightarrow> represents w0 w ms w1 (sb_new (body_text w0 w ms w1))"
  using scan_buffered_of [of w ms w0 w1] by (simp add: good_body_def represents_def sb_new_def body_text_def places_literal del: render.simps)

lemma represents_new: "good_body w0 w ms w1 \<Longrightarrow> represents w0 w ms w1 sb \<longleftrightarrow> sb = sb_new (body_text w0 w ms w1)"
  using sb_new_represents [of w0 w ms w1] by (cases sb) (auto simp: represents_def sb_new_def)

lemma good_set_val:
  assumes "good_body w0 w ms w1" "j_ok v'" "literal v'" "nesting v' < U32_MAX"
  shows "good_body w0 w (set_val ms n v') w1"
proof -
  have "list_all (\<lambda>kv. literal (snd kv)) (kvs (set_val ms n v'))"
    using assms(1,3) by (cases "n < length (kvs ms)") (auto simp: good_body_def kvs_set_val list_all_length nth_list_update)
  moreover have "nesting_members (set_val ms n v') < U32_MAX"
    using set_val_nesting [of ms n v'] assms(1,4) by (simp add: good_body_def max_def split: if_splits)
  ultimately show ?thesis using assms set_val_ok [of ms v' n] by (simp add: good_body_def)
qed

lemma body_split:
  assumes "value_at (length w0 + 1) ms n l1 x l0 A Z" "n < length (kvs ms)"
  shows "body_text w0 w (set_val ms n v') w1 = (w0 @ CHR ''{'' # A) @ render v' @ Z @ CHR ''}'' # w1"
    "body_text w0 w ms w1 = (w0 @ CHR ''{'' # A) @ render (p_val x) @ Z @ CHR ''}'' # w1" "p_value x = length (w0 @ CHR ''{'' # A)"
proof -
  have ne: "ms \<noteq> MNil" using assms(2) by auto
  show "body_text w0 w (set_val ms n v') w1 = (w0 @ CHR ''{'' # A) @ render v' @ Z @ CHR ''}'' # w1"
    using assms(1) ne by (simp add: body_text_def value_at_def)
  show "body_text w0 w ms w1 = (w0 @ CHR ''{'' # A) @ render (p_val x) @ Z @ CHR ''}'' # w1"
    using value_at_places [OF assms] ne by (simp add: body_text_def)
  show "p_value x = length (w0 @ CHR ''{'' # A)" using assms(1) by (simp add: value_at_def)
qed

lemma splice_in_mid: "splice_in (A @ old @ Z) (length A, length A + length old) new =
    Some (A @ new @ Z, \<lparr>sp_at = length A, sp_removed = length old, sp_added = length new\<rparr>)"
  by (simp add: splice_in_def)

lemma get_range_mid: "get_range (A @ old @ Z) (length A) (length A + length old) = Some old"
  by (simp add: get_range_def)

text \<open>An edit the scan cannot follow, whose report of a change is true, leaves a body with a fresh scan.\<close>

lemma edit_finish_fresh: "changed \<or> f b = b \<Longrightarrow> edit_finish changed (edit_map f (sb_new b)) = sb_new (f b)"
  by (auto simp: edit_finish_def edit_map_def sb_new_def)

text \<open>Replacing a member's value by its span: the body, and its scan with the offsets moved.\<close>

lemma replace_value:
  assumes rep: "represents w0 w ms w1 sb" and v: "value_at (length w0 + 1) ms n l1 x l0 A Z" and n: "n < length (kvs ms)"
    and r: "0 < length (render (p_val x))" and c: "same_class x (fst x, v', p_at x, p_value x)"
  shows "represents w0 w (set_val ms n v') w1 (moved sb (splice_in (sb_buf sb) (p_value x, p_value x + length (render (p_val x))) (render v')))"
proof -
  define s where "s = \<lparr>sp_at = p_value x, sp_removed = length (render (p_val x)), sp_added = length (render v')\<rparr>"
  note b = body_split [OF v n]
  have "splice_in (sb_buf sb) (p_value x, p_value x + length (render (p_val x))) (render v') = Some (body_text w0 w (set_val ms n v') w1, s)"
    using rep splice_in_mid [of "w0 @ CHR ''{'' # A" "render (p_val x)" "Z @ CHR ''}'' # w1" "render v'"] b by (simp add: represents_def s_def)
  moreover have "splice_point s (length w0 + 1) = Some (length w0 + 1)"
    using b(3) r by (auto simp: splice_point_def s_def)
  ultimately show ?thesis
    using buffered_of_moves [OF value_moves [OF v n s_def r c]] rep by (simp add: represents_def moved_def)
qed

section \<open>Clamping the output limits\<close>

definition capped :: "nat \<Rightarrow> jval \<Rightarrow> jval" where
  "capped mx v = (case v of JScalar s \<Rightarrow> if mx < digits_val s 0 then JScalar (show_nat mx) else v | _ \<Rightarrow> v)"

definition limit_member :: "string \<Rightarrow> string \<times> jval \<Rightarrow> bool" where
  "limit_member key kv \<longleftrightarrow> json_text (fst kv) = Some key \<and> plain_integer (snd kv)"

fun update_first :: "(string \<times> jval \<Rightarrow> bool) \<Rightarrow> (jval \<Rightarrow> jval) \<Rightarrow> (string \<times> jval) list \<Rightarrow> (string \<times> jval) list" where
  "update_first P f [] = []"
| "update_first P f (kv # l) = (if P kv then (fst kv, f (snd kv)) # l else kv # update_first P f l)"

text \<open>The same on the text's own tree, which has the white space too, so it says what becomes of every byte.\<close>

primrec update_member :: "(string \<times> jval \<Rightarrow> bool) \<Rightarrow> (jval \<Rightarrow> jval) \<Rightarrow> jmembers \<Rightarrow> jmembers" where
  "update_member P f MNil = MNil"
| "update_member P f (MCons w1 k w2 w3 v w4 ms) =
     (if P (k, v) then MCons w1 k w2 w3 (f v) w4 ms else MCons w1 k w2 w3 v w4 (update_member P f ms))"

definition clamp_members :: "nat \<Rightarrow> jmembers \<Rightarrow> jmembers" where
  "clamp_members mx ms = (if mx = 0 then ms else fold (\<lambda>key. update_member (limit_member key) (capped mx)) OUTPUT_LIMIT_KEYS ms)"

lemma kvs_update_member: "kvs (update_member P f ms) = update_first P f (kvs ms)"
  by (induction ms rule: members_induct) simp_all

lemma update_member_none: "\<forall>kv \<in> set (kvs ms). \<not> P kv \<Longrightarrow> update_member P f ms = ms"
  by (induction ms rule: members_induct) simp_all

lemma set_val_first:
  assumes "n < length (kvs ms)" "P (kvs ms ! n)" and "\<And>j. j < n \<Longrightarrow> \<not> P (kvs ms ! j)"
  shows "set_val ms n (f (snd (kvs ms ! n))) = update_member P f ms"
  using assms
proof (induction ms arbitrary: n rule: members_induct)
  case (MCons w1 k w2 w3 v w4 ms)
  show ?case
  proof (cases n)
    case 0
    with MCons show ?thesis by simp
  next
    case (Suc m)
    have h: "\<not> P (k, v)" using MCons.prems(3) [of 0] Suc by simp
    have "\<not> P (kvs ms ! j)" if "j < m" for j using MCons.prems(3) [of "Suc j"] Suc that by simp
    then have "set_val ms m (f (snd (kvs ms ! m))) = update_member P f ms"
      using MCons.prems Suc by (intro MCons.IH) simp_all
    then show ?thesis using h Suc by simp
  qed
qed simp

lemma places_nth: "j < length (kvs ms) \<Longrightarrow> fst (places pos ms ! j) = fst (kvs ms ! j) \<and> p_val (places pos ms ! j) = snd (kvs ms ! j)"
proof -
  assume j: "j < length (kvs ms)"
  have "kvs ms ! j = map (\<lambda>x. (fst x, p_val x)) (places pos ms) ! j" by (simp only: places_kvs)
  then show ?thesis using j by simp
qed

text \<open>The member a search over the places finds, and what an update of the first such member does.\<close>

lemma place_none:
  assumes "find (\<lambda>x. P (fst x, p_val x)) (places pos ms) = None"
  shows "update_member P f ms = ms" "update_first P f (kvs ms) = kvs ms"
proof -
  show u: "update_member P f ms = ms"
  proof (rule update_member_none, rule ballI)
    fix kv assume "kv \<in> set (kvs ms)"
    then have "kv \<in> (\<lambda>x. (fst x, p_val x)) ` set (places pos ms)" unfolding places_kvs [of pos ms, symmetric] by simp
    then obtain x where x: "x \<in> set (places pos ms)" "kv = (fst x, p_val x)" by blast
    have "\<not> P (fst x, p_val x)" using assms x(1) unfolding find_None_iff by blast
    then show "\<not> P kv" using x(2) by simp
  qed
  show "update_first P f (kvs ms) = kvs ms" using kvs_update_member [of P f ms] by (simp add: u)
qed

lemma place_found:
  assumes "find (\<lambda>x. P (fst x, p_val x)) (places pos ms) = Some x"
  obtains n l1 l0 A Z where "n < length (kvs ms)" "value_at pos ms n l1 x l0 A Z" "kvs ms ! n = (fst x, p_val x)" "P (fst x, p_val x)"
    "\<And>f. set_val ms n (f (p_val x)) = update_member P f ms" "\<And>f. kvs (set_val ms n (f (p_val x))) = update_first P f (kvs ms)"
proof -
  obtain n where n: "n < length (kvs ms)" "P (fst x, p_val x)" "x = places pos ms ! n" "\<forall>j < n. \<not> P (fst (places pos ms ! j), p_val (places pos ms ! j))"
    using assms unfolding find_Some_iff length_places by blast
  have k: "kvs ms ! j = (fst (places pos ms ! j), p_val (places pos ms ! j))" if "j \<le> n" for j
    using places_nth [of j ms pos] n(1) that by (simp add: prod_eq_iff)
  obtain l1 x' l0 A Z where v: "value_at pos ms n l1 x' l0 A Z" using value_at_ex [OF n(1)] by blast
  have "x' = x" using value_at_places [OF v n(1)] n(3) v by (simp add: value_at_def nth_append)
  note v = v [unfolded this]
  have kn: "kvs ms ! n = (fst x, p_val x)" using k [of n] n(3) by simp
  have u: "set_val ms n (f (p_val x)) = update_member P f ms" for f
  proof -
    have "set_val ms n (f (snd (kvs ms ! n))) = update_member P f ms"
    proof (rule set_val_first [OF n(1)])
      show "P (kvs ms ! n)" using n(2) kn by simp
      show "\<not> P (kvs ms ! j)" if "j < n" for j using n(4) that k [of j] by simp
    qed
    then show ?thesis by (simp add: kn)
  qed
  then show ?thesis using that [OF n(1) v kn n(2)] kvs_update_member by metis
qed

lemma digit_plain: "is_ascii_digit c \<Longrightarrow> \<not> structural c \<and> \<not> is_ws c"
  unfolding structural_def is_ws_def by (rule ccontr, unfold de_Morgan_conj not_not, elim disjE) (simp_all add: is_ascii_digit_def)

lemma show_nat_plain: "plain_integer (JScalar (show_nat n))" "j_ok (JScalar (show_nat n))" "literal (JScalar (show_nat n))"
proof -
  have c: "show_nat n \<noteq> []" "list_all is_ascii_digit (show_nat n)" using canonical_show [of n] by (simp_all add: canonical_decimal_def)
  then show "plain_integer (JScalar (show_nat n))" by (simp add: plain_integer_def)
  show "j_ok (JScalar (show_nat n))" using c digit_plain by (simp add: scalar_ok_def list_all_iff)
  show "literal (JScalar (show_nat n))" using c by (auto simp: literal_def number_def list_all_iff)
qed

lemma digits_utf8: "list_all is_ascii_digit s \<Longrightarrow> from_utf8 s = Some s"
  by (rule from_utf8_ascii) (auto simp: list_all_iff is_ascii_digit_def)

lemma clamp_one_represents:
  assumes g: "good_body w0 w ms w1" and rep: "represents w0 w ms w1 sb" and k: "k < 3" and mx: "mx \<le> U32_MAX"
  shows "good_body w0 w (update_member (limit_member (OUTPUT_LIMIT_KEYS ! k)) (capped mx) ms) w1 \<and>
    represents w0 w (update_member (limit_member (OUTPUT_LIMIT_KEYS ! k)) (capped mx) ms) w1 (clamp_one mx k sb)"
proof -
  let ?key = "OUTPUT_LIMIT_KEYS ! k" and ?l = "places (length w0 + 1) ms"
  let ?P = "\<lambda>x. limit_member ?key (fst x, p_val x)"
  have sp: "bs_limit_spans (sb_scan sb) = limit_value_spans ?l" using rep by (simp add: represents_def buffered_of_def)
  have P: "?P = (\<lambda>x. named ?key x \<and> plain_integer (p_val x))" by (rule ext) (simp add: limit_member_def named_def)
  have lk: "bs_limit_spans (sb_scan sb) ! k = map_option (\<lambda>x. (p_value x, p_value x + length (render (p_val x)))) (find ?P ?l)"
      "k < length (bs_limit_spans (sb_scan sb))"
    using k unfolding sp P by (simp_all add: limit_value_spans_def length_limit_keys)
  show ?thesis
  proof (cases "find ?P ?l")
    case None
    then have "clamp_one mx k sb = sb" using lk by (simp add: clamp_one_def)
    then show ?thesis using place_none(1) [OF None] g rep by simp
  next
    case (Some x)
    then obtain n l1 l0 A Z where n: "n < length (kvs ms)" "value_at (length w0 + 1) ms n l1 x l0 A Z"
        "kvs ms ! n = (fst x, p_val x)" "limit_member ?key (fst x, p_val x)"
      and cf: "\<And>f. set_val ms n (f (p_val x)) = update_member (limit_member ?key) f ms" by (rule place_found) blast
    obtain s where s: "p_val x = JScalar s" "s \<noteq> []" "list_all is_ascii_digit s"
      using n(4) by (auto simp: limit_member_def plain_integer_def split: jval.splits)
    note b = body_split [OF n(2,1)]
    have gr: "get_range (sb_buf sb) (p_value x) (p_value x + length (render (p_val x))) = Some s"
      using rep get_range_mid [of "w0 @ CHR ''{'' # A" s] b by (simp add: represents_def s)
    have U: "U32_MAX \<le> U64_MAX" by simp
    have over: "(case opt_bind (from_utf8 s) (parse_uint U64_MAX) of None \<Rightarrow> True | Some n \<Rightarrow> mx < n) \<longleftrightarrow> mx < digits_val s 0"
      using mx U parse_digits_value [OF s(3), of 0 U64_MAX] by (simp add: opt_bind_def digits_utf8 s parse_uint_digits)
    have co: "clamp_one mx k sb = moved sb (if mx < digits_val s 0
        then splice_in (sb_buf sb) (p_value x, p_value x + length (render (p_val x))) (render (JScalar (show_nat mx))) else None)"
      using lk Some gr over by (simp add: clamp_one_def clamp_limit_def Let_def)
    have "good_body w0 w (set_val ms n (capped mx (p_val x))) w1 \<and> represents w0 w (set_val ms n (capped mx (p_val x))) w1 (clamp_one mx k sb)"
    proof (cases "mx < digits_val s 0")
      case True
      have c: "same_class x (fst x, JScalar (show_nat mx), p_at x, p_value x)"
        using n(4) show_nat_plain by (simp add: same_class_def limit_member_def)
      have "good_body w0 w (set_val ms n (JScalar (show_nat mx))) w1" using g show_nat_plain by (intro good_set_val) simp_all
      moreover have "represents w0 w (set_val ms n (JScalar (show_nat mx))) w1 (clamp_one mx k sb)"
        unfolding co using True replace_value [OF rep n(2,1) _ c] s by simp
      ultimately show ?thesis using True by (simp add: capped_def s)
    next
      case False
      then have "set_val ms n (capped mx (p_val x)) = ms" using set_val_same [OF n(1)] by (simp add: capped_def s n(3))
      then show ?thesis using g rep False by (simp add: co moved_def)
    qed
    then show ?thesis unfolding cf .
  qed
qed

lemma clamp_represents:
  assumes "good_body w0 w ms w1" "represents w0 w ms w1 sb" "mx \<le> U32_MAX"
  shows "good_body w0 w (clamp_members mx ms) w1 \<and> represents w0 w (clamp_members mx ms) w1 (clamp_output_limits mx sb)"
proof (cases "mx = 0")
  case True
  then show ?thesis using assms by (simp add: clamp_output_limits_def clamp_members_def)
next
  case False
  let ?u = "\<lambda>k. update_member (limit_member (OUTPUT_LIMIT_KEYS ! k)) (capped mx)"
  have u: "[0..<length OUTPUT_LIMIT_KEYS] = [0, 1, 2]" by (simp add: length_limit_keys upt_conv_Cons)
  have f: "clamp_members mx ms = ?u 2 (?u 1 (?u 0 ms))" using False by (simp add: clamp_members_def OUTPUT_LIMIT_KEYS_def)
  note m0 = clamp_one_represents [OF assms(1,2) _ assms(3), of 0, simplified]
  note m1 = clamp_one_represents [OF conjunct1 [OF m0] conjunct2 [OF m0] _ assms(3), of 1, simplified]
  note m2 = clamp_one_represents [OF conjunct1 [OF m1] conjunct2 [OF m1] _ assms(3), of 2, simplified]
  show ?thesis using m2 False by (simp add: clamp_output_limits_def u f)
qed

text \<open>
  C12. Before a request goes to a host, its root output limits (\<^verbatim>\<open>max_tokens\<close> and its two other spellings) are cut to
  what the serving model can return. On every JSON object body, under each of the three names the first member whose value
  is a plain integer gets, when the integer is above the maximum, the maximum as its value; a repeated limit, a value
  that is not a plain integer, and everything under a maximum of zero stay. The body that results is given to the byte:
  it is the text of the same tree, white space and spellings included, with only those values replaced. And the scan
  that travels with the bytes, whose offsets were only moved by each cut, is what a fresh scan of the new bytes answers:
  so the rewrites that come later splice where they mean to.
\<close>

theorem clamp_output_limits_exact:
  assumes "good_body w0 w ms w1" and "mx \<le> U32_MAX"
  shows "good_body w0 w (clamp_members mx ms) w1 \<and>
    clamp_output_limits mx (sb_new (body_text w0 w ms w1)) = sb_new (body_text w0 w (clamp_members mx ms) w1)"
  using clamp_represents [OF assms(1) sb_new_represents [OF assms(1)] assms(2)] represents_new by blast

definition clamped_demo :: jmembers where
  "clamped_demo = MCons [] ''max_tokens'' [] [] (JScalar ''100000'') [] (MCons '' '' ''model'' [] '' '' (JString ''gpt'') []
     (MCons [] ''max_completion_tokens'' [] [] (JScalar ''7'') [] MNil))"

theorem clamp_output_limits_exact_witness:
  "clamp_output_limits 4096 (sb_new (body_text [] [] clamped_demo [])) =
     sb_new (body_text [] [] (MCons [] ''max_tokens'' [] [] (JScalar ''4096'') [] (MCons '' '' ''model'' [] '' '' (JString ''gpt'') []
       (MCons [] ''max_completion_tokens'' [] [] (JScalar ''7'') [] MNil))) [])"
proof -
  have "good_body [] [] clamped_demo []"
    by (simp add: good_body_def clamped_demo_def is_ws_def scalar_ok_def structural_def literal_def number_def is_ascii_digit_def)
  from clamp_output_limits_exact [OF this, of 4096]
  have c: "clamp_output_limits 4096 (sb_new (body_text [] [] clamped_demo [])) = sb_new (body_text [] [] (clamp_members 4096 clamped_demo) [])"
    by simp
  have t: "json_text k = Some k" if "k \<in> {''max_tokens'', ''model'', ''max_completion_tokens''}" for k
    using that by (auto simp: json_text_def intro!: from_utf8_ascii)
  show ?thesis
    unfolding c by (simp add: clamped_demo_def OUTPUT_LIMIT_KEYS_def clamp_members_def limit_member_def t plain_integer_def is_ascii_digit_def
        capped_def digits_val_def show_nat.simps char_of_def bit_0)
qed

end
