(* ===== verification/Body_Upstream.thy ===== *)
theory Body_Upstream
  imports Body_Rewrite
begin

text \<open>
  The body as it goes upstream (\<^verbatim>\<open>into_upstream\<close> of \<^verbatim>\<open>gateway/src/rewrite.rs\<close>): the usage option, the
  model's name, and the bytes every other member keeps.
\<close>

section \<open>The steps on the members\<close>

definition called :: "string \<Rightarrow> string \<times> jval \<Rightarrow> bool" where
  "called want kv \<longleftrightarrow> json_text (fst kv) = Some want"

definition model_text :: "string \<times> jval \<Rightarrow> bool" where
  "model_text kv \<longleftrightarrow> called ''model'' kv \<and> is_text (snd kv)"



definition respelled :: "string option \<Rightarrow> (string \<times> jval) list \<Rightarrow> (string \<times> jval) list" where
  "respelled model l = (case model of None \<Rightarrow> l | Some i \<Rightarrow> update_first model_text (\<lambda>_. JString i) l)"






text \<open>The model's name is written inside its quotes; the place for the usage option stays.\<close>

lemma overwrite_model:
  assumes rep: "represents w0 w ms w1 sb" and v: "value_at (length w0 + 1) ms n l1 x l0 A Z" and n: "n < length (kvs ms)"
    and x: "kvs ms ! n = (fst x, p_val x)" "p_val x = JString raw"
    and sb': "sb' = moved sb (overwrite (sb_buf sb) (p_value x + 1, p_value x + 1 + length raw) i)"
  shows "sb_buf sb' = body_text w0 w (set_val ms n (JString i)) w1 \<and> inject_at (sb_scan sb') = inject_at (sb_scan sb)"
proof -
  let ?A = "w0 @ CHR ''{'' # A @ [quote]" and ?Z = "quote # Z @ CHR ''}'' # w1"
  note b = body_split [OF v n]
  have buf: "sb_buf sb = ?A @ raw @ ?Z" and at: "p_value x + 1 = length ?A"
    using rep b(2,3) by (simp_all add: represents_def x)
  have new: "body_text w0 w (set_val ms n (JString i)) w1 = ?A @ i @ ?Z" unfolding b(1) by simp
  have gr: "get_range (sb_buf sb) (p_value x + 1) (p_value x + 1 + length raw) = Some raw" unfolding buf at by (rule get_range_mid)
  show ?thesis
  proof (cases "raw = i")
    case True
    then have "set_val ms n (JString i) = ms" using set_val_same [OF n] x by simp
    moreover have "sb' = sb" using gr True by (simp add: sb' overwrite_def moved_def)
    ultimately show ?thesis using rep by (simp add: represents_def)
  next
    case False
    define s where "s = \<lparr>sp_at = length ?A, sp_removed = length raw, sp_added = length i\<rparr>"
    have "overwrite (sb_buf sb) (p_value x + 1, p_value x + 1 + length raw) i = Some (?A @ i @ ?Z, s)"
    proof -
      have "splice_in (sb_buf sb) (p_value x + 1, p_value x + 1 + length raw) i = Some (?A @ i @ ?Z, s)"
        unfolding buf at s_def by (rule splice_in_mid)
      then show ?thesis using gr False by (simp add: overwrite_def)
    qed
    moreover have "splice_point s (length w0 + 1) = Some (length w0 + 1)" by (simp add: splice_point_def s_def)
    ultimately show ?thesis using rep new by (simp add: sb' moved_def moved_scan_def represents_def buffered_of_def opt_bind_def)
  qed
qed

lemma respell_model:
  assumes g: "good_body w0 w ms w1" and rep: "represents w0 w ms w1 sb" and i: "\<And>i. model = Some i \<Longrightarrow> raw_ok i"
    and sb': "sb' = (case model of
                  None \<Rightarrow> sb
                | Some i \<Rightarrow> (case bs_model_span (sb_scan sb) of None \<Rightarrow> sb | Some r \<Rightarrow> moved sb (overwrite (sb_buf sb) r i)))"
  shows "\<exists>ms'. good_body w0 w ms' w1 \<and> sb_buf sb' = body_text w0 w ms' w1 \<and> inject_at (sb_scan sb') = inject_at (sb_scan sb) \<and>
    kvs ms' = respelled model (kvs ms)"
proof (cases model)
  case None
  then show ?thesis using g rep sb' by (intro exI [of _ ms]) (simp add: respelled_def represents_def)
next
  case (Some i)
  let ?l = "places (length w0 + 1) ms" and ?P = "\<lambda>x. model_text (fst x, p_val x)"
  have P: "?P = (\<lambda>x. named ''model'' x \<and> is_text (p_val x))" by (rule ext) (simp add: model_text_def called_def named_def)
  have sp: "bs_model_span (sb_scan sb) = map_option (\<lambda>x. (p_value x + 1, p_value x + 1 + length (text_of (p_val x)))) (find ?P ?l)"
    using rep by (simp add: represents_def buffered_of_def model_place_def P)
  show ?thesis
  proof (cases "find ?P ?l")
    case None
    then have "sb' = sb" using sp sb' Some by simp
    then show ?thesis using g rep place_none [OF None] Some by (intro exI [of _ ms]) (simp add: respelled_def represents_def)
  next
    case found: (Some x)
    then obtain n l1 l0 A Z where n: "n < length (kvs ms)" "value_at (length w0 + 1) ms n l1 x l0 A Z"
        "kvs ms ! n = (fst x, p_val x)" "model_text (fst x, p_val x)"
      and kv: "\<And>f. kvs (set_val ms n (f (p_val x))) = update_first model_text f (kvs ms)" by (rule place_found) blast
    obtain raw where raw: "p_val x = JString raw" using n(4) by (auto simp: model_text_def is_text_def split: jval.splits)
    have "sb' = moved sb (overwrite (sb_buf sb) (p_value x + 1, p_value x + 1 + length raw) i)"
      using sp found Some by (simp add: sb' raw text_of_def)
    note o = overwrite_model [OF rep n(2,1,3) raw this]
    have "good_body w0 w (set_val ms n (JString i)) w1" using g i [OF Some] by (intro good_set_val) (simp_all add: literal_def)
    then show ?thesis using o kv [of "\<lambda>_. JString i"] Some by (intro exI [of _ "set_val ms n (JString i)"]) (simp add: respelled_def)
  qed
qed

section \<open>The usage option\<close>





text \<open>Updates of one member and selections of members.\<close>

definition by_key :: "(string \<times> jval \<Rightarrow> bool) \<Rightarrow> bool" where
  "by_key Q \<longleftrightarrow> (\<forall>k v v'. Q (k, v) = Q (k, v'))"



lemma by_key_called [simp]: "by_key (called k)" "by_key (\<lambda>kv. \<not> called k kv)"
  by (simp_all add: by_key_def called_def)





















text \<open>With no usage asked for, only the model's name changes.\<close>

lemma into_upstream_plain:
  assumes "good_body w0 w ms w1" "\<And>i. model = Some i \<Longrightarrow> raw_ok i"
  shows "\<exists>ms'. good_body w0 w ms' w1 \<and> into_upstream read_value to_vec (sb_new (body_text w0 w ms w1)) False model = body_text w0 w ms' w1 \<and>
    kvs ms' = respelled model (kvs ms)"
proof -
  have set: "settle_ambiguous False (sb_new (body_text w0 w ms w1)) = sb_new (body_text w0 w ms w1)" by (simp add: settle_ambiguous_def)
  show ?thesis
    using respell_model [OF assms(1) sb_new_represents [OF assms(1)] assms(2) refl, of model]
    unfolding into_upstream_def set Let_def if_False option.case by blast
qed








end
