(* ===== verification/Limit_Rename.thy ===== *)
theory Limit_Rename
  imports Body_Upstream
begin

text \<open>
  The respelling of a root \<^verbatim>\<open>max_tokens\<close> as \<^verbatim>\<open>max_completion_tokens\<close> (\<^verbatim>\<open>rename_max_tokens\<close> of
  \<^verbatim>\<open>gateway/src/rewrite.rs\<close>): one key is rewritten in place, or one member is cut out with the comma next to it.
\<close>

section \<open>A member between others\<close>

primrec mapp :: "jmembers \<Rightarrow> jmembers \<Rightarrow> jmembers" where
  "mapp MNil b = b"
| "mapp (MCons w1 k w2 w3 v w4 ms) b = MCons w1 k w2 w3 v w4 (mapp ms b)"

lemma mapp_parts [simp]:
  "render_members (mapp a b) = render_members a @ render_members b" "members_ok (mapp a b) \<longleftrightarrow> members_ok a \<and> members_ok b"
  "nesting_members (mapp a b) = max (nesting_members a) (nesting_members b)" "kvs (mapp a b) = kvs a @ kvs b"
  "mapp a b = MNil \<longleftrightarrow> a = MNil \<and> b = MNil"
  by (induction a rule: members_induct) (simp_all add: max.assoc)

lemma mapp_assoc: "mapp (mapp a b) c = mapp a (mapp b c)"
  by (induction a rule: members_induct) simp_all








section \<open>The edit on the members\<close>







section \<open>The respelling\<close>

















end
