(* ===== verification/Scan_Bounds.thy ===== *)
theory Scan_Bounds
  imports Body_Rewrite
begin

text \<open>
  The scan and the edits on any bytes whatever (\<^verbatim>\<open>gateway/src/rewrite.rs\<close>): the offsets a scan answers are inside the
  body, the ranges it answers do not cut into each other, and the edits keep both.
\<close>

section \<open>Bounds\<close>

definition offsets_in_bounds :: "scanned_body \<Rightarrow> bool" where
  "offsets_in_bounds sb \<longleftrightarrow>
     (let s = sb_scan sb; len = length (sb_buf sb);
          points = [inject_at s, stream_options_at s] @ bs_limit_keys s;
          spans = bs_limit_spans s @ [bs_model_span s]
      in list_all (\<lambda>p. case p of None \<Rightarrow> True | Some p \<Rightarrow> p \<le> len) points \<and>
         list_all (\<lambda>r. case r of None \<Rightarrow> True | Some r \<Rightarrow> fst r \<le> snd r \<and> snd r \<le> len) spans)"

definition spans_apart :: "nat \<times> nat \<Rightarrow> nat \<times> nat \<Rightarrow> bool" where
  "spans_apart r s \<longleftrightarrow> snd r \<le> fst s \<or> snd s \<le> fst r"

definition held :: "'a option list \<Rightarrow> 'a set" where
  "held l = {r. Some r \<in> set l}"

section \<open>The walk over any bytes\<close>

definition digit_span :: "string \<Rightarrow> nat \<Rightarrow> nat \<times> nat \<Rightarrow> bool" where
  "digit_span b pos r \<longleftrightarrow> fst r \<le> snd r \<and> snd r \<le> length b \<and> fst r < pos \<and> (\<forall>i. fst r \<le> i \<longrightarrow> i < snd r \<longrightarrow> is_ascii_digit (b ! i))"

definition string_opened :: "nat \<Rightarrow> lex_state \<Rightarrow> fused \<Rightarrow> bool" where
  "string_opened pos st f \<longleftrightarrow>
     (case fu_open f of
        OpenNone \<Rightarrow> True
      | OpenKey s \<Rightarrow> st \<noteq> Outside \<and> 0 < s \<and> s \<le> pos
      | OpenModel s \<Rightarrow> st \<noteq> Outside \<and> s \<le> pos \<and> (\<forall>r \<in> held (limit_spans f). snd r \<le> s))"

definition walked :: "string \<Rightarrow> nat \<Rightarrow> lex_state \<Rightarrow> fused \<Rightarrow> bool" where
  "walked b pos st f \<longleftrightarrow>
     (\<forall>r \<in> held (limit_spans f). digit_span b pos r) \<and>
     (\<forall>r \<in> held (limit_spans f). \<forall>s \<in> held (limit_spans f). r = s \<or> spans_apart r s) \<and>
     (limit_key f \<noteq> None \<longrightarrow> (\<forall>r \<in> held (limit_spans f). snd r \<le> pos)) \<and>
     (\<forall>k \<in> held (limit_keys f). k < pos) \<and>
     (case fu_model_span f of None \<Rightarrow> True | Some m \<Rightarrow> fst m \<le> snd m \<and> snd m < pos \<and> (\<forall>r \<in> held (limit_spans f). spans_apart r m)) \<and>
     string_opened pos st f"

lemma held_update: "r \<in> held (l[k := Some x]) \<Longrightarrow> r = x \<or> r \<in> held l"
  using set_update_subset_insert [of l k "Some x"] by (auto simp: held_def)

lemma walked_later: "walked b pos st f \<Longrightarrow> st \<noteq> Outside \<longrightarrow> st' \<noteq> Outside \<Longrightarrow> walked b (pos + 1) st' f"
  by (fastforce simp: walked_def digit_span_def string_opened_def split: option.splits open_string.splits)

lemma digit_span_quote: "digit_span b pos r \<Longrightarrow> b ! pos = quote \<Longrightarrow> snd r \<le> pos"
proof (rule ccontr)
  assume d: "digit_span b pos r" and q: "b ! pos = quote" and "\<not> snd r \<le> pos"
  then have "fst r \<le> pos" "pos < snd r" by (simp_all add: digit_span_def)
  then have "is_ascii_digit (b ! pos)" using d unfolding digit_span_def by blast
  then show False by (simp add: q is_ascii_digit_def)
qed

text \<open>Changes of the fields the invariant does not read.\<close>

lemma walked_cong:
  assumes "limit_spans f' = limit_spans f" "limit_keys f' = limit_keys f" "fu_model_span f' = fu_model_span f" "fu_open f' = fu_open f"
    "limit_key f' = limit_key f \<or> limit_key f' = None"
  shows "walked b pos st f \<Longrightarrow> walked b pos st f'"
  unfolding walked_def string_opened_def assms(1-4) using assms(5) by auto

lemma limit_value_same:
  "limit_spans (limit_value b pos c f) = limit_spans f" "limit_keys (limit_value b pos c f) = limit_keys f"
  "fu_model_span (limit_value b pos c f) = fu_model_span f" "fu_open (limit_value b pos c f) = fu_open f"
  "limit_key (limit_value b pos c f) = limit_key f"
  by (simp_all add: limit_value_def Let_def)

lemma walked_value: "walked b pos st f \<Longrightarrow> walked b pos st (limit_value b pos c f)"
  by (erule walked_cong [rotated -1]) (simp_all add: limit_value_same)

lemma digits_span:
  assumes "pos < length b"
  shows "digit_span b (pos + 1) (pos, pos + length (takeWhile is_ascii_digit (drop pos b)))"
proof -
  have "length (takeWhile is_ascii_digit (drop pos b)) \<le> length b - pos" using length_takeWhile_le [of is_ascii_digit "drop pos b"] by simp
  moreover have "is_ascii_digit (b ! i)" if "pos \<le> i" "i < pos + length (takeWhile is_ascii_digit (drop pos b))" for i
  proof -
    let ?k = "i - pos"
    have k: "?k < length (takeWhile is_ascii_digit (drop pos b))" using that by simp
    then have "is_ascii_digit (takeWhile is_ascii_digit (drop pos b) ! ?k)" by (meson nth_mem set_takeWhileD)
    moreover have "takeWhile is_ascii_digit (drop pos b) ! ?k = b ! i" using takeWhile_nth [OF k] that(1) assms by simp
    ultimately show ?thesis by simp
  qed
  ultimately show ?thesis using assms by (simp add: digit_span_def)
qed

lemma walked_digits:
  assumes w: "walked b pos Outside f" and pos: "pos < length b" and k: "limit_key f \<noteq> None"
  shows "walked b (pos + 1) Outside (limit_digits b pos f)"
proof -
  let ?e = "pos + length (takeWhile is_ascii_digit (drop pos b))"
  let ?f = "limit_digits b pos f"
  have st: "limit_keys ?f = limit_keys f" "fu_model_span ?f = fu_model_span f" "fu_open ?f = fu_open f" "limit_key ?f = None"
    using k by (auto simp: limit_digits_def Let_def)
  have sp: "r = (pos, ?e) \<or> r \<in> held (limit_spans f)" if "r \<in> held (limit_spans ?f)" for r
    using that k held_update by (fastforce simp: limit_digits_def Let_def split: if_splits option.splits)
  have w1: "walked b (pos + 1) Outside f" using walked_later [OF w] by simp
  have before: "snd r \<le> pos" if "r \<in> held (limit_spans f)" for r using w k that by (simp add: walked_def)
  have "fu_open f = OpenNone" using w by (auto simp: walked_def string_opened_def split: open_string.splits)
  then show ?thesis
    unfolding walked_def st string_opened_def
  proof (intro conjI ballI impI)
    fix r assume "r \<in> held (limit_spans ?f)"
    then show "digit_span b (pos + 1) r" using sp [of r] digits_span [OF pos] w1 by (auto simp: walked_def)
  next
    fix r s assume "r \<in> held (limit_spans ?f)" "s \<in> held (limit_spans ?f)"
    then show "r = s \<or> spans_apart r s" using sp [of r] sp [of s] before [of r] before [of s] w by (auto simp: walked_def spans_apart_def)
  next
    fix x assume "x \<in> held (limit_keys f)" then show "x < pos + 1" using w1 by (simp add: walked_def)
  next
    show "case fu_model_span f of None \<Rightarrow> True | Some m \<Rightarrow> fst m \<le> snd m \<and> snd m < pos + 1 \<and> (\<forall>r \<in> held (limit_spans ?f). spans_apart r m)"
      using w sp by (fastforce simp: walked_def spans_apart_def split: option.splits)
  qed simp_all
qed

lemma walked_byte:
  assumes w: "walked b pos Outside f" and pos: "pos < length b"
  shows "walked b (pos + 1) Outside (fst (fused_byte b pos c d f))"
proof -
  let ?f = "limit_value b pos c f"
  have w1: "walked b pos Outside ?f" "walked b (pos + 1) Outside ?f"
    using walked_value [OF w] walked_later [OF walked_value [OF w]] by simp_all
  show ?thesis
    unfolding fused_byte_def Let_def fst_conv
    by (rule walked_digits [OF w1(1) pos] w1(2) | (rule walked_cong [OF _ _ _ _ _ w1(2)]; simp; fail) | intro conjI impI | split if_split | elim conjE, assumption)+
qed

lemma walked_open:
  assumes w: "walked b pos Outside f" and q: "b ! pos = quote"
  shows "walked b (pos + 1) Plain (fused_open b pos d f)"
proof -
  let ?f = "limit_value b pos quote f" and ?g = "fused_open b pos d f"
  have w1: "walked b (pos + 1) Plain ?f" using walked_later [OF walked_value [OF w], of Plain] by simp
  have g: "limit_spans ?g = limit_spans f" "limit_keys ?g = limit_keys f" "fu_model_span ?g = fu_model_span f" "limit_key ?g = limit_key f"
    by (simp_all add: fused_open_def Let_def limit_value_same)
  have "snd r \<le> pos + 1" if "r \<in> held (limit_spans f)" for r
  proof -
    have "digit_span b pos r" using w that by (simp add: walked_def)
    from digit_span_quote [OF this q] show ?thesis by simp
  qed
  then have "string_opened (pos + 1) Plain ?g" unfolding string_opened_def g by (simp add: fused_open_def Let_def)
  then show ?thesis using w1 unfolding walked_def g limit_value_same by blast
qed

lemma key_same:
  "limit_spans (key_limit key esc s g) = limit_spans g" "fu_model_span (key_limit key esc s g) = fu_model_span g" "fu_open (key_limit key esc s g) = fu_open g"
  "limit_spans (key_model key esc g) = limit_spans g" "fu_model_span (key_model key esc g) = fu_model_span g" "fu_open (key_model key esc g) = fu_open g"
  "limit_spans (key_stream key esc g) = limit_spans g" "fu_model_span (key_stream key esc g) = fu_model_span g" "fu_open (key_stream key esc g) = fu_open g"
  "limit_spans (key_stream_options key esc e g) = limit_spans g" "fu_model_span (key_stream_options key esc e g) = fu_model_span g"
  "fu_open (key_stream_options key esc e g) = fu_open g"
  by (simp_all add: key_limit_def key_model_def key_stream_def key_stream_options_def Let_def split: option.split)

lemma root_key_same:
  "limit_spans (root_key b s e esc f) = limit_spans f" "fu_model_span (root_key b s e esc f) = fu_model_span f" "fu_open (root_key b s e esc f) = fu_open f"
  by (simp_all add: root_key_def key_same Let_def)

lemma key_limit_keys: "limit_keys (key_limit key esc s g) = limit_keys g \<or> (\<exists>k. limit_keys (key_limit key esc s g) = (limit_keys g)[k := Some (s - 1)])"
  by (simp add: key_limit_def Let_def split: option.split) blast

lemma root_key_limit_keys: "k \<in> held (limit_keys (root_key b s e esc f)) \<Longrightarrow> k = s - 1 \<or> k \<in> held (limit_keys f)"
proof -
  assume k: "k \<in> held (limit_keys (root_key b s e esc f))"
  let ?key = "case get_range b s e of None \<Rightarrow> [] | Some key \<Rightarrow> key"
  let ?g = "key_model ?key esc (key_stream ?key esc (key_stream_options ?key esc e f))"
  have "limit_keys ?g = limit_keys f" by (simp add: key_model_def key_stream_def key_stream_options_def Let_def)
  then show ?thesis using k key_limit_keys [of ?key esc s ?g] held_update [of k "limit_keys f"] unfolding root_key_def Let_def by metis
qed

lemma walked_root_key:
  assumes w: "walked b pos st f" and q: "b ! pos = quote" and s: "0 < s" "s \<le> pos" and o: "fu_open f = OpenNone"
  shows "walked b (pos + 1) Outside (root_key b s pos esc f)"
  unfolding walked_def string_opened_def root_key_same o
proof (intro conjI ballI impI)
  fix k assume "k \<in> held (limit_keys (root_key b s pos esc f))"
  then show "k < pos + 1" using root_key_limit_keys [of k b s pos esc f] s w by (auto simp: walked_def)
next
  fix r assume r: "r \<in> held (limit_spans f)"
  then have d: "digit_span b pos r" using w by (simp add: walked_def)
  then show "digit_span b (pos + 1) r" by (simp add: digit_span_def)
  show "snd r \<le> pos + 1" using digit_span_quote [OF d q] by simp
  fix s assume "s \<in> held (limit_spans f)"
  with r show "r = s \<or> spans_apart r s" using w by (simp add: walked_def)
next
  show "case fu_model_span f of None \<Rightarrow> True | Some m \<Rightarrow> fst m \<le> snd m \<and> snd m < pos + 1 \<and> (\<forall>r \<in> held (limit_spans f). spans_apart r m)"
    using w by (auto simp: walked_def split: option.splits)
qed simp

lemma walked_close:
  assumes w: "walked b pos st f" and q: "b ! pos = quote"
  shows "walked b (pos + 1) Outside (fst (fused_close b pos d esc f))"
proof -
  let ?n = "f\<lparr>fu_open := OpenNone\<rparr>"
  have n: "walked b pos st' ?n" for st'
    using w unfolding walked_def string_opened_def by (simp cong: option.case_cong)
  have n1: "walked b (pos + 1) Outside ?n" using walked_later [OF n, of Outside] by simp
  show ?thesis
  proof (cases "fu_open f")
    case OpenNone
    then show ?thesis using n1 by (simp add: fused_close_def Let_def)
  next
    case (OpenKey s)
    then have "0 < s" "s \<le> pos" using w by (simp_all add: walked_def string_opened_def)
    from walked_root_key [OF n q this, of esc] show ?thesis using n1 OpenKey by (simp add: fused_close_def Let_def)
  next
    case (OpenModel s)
    then have "s \<le> pos" "\<forall>r \<in> held (limit_spans f). snd r \<le> s" using w by (simp_all add: walked_def string_opened_def)
    then show ?thesis using n1 by (auto simp: fused_close_def Let_def OpenModel walked_def string_opened_def spans_apart_def)
  qed
qed

lemma walked_lex1:
  assumes "walked b pos (lx_state lx) f" "pos < length b" "lex1 (fused_visitor b) pos (b ! pos) lx f = (lx', f', stop)"
  shows "walked b (pos + 1) (lx_state lx') f' \<and> \<not> stop"
proof (cases "lx_state lx")
  case Outside
  then show ?thesis
  proof (cases "b ! pos = quote")
    case True
    then show ?thesis using assms walked_open [of b pos f "lx_depth lx"] Outside by (auto simp: lex1_def fused_visitor_def)
  next
    case False
    then show ?thesis using assms walked_byte [of b pos f "b ! pos" "lx_depth lx"] Outside
      by (auto simp: lex1_def fused_visitor_def fused_byte_def Let_def)
  qed
next
  case Escape
  then show ?thesis using assms walked_later [of b pos "lx_state lx" f Escaped] by (auto simp: lex1_def fused_visitor_def)
next
  case Plain
  then show ?thesis using assms walked_close [of b pos "lx_state lx" f "lx_depth lx" False] walked_later [of b pos "lx_state lx" f "lx_state lx'"]
    by (auto simp: lex1_def fused_visitor_def fused_close_def Let_def split: if_splits prod.splits)
next
  case Escaped
  then show ?thesis using assms walked_close [of b pos "lx_state lx" f "lx_depth lx" True] walked_later [of b pos "lx_state lx" f "lx_state lx'"]
    by (auto simp: lex1_def fused_visitor_def fused_close_def Let_def split: if_splits prod.splits)
qed

lemma walked_bytes:
  "walked b pos (lx_state lx) f \<Longrightarrow> s = drop pos b \<Longrightarrow> pos \<le> length b \<Longrightarrow>
     \<exists>st. walked b (length b) st (fst (snd (lex_bytes (fused_visitor b) pos s lx f)))"
proof (induction s arbitrary: pos lx f)
  case Nil
  then have "pos = length b" by simp
  then show ?case using Nil by auto
next
  case (Cons c s)
  have p: "pos < length b" using Cons.prems(2) by (metis drop_all linorder_not_le list.distinct(1))
  then have c: "b ! pos = c" "s = drop (pos + 1) b" using Cons.prems(2) by (metis Cons_nth_drop_Suc Suc_eq_plus1 list.inject)+
  obtain lx' f' stop where l: "lex1 (fused_visitor b) pos (b ! pos) lx f = (lx', f', stop)" by (metis surj_pair)
  from walked_lex1 [OF Cons.prems(1) p l] have w: "walked b (pos + 1) (lx_state lx') f'" "\<not> stop" by simp_all
  from Cons.IH [OF w(1) c(2)] p show ?case using l w(2) c(1) by simp
qed

lemma walked_new: "walked b 0 Outside fused_new"
  by (auto simp: walked_def string_opened_def fused_new_def held_def)

lemma scan_walked:
  obtains st where "walked b (length b) st (fst (snd (feed (fused_visitor b) b lexer_new fused_new)))"
  using walked_bytes [of b 0 lexer_new fused_new b] walked_new unfolding fused.feed_bytes by (auto simp: lexer_new_def)

section \<open>Edits\<close>

text \<open>A body whose offsets are inside it and whose ranges do not cut into each other.\<close>

definition all_spans :: "buffered_scan \<Rightarrow> (nat \<times> nat) set" where
  "all_spans s = held (bs_model_span s # bs_limit_spans s)"

definition all_points :: "buffered_scan \<Rightarrow> nat set" where
  "all_points s = held (inject_at s # stream_options_at s # bs_limit_keys s)"

definition tidy :: "scanned_body \<Rightarrow> bool" where
  "tidy sb \<longleftrightarrow>
     (\<forall>p \<in> all_points (sb_scan sb). p \<le> length (sb_buf sb)) \<and>
     (\<forall>r \<in> all_spans (sb_scan sb). fst r \<le> snd r \<and> snd r \<le> length (sb_buf sb)) \<and>
     (\<forall>r \<in> all_spans (sb_scan sb). \<forall>s \<in> all_spans (sb_scan sb). r = s \<or> spans_apart r s)"

lemma held_Cons: "r \<in> held (x # l) \<longleftrightarrow> x = Some r \<or> r \<in> held l"
  by (auto simp: held_def)

lemma list_all_held: "list_all (\<lambda>x. case x of None \<Rightarrow> True | Some r \<Rightarrow> P r) l \<longleftrightarrow> (\<forall>r \<in> held l. P r)"
  by (induction l) (auto simp: held_def split: option.split)

lemma tidy_in_bounds: "tidy sb \<Longrightarrow> offsets_in_bounds sb"
proof -
  assume t: "tidy sb"
  have "held (bs_limit_spans (sb_scan sb) @ [bs_model_span (sb_scan sb)]) = all_spans (sb_scan sb)"
    by (auto simp: all_spans_def held_def)
  then show ?thesis using t by (simp add: offsets_in_bounds_def Let_def list_all_held tidy_def all_points_def del: list.pred_inject)
qed

lemma tidy_new: "tidy (sb_new b)"
proof (cases "root_open b")
  case None
  then show ?thesis by (auto simp: tidy_def sb_new_def scan_buffered_def all_spans_def all_points_def held_def)
next
  case (Some op)
  define f where "f = fst (snd (feed (fused_visitor b) b lexer_new fused_new))"
  obtain st where w: "walked b (length b) st f" unfolding f_def by (rule scan_walked)
  have op: "op + 1 \<le> length b" using Some by (auto simp: root_open_def get_byte_def Let_def split: if_splits)
  have ov: "p \<le> length b" if "options_value b e = Some p" for e p using that by (auto simp: options_value_def Let_def split: if_splits)
  have sp: "all_spans (sb_scan (sb_new b)) = held (fu_model_span f # limit_spans f)"
    and pt: "\<And>p. p \<in> all_points (sb_scan (sb_new b)) \<Longrightarrow> p \<le> length b"
    using Some op ov w by (auto simp: sb_new_def scan_buffered_def all_spans_def all_points_def f_def [symmetric] Let_def held_Cons walked_def
        split: if_splits)
  have m: "fst m \<le> snd m \<and> snd m \<le> length b \<and> (\<forall>r \<in> held (limit_spans f). spans_apart r m)" if "fu_model_span f = Some m" for m
    using w that by (auto simp: walked_def)
  have l: "fst r \<le> snd r \<and> snd r \<le> length b" if "r \<in> held (limit_spans f)" for r using w that by (auto simp: walked_def digit_span_def)
  have ll: "r = s \<or> spans_apart r s" if "r \<in> held (limit_spans f)" "s \<in> held (limit_spans f)" for r s using w that by (simp add: walked_def)
  have sym: "spans_apart r s = spans_apart s r" for r s by (auto simp: spans_apart_def)
  show ?thesis unfolding tidy_def sp
  proof (intro conjI ballI)
    fix r assume "r \<in> held (fu_model_span f # limit_spans f)"
    then have "fst r \<le> snd r \<and> snd r \<le> length b" unfolding held_Cons using m l by blast
    then show "fst r \<le> snd r" "snd r \<le> length (sb_buf (sb_new b))" by (simp_all add: sb_new_def)
    fix s assume "s \<in> held (fu_model_span f # limit_spans f)"
    with \<open>r \<in> _\<close> show "r = s \<or> spans_apart r s" unfolding held_Cons using m ll sym by (metis option.inject)
  qed (use pt in \<open>simp add: sb_new_def\<close>)
qed

text \<open>Replacing one of the ranges.\<close>

lemma span_moves:
  assumes r: "fst r \<le> snd r" "snd r \<le> len" and s: "s = r \<or> spans_apart s r" "fst s \<le> snd s" "snd s \<le> len"
    and sp: "sp = \<lparr>sp_at = fst r, sp_removed = snd r - fst r, sp_added = n\<rparr>" "splice_span sp s = Some s'"
  shows "s = r \<and> s' = (fst r, fst r + n) \<or> snd s \<le> fst r \<and> s' = s \<or>
    snd r \<le> fst s \<and> s' = (fst s + n - (snd r - fst r), snd s + n - (snd r - fst r))"
  using assms by (cases r; cases s) (auto simp: splice_span_def shift_span_def splice_shift_def spans_apart_def Let_def split: if_splits)

lemma held_map: "r \<in> held (map (\<lambda>x. opt_bind x g) l) \<longleftrightarrow> (\<exists>s \<in> held l. g s = Some r)"
  by (induction l) (auto simp: held_def opt_bind_def split: option.splits)

lemma all_spans_moved: "r \<in> all_spans (moved_scan sp c) \<longleftrightarrow> (\<exists>s \<in> all_spans c. splice_span sp s = Some r)"
  using held_map [of r "splice_span sp" "bs_model_span c # bs_limit_spans c"] by (simp add: all_spans_def moved_scan_def)

lemma all_points_moved: "p \<in> all_points (moved_scan sp c) \<longleftrightarrow> (\<exists>q \<in> all_points c. splice_point sp q = Some p)"
  using held_map [of p "splice_point sp" "inject_at c # stream_options_at c # bs_limit_keys c"] by (simp add: all_points_def moved_scan_def)

lemma tidy_splice:
  assumes t: "tidy sb" and r: "r \<in> all_spans (sb_scan sb)"
  shows "tidy (moved sb (splice_in (sb_buf sb) r w))"
proof -
  let ?len = "length (sb_buf sb)" and ?d = "snd r - fst r" and ?n = "length w"
  define sp where "sp = \<lparr>sp_at = fst r, sp_removed = ?d, sp_added = ?n\<rparr>"
  define buf where "buf = take (fst r) (sb_buf sb) @ w @ drop (snd r) (sb_buf sb)"
  have rb: "fst r \<le> snd r" "snd r \<le> ?len" using t r by (auto simp: tidy_def)
  have mv: "moved sb (splice_in (sb_buf sb) r w) = \<lparr>sb_buf = buf, sb_scan = moved_scan sp (sb_scan sb)\<rparr>"
    using rb by (simp add: splice_in_def moved_def sp_def buf_def)
  have len: "length buf = ?len - ?d + ?n" using rb by (simp add: buf_def)
  have s: "s = r \<and> s' = (fst r, fst r + ?n) \<or> snd s \<le> fst r \<and> s' = s \<or> snd r \<le> fst s \<and> s' = (fst s + ?n - ?d, snd s + ?n - ?d)"
    if "s \<in> all_spans (sb_scan sb)" "splice_span sp s = Some s'" for s s'
    using span_moves [OF rb _ _ _ sp_def that(2)] t r that(1) by (auto simp: tidy_def)
  have b: "fst s \<le> snd s \<and> snd s \<le> ?len" if "s \<in> all_spans (sb_scan sb)" for s using t that by (simp add: tidy_def)
  show ?thesis
    unfolding mv tidy_def scanned_body.simps len
  proof (intro conjI ballI)
    fix p assume "p \<in> all_points (moved_scan sp (sb_scan sb))"
    then obtain q where q: "q \<in> all_points (sb_scan sb)" "splice_point sp q = Some p" unfolding all_points_moved by blast
    have "q \<le> ?len" using t q(1) by (simp add: tidy_def)
    then show "p \<le> ?len - ?d + ?n" using q(2) rb by (auto simp: splice_point_def sp_def Let_def split: if_splits)
  next
    fix s' assume "s' \<in> all_spans (moved_scan sp (sb_scan sb))"
    then obtain x where x: "x \<in> all_spans (sb_scan sb)" "splice_span sp x = Some s'" unfolding all_spans_moved by blast
    show "fst s' \<le> snd s'" "snd s' \<le> ?len - ?d + ?n" using s [OF x] b [OF x(1)] rb by auto
    fix u' assume "u' \<in> all_spans (moved_scan sp (sb_scan sb))"
    then obtain y where y: "y \<in> all_spans (sb_scan sb)" "splice_span sp y = Some u'" unfolding all_spans_moved by blast
    have "x = y \<or> spans_apart x y" using t x(1) y(1) by (simp add: tidy_def)
    then show "s' = u' \<or> spans_apart s' u'"
    proof
      assume "x = y"
      then show ?thesis using x(2) y(2) by simp
    next
      assume "spans_apart x y"
      then show ?thesis using s [OF x] s [OF y] b [OF x(1)] b [OF y(1)] rb unfolding spans_apart_def by auto
    qed
  qed
qed

lemma tidy_clamp_one: "tidy sb \<Longrightarrow> tidy (clamp_one mx k sb)"
proof -
  assume t: "tidy sb"
  show ?thesis
  proof (cases "if k < length (bs_limit_spans (sb_scan sb)) then bs_limit_spans (sb_scan sb) ! k else None")
    case None
    then show ?thesis using t by (simp add: clamp_one_def)
  next
    case (Some r)
    then have "Some r \<in> set (bs_limit_spans (sb_scan sb))" by (metis nth_mem option.distinct(1))
    then have "r \<in> all_spans (sb_scan sb)" by (simp add: all_spans_def held_def)
    from tidy_splice [OF t this] have "tidy (moved sb (clamp_limit (sb_buf sb) r mx))"
      using t by (simp add: clamp_limit_def Let_def split: option.split) (simp add: moved_def)
    then show ?thesis unfolding clamp_one_def Some by simp
  qed
qed

lemma tidy_clamp: "tidy sb \<Longrightarrow> tidy (clamp_output_limits mx sb)"
proof -
  have "tidy sb \<Longrightarrow> tidy (fold (clamp_one mx) ks sb)" for ks sb by (induction ks arbitrary: sb) (simp_all add: tidy_clamp_one)
  then show "tidy sb \<Longrightarrow> tidy (clamp_output_limits mx sb)" by (simp add: clamp_output_limits_def)
qed

lemma tidy_overwrite: "tidy sb \<Longrightarrow> bs_model_span (sb_scan sb) = Some r \<Longrightarrow> tidy (moved sb (overwrite (sb_buf sb) r i))"
  using tidy_splice [of sb r i]
  by (simp add: overwrite_def all_spans_def held_Cons split: option.split) (simp add: moved_def)

text \<open>
  C13. The edits index the client's bytes, so an offset outside the body would be a panic on a hostile request, and an offset
  that one edit left behind would corrupt the body at the next. For any bytes whatever, JSON or not, the scan answers only
  offsets inside the body; cutting the output limits, in the order the code does and with any maximum, and then
  writing the model's name over its range, each leave all of them inside the body as it then is.
\<close>

theorem offsets_stay_in_bounds:
  "offsets_in_bounds (sb_new b) \<and> offsets_in_bounds (clamp_output_limits mx (sb_new b)) \<and>
   (case bs_model_span (sb_scan (clamp_output_limits mx (sb_new b))) of
      None \<Rightarrow> True
    | Some r \<Rightarrow> offsets_in_bounds (moved (clamp_output_limits mx (sb_new b)) (overwrite (sb_buf (clamp_output_limits mx (sb_new b))) r i)))"
  using tidy_new [of b] tidy_clamp [OF tidy_new, of mx b] tidy_overwrite tidy_in_bounds by (simp split: option.split)

end
