(* ===== verification/Spec2Isabelle.thy ===== *)
theory Spec2Isabelle
  imports Notify_Grammar Circuit_Breaker Gateway_Limits Rate_Limit Admission_Sets Store_Watch
    Virtual_Key Gateway_Retry Session_Pin Job_Kernel Pricing Web_Fetch Write_Lock Segment_Session Limit_Rename Scan_Bounds
begin

text \<open>
  A verification library for the Beyond AI workspace: a gateway between applications and language
  model providers (\<^verbatim>\<open>crates/gateway\<close>), a coding agent (\<^verbatim>\<open>crates/agent\<close>, \<^verbatim>\<open>crates/agent-core\<close>), the
  exec protocol between them and a sandbox (\<^verbatim>\<open>crates/exec-notify\<close>, \<^verbatim>\<open>crates/execd\<close>), and the provider
  table with its pricer (\<^verbatim>\<open>crates/providers\<close>).

  \<^bold>\<open>How the parts interact.\<close> A request to the gateway carries a virtual key. The key is verified
  against configured keys and a live keyring; the tenant it names is looked up in the deny and
  allowance sets. Keyring and sets are copies of the control plane's store, kept by one watcher.
  Admission then passes the rate limits, the tenant's slots and the body budget. The model is found in the
  body as it streams, and members of the body are cut out or set by spans, without parsing it. A candidate is
  chosen from the model's walk by the session's pin and its circuit breaker; a buffered body is respelled for it (its output
  limits, its model, the usage option of a stream) by splices at the offsets of one scan, which move with every
  splice; and a failed attempt is retried, failed over or left standing. The usage row of an answer is priced. On the agent's side, a
  sandbox reports the end of background jobs by callback: \<^verbatim>\<open>exec-notify\<close> decides in the endpoint when
  to call, and the job-notify kernel decides in the agent what a call is answered.

  \<^bold>\<open>Theories.\<close>
  \<^item> \<open>Prelude\<close>, \<open>Rust_Std\<close>: checked and saturating integers, strings as bytes, the parsers of the
    standard library the code calls, decimal text, UTF-8, addresses.
  \<^item> \<open>Cas_Loop\<close>: an atomic word under compare-and-swap loops run by any number of threads; the locale
    \<open>cas_object\<close> gives every client its linearization. \<open>BTree_Map\<close>: ordered maps.
  \<^item> \<open>Exec_Notify\<close> (\<^verbatim>\<open>exec-notify/src/lib.rs\<close>): the job-end callback kernel. \<open>Notify_Grammar\<close>: the addresses and tokens
    a \<^verbatim>\<open>keep\<close> may name, as a grammar, and that the code accepts exactly those.
  \<^item> \<open>Circuit_Breaker\<close> (\<^verbatim>\<open>gateway/src/circuit_breaker.rs\<close>): the packed word and its seven operations.
  \<^item> \<open>Gateway_Limits\<close> (\<^verbatim>\<open>concurrency.rs\<close>) and \<open>Rate_Limit\<close> (\<^verbatim>\<open>ratelimit.rs\<close>).
  \<^item> \<open>Admission_Sets\<close> (\<^verbatim>\<open>deny.rs\<close>, \<^verbatim>\<open>allowance.rs\<close>, \<^verbatim>\<open>capture.rs\<close>, \<^verbatim>\<open>live_keys.rs\<close>) and \<open>Store_Watch\<close>
    (\<^verbatim>\<open>store_watch.rs\<close>): the sets, and the watcher that keeps them; the locales \<open>watched_set\<close> and
    \<open>mirrored_set\<close> are its contract with a set.
  \<^item> \<open>Virtual_Key\<close> (\<^verbatim>\<open>key.rs\<close>), \<open>Gateway_Retry\<close> (\<^verbatim>\<open>retry.rs\<close>), \<open>Session_Pin\<close> (\<^verbatim>\<open>pin.rs\<close>).
  \<^item> \<open>Json_Lex\<close> (\<^verbatim>\<open>lex.rs\<close>) and \<open>Json_Text\<close>: the incremental JSON lexer, whose pieces locale \<open>piecewise\<close> joins, and the
    grammar of JSON texts, over which locale \<open>json_walk\<close> carries a property of tokens to whole values. \<open>Model_Scan\<close>,
    \<open>Buffered_Scan\<close>, \<open>Buffered_Answer\<close>, \<open>Json_Spans\<close>, \<open>Json_Edit\<close> (\<^verbatim>\<open>peek.rs\<close>): the streaming scanner that finds a body's
    model, the one walk over a buffered body, and the edits of a body by spans. \<open>Body_Rewrite\<close>, \<open>Body_Upstream\<close>, \<open>Limit_Rename\<close>,
    \<open>Scan_Bounds\<close> (\<^verbatim>\<open>rewrite.rs\<close>): a body that carries its scan, the edits for the host that serves it, and the
    bounds of its offsets on any bytes.
  \<^item> \<open>Job_Kernel\<close> (\<^verbatim>\<open>agent/src/tools/job_notify/kernel.rs\<close>): the agent's side of the callbacks.
  \<^item> \<open>Pricing\<close> (\<^verbatim>\<open>providers/src/pricing.rs\<close>, \<^verbatim>\<open>rates.rs\<close>): the pricer.
  \<^item> \<open>Web_Egress\<close>, \<open>Web_Fetch\<close> (\<^verbatim>\<open>agent/src/tools/web/ssrf.rs\<close>, \<^verbatim>\<open>web/mod.rs\<close>): the agent's web tool: which
    addresses it may dial, and the fetch that follows redirects itself.
  \<^item> \<open>Write_Lock\<close> (\<^verbatim>\<open>agent-core/src/write_lock.rs\<close>): the per-path locks of file-writing tools, as a step
    relation over any number of tasks.
  \<^item> \<open>Session_Lines\<close> (\<^verbatim>\<open>agent/src/session_store/lines.rs\<close>): reading a session file line by line.
  \<^item> \<open>Segment_Log\<close>, \<open>Segment_View\<close>, \<open>Segment_Steps\<close>, \<open>Segment_Session\<close> (\<^verbatim>\<open>session_store/segment.rs\<close>, \<^verbatim>\<open>log.rs\<close>,
    \<^verbatim>\<open>log_read.rs\<close>): a session on storage that processes share: its segments, what a reader reads of them, what
    every operation keeps, and runs of any number of processes.

  \<^bold>\<open>Conventions.\<close> A struct is a record, an enum a datatype, a fallible function a sum or an option.
  An unsigned integer is a natural number with the width written out where it matters, and a \<open>word\<close>
  where the code packs bits. The workspace builds with overflow checks on, so an unchecked overflow
  is a panic: \<open>None\<close> where the model returns an option. Randomness, clocks and every result of I/O are
  arguments. Third-party code (Ed25519 and base64, the count-min sketch, serde's readers, the \<^verbatim>\<open>url\<close> crate,
  the generated rate table) is a parameter, with the laws the code relies on as hypotheses of the theorems that need
  them and an instance that satisfies them in their witnesses.

  \<^bold>\<open>Termination.\<close> Every loop is a total function. The compare-and-swap loops are modelled by their
  single pass and a step relation over threads, so no fuel is involved; the trimming, search and
  parsing loops have measures.

  \<^bold>\<open>Not modelled.\<close> The pingora proxy callbacks, the translation between provider dialects, the
  model conversation loop, tools, servers and command lines: code whose substance is I/O or a table of
  field names. Memory orderings weaker than sequential consistency on one atomic word. The rotation race
  of \<^verbatim>\<open>WindowedRate\<close> that its comment describes. Runs of a session in which the operations of two processes overlap:
  an operation is one step of \<open>session_reach\<close>, which also leaves out rewrites that fail after their whole base
  landed; \<open>stat_window_loses_a_line\<close> and \<open>stale_owner_is_acknowledged\<close> show on concrete runs what can be lost outside
  its bounds. Breaker generations that are entered again while a permit of the same number is out.
\<close>

end
